(* ===== verification/Prelude.thy ===== *)
theory Prelude
  imports Main "HOL-Library.Word" "HOL-Library.Signed_Division"
begin

text \<open>
  What every component shares: the C integer types as words, the reading of a word as a
  signed value, shifts whose count C leaves undefined, truncated division, and the lemmas that
  carry loops over shifted words.

  A value of a C type of w bits is a \<open>w word\<close>, whether the type is signed or not: the two
  readings \<open>uint\<close> and \<open>sint\<close> are chosen where the code chooses them (a comparison, a right
  shift, a division, a conversion). Signed addition, subtraction and negation wrap, which is
  what the compilers the makefiles call produce.
\<close>

unbundle bit_operations_syntax

subsection \<open>Types\<close>

type_synonym u8 = "8 word"
type_synonym u16 = "16 word"
type_synonym u32 = "32 word"
type_synonym u64 = "64 word"
type_synonym byte_mem = "u32 \<Rightarrow> u8"

lemma len32: "LENGTH(32) = 32" and len64: "LENGTH(64) = 64"
  by simp_all

subsection \<open>Collections\<close>

named_theorems c_ops \<open>definitions of the C operators used by the components\<close>
named_theorems c_layout \<open>definitions of the packed layouts: halves of a long long, fields of a float\<close>

subsection \<open>Bytes in memory\<close>

fun stored :: "byte_mem \<Rightarrow> u32 \<Rightarrow> u8 list \<Rightarrow> byte_mem" where
  "stored m p [] = m"
| "stored m p (r # rs) = stored (m(p := r)) (p + 1) rs"

lemma stored_append: "stored m p (xs @ ys) = stored (stored m p xs) (p + of_nat (length xs)) ys"
  by (induction xs arbitrary: m p) (simp_all add: add.assoc)

subsection \<open>Operators of C\<close>

text \<open>A shift whose count is not below the width is undefined: \<open>None\<close>.\<close>

definition c_shl32 :: "u32 \<Rightarrow> u32 \<Rightarrow> u32 option" where
  [c_ops]: "c_shl32 x n = (if n < 32 then Some (push_bit (unat n) x) else None)"

definition c_shr32 :: "u32 \<Rightarrow> u32 \<Rightarrow> u32 option" where
  [c_ops]: "c_shr32 x n = (if n < 32 then Some (drop_bit (unat n) x) else None)"

definition c_sar32 :: "u32 \<Rightarrow> u32 \<Rightarrow> u32 option" where
  [c_ops]: "c_sar32 x n = (if n < 32 then Some (signed_drop_bit (unat n) x) else None)"

text \<open>A comparison as the int it yields.\<close>

definition c_bool :: "bool \<Rightarrow> u32" where
  [c_ops]: "c_bool b = (if b then 1 else 0)"

subsection \<open>Words and their halves\<close>

lemma word_half_split: "(b :: 'a::len word) = 2 * drop_bit 1 b + (b AND 1)"
proof -
  have "b = push_bit 1 (drop_bit 1 b) + take_bit 1 b"
    by (metis bits_ident)
  then show ?thesis
    by (simp add: push_bit_eq_mult take_bit_eq_mask mult.commute)
qed

lemma unat_drop_bit_less: "0 < n \<Longrightarrow> (b :: 'a::len word) \<noteq> 0 \<Longrightarrow> unat (drop_bit n b) < unat b"
proof -
  assume n: "0 < n" and b: "b \<noteq> 0"
  then have "0 < unat b" by (simp add: unat_gt_0)
  moreover have "(1::nat) < 2 ^ n" using n by (intro one_less_power) simp_all
  ultimately have "unat b div 2 ^ n < unat b" by (intro div_less_dividend)
  then show ?thesis by (metis unat_drop_bit_eq drop_bit_eq_div)
qed

lemma unat_push_bit_1:
  fixes b :: "'a::len word"
  assumes "2 * unat b < 2 ^ LENGTH('a)"
  shows "unat (push_bit 1 b) = 2 * unat b"
proof -
  have "unat (push_bit 1 b) = take_bit LENGTH('a) (push_bit 1 (unat b))"
    by (rule unsigned_push_bit_eq)
  also have "\<dots> = 2 * unat b"
    using assms by (simp add: push_bit_eq_mult take_bit_nat_eq_self mult.commute)
  finally show ?thesis .
qed

lemma unat_drop_bit_1: "unat (drop_bit 1 (b :: 'a::len word)) = unat b div 2"
  by (metis drop_bit_eq_div power_one_right unat_drop_bit_eq)

text \<open>
  A loop that shifts a word left until it is zero: the number of positions at or above the
  lowest set bit gets smaller.
\<close>

definition shl_room :: "'a::len word \<Rightarrow> nat" where
  "shl_room b = card {i. i < LENGTH('a) \<and> (\<exists>j\<le>i. bit b j)}"

lemma shl_room_less:
  fixes b :: "'a::len word"
  assumes "b \<noteq> 0"
  shows "shl_room (push_bit 1 b) < shl_room b"
proof -
  have push: "bit (push_bit 1 b) j \<longleftrightarrow> j < LENGTH('a) \<and> 1 \<le> j \<and> bit b (j - 1)" for j
    by (subst bit_push_bit_iff) (auto dest: bit_imp_le_length)
  let ?S = "\<lambda>w :: 'a word. {i. i < LENGTH('a) \<and> (\<exists>j\<le>i. bit w j)}"
  have "\<exists>j. bit b j" using assms by (auto simp: bit_eq_iff)
  then obtain l where l: "bit b l" and low: "\<And>j. j < l \<Longrightarrow> \<not> bit b j"
    using exists_least_iff[of "bit b"] by blast
  have len: "l < LENGTH('a)" using l by (rule bit_imp_le_length)
  have "?S (push_bit 1 b) \<subseteq> ?S b"
  proof
    fix i assume "i \<in> ?S (push_bit 1 b)"
    then obtain j where i: "i < LENGTH('a)" and j: "j \<le> i" "bit b (j - 1)"
      by (auto simp only: push mem_Collect_eq)
    have "j - 1 \<le> i" using j(1) by simp
    then show "i \<in> ?S b" using i j(2) by blast
  qed
  moreover have "l \<in> ?S b" using l len by auto
  moreover have "l \<notin> ?S (push_bit 1 b)"
  proof
    assume "l \<in> ?S (push_bit 1 b)"
    then obtain j where "j \<le> l" "1 \<le> j" "bit b (j - 1)"
      by (auto simp only: push mem_Collect_eq)
    then have "j - 1 < l" and "bit b (j - 1)" by simp_all
    then show False using low by blast
  qed
  ultimately have "?S (push_bit 1 b) \<subset> ?S b" by auto
  then show ?thesis unfolding shl_room_def by (intro psubset_card_mono) auto
qed

lemma nat_add_diff_cases: "k + (n - k) = (if k \<le> n then n else (k :: nat))"
  by simp

subsection \<open>Bit operations as arithmetic\<close>

text \<open>The unsigned value of a shifted or masked word. \<open>c_unat\<close> collects the readings.\<close>

named_theorems c_unat \<open>unsigned values of C expressions\<close>

lemma unat_bound: "unat (x :: 'a::len word) < 2 ^ LENGTH('a)"
  by (rule unsigned_less)

lemma unat_of_nat_small: "n < 2 ^ 32 \<Longrightarrow> unat (of_nat n :: u32) = n"
  by (simp add: unsigned_of_nat take_bit_nat_eq_self)

lemma word_of_int_mod: "(word_of_int (k mod 2 ^ LENGTH('a)) :: 'a::len word) = word_of_int k"
  by (simp add: word_uint_eq_iff uint_word_of_int)

lemma bit_unat: "bit (unat (x :: 'a::len word)) n \<longleftrightarrow> bit x n"
  by (simp add: bit_unsigned_iff)

lemma unat_shr [c_unat]: "unat (drop_bit n (x :: 'a::len word)) = unat x div 2 ^ n"
  by (rule trans[OF unat_drop_bit_eq drop_bit_eq_div])

lemma measure_unat: "(n :: 'a::len word) \<noteq> 0 \<Longrightarrow> unat (n - 1) < unat n"
  by (simp add: unat_minus_one unat_gt_0)

text \<open>Counting up to a signed bound.\<close>

lemma sint_inc_less:
  fixes i n :: u32
  assumes "i <s n"
  shows "sint (i + 1) = sint i + 1" "sint i < sint n"
proof -
  show lt: "sint i < sint n" using assms by (simp add: word_sless_alt)
  then have "sint i + 1 < 2 ^ 31" "- (2 ^ 31) \<le> sint i + 1"
    using sint_lt[of n] sint_ge[of i] by simp_all
  then show "sint (i + 1) = sint i + 1"
    by (simp add: sint_word_ariths signed_take_bit_int_eq_self)
qed

lemma sint_dec_less:
  fixes i :: u32
  assumes "0 <s i"
  shows "sint (i - 1) = sint i - 1" "0 < sint i"
proof -
  show gt: "0 < sint i" using assms by (simp add: word_sless_alt)
  then have "sint i - 1 < 2 ^ 31" "- (2 ^ 31) \<le> sint i - 1"
    using sint_lt[of i] by simp_all
  then show "sint (i - 1) = sint i - 1"
    by (simp add: sint_word_ariths signed_take_bit_int_eq_self)
qed

lemma unat_low_bits: "unat (take_bit n (x :: 'a::len word)) = unat x mod 2 ^ n"
  by (rule trans[OF unsigned_take_bit_eq take_bit_eq_mod])

lemma unat_shl: "unat (push_bit n (x :: 'a::len word)) = unat x * 2 ^ n mod 2 ^ LENGTH('a)"
proof -
  have "unat (push_bit n x) = take_bit LENGTH('a) (push_bit n (unat x))"
    by (rule unsigned_push_bit_eq)
  then show ?thesis by (simp only: take_bit_eq_mod push_bit_eq_mult)
qed

lemma unat_and_mask: "unat ((x :: 'a::len word) AND mask n) = unat x mod 2 ^ n"
  by (simp only: take_bit_eq_mask[symmetric] unat_low_bits)

lemma unat_shl_no_carry [c_unat]:
  "unat x * 2 ^ n < 2 ^ LENGTH('a) \<Longrightarrow> unat (push_bit n (x :: 'a::len word)) = unat x * 2 ^ n"
  by (simp only: unat_shl mod_less)

lemma unat_and_1 [c_unat]: "unat ((x :: 'a::len word) AND 1) = unat x mod 2"
  using unat_and_mask[of x 1] by (simp only: mask_1 power_one_right)

lemma and_mask_less:
  "(v :: u32) AND 0xffff < 0x10000" "(v :: u32) AND 0xff < 0x100"
  using unat_and_mask[of v 16] unat_and_mask[of v 8]
  by (simp_all add: word_less_nat_alt mask_eq_exp_minus_1)

lemma less_256_iff: "(d :: u32) < 0x100 \<longleftrightarrow> (\<forall>n\<ge>8. \<not> bit d n)"
proof -
  have "d < 0x100 \<longleftrightarrow> unat d mod 256 = unat d"
    by (auto simp: word_less_nat_alt mod_less_divisor dest: sym)
  also have "\<dots> \<longleftrightarrow> take_bit 8 d = d"
    using unat_low_bits[of 8 d] by (auto simp: word_unat_eq_iff)
  also have "\<dots> \<longleftrightarrow> (\<forall>n\<ge>8. \<not> bit d n)"
    by (simp add: bit_eq_iff bit_take_bit_iff) (metis bit_imp_le_length len32 not_less)
  finally show ?thesis .
qed

lemma and_power_eq_0: "(x :: 'a::len word) AND 2 ^ n = 0 \<longleftrightarrow> \<not> bit x n"
  by (simp add: and_exp_eq_0_iff_not_bit)

lemma top_bit_iff:
  fixes x :: "'a::len word"
  assumes "LENGTH('a) = Suc n"
  shows "bit x n \<longleftrightarrow> 2 ^ n \<le> unat x"
proof -
  have "unat x < 2 * 2 ^ n" using unat_bound[of x] assms by simp
  then have "unat x div 2 ^ n < 2" by (simp add: less_mult_imp_div_less)
  then have "odd (unat x div 2 ^ n) \<longleftrightarrow> unat x div 2 ^ n \<noteq> 0"
    by (cases "unat x div 2 ^ n" rule: nat.exhaust) auto
  also have "\<dots> \<longleftrightarrow> 2 ^ n \<le> unat x" by (auto simp: div_eq_0_iff)
  finally show ?thesis by (simp flip: bit_unat add: bit_iff_odd)
qed

lemma sign_bit_clear_iff: "(x :: u32) AND 0x80000000 = 0 \<longleftrightarrow> unat x < 2 ^ 31"
  using and_power_eq_0[of x 31] top_bit_iff[of 31 x] by (simp add: not_le)

lemma sle_zero_iff:
  fixes x :: "'a::len word"
  assumes "LENGTH('a) = Suc n"
  shows "0 \<le>s x \<longleftrightarrow> unat x < 2 ^ n"
  using assms bit_last_iff[of x] top_bit_iff[OF assms, of x] by (simp add: word_sle_eq not_le[symmetric])

subsection \<open>Signed division\<close>

text \<open>C division truncates towards zero: \<open>sdiv\<close> and \<open>smod\<close> on \<open>int\<close>.\<close>

definition c_abs :: "'a::len word \<Rightarrow> 'a word" where
  "c_abs a = (if a <s 0 then - a else a)"

lemma slt_zero: "(a :: 'a::len word) <s 0 \<longleftrightarrow> sint a < 0"
  by (simp add: word_sless_alt)

lemma word_of_int_of_sint: "word_of_int (sint (a :: 'a::len word)) = a"
  by (rule signed_word_eqI) (simp add: sint_sbintrunc')

lemma uint_c_abs: "uint (c_abs (a :: 'a::len word)) = \<bar>sint a\<bar>"
proof (cases "a <s 0")
  case True
  have "- (2 ^ (LENGTH('a) - 1)) \<le> sint a" by (rule sint_ge)
  moreover have "(2::int) ^ (LENGTH('a) - 1) < 2 ^ LENGTH('a)" by (intro power_strict_increasing) simp_all
  ultimately have "- sint a < 2 ^ LENGTH('a)" by linarith
  moreover have "uint (- a) = (- sint a) mod 2 ^ LENGTH('a)"
    using uint_word_of_int[of "- sint a", where 'a = 'a] by (simp add: wi_hom_neg[symmetric] word_of_int_of_sint)
  ultimately show ?thesis using True by (simp add: c_abs_def slt_zero)
next
  case False
  then have "0 \<le> sint a" by (simp add: slt_zero)
  then have "uint a = sint a"
  proof -
    have "(2::int) ^ (LENGTH('a) - 1) < 2 ^ LENGTH('a)" by (intro power_strict_increasing) simp_all
    then have "sint a < 2 ^ LENGTH('a)" using sint_lt[of a] by linarith
    then have "sint a mod 2 ^ LENGTH('a) = sint a" using \<open>0 \<le> sint a\<close> by simp
    then show ?thesis using uint_word_of_int[of "sint a", where 'a = 'a] by (simp add: word_of_int_of_sint)
  qed
  then show ?thesis using False by (simp add: c_abs_def slt_zero)
qed

lemma sint_nonneg: "0 \<le> sint (a :: 'a::len word) \<Longrightarrow> int (unat a) = sint a"
  using uint_c_abs[of a] by (simp add: c_abs_def slt_zero)

text \<open>
  Signed division built on an unsigned one: what every signed routine of the library does,
  whatever the width. The provider promises quotient and remainder for a nonzero divisor.
\<close>

locale unsigned_division =
  fixes quotient remainder :: "'a::len word \<Rightarrow> 'a word \<Rightarrow> 'a word"
  assumes quotient: "d \<noteq> 0 \<Longrightarrow> quotient n d = n div d"
    and remainder: "d \<noteq> 0 \<Longrightarrow> remainder n d = n mod d"
begin

lemma c_abs_nonzero: "b \<noteq> 0 \<Longrightarrow> c_abs b \<noteq> (0 :: 'a word)"
  by (simp add: c_abs_def)

lemma signed_quotient:
  assumes "b \<noteq> 0"
  shows "(if (a <s 0) \<noteq> (b <s 0) then - quotient (c_abs a) (c_abs b) else quotient (c_abs a) (c_abs b))
    = word_of_int (sint a sdiv sint b)"
proof -
  have q: "quotient (c_abs a) (c_abs b) = word_of_int (\<bar>sint a\<bar> div \<bar>sint b\<bar>)"
    using quotient[OF c_abs_nonzero[OF assms]] unfolding word_div_def by (simp add: uint_c_abs)
  have nz: "sint b \<noteq> 0" using assms signed_word_eqI[of b 0] by auto
  have "sint a sdiv sint b = (if (sint a < 0) \<noteq> (sint b < 0) then - (\<bar>sint a\<bar> div \<bar>sint b\<bar>)
      else \<bar>sint a\<bar> div \<bar>sint b\<bar>)"
    using nz by (simp add: signed_divide_int_def sgn_if)
  then show ?thesis by (simp only: q slt_zero wi_hom_neg if_distrib[of word_of_int] cong: if_cong)
qed

lemma signed_remainder:
  assumes "b \<noteq> 0"
  shows "(if a <s 0 then - remainder (c_abs a) (c_abs b) else remainder (c_abs a) (c_abs b))
    = word_of_int (sint a smod sint b)"
proof -
  have r: "remainder (c_abs a) (c_abs b) = word_of_int (\<bar>sint a\<bar> mod \<bar>sint b\<bar>)"
    using remainder[OF c_abs_nonzero[OF assms]] unfolding word_mod_def by (simp add: uint_c_abs)
  show ?thesis
  proof (cases "sint a < 0")
    case True
    then have "sint a smod sint b = - (\<bar>sint a\<bar> mod \<bar>sint b\<bar>)"
      by (simp add: signed_modulo_int_def)
    then show ?thesis using True by (simp only: slt_zero r if_True wi_hom_neg)
  next
    case False
    then have "sint a smod sint b = \<bar>sint a\<bar> mod \<bar>sint b\<bar>"
      by (simp add: signed_modulo_int_def sgn_if)
    then show ?thesis using False by (simp only: slt_zero r if_False)
  qed
qed

end

subsection \<open>A predicate on the outcome\<close>

text \<open>A step ends with a reason to stop (\<open>Inl\<close>) or goes on with a state (\<open>Inr\<close>).\<close>

definition when_running :: "('s \<Rightarrow> bool) \<Rightarrow> 'e + 's \<Rightarrow> bool" where
  "when_running P r = (case r of Inl _ \<Rightarrow> True | Inr t \<Rightarrow> P t)"

lemma when_running_simps [simp]:
  "when_running P (Inl h) = True"
  "when_running P (Inr t) = P t"
  by (simp_all add: when_running_def)

lemma when_running_ifI:
  "when_running P x \<Longrightarrow> when_running P y \<Longrightarrow> when_running P (if b then x else y)"
  by simp

lemma when_running_mono:
  "when_running P r \<Longrightarrow> (\<And>t. P t \<Longrightarrow> Q t) \<Longrightarrow> when_running Q r"
  by (cases r) simp_all

lemma when_running_conj:
  "when_running P r \<Longrightarrow> when_running Q r \<Longrightarrow> when_running (\<lambda>t. P t \<and> Q t) r"
  by (cases r) simp_all

lemma when_runningD: "when_running P r \<Longrightarrow> r = Inr t \<Longrightarrow> P t"
  by (simp add: when_running_def)

lemma uint_shr: "uint (drop_bit n (x :: 'a::len word)) = uint x div 2 ^ n"
  by (simp only: uint_nat unat_shr zdiv_int of_nat_power of_nat_numeral)

subsection \<open>Words in a byte memory\<close>

text \<open>
  What a byte order promises: a word and a half read back what was stored, a store reaches only its
  own bytes and a load depends only on its own bytes.
\<close>

locale byte_order =
  fixes load_w :: "byte_mem \<Rightarrow> u32 \<Rightarrow> u32" and store_w :: "byte_mem \<Rightarrow> u32 \<Rightarrow> u32 \<Rightarrow> byte_mem"
    and load_h :: "byte_mem \<Rightarrow> u32 \<Rightarrow> u16" and store_h :: "byte_mem \<Rightarrow> u32 \<Rightarrow> u16 \<Rightarrow> byte_mem"
  assumes load_store_w: "load_w (store_w m a v) a = v"
    and load_store_h: "load_h (store_h m a h) a = h"
    and store_w_frame: "4 \<le> b - a \<Longrightarrow> store_w m a v b = m b"
    and store_h_frame: "2 \<le> b - a \<Longrightarrow> store_h m a h b = m b"
    and load_w_local: "(\<And>k. k < 4 \<Longrightarrow> m (a + k) = m' (a + k)) \<Longrightarrow> load_w m a = load_w m' a"
begin

lemma far_bytes:
  fixes a b k :: u32
  assumes "n \<le> b - a" "4 \<le> a - b" "k < 4"
  shows "n \<le> b + k - a"
proof -
  have "(unat (b - a) + unat (a - b)) mod 4294967296 = 0"
    using unat_word_ariths(1)[of "b - a" "a - b"] by simp
  then obtain q where q: "unat (b - a) + unat (a - b) = 4294967296 * q" by (auto simp: dvd_def mod_eq_0_iff_dvd)
  have "unat (b - a) < 4294967296" "unat (a - b) < 4294967296" "4 \<le> unat (a - b)"
    using unat_bound[of "b - a"] unat_bound[of "a - b"] assms(2) by (simp_all add: word_le_nat_alt)
  then have "q = 1" using q by linarith
  then have "unat (b - a) \<le> 4294967292" using q \<open>4 \<le> unat (a - b)\<close> by linarith
  moreover have "unat k < 4" using assms(3) by (simp add: word_less_nat_alt)
  ultimately have "unat (b - a + k) = unat (b - a) + unat k" by (simp add: unat_word_ariths)
  then have "n \<le> b - a + k" using assms(1) by (simp add: word_le_nat_alt)
  then show ?thesis by (simp add: algebra_simps)
qed

lemma load_w_store_w_disjoint: "4 \<le> b - a \<Longrightarrow> 4 \<le> a - b \<Longrightarrow> load_w (store_w m a v) b = load_w m b"
  by (intro load_w_local store_w_frame far_bytes)

lemma load_w_store_h_disjoint: "2 \<le> b - a \<Longrightarrow> 4 \<le> a - b \<Longrightarrow> load_w (store_h m a h) b = load_w m b"
  by (intro load_w_local store_h_frame far_bytes)

end

end
