(* ===== verification/Soft_Arith.thy ===== *)
theory Soft_Arith
  imports Prelude
begin

text \<open>
  The integer arithmetic the core has no instructions for (software/lib/libc.c, the routines
  the compiler calls for \<open>*\<close>, \<open>/\<close>, \<open>%\<close> and 64-bit shifts). One definition per C routine, a loop
  of the C is a recursive function with the loop variables as arguments. The lemmas show that
  every routine computes what the operator it stands for computes on words, and on which
  inputs it does not.
\<close>

unbundle bit_operations_syntax

subsection \<open>The halves of a 64-bit value: union dwords\<close>

definition dw_low :: "u64 \<Rightarrow> u32" where
  [c_layout]: "dw_low w = ucast w"

definition dw_high :: "u64 \<Rightarrow> u32" where
  [c_layout]: "dw_high w = ucast (drop_bit 32 w)"

definition dw_make :: "u32 \<Rightarrow> u32 \<Rightarrow> u64" where
  [c_layout]: "dw_make high low = push_bit 32 (ucast high) OR ucast low"

lemma dw_low_make [simp]: "dw_low (dw_make h l) = l"
  by (rule bit_word_eqI) (simp add: c_layout bit_simps)

lemma dw_high_make [simp]: "dw_high (dw_make h l) = h"
  by (rule bit_word_eqI) (auto simp add: c_layout bit_simps dest: bit_imp_le_length)

lemma dw_make_halves [simp]: "dw_make (dw_high w) (dw_low w) = w"
  by (rule bit_word_eqI) (auto simp add: c_layout bit_simps)

lemma dw_make_plus: "dw_make h l = ucast h * 2 ^ 32 + ucast l"
proof -
  have "dw_make h l = push_bit 32 (ucast h) + ucast l"
    unfolding dw_make_def
    by (subst disjunctive_add) (auto simp: bit_simps dest: bit_imp_le_length)
  then show ?thesis by (simp add: push_bit_eq_mult)
qed

lemma uint_dw_make: "uint (dw_make h l) = uint h * 2 ^ 32 + uint l"
proof -
  have "uint h < 2 ^ 32" "uint l < 2 ^ 32" using uint_bounded[of h] uint_bounded[of l] by simp_all
  then show ?thesis
    by (simp add: dw_make_plus uint_word_ariths uint_up_ucast is_up mod_pos_pos_trivial)
qed

subsection \<open>Multiplication\<close>

function mulsi3_loop :: "u32 \<Rightarrow> u32 \<Rightarrow> u32 \<Rightarrow> u32" where
  "mulsi3_loop a b answer =
     (if b = 0 then answer
      else mulsi3_loop (push_bit 1 a) (drop_bit 1 b)
             (if b AND 1 \<noteq> 0 then answer + a else answer))"
  by pat_completeness auto
termination
  by (relation "measure (\<lambda>(a, b, answer). unat b)")
     (simp_all only: wf_measure in_measure prod.case unat_drop_bit_less zero_less_one not_False_eq_True)

declare mulsi3_loop.simps [simp del]

definition mulsi3 :: "u32 \<Rightarrow> u32 \<Rightarrow> u32" where
  "mulsi3 a b = mulsi3_loop a b 0"

lemma mulsi3_loop_eq: "mulsi3_loop a b answer = answer + a * b"
proof (induction a b answer rule: mulsi3_loop.induct)
  case (1 a b answer)
  show ?case
  proof (cases "b = 0")
    case True
    then show ?thesis by (simp add: mulsi3_loop.simps)
  next
    case False
    have split: "a * b = 2 * a * drop_bit 1 b + a * (b AND 1)"
      by (subst word_half_split[of b]) (simp add: algebra_simps)
    have low: "b AND 1 = (if b AND 1 \<noteq> 0 then 1 else 0)"
      by (simp add: and_one_eq odd_iff_mod_2_eq_one)
    have "mulsi3_loop a b answer
        = (if b AND 1 \<noteq> 0 then answer + a else answer) + push_bit 1 a * drop_bit 1 b"
      using False "1" by (subst mulsi3_loop.simps) (simp del: push_bit_Suc drop_bit_Suc)
    also have "\<dots> = answer + a * b"
      by (subst split, subst low) (simp add: push_bit_eq_mult algebra_simps)
    finally show ?thesis .
  qed
qed

definition muldsi3 :: "u32 \<Rightarrow> u32 \<Rightarrow> u64" where
  "muldsi3 a b =
     (let mask = 0xFFFF;
          low = (a AND mask) * (b AND mask);
          t = drop_bit 16 low;
          low = low AND mask;
          t = t + drop_bit 16 a * (b AND mask);
          low = low + push_bit 16 (t AND mask);
          high = drop_bit 16 t;
          t = drop_bit 16 low;
          low = low AND mask;
          t = t + drop_bit 16 b * (a AND mask);
          low = low + push_bit 16 (t AND mask);
          high = high + drop_bit 16 t;
          high = high + drop_bit 16 a * drop_bit 16 b
      in dw_make high low)"

definition muldi3 :: "u64 \<Rightarrow> u64 \<Rightarrow> u64" where
  "muldi3 a b =
     (let r = muldsi3 (dw_low a) (dw_low b)
      in dw_make (dw_high r + (mulsi3 (dw_high a) (dw_low b) + mulsi3 (dw_low a) (dw_high b)))
           (dw_low r))"

lemma unat_dw_make: "unat (dw_make h l) = unat h * 2 ^ 32 + unat l"
proof -
  have "int (unat (dw_make h l)) = int (unat h * 2 ^ 32 + unat l)"
    using uint_dw_make[of h l] by (simp only: uint_nat of_nat_add of_nat_mult) simp
  then show ?thesis by (simp only: of_nat_eq_iff)
qed

lemma unat_and_ffff: "unat (x AND 0xFFFF :: u32) = unat x mod 65536"
  using unat_and_mask[of x 16] by (simp add: mask_eq_exp_minus_1)

lemma unat_shr16: "unat (drop_bit 16 x :: u32) = unat x div 65536"
  using unat_shr[of 16 x] by simp

lemma unat_shl16: "unat x < 65536 \<Longrightarrow> unat (push_bit 16 x :: u32) = unat x * 65536"
  using unat_shl_no_carry[of x 16] by simp

lemma low16_up: "unat (push_bit 16 (x AND 0xFFFF) :: u32) = unat x mod 65536 * 65536"
  by (subst unat_shl16) (simp_all only: unat_and_ffff mod_less_divisor zero_less_numeral)

text \<open>Schoolbook multiplication on half words never overflows its 32-bit partial sums.\<close>

lemma half_prod: "x < 65536 \<Longrightarrow> y < 65536 \<Longrightarrow> (x::nat) * y \<le> 4294836225"
  using mult_le_mono[of x 65535 y 65535] by simp

lemma half_word_columns:
  fixes x y z w :: nat
  assumes "d0 * 65536 + m0 = x" "d1 * 65536 + m1 = d0 + y" "d2 * 65536 + m2 = m1 + z"
  shows "(d1 + d2 + w) * 4294967296 + (m0 + m2 * 65536) = w * 4294967296 + (y + z) * 65536 + x"
  using assms by (simp add: algebra_simps)

lemma muldsi3_nat: "unat (muldsi3 a b) = unat a * unat b"
proof -
  define ah al bh bl where "ah = unat a div 65536" and "al = unat a mod 65536"
    and "bh = unat b div 65536" and "bl = unat b mod 65536"
  note parts = ah_def al_def bh_def bl_def
  have ab: "unat a = ah * 65536 + al" "unat b = bh * 65536 + bl" by (simp_all add: parts)
  have field: "unat (a AND 0xFFFF) = al" "unat (b AND 0xFFFF) = bl"
    "unat (drop_bit 16 a) = ah" "unat (drop_bit 16 b) = bh"
    by (simp_all add: unat_and_ffff unat_shr16 parts)
  have lt: "ah < 65536" "bh < 65536" "al < 65536" "bl < 65536"
    using unat_bound[of a] unat_bound[of b] by (simp_all add: parts less_mult_imp_div_less)
  have prod: "al * bl \<le> 4294836225" "ah * bl \<le> 4294836225" "bh * al \<le> 4294836225"
    "ah * bh \<le> 4294836225" using lt by (simp_all add: half_prod)
  define t0 where "t0 = (a AND 0xFFFF) * (b AND 0xFFFF)"
  have t0: "unat t0 = al * bl"
    using prod(1) by (simp add: t0_def unat_word_ariths field)
  define t1 where "t1 = drop_bit 16 t0 + drop_bit 16 a * (b AND 0xFFFF)"
  have "al * bl div 65536 + ah * bl < 4294967296" using prod(1,2) by linarith
  then have t1: "unat t1 = al * bl div 65536 + ah * bl"
    by (simp add: t1_def unat_word_ariths field unat_shr16[of t0] t0 mod_simps)
  define l1 where "l1 = (t0 AND 0xFFFF) + push_bit 16 (t1 AND 0xFFFF)"
  have "al * bl mod 65536 + unat t1 mod 65536 * 65536 < 4294967296" by linarith
  then have l1: "unat l1 = al * bl mod 65536 + unat t1 mod 65536 * 65536"
    by (simp only: l1_def unat_word_ariths unat_and_ffff low16_up t0) simp
  define t2 where "t2 = drop_bit 16 l1 + drop_bit 16 b * (a AND 0xFFFF)"
  have "unat t1 mod 65536 + bh * al < 4294967296" using prod(3) by linarith
  then have t2: "unat t2 = unat t1 mod 65536 + bh * al"
    by (simp add: t2_def unat_word_ariths field unat_shr16[of l1] l1 mod_simps)
  define lo where "lo = (l1 AND 0xFFFF) + push_bit 16 (t2 AND 0xFFFF)"
  have "al * bl mod 65536 + unat t2 mod 65536 * 65536 < 4294967296" by linarith
  then have lo: "unat lo = al * bl mod 65536 + unat t2 mod 65536 * 65536"
    by (simp only: lo_def unat_word_ariths unat_and_ffff low16_up l1) simp
  define hi where "hi = drop_bit 16 t1 + drop_bit 16 t2 + drop_bit 16 a * drop_bit 16 b"
  have "unat t1 div 65536 + unat t2 div 65536 + ah * bh < 4294967296"
  proof -
    have "unat t1 \<le> 4294901759" using t1 prod(1,2) by linarith
    moreover have "unat t2 \<le> 4294901760" using t2 prod(3) by linarith
    ultimately show ?thesis using prod(4) by linarith
  qed
  then have hi: "unat hi = unat t1 div 65536 + unat t2 div 65536 + ah * bh"
    by (simp add: hi_def unat_word_ariths unat_shr16[of t1] unat_shr16[of t2] field mod_simps)
  have "muldsi3 a b = dw_make hi lo"
    unfolding muldsi3_def Let_def hi_def lo_def t2_def l1_def t1_def t0_def ..
  then have "unat (muldsi3 a b) = unat hi * 4294967296 + unat lo"
    by (simp add: unat_dw_make)
  also have "\<dots> = ah * bh * 4294967296 + (ah * bl + bh * al) * 65536 + al * bl"
    unfolding hi lo
    by (rule half_word_columns[OF div_mult_mod_eq trans[OF div_mult_mod_eq t1]
          trans[OF div_mult_mod_eq t2]])
  also have "\<dots> = unat a * unat b"
    by (simp add: ab algebra_simps)
  finally show ?thesis .
qed

lemma muldsi3_eq: "muldsi3 a b = ucast a * ucast b"
proof -
  have "unat a * unat b < 2 ^ 64"
    using muldsi3_nat[of a b] unat_bound[of "muldsi3 a b"] by simp
  then have "unat (ucast a * ucast b :: u64) = unat a * unat b"
    using unat_bound[of a] unat_bound[of b]
    by (simp add: unat_word_ariths unsigned_ucast_eq take_bit_nat_eq_self)
  then show ?thesis by (simp add: word_unat_eq_iff muldsi3_nat)
qed

lemma dw_make_word_of_int: "dw_make h l = word_of_int (uint h * 2 ^ 32 + uint l)"
  by (metis uint_dw_make word_of_int_uint)

lemma muldi3_eq: "muldi3 a b = a * b"
proof -
  define p where "p = muldsi3 (dw_low a) (dw_low b)"
  let ?c = "uint (dw_high a) * uint (dw_low b) + uint (dw_low a) * uint (dw_high b)"
  have p: "uint (dw_high p) * 2 ^ 32 + uint (dw_low p) = uint (dw_low a) * uint (dw_low b)"
  proof -
    have "uint p = uint (dw_low a) * uint (dw_low b)"
      unfolding p_def uint_nat muldsi3_nat by simp
    then show ?thesis using uint_dw_make[of "dw_high p" "dw_low p"] by simp
  qed
  have "muldi3 a b = dw_make (dw_high p + (dw_high a * dw_low b + dw_low a * dw_high b)) (dw_low p)"
    by (simp add: muldi3_def Let_def p_def mulsi3_def mulsi3_loop_eq)
  also have "\<dots> = word_of_int ((uint (dw_high p) + ?c) mod 2 ^ 32 * 2 ^ 32 + uint (dw_low p))"
    unfolding dw_make_word_of_int by (simp add: uint_word_ariths mod_simps)
  also have "\<dots> = word_of_int (((uint (dw_high p) + ?c) mod 2 ^ 32 * 2 ^ 32 + uint (dw_low p)) mod 2 ^ 64)"
    using word_of_int_mod[where 'a = 64] by simp
  also have "((uint (dw_high p) + ?c) mod 2 ^ 32 * 2 ^ 32 + uint (dw_low p)) mod 2 ^ 64
     = (?c * 2 ^ 32 + uint (dw_low a) * uint (dw_low b)) mod 2 ^ 64"
  proof -
    have "(uint (dw_high p) + ?c) mod 2 ^ 32 * 2 ^ 32 = (uint (dw_high p) + ?c) * 2 ^ 32 mod 2 ^ 64"
      by (simp add: mult_mod_left)
    then show ?thesis
      by (simp only: mod_add_left_eq p[symmetric]) (simp add: algebra_simps)
  qed
  also have "\<dots> = (uint (dw_high a) * 2 ^ 32 + uint (dw_low a)) *
       (uint (dw_high b) * 2 ^ 32 + uint (dw_low b)) mod 2 ^ 64"
  proof -
    have "(uint (dw_high a) * 2 ^ 32 + uint (dw_low a)) * (uint (dw_high b) * 2 ^ 32 + uint (dw_low b))
      = (?c * 2 ^ 32 + uint (dw_low a) * uint (dw_low b))
        + uint (dw_high a) * uint (dw_high b) * 2 ^ 64"
      by (simp add: algebra_simps)
    then show ?thesis by simp
  qed
  also have "\<dots> = uint a * uint b mod 2 ^ 64"
    using uint_dw_make[of "dw_high a" "dw_low a"] uint_dw_make[of "dw_high b" "dw_low b"] by simp
  also have "word_of_int (uint a * uint b mod 2 ^ 64) = a * b"
    using word_of_int_mod[where 'a = 64] by (simp add: wi_hom_mult)
  finally show ?thesis .
qed

subsection \<open>32-bit division\<close>

text \<open>\<open>__udivmodsi4\<close>: first the divisor is shifted up, then subtracted bit by bit.\<close>

function udivmodsi4_align :: "u32 \<Rightarrow> u32 \<Rightarrow> u32 \<Rightarrow> u32 \<times> u32" where
  "udivmodsi4_align num den bt =
     (if den < num \<and> bt \<noteq> 0 \<and> den AND 0x80000000 = 0
      then udivmodsi4_align num (push_bit 1 den) (push_bit 1 bt)
      else (den, bt))"
  by pat_completeness auto
termination
  by (relation "measure (\<lambda>(num, den, bt). shl_room bt)")
     (simp_all only: wf_measure in_measure prod.case shl_room_less not_False_eq_True)

function udivmodsi4_sub :: "u32 \<Rightarrow> u32 \<Rightarrow> u32 \<Rightarrow> u32 \<Rightarrow> u32 \<times> u32" where
  "udivmodsi4_sub num den bt res =
     (if bt = 0 then (num, res)
      else if num \<ge> den
      then udivmodsi4_sub (num - den) (drop_bit 1 den) (drop_bit 1 bt) (res OR bt)
      else udivmodsi4_sub num (drop_bit 1 den) (drop_bit 1 bt) res)"
  by pat_completeness auto
termination
  by (relation "measure (\<lambda>(num, den, bt, res). unat bt)")
     (simp_all only: wf_measure in_measure prod.case unat_drop_bit_less zero_less_one not_False_eq_True)

declare udivmodsi4_align.simps [simp del] udivmodsi4_sub.simps [simp del]

definition udivmodsi4 :: "u32 \<Rightarrow> u32 \<Rightarrow> u32 \<Rightarrow> u32" where
  "udivmodsi4 num den modwanted =
     (let (den, bt) = udivmodsi4_align num den 1;
          (num, res) = udivmodsi4_sub num den bt 0
      in if modwanted \<noteq> 0 then num else res)"

definition udivsi3 :: "u32 \<Rightarrow> u32 \<Rightarrow> u32" where
  "udivsi3 a b = udivmodsi4 a b 0"

definition umodsi3 :: "u32 \<Rightarrow> u32 \<Rightarrow> u32" where
  "umodsi3 a b = udivmodsi4 a b 1"

definition divsi3 :: "u32 \<Rightarrow> u32 \<Rightarrow> u32" where
  "divsi3 a b =
     (let neg = False;
          (a, neg) = (if a <s 0 then (- a, \<not> neg) else (a, neg));
          (b, neg) = (if b <s 0 then (- b, \<not> neg) else (b, neg));
          res = udivmodsi4 a b 0
      in if neg then - res else res)"

definition modsi3 :: "u32 \<Rightarrow> u32 \<Rightarrow> u32" where
  "modsi3 a b =
     (let neg = False;
          (a, neg) = (if a <s 0 then (- a, True) else (a, neg));
          b = (if b <s 0 then - b else b);
          res = udivmodsi4 a b 1
      in if neg then - res else res)"

text \<open>
  The subtraction phase on any width, for any way of collecting the quotient bits that agrees
  with addition on disjoint bits: the invariant is that \<open>den\<close> is the divisor times \<open>bt\<close>.
\<close>

lemma quotient_step:
  fixes n d :: nat
  assumes "n < 2 * (d * 2 ^ k)" "0 < d"
  shows "d * 2 ^ k \<le> n \<Longrightarrow> n div d = 2 ^ k + (n - d * 2 ^ k) div d"
    and "d * 2 ^ k \<le> n \<Longrightarrow> n mod d = (n - d * 2 ^ k) mod d"
    and "d * 2 ^ k \<le> n \<Longrightarrow> n - d * 2 ^ k < d * 2 ^ k"
proof -
  assume le: "d * 2 ^ k \<le> n"
  then obtain m where m: "n = m + d * 2 ^ k" by (metis le_add_diff_inverse2)
  show "n div d = 2 ^ k + (n - d * 2 ^ k) div d" using assms(2) by (simp add: m)
  show "n mod d = (n - d * 2 ^ k) mod d" by (simp add: m)
  show "n - d * 2 ^ k < d * 2 ^ k" using assms(1) le by simp
qed

lemma or_fresh_bit:
  fixes res b :: "'a::len word"
  assumes "unat b = 2 ^ k" "2 ^ Suc k dvd unat res"
  shows "res OR b = res + b"
proof (rule disjunctive_add[symmetric])
  fix i
  have b: "bit b i \<longleftrightarrow> i = k" for i
    using assms(1) by (simp flip: bit_unat add: bit_exp_iff)
  have "\<not> bit res k"
    using assms(2) by (auto simp flip: bit_unat simp: bit_iff_odd dvd_def)
  then show "\<not> bit res i \<or> \<not> bit b i" by (auto simp: b)
qed

text \<open>
  Restoring division by shifting the aligned divisor down again, on any width and for any way of
  collecting the quotient bits that adds a bit above which the quotient is still clear.
\<close>

locale subtract_loop =
  fixes loop :: "'a::len word \<Rightarrow> 'a word \<Rightarrow> 'a word \<Rightarrow> 'a word \<Rightarrow> 'a word \<times> 'a word"
    and collect :: "'a word \<Rightarrow> 'a word \<Rightarrow> 'a word"
  assumes loop_step: "loop num den bt res =
     (if bt = 0 then (num, res)
      else if den \<le> num then loop (num - den) (drop_bit 1 den) (drop_bit 1 bt) (collect res bt)
      else loop num (drop_bit 1 den) (drop_bit 1 bt) res)"
    and collect: "unat bt = 2 ^ k \<Longrightarrow> 2 ^ Suc k dvd unat res \<Longrightarrow> collect res bt = res + bt"
begin

lemma loop_divides:
  assumes "unat bt = 2 ^ k" "unat den = d * 2 ^ k" "unat num < 2 * unat den" "0 < d"
    "2 ^ Suc k dvd unat res" "unat res + unat num div d < 2 ^ LENGTH('a)"
  shows "loop num den bt res
    = (word_of_nat (unat num mod d), word_of_nat (unat res + unat num div d))"
  using assms
proof (induction k arbitrary: num den bt res)
  case 0
  then have bt: "bt = 1" by (metis power_0 unsigned_1 word_unat_eq_iff)
  have stop: "loop n d' (drop_bit 1 bt) r = (n, r)" for n d' r
    unfolding bt by (subst loop_step) simp
  have d: "unat den = d" using "0.prems"(2) by simp
  show ?case
  proof (cases "den \<le> num")
    case True
    then have le: "d \<le> unat num" using d by (simp add: word_le_nat_alt)
    have lt: "unat num < 2 * d" using "0.prems"(3) d by simp
    have q: "unat num div d = 1" "unat num mod d = unat num - d"
      using quotient_step[of "unat num" d 0] le lt "0.prems"(4) by simp_all
    have "word_of_nat (unat num - unat den) = num - den"
      using True by (simp add: of_nat_diff word_le_nat_alt)
    then have "num - den = word_of_nat (unat num mod d)" by (simp add: q(2) d)
    moreover have "collect res bt = word_of_nat (unat res + unat num div d)"
      using collect[OF "0.prems"(1,5)] by (simp add: q(1) bt)
    moreover have "loop num den bt res = (num - den, collect res bt)"
      using True by (subst loop_step) (simp add: bt stop[unfolded bt, simplified])
    ultimately show ?thesis by (simp only:)
  next
    case False
    then have "unat num < d" using d by (simp add: word_le_nat_alt)
    then show ?thesis using False
      by (subst loop_step) (simp add: bt stop[unfolded bt, simplified])
  qed
next
  case (Suc k)
  have bt: "bt \<noteq> 0" using Suc.prems(1) by auto
  have half: "unat (drop_bit 1 bt) = 2 ^ k" "unat (drop_bit 1 den) = d * 2 ^ k"
    using Suc.prems(1,2) by (simp_all only: unat_drop_bit_1, simp_all)
  show ?case
  proof (cases "den \<le> num")
    case True
    then have le: "d * 2 ^ Suc k \<le> unat num" using Suc.prems(2) by (simp add: word_le_nat_alt)
    note q = quotient_step[of "unat num" d "Suc k", OF _ Suc.prems(4) le]
    have lt: "unat num < 2 * (d * 2 ^ Suc k)" using Suc.prems(2,3) by simp
    have num: "unat (num - den) = unat num - d * 2 ^ Suc k"
      using True Suc.prems(2) by (simp add: unat_sub word_le_nat_alt)
    have res: "unat (collect res bt) = unat res + 2 ^ Suc k"
    proof -
      have "unat res + 2 ^ Suc k < 2 ^ LENGTH('a)" using Suc.prems(6) q(1)[OF lt] by linarith
      then show ?thesis
        using collect[OF Suc.prems(1,5)] Suc.prems(1) by (simp add: unat_word_ariths)
    qed
    have "loop (num - den) (drop_bit 1 den) (drop_bit 1 bt) (collect res bt)
      = (word_of_nat (unat (num - den) mod d), word_of_nat (unat (collect res bt) + unat (num - den) div d))"
    proof (rule Suc.IH)
      show "unat (num - den) < 2 * unat (drop_bit 1 den)"
        using q(3)[OF lt] unfolding num half by simp
      show "2 ^ Suc k dvd unat (collect res bt)"
        unfolding res by (intro dvd_add dvd_refl dvd_trans[OF le_imp_power_dvd Suc.prems(5)]) simp
      show "unat (collect res bt) + unat (num - den) div d < 2 ^ LENGTH('a)"
        using Suc.prems(6) q(1)[OF lt] by (simp add: num res)
    qed (use half Suc.prems(4) in simp_all)
    then show ?thesis
      using True bt q(1,2)[OF lt] by (subst loop_step) (simp add: num res)
  next
    case False
    have "loop num (drop_bit 1 den) (drop_bit 1 bt) res
      = (word_of_nat (unat num mod d), word_of_nat (unat res + unat num div d))"
    proof (rule Suc.IH)
      show "unat num < 2 * unat (drop_bit 1 den)"
        using False Suc.prems(2) unfolding half by (simp add: word_le_nat_alt)
      show "2 ^ Suc k dvd unat res" by (rule dvd_trans[OF le_imp_power_dvd Suc.prems(5)]) simp
    qed (use half Suc.prems in simp_all)
    then show ?thesis using False bt by (subst loop_step) simp
  qed
qed


end

interpretation sub32: subtract_loop udivmodsi4_sub "\<lambda>res bt. res OR bt"
  by unfold_locales (rule udivmodsi4_sub.simps, rule or_fresh_bit)

lemma udivmodsi4_align_inv:
  assumes "udivmodsi4_align num den bt = (den', bt')"
    "unat bt = 2 ^ k" "unat den = d * 2 ^ k" "0 < d"
  shows "\<exists>k'. unat bt' = 2 ^ k' \<and> unat den' = d * 2 ^ k' \<and> unat num < 2 * unat den'"
  using assms
proof (induction num den bt arbitrary: k rule: udivmodsi4_align.induct)
  case (1 num den bt)
  have bt: "bt \<noteq> 0" using "1.prems"(2) by auto
  have msb: "den AND 0x80000000 = 0 \<longleftrightarrow> unat den < 2 ^ 31"
    by (rule sign_bit_clear_iff)
  show ?case
  proof (cases "den < num \<and> den AND 0x80000000 = 0")
    case True
    then have small: "2 * unat den < 2 ^ 32" using msb by simp
    then have den2: "unat (push_bit 1 den) = d * 2 ^ Suc k"
      using "1.prems"(3) by (subst unat_push_bit_1) simp_all
    have "unat bt \<le> unat den" using "1.prems"(2-4) by simp
    then have bt2: "unat (push_bit 1 bt) = 2 ^ Suc k"
      using small "1.prems"(2) by (subst unat_push_bit_1) simp_all
    have "udivmodsi4_align num (push_bit 1 den) (push_bit 1 bt) = (den', bt')"
      using True bt "1.prems"(1) by (subst (asm) udivmodsi4_align.simps) simp
    then show ?thesis using "1.IH" True bt bt2 den2 "1.prems"(4) by blast
  next
    case False
    then have eq: "den' = den" "bt' = bt"
      using "1.prems"(1) by (auto simp: udivmodsi4_align.simps[of num den bt] split: if_splits)
    have "0 < unat den" using "1.prems"(3,4) by simp
    then have "unat num < 2 * unat den"
      using False msb unat_bound[of num] by (auto simp: word_less_nat_alt)
    then show ?thesis using "1.prems"(2,3) by (auto simp: eq)
  qed
qed

lemma udivmodsi4_nonzero:
  assumes "den \<noteq> 0"
  shows "udivmodsi4 num den m = (if m \<noteq> 0 then num mod den else num div den)"
proof -
  have d: "0 < unat den" using assms by (simp add: unat_gt_0)
  obtain den' bt where al: "udivmodsi4_align num den 1 = (den', bt)" by fastforce
  obtain k where k: "unat bt = 2 ^ k" "unat den' = unat den * 2 ^ k" "unat num < 2 * unat den'"
    using udivmodsi4_align_inv[OF al, of 0 "unat den"] d by auto
  have "unat num div unat den < 2 ^ 32"
    by (rule order_le_less_trans[OF div_le_dividend]) (use unat_bound[of num] in simp)
  then have "udivmodsi4_sub num den' bt 0
      = (word_of_nat (unat num mod unat den), word_of_nat (unat num div unat den))"
    using sub32.loop_divides[OF k d, of 0] by simp
  then show ?thesis
    by (simp add: udivmodsi4_def al word_arith_nat_div word_arith_nat_mod)
qed


lemma udivmodsi4_align_zero: "udivmodsi4_align num 0 bt = (0, if num = 0 then bt else 0)"
proof (induction "shl_room bt" arbitrary: bt rule: less_induct)
  case less
  show ?case
  proof (cases "num \<noteq> 0 \<and> bt \<noteq> 0")
    case True
    then have "udivmodsi4_align num 0 bt = udivmodsi4_align num 0 (push_bit 1 bt)"
      by (subst udivmodsi4_align.simps) (simp add: word_gt_0)
    then show ?thesis using less[of "push_bit 1 bt"] True shl_room_less[of bt] by simp
  qed (auto simp: udivmodsi4_align.simps[of num 0 bt] word_gt_0)
qed

text \<open>A zero divisor is not caught: the quotient is 0, or 1 for 0 / 0; the remainder the dividend.\<close>

lemma udivmodsi4_by_zero:
  "udivmodsi4 num 0 m = (if m \<noteq> 0 then num else if num = 0 then 1 else 0)"
proof -
  have "udivmodsi4_sub 0 0 1 0 = (0, 1)" by (simp add: udivmodsi4_sub.simps[of 0 0 1 0] udivmodsi4_sub.simps)
  moreover have "udivmodsi4_sub num 0 0 0 = (num, 0)" by (simp add: udivmodsi4_sub.simps)
  ultimately show ?thesis by (simp add: udivmodsi4_def udivmodsi4_align_zero)
qed


interpretation div32: unsigned_division udivsi3 umodsi3
  by unfold_locales (simp_all add: udivsi3_def umodsi3_def udivmodsi4_nonzero)

lemma divsi3_unfold:
  "divsi3 a b = (if (a <s 0) \<noteq> (b <s 0) then - udivsi3 (c_abs a) (c_abs b)
                 else udivsi3 (c_abs a) (c_abs b))"
  by (simp add: divsi3_def Let_def udivsi3_def c_abs_def)

lemma modsi3_unfold:
  "modsi3 a b = (if a <s 0 then - umodsi3 (c_abs a) (c_abs b) else umodsi3 (c_abs a) (c_abs b))"
  by (simp add: modsi3_def Let_def umodsi3_def c_abs_def)

subsection \<open>64-bit shifts\<close>

text \<open>
  \<open>bm\<close> is unsigned, so its test \<open>bm <= 0\<close> holds for 32 only: for a count above 32 the code takes
  the branch for short counts and shifts a 32-bit value by more than its width.
\<close>

definition ashldi3 :: "u64 \<Rightarrow> u32 \<Rightarrow> u64 option" where
  "ashldi3 u b =
     (if b = 0 then Some u
      else let bm = 32 - b in
        if bm = 0 then
          (case c_shl32 (dw_low u) (- bm) of None \<Rightarrow> None | Some h \<Rightarrow> Some (dw_make h 0))
        else
          (case (c_shr32 (dw_low u) bm, c_shl32 (dw_low u) b, c_shl32 (dw_high u) b) of
             (Some carries, Some l, Some h) \<Rightarrow> Some (dw_make (h OR carries) l)
           | _ \<Rightarrow> None))"

definition ashrdi3 :: "u64 \<Rightarrow> u32 \<Rightarrow> u64 option" where
  "ashrdi3 u b =
     (if b = 0 then Some u
      else let bm = 32 - b in
        if bm = 0 then
          (case (c_sar32 (dw_high u) 31, c_shr32 (dw_low u) (- bm)) of
             (Some h, Some l) \<Rightarrow> Some (dw_make h l)
           | _ \<Rightarrow> None)
        else
          (case (c_shl32 (dw_high u) bm, c_sar32 (dw_high u) b, c_shr32 (dw_low u) b) of
             (Some carries, Some h, Some l) \<Rightarrow> Some (dw_make h (l OR carries))
           | _ \<Rightarrow> None))"

definition lshrdi3 :: "u64 \<Rightarrow> u32 \<Rightarrow> u64 option" where
  "lshrdi3 u b =
     (if b = 0 then Some u
      else let bm = 32 - b in
        if bm = 0 then
          (case c_shr32 (dw_high u) (- bm) of None \<Rightarrow> None | Some l \<Rightarrow> Some (dw_make 0 l))
        else
          (case (c_shl32 (dw_high u) bm, c_shr32 (dw_high u) b, c_shr32 (dw_low u) b) of
             (Some carries, Some h, Some l) \<Rightarrow> Some (dw_make h (l OR carries))
           | _ \<Rightarrow> None))"

lemma unat_32_minus: "0 < b \<Longrightarrow> b < 32 \<Longrightarrow> unat (32 - b :: u32) = 32 - unat b"
  by (simp add: unat_sub word_le_nat_alt word_less_nat_alt)

lemma shift_short:
  assumes "0 < b" "b < (32 :: u32)"
  shows "32 - b < 32" "32 - b \<noteq> 0" "unat b < 32" "0 < unat b" "b \<noteq> 0"
proof -
  show u: "unat b < 32" "0 < unat b" "b \<noteq> 0"
    using assms by (auto simp: word_less_nat_alt)
  have "unat (32 - b) = 32 - unat b" using assms by (rule unat_32_minus)
  then show "32 - b < 32" "32 - b \<noteq> 0" using u by (auto simp: word_less_nat_alt)
qed

lemma bit_dw:
  "bit (dw_make h l) i \<longleftrightarrow> (if i < 32 then bit l i else bit h (i - 32))"
  "bit (dw_low w) i \<longleftrightarrow> i < 32 \<and> bit w i"
  "bit (dw_high w) i \<longleftrightarrow> i < 32 \<and> bit w (i + 32)"
  by (auto simp: c_layout bit_simps ac_simps dest: bit_imp_le_length)

lemma dw_eqI:
  assumes "dw_low v = dw_low w" "dw_high v = dw_high w"
  shows "v = w"
  by (metis assms dw_make_halves)

lemma dw_push_bit:
  assumes "0 < n" "n < 32"
  shows "dw_make (push_bit n (dw_high u) OR drop_bit (32 - n) (dw_low u)) (push_bit n (dw_low u))
    = push_bit n u"
proof (rule dw_eqI; rule bit_word_eqI)
  fix i assume i: "i < LENGTH(32)"
  show "bit (dw_low (dw_make (push_bit n (dw_high u) OR drop_bit (32 - n) (dw_low u))
      (push_bit n (dw_low u)))) i = bit (dw_low (push_bit n u)) i"
    using assms i by (auto simp: bit_dw bit_simps)
  have "n \<le> i \<Longrightarrow> i - n + 32 = i + 32 - n" "\<not> n \<le> i \<Longrightarrow> 32 - n + i = i + 32 - n"
    using assms by linarith+
  then show "bit (dw_high (dw_make (push_bit n (dw_high u) OR drop_bit (32 - n) (dw_low u))
      (push_bit n (dw_low u)))) i = bit (dw_high (push_bit n u)) i"
    using assms i by (cases "n \<le> i") (auto simp: bit_dw bit_simps ac_simps)
qed

lemma dw_drop_high:
  assumes "0 < n" "n < 32"
  shows "dw_low (drop_bit n u) = drop_bit n (dw_low u) OR push_bit (32 - n) (dw_high u)"
proof (rule bit_word_eqI)
  fix i assume i: "i < LENGTH(32)"
  have "32 - n \<le> i \<Longrightarrow> i - (32 - n) + 32 = n + i" using assms by linarith
  then show "bit (dw_low (drop_bit n u)) i = bit (drop_bit n (dw_low u) OR push_bit (32 - n) (dw_high u)) i"
    using assms i by (cases "32 - n \<le> i") (auto simp: bit_dw bit_simps ac_simps)
qed

lemma dw_drop_bit:
  assumes "0 < n" "n < 32"
  shows "dw_make (drop_bit n (dw_high u)) (drop_bit n (dw_low u) OR push_bit (32 - n) (dw_high u))
    = drop_bit n u"
proof (rule dw_eqI)
  show "dw_high (dw_make (drop_bit n (dw_high u)) (drop_bit n (dw_low u) OR push_bit (32 - n) (dw_high u)))
      = dw_high (drop_bit n u)"
    using assms by (intro bit_word_eqI) (auto simp: bit_dw bit_simps ac_simps dest: bit_imp_le_length)
qed (simp add: dw_drop_high[OF assms])

lemma bit_sar:
  "i < 32 \<Longrightarrow> bit (signed_drop_bit n (w :: u32)) i = bit w (if 32 - n \<le> i then 31 else i + n)"
  "i < 64 \<Longrightarrow> bit (signed_drop_bit n (v :: u64)) i = bit v (if 64 - n \<le> i then 63 else i + n)"
  unfolding bit_signed_drop_bit_iff len32 len64 by (auto simp: add.commute)

lemma dw_signed_drop_bit:
  assumes "0 < n" "n < 32"
  shows "dw_make (signed_drop_bit n (dw_high u)) (drop_bit n (dw_low u) OR push_bit (32 - n) (dw_high u))
    = signed_drop_bit n u"
proof (rule dw_eqI)
  have "dw_low (signed_drop_bit n u) = dw_low (drop_bit n u)"
    using assms by (intro bit_word_eqI) (auto simp: bit_dw bit_sar bit_drop_bit_eq ac_simps)
  then show "dw_low (dw_make (signed_drop_bit n (dw_high u)) (drop_bit n (dw_low u) OR push_bit (32 - n) (dw_high u)))
      = dw_low (signed_drop_bit n u)" by (simp add: dw_drop_high[OF assms])
  have "signed_drop_bit n (dw_high u) = dw_high (signed_drop_bit n u)"
  proof (rule bit_word_eqI)
    fix i assume "i < LENGTH(32)"
    moreover have "64 - n \<le> i + 32 \<longleftrightarrow> 32 - n \<le> i" using assms by linarith
    ultimately show "bit (signed_drop_bit n (dw_high u)) i = bit (dw_high (signed_drop_bit n u)) i"
      using assms by (cases "32 - n \<le> i") (auto simp: bit_dw bit_sar ac_simps)
  qed
  then show "dw_high (dw_make (signed_drop_bit n (dw_high u)) (drop_bit n (dw_low u) OR push_bit (32 - n) (dw_high u)))
      = dw_high (signed_drop_bit n u)" by simp
qed

lemma shift_count_cases:
  fixes b :: u32
  obtains "b = 0" | "0 < b" "b < 32" | "b = 32" | "32 < b"
  using word_gt_0[of b] by (cases b "32 :: u32" rule: linorder_cases) blast+

lemma shift_long:
  assumes "32 < (b :: u32)"
  shows "b \<noteq> 0" "32 - b \<noteq> 0" "\<not> b < 32" "\<not> b \<le> 32"
  using assms by auto

lemma ashldi3_cases:
  "ashldi3 u b = (if b \<le> 32 then Some (push_bit (unat b) u) else None)"
proof (cases b rule: shift_count_cases)
  case 2
  then show ?thesis
    using shift_short[OF 2] dw_push_bit[of "unat b" u]
    by (simp add: ashldi3_def Let_def c_ops unat_32_minus)
next
  case 3
  have "dw_make (dw_low u) 0 = push_bit 32 u"
    by (rule bit_word_eqI) (auto simp: bit_dw bit_simps)
  then show ?thesis by (simp add: 3 ashldi3_def c_ops)
next
  case 4
  then show ?thesis using shift_long[OF 4] by (simp add: ashldi3_def Let_def c_ops split: option.splits)
qed (simp add: ashldi3_def)

lemma lshrdi3_cases:
  "lshrdi3 u b = (if b \<le> 32 then Some (drop_bit (unat b) u) else None)"
proof (cases b rule: shift_count_cases)
  case 2
  then show ?thesis
    using shift_short[OF 2] dw_drop_bit[of "unat b" u]
    by (simp add: lshrdi3_def Let_def c_ops unat_32_minus)
next
  case 3
  have "dw_make 0 (dw_high u) = drop_bit 32 u"
    by (rule bit_word_eqI) (auto simp: bit_dw bit_simps ac_simps dest: bit_imp_le_length)
  then show ?thesis by (simp add: 3 lshrdi3_def c_ops)
next
  case 4
  then show ?thesis using shift_long[OF 4] by (simp add: lshrdi3_def Let_def c_ops split: option.splits)
qed (simp add: lshrdi3_def)

lemma ashrdi3_cases:
  "ashrdi3 u b =
    (if b < 32 then Some (signed_drop_bit (unat b) u)
     else if b = 32 then Some (dw_make (signed_drop_bit 31 (dw_high u)) (dw_low u)) else None)"
proof (cases b rule: shift_count_cases)
  case 2
  then show ?thesis
    using shift_short[OF 2] dw_signed_drop_bit[of "unat b" u]
    by (simp add: ashrdi3_def Let_def c_ops unat_32_minus)
next
  case 3
  then show ?thesis by (simp add: 3 ashrdi3_def c_ops)
next
  case 4
  then show ?thesis using shift_long[OF 4] by (simp add: ashrdi3_def Let_def c_ops split: option.splits)
qed (simp add: ashrdi3_def)

subsection \<open>64-bit division\<close>

function udivmoddi4_align :: "u64 \<Rightarrow> u64 \<Rightarrow> u64 \<times> u64" where
  "udivmoddi4_align den qbit =
     (if den \<noteq> 0 \<and> 0 \<le>s den then udivmoddi4_align (push_bit 1 den) (push_bit 1 qbit)
      else (den, qbit))"
  by pat_completeness auto
termination
  by (relation "measure (\<lambda>(den, qbit). shl_room den)")
     (simp_all only: wf_measure in_measure prod.case shl_room_less not_False_eq_True)

function udivmoddi4_sub :: "u64 \<Rightarrow> u64 \<Rightarrow> u64 \<Rightarrow> u64 \<Rightarrow> u64 \<times> u64" where
  "udivmoddi4_sub num den qbit quot =
     (if qbit = 0 then (num, quot)
      else if den \<le> num
      then udivmoddi4_sub (num - den) (drop_bit 1 den) (drop_bit 1 qbit) (quot + qbit)
      else udivmoddi4_sub num (drop_bit 1 den) (drop_bit 1 qbit) quot)"
  by pat_completeness auto
termination
  by (relation "measure (\<lambda>(num, den, qbit, quot). unat qbit)")
     (simp_all only: wf_measure in_measure prod.case unat_drop_bit_less zero_less_one not_False_eq_True)

declare udivmoddi4_align.simps [simp del] udivmoddi4_sub.simps [simp del]

text \<open>
  The second component is what the call stores through \<open>rem_p\<close>: nothing for a zero divisor. The
  loop that aligns a zero divisor would not end; the code returns before it, and the test
  \<open>den \<noteq> 0\<close> in \<open>udivmoddi4_align\<close> only makes the recursion total there.
\<close>

definition udivmoddi4 :: "u64 \<Rightarrow> u64 \<Rightarrow> u64 \<times> u64 option" where
  "udivmoddi4 num den =
     (if den = 0 then (1, None)
      else let (den, qbit) = udivmoddi4_align den 1;
               (num, quot) = udivmoddi4_sub num den qbit 0
           in (quot, Some num))"

definition udivdi3 :: "u64 \<Rightarrow> u64 \<Rightarrow> u64" where
  "udivdi3 num den = fst (udivmoddi4 num den)"

text \<open>\<open>v\<close> is returned uninitialised when the call does not store it: \<open>None\<close>.\<close>

definition umoddi3 :: "u64 \<Rightarrow> u64 \<Rightarrow> u64 option" where
  "umoddi3 num den = snd (udivmoddi4 num den)"

definition divdi3 :: "u64 \<Rightarrow> u64 \<Rightarrow> u64" where
  "divdi3 num den =
     (let minus = False;
          (num, minus) = (if num <s 0 then (- num, True) else (num, minus));
          (den, minus) = (if den <s 0 then (- den, \<not> minus) else (den, minus));
          v = fst (udivmoddi4 num den)
      in if minus then - v else v)"

definition moddi3 :: "u64 \<Rightarrow> u64 \<Rightarrow> u64 option" where
  "moddi3 num den =
     (let minus = False;
          (num, minus) = (if num <s 0 then (- num, True) else (num, minus));
          (den, minus) = (if den <s 0 then (- den, \<not> minus) else (den, minus))
      in case snd (udivmoddi4 num den) of
           None \<Rightarrow> None
         | Some v \<Rightarrow> Some (if minus then - v else v))"

lemma udivmoddi4_align_inv:
  assumes "udivmoddi4_align den qbit = (den', qbit')"
    "unat qbit = 2 ^ k" "unat den = d * 2 ^ k" "0 < d"
  shows "\<exists>k'. unat qbit' = 2 ^ k' \<and> unat den' = d * 2 ^ k' \<and> 2 ^ 63 \<le> unat den'"
  using assms
proof (induction den qbit arbitrary: k rule: udivmoddi4_align.induct)
  case (1 den qbit)
  have nz: "den \<noteq> 0" using "1.prems"(3,4) by auto
  have msb: "0 \<le>s den \<longleftrightarrow> unat den < 2 ^ 63"
    by (rule sle_zero_iff) simp
  show ?case
  proof (cases "0 \<le>s den")
    case True
    then have small: "2 * unat den < 2 ^ 64" using msb by simp
    then have den2: "unat (push_bit 1 den) = d * 2 ^ Suc k"
      using "1.prems"(3) by (subst unat_push_bit_1) simp_all
    have "unat qbit \<le> unat den" using "1.prems"(2-4) by simp
    then have bt2: "unat (push_bit 1 qbit) = 2 ^ Suc k"
      using small "1.prems"(2) by (subst unat_push_bit_1) simp_all
    have "udivmoddi4_align (push_bit 1 den) (push_bit 1 qbit) = (den', qbit')"
      using True nz "1.prems"(1) by (subst (asm) udivmoddi4_align.simps) simp
    then show ?thesis using "1.IH" True nz bt2 den2 "1.prems"(4) by blast
  next
    case False
    then have eq: "den' = den" "qbit' = qbit"
      using "1.prems"(1) by (auto simp: udivmoddi4_align.simps[of den qbit] split: if_splits)
    show ?thesis using "1.prems"(2,3) False msb by (auto simp: eq)
  qed
qed


interpretation sub64: subtract_loop udivmoddi4_sub "(+)"
  by unfold_locales (rule udivmoddi4_sub.simps, rule refl)

lemma udivmoddi4_nonzero:
  assumes "den \<noteq> 0"
  shows "udivmoddi4 num den = (num div den, Some (num mod den))"
proof -
  have d: "0 < unat den" using assms by (simp add: unat_gt_0)
  obtain den' qbit where al: "udivmoddi4_align den 1 = (den', qbit)" by fastforce
  obtain k where k: "unat qbit = 2 ^ k" "unat den' = unat den * 2 ^ k" "2 ^ 63 \<le> unat den'"
    using udivmoddi4_align_inv[OF al, of 0 "unat den"] d by auto
  have lt: "unat num < 2 * unat den'" using k(3) unat_bound[of num] by simp
  have "unat num div unat den < 2 ^ 64"
    by (rule order_le_less_trans[OF div_le_dividend]) (use unat_bound[of num] in simp)
  then have "udivmoddi4_sub num den' qbit 0
      = (word_of_nat (unat num mod unat den), word_of_nat (unat num div unat den))"
    using sub64.loop_divides[OF k(1,2) lt d, of 0] by simp
  then show ?thesis
    using assms by (simp add: udivmoddi4_def al word_arith_nat_div word_arith_nat_mod)
qed

definition umoddi3_value :: "u64 \<Rightarrow> u64 \<Rightarrow> u64" where
  "umoddi3_value num den = (case umoddi3 num den of None \<Rightarrow> 0 | Some v \<Rightarrow> v)"

interpretation div64: unsigned_division udivdi3 umoddi3_value
  by unfold_locales (simp_all add: udivdi3_def umoddi3_def umoddi3_value_def udivmoddi4_nonzero)

lemma divdi3_unfold:
  "divdi3 a b = (if (a <s 0) \<noteq> (b <s 0) then - udivdi3 (c_abs a) (c_abs b)
                 else udivdi3 (c_abs a) (c_abs b))"
  by (simp add: divdi3_def Let_def udivdi3_def c_abs_def)

lemma moddi3_unfold:
  "b \<noteq> 0 \<Longrightarrow> moddi3 a b = Some (if (a <s 0) \<noteq> (b <s 0) then - umoddi3_value (c_abs a) (c_abs b)
                 else umoddi3_value (c_abs a) (c_abs b))"
  by (simp add: moddi3_def Let_def umoddi3_def umoddi3_value_def c_abs_def udivmoddi4_nonzero)

lemma moddi3_eq:
  assumes "b \<noteq> 0"
  shows "moddi3 a b = Some (if b <s 0 then - word_of_int (sint a smod sint b)
                            else word_of_int (sint a smod sint b))"
  unfolding moddi3_unfold[OF assms] div64.signed_remainder[OF assms, of a, symmetric]
  by simp

subsection \<open>Properties\<close>

text \<open>C10: the multiplication routines compute the product the operator stands for: \<open>__mulsi3\<close> and
  \<open>__muldi3\<close> modulo the width, \<open>__muldsi3\<close> the full 64-bit product of two 32-bit factors.\<close>

theorem soft_multiply_correct:
  "mulsi3 a b = a * b \<and> muldsi3 a b = ucast a * ucast b \<and> muldi3 x y = x * y"
  by (simp add: mulsi3_def mulsi3_loop_eq muldsi3_eq muldi3_eq)

text \<open>32-bit unsigned division and remainder are the operators on words for every nonzero
  divisor; for a zero divisor the loops still end, with quotient 0 (1 for 0 / 0) and the dividend
  as the remainder.\<close>

theorem soft_udiv32_correct:
  "udivsi3 a b = (if b = 0 then (if a = 0 then 1 else 0) else a div b) \<and>
   umodsi3 a b = (if b = 0 then a else a mod b)"
  by (simp add: udivsi3_def umodsi3_def udivmodsi4_nonzero udivmodsi4_by_zero)

text \<open>32-bit signed division truncates towards zero and the remainder takes the sign of the
  dividend, for every nonzero divisor; the one quotient that does not fit, the least number divided
  by -1, wraps to itself.\<close>

theorem soft_sdiv32_correct:
  assumes "b \<noteq> 0"
  shows "divsi3 a b = word_of_int (sint a sdiv sint b) \<and>
    modsi3 a b = word_of_int (sint a smod sint b)"
  using div32.signed_quotient[OF assms, of a] div32.signed_remainder[OF assms, of a]
  by (simp add: divsi3_unfold modsi3_unfold)

theorem soft_sdiv32_correct_witness:
  "divsi3 (-7) 2 = word_of_int (sint (-7 :: u32) sdiv sint (2 :: u32)) \<and>
   divsi3 (-7) 2 = -3 \<and> modsi3 (-7) 2 = -1"
proof -
  have "(2 :: u32) \<noteq> 0" by simp
  from soft_sdiv32_correct[OF this, of "-7"] show ?thesis by simp
qed

text \<open>C11: 64-bit division is the operator on words for every nonzero divisor, unsigned and signed
  (truncating), and the unsigned remainder is the operator's; a zero divisor gives quotient 1 and
  leaves the remainder unset.\<close>

theorem soft_div64_correct:
  "udivdi3 a b = (if b = 0 then 1 else a div b) \<and>
   umoddi3 a b = (if b = 0 then None else Some (a mod b)) \<and>
   (if b = 0 then True else divdi3 a b = word_of_int (sint a sdiv sint b))"
  using div64.signed_quotient[of b a]
  by (simp add: divdi3_unfold udivdi3_def umoddi3_def udivmoddi4_nonzero)
     (simp add: udivmoddi4_def)

text \<open>\<open>__moddi3\<close> returns the C remainder only for a nonnegative divisor; for a negative divisor it
  returns its negation, because the sign of the divisor also toggles \<open>minus\<close>.\<close>

theorem soft_mod64_sign:
  assumes "b \<noteq> 0"
  shows "moddi3 a b = Some (if b <s 0 then - word_of_int (sint a smod sint b)
                            else word_of_int (sint a smod sint b))"
  by (rule moddi3_eq[OF assms])

theorem soft_mod64_sign_witness: "moddi3 7 (-2) = Some (-1) \<and> sint (7 :: u64) smod sint (-2 :: u64) = 1"
proof -
  have "(-2 :: u64) \<noteq> 0" by simp
  from soft_mod64_sign[OF this, of 7] show ?thesis by (simp add: slt_zero)
qed

text \<open>The 64-bit shifts are right for counts up to 31; at 32 the left and the logical right
  shift still are, but the arithmetic right shift keeps the low half in place; for every count above
  32 all three shift a 32-bit half by more than its width, which C does not define.\<close>

theorem soft_shift64_correct:
  "ashldi3 u b = (if b \<le> 32 then Some (push_bit (unat b) u) else None) \<and>
   lshrdi3 u b = (if b \<le> 32 then Some (drop_bit (unat b) u) else None) \<and>
   ashrdi3 u b =
     (if b < 32 then Some (signed_drop_bit (unat b) u)
      else if b = 32 then Some (dw_make (signed_drop_bit 31 (dw_high u)) (dw_low u)) else None)"
  by (simp add: ashldi3_cases lshrdi3_cases ashrdi3_cases)

end
