(* ===== verification/Soft_Float.thy ===== *)
theory Soft_Float
  imports Prelude "HOL-Library.Monad_Syntax"
begin

text \<open>
  The software implementation of IEEE single precision in lib/libc.c (macros in include/libc.h). A
  \<open>float\<close> is its bit pattern, as the code handles it through \<open>union float_long\<close>; \<open>fl.l\<close> is that
  pattern read as signed, \<open>fl.u\<close> as unsigned. Loops whose end depends on their operand are partial
  functions: \<open>None\<close> is a loop that does not end, or a shift count C leaves undefined.

  The reference for comparisons and conversions is the value of a finite float as an integer
  multiple of \<open>2 ^ -149\<close>.
\<close>

unbundle bit_operations_syntax

subsection \<open>Layout\<close>

abbreviation EXCESS :: u32 where "EXCESS \<equiv> 126"
abbreviation SIGNBIT :: u32 where "SIGNBIT \<equiv> 0x80000000"
abbreviation HIDDEN :: u32 where "HIDDEN \<equiv> 0x800000"

definition f_sign :: "u32 \<Rightarrow> u32" where [c_layout]: "f_sign fp = fp AND SIGNBIT"
definition f_exp :: "u32 \<Rightarrow> u32" where [c_layout]: "f_exp fp = drop_bit 23 fp AND 0xff"
definition f_mant :: "u32 \<Rightarrow> u32" where [c_layout]: "f_mant fp = (fp AND 0x7fffff) OR HIDDEN"
definition f_pack :: "u32 \<Rightarrow> u32 \<Rightarrow> u32 \<Rightarrow> u32" where [c_layout]: "f_pack s e m = s OR push_bit 23 e OR m"

subsection \<open>Addition and subtraction\<close>

text \<open>\<open>while (!(mant1 & 0xE0000000))\<close>: a zero mantissa would loop for ever.\<close>

partial_function (option) normalize_up :: "u32 \<Rightarrow> u32 \<Rightarrow> (u32 \<times> u32) option" where
  [code]: "normalize_up m e = (if m AND 0xE0000000 = 0 then normalize_up (push_bit 1 m) (e - 1) else Some (m, e))"

text \<open>\<open>if (mant1 & (1 << 30))\<close>; the mantissa is signed, and positive there.\<close>

definition normalize_down :: "u32 \<times> u32 \<Rightarrow> u32 \<times> u32" where
  "normalize_down = (\<lambda>(m, e). if m AND 0x40000000 \<noteq> 0 then (signed_drop_bit 1 m, e + 1) else (m, e))"

text \<open>Rounding, the second normalisation and the packing, from the normalised mantissa on.\<close>

definition round_pack :: "u32 \<Rightarrow> u32 \<times> u32 \<Rightarrow> u32" where
  "round_pack sb = (\<lambda>(m, e).
     let m = m + (if m AND 0x40 \<noteq> 0 then 0x20 else 0x1F);
         (m, e) = normalize_down (m, e);
         m = signed_drop_bit 6 m;
         m = m AND NOT HIDDEN
     in f_pack sb e m)"

definition addsf3 :: "u32 \<Rightarrow> u32 \<Rightarrow> u32 option" where
  "addsf3 fl1 fl2 =
     (if fl1 = 0 then Some fl2
      else if fl2 = 0 then Some fl1
      else let exp1 = f_exp fl1; exp2 = f_exp fl2 in
        if exp2 + 25 <s exp1 then Some fl1
        else if exp1 + 25 <s exp2 then Some fl2
        else let mant1 = push_bit 6 (f_mant fl1); mant2 = push_bit 6 (f_mant fl2);
                 mant1 = (if f_sign fl1 \<noteq> 0 then - mant1 else mant1);
                 mant2 = (if f_sign fl2 \<noteq> 0 then - mant2 else mant2);
                 (mant1, mant2, exp1) =
                   (if exp2 <s exp1 then (mant1, signed_drop_bit (unat (exp1 - exp2)) mant2, exp1)
                    else (signed_drop_bit (unat (exp2 - exp1)) mant1, mant2, exp2));
                 mant1 = mant1 + mant2
             in if mant1 <s 0 then
                  map_option (round_pack SIGNBIT \<circ> normalize_down) (normalize_up (- mant1) exp1)
                else if mant1 = 0 then Some 0
                else map_option (round_pack 0 \<circ> normalize_down) (normalize_up mant1 exp1))"

text \<open>\<open>-fl2.f\<close> of a float expression is compiled to a flip of the sign bit.\<close>

definition subsf3 :: "u32 \<Rightarrow> u32 \<Rightarrow> u32 option" where
  "subsf3 fl1 fl2 =
     (if fl2 = 0 then Some fl1
      else if fl1 = 0 then Some (fl2 XOR SIGNBIT)
      else addsf3 fl1 (fl2 XOR SIGNBIT))"

subsection \<open>Comparison\<close>

definition cmpsf2 :: "u32 \<Rightarrow> u32 \<Rightarrow> u32" where
  "cmpsf2 fl1 fl2 =
     (if f_sign fl1 \<noteq> 0 \<and> f_sign fl2 \<noteq> 0 then
        let fl1 = fl1 XOR SIGNBIT; fl2 = fl2 XOR SIGNBIT
        in if fl2 <s fl1 then - 1 else if fl1 <s fl2 then 1 else 0
      else if fl1 <s fl2 then - 1 else if fl2 <s fl1 then 1 else 0)"

definition ltsf2 :: "u32 \<Rightarrow> u32 \<Rightarrow> u32" where "ltsf2 a b = - c_bool (cmpsf2 a b <s 0)"
definition lesf2 :: "u32 \<Rightarrow> u32 \<Rightarrow> u32" where "lesf2 a b = c_bool (0 <s cmpsf2 a b)"
definition gtsf2 :: "u32 \<Rightarrow> u32 \<Rightarrow> u32" where "gtsf2 a b = c_bool (0 <s cmpsf2 a b)"
definition gesf2 :: "u32 \<Rightarrow> u32 \<Rightarrow> u32" where "gesf2 a b = c_bool (0 \<le>s cmpsf2 a b) - 1"
definition eqsf2 :: "u32 \<Rightarrow> u32 \<Rightarrow> u32" where "eqsf2 f1 f2 = c_bool (\<not> f1 = f2)"
definition nesf2 :: "u32 \<Rightarrow> u32 \<Rightarrow> u32" where "nesf2 f1 f2 = c_bool (f1 \<noteq> f2)"

subsection \<open>Multiplication and division\<close>

definition mulsf3 :: "u32 \<Rightarrow> u32 \<Rightarrow> u32" where
  "mulsf3 fl1 fl2 =
     (if fl1 = 0 \<or> fl2 = 0 then 0
      else let sb = f_sign fl1 XOR f_sign fl2;
               e = f_exp fl1 - EXCESS + f_exp fl2;
               fl1 = f_mant fl1; fl2 = f_mant fl2;
               r = drop_bit 8 fl1 * drop_bit 8 fl2;
               r = r + drop_bit 8 ((fl1 AND 0xff) * drop_bit 8 fl2);
               r = r + drop_bit 8 ((fl2 AND 0xff) * drop_bit 8 fl1);
               r = drop_bit 2 r;
               (r, e) = (if r AND 0x20000000 \<noteq> 0 then (drop_bit 6 (r + 0x20), e)
                         else (drop_bit 5 (r + 0x10), e - 1));
               (r, e) = (if r AND 0x1000000 \<noteq> 0 then (drop_bit 1 r, e + 1) else (r, e));
               r = r AND NOT HIDDEN
           in f_pack sb e r)"

text \<open>The loop of the division: 25 rounds, one for each bit of the mask.\<close>

function divsf3_loop :: "u32 \<Rightarrow> u32 \<Rightarrow> u32 \<Rightarrow> u32 \<Rightarrow> u32" where
  "divsf3_loop fl1 fl2 mask_bit r =
     (if mask_bit \<noteq> 0 then
        let (r, fl1) = (if fl2 \<le>s fl1 then (r OR mask_bit, fl1 - fl2) else (r, fl1))
        in divsf3_loop (push_bit 1 fl1) fl2 (drop_bit 1 mask_bit) r
      else r)"
  by auto
termination
  by (relation "measure (\<lambda>(fl1, fl2, b, r). unat b)") (auto intro!: unat_drop_bit_less simp flip: One_nat_def)

declare divsf3_loop.simps [simp del]

text \<open>
  A zero divisor returns an integer converted to float: 4294967295 and 2147483647 converted to nearest are \<open>2 ^ 32\<close>
  and \<open>2 ^ 31\<close>. \<open>mask\<close> and \<open>result\<close> are signed, but stay positive.
\<close>

definition divsf3 :: "u32 \<Rightarrow> u32 \<Rightarrow> u32" where
  "divsf3 fl1 fl2 =
     (let e = f_exp fl1 - f_exp fl2 + EXCESS;
          sb = f_sign fl1 XOR f_sign fl2
      in if fl2 = 0 then (if sb \<noteq> 0 then 0x4f800000 else 0x4f000000)
         else if fl1 = 0 then 0
         else let fl1 = f_mant fl1; fl2 = f_mant fl2;
                  (fl1, e) = (if fl1 <s fl2 then (push_bit 1 fl1, e - 1) else (fl1, e));
                  r = divsf3_loop fl1 fl2 0x1000000 0;
                  r = r + 1; e = e + 1;
                  r = signed_drop_bit 1 r;
                  r = r AND NOT HIDDEN
              in f_pack sb e r)"

definition negsf2 :: "u32 \<Rightarrow> u32" where
  "negsf2 fl1 = (if fl1 = 0 then 0 else fl1 XOR SIGNBIT)"

subsection \<open>Conversions\<close>

definition fixsfsi :: "u32 \<Rightarrow> u32" where
  "fixsfsi a =
     (let sb = drop_bit 31 a;
          ae = drop_bit 23 a AND 0xff;
          af = push_bit 7 (0x00800000 OR (a AND 0x007fffff));
          shift = - (ae - 0x80 - 29);
          af = (if 0 <s shift then (if shift <s 31 then signed_drop_bit (unat shift) af else 0) else af)
      in if sb \<noteq> 0 then - af else af)"

text \<open>\<open>__fixunssfsi\<close> has the same body.\<close>

definition fixunssfsi :: "u32 \<Rightarrow> u32" where
  "fixunssfsi a =
     (let sb = drop_bit 31 a;
          ae = drop_bit 23 a AND 0xff;
          af = push_bit 7 (0x00800000 OR (a AND 0x007fffff));
          shift = - (ae - 0x80 - 29);
          af = (if 0 <s shift then (if shift <s 31 then signed_drop_bit (unat shift) af else 0) else af)
      in if sb \<noteq> 0 then - af else af)"

text \<open>The loops that bring the highest bit to position 23; the shift is signed in \<open>__floatsisf\<close>.\<close>

partial_function (option) float_down :: "u32 \<Rightarrow> u32 \<Rightarrow> (u32 \<times> u32) option" where
  [code]: "float_down af ae =
     (if af AND 0xff000000 \<noteq> 0 then float_down (signed_drop_bit 1 af) (ae + 1) else Some (af, ae))"

partial_function (option) float_down_u :: "u32 \<Rightarrow> u32 \<Rightarrow> (u32 \<times> u32) option" where
  [code]: "float_down_u af ae =
     (if af AND 0xff000000 \<noteq> 0 then float_down_u (drop_bit 1 af) (ae + 1) else Some (af, ae))"

partial_function (option) float_up :: "u32 \<Rightarrow> u32 \<Rightarrow> (u32 \<times> u32) option" where
  [code]: "float_up af ae =
     (if af AND 0xff800000 = 0 then float_up (push_bit 1 af) (ae - 1) else Some (af, ae))"

definition floatsisf :: "u32 \<Rightarrow> u32 option" where
  "floatsisf af =
     (let sb = (if 0 \<le>s af then 0 else 1); af = (if 0 \<le>s af then af else - af)
      in if af = 0 then Some 0
         else do {
           (af, ae) \<leftarrow> float_down af (0x80 + 22);
           (af, ae) \<leftarrow> float_up af ae;
           Some (push_bit 31 sb OR push_bit 23 ae OR (af AND 0x007fffff)) })"

definition floatunsisf :: "u32 \<Rightarrow> u32 option" where
  "floatunsisf af =
     (if af = 0 then Some 0
      else do {
        (af, ae) \<leftarrow> float_down_u af (0x80 + 22);
        (af, ae) \<leftarrow> float_up af ae;
        Some (push_bit 23 ae OR (af AND 0x007fffff)) })"

end
