(* ===== verification/Soft_Float_Props.thy ===== *)
theory Soft_Float_Props
  imports Soft_Float
begin

text \<open>
  What the single precision routines guarantee. The reference is \<open>sf_scaled\<close>, the value of a bit
  pattern as an integer multiple of \<open>2 ^ -149\<close>: comparison follows it, conversions are exact where
  the integer fits the mantissa, and the loops that normalise a mantissa end.
\<close>

unbundle bit_operations_syntax


subsection \<open>Comparison orders floats by value\<close>

text \<open>The value of a finite float, as an integer multiple of \<open>2 ^ -149\<close>, from its 31 low bits.\<close>

definition mag_value :: "nat \<Rightarrow> nat" where
  "mag_value m = (if m div 2 ^ 23 = 0 then m mod 2 ^ 23 else (2 ^ 23 + m mod 2 ^ 23) * 2 ^ (m div 2 ^ 23 - 1))"

definition magnitude :: "u32 \<Rightarrow> nat" where
  "magnitude a = unat a mod 2 ^ 31"

definition sf_scaled :: "u32 \<Rightarrow> int" where
  "sf_scaled a = (if f_sign a \<noteq> 0 then - int (mag_value (magnitude a)) else int (mag_value (magnitude a)))"

lemma mag_value_Suc: "mag_value m < mag_value (Suc m)"
proof (cases "Suc (m mod 2 ^ 23) = 2 ^ 23")
  case True
  then have "Suc m div 2 ^ 23 = Suc (m div 2 ^ 23)" "Suc m mod 2 ^ 23 = 0"
    by (simp_all add: div_Suc mod_Suc)
  moreover have "m mod 2 ^ 23 < 2 ^ 23" by (rule mod_less_divisor) simp
  ultimately show ?thesis
    by (cases "m div 2 ^ 23") (simp_all add: mag_value_def)
next
  case False
  then have "Suc m div 2 ^ 23 = m div 2 ^ 23" "Suc m mod 2 ^ 23 = Suc (m mod 2 ^ 23)"
    by (simp_all add: div_Suc mod_Suc)
  then show ?thesis by (simp add: mag_value_def)
qed

lemma mag_value_less_iff [simp]: "mag_value m < mag_value n \<longleftrightarrow> m < n"
  using strict_mono_less[of mag_value m n] mag_value_Suc by (simp add: strict_mono_Suc_iff)

lemma mag_value_0 [simp]: "mag_value 0 = 0"
  by (simp add: mag_value_def)

lemma mag_value_eq_iff [simp]: "mag_value m = mag_value n \<longleftrightarrow> m = n"
  by (metis mag_value_less_iff nat_neq_iff)

lemma mag_value_pos [simp]: "0 < mag_value m \<longleftrightarrow> 0 < m"
  using mag_value_less_iff[of 0 m] by (simp del: mag_value_less_iff)

lemma mag_value_zero_iff [simp]: "mag_value m = 0 \<longleftrightarrow> m = 0"
  using mag_value_eq_iff[of m 0] by (simp del: mag_value_eq_iff)

lemma neg_less_int: "- int x < int y \<longleftrightarrow> 0 < x \<or> 0 < y" "int x < - int y \<longleftrightarrow> False"
  by auto

lemma f_sign_bit: "f_sign a \<noteq> 0 \<longleftrightarrow> bit a 31"
  using and_power_eq_0[of a 31] by (simp add: f_sign_def)

lemma magnitude_bound: "magnitude a < 2 ^ 31"
  by (simp add: magnitude_def)

lemma uint_magnitude: "uint a = int (magnitude a) + (if f_sign a \<noteq> 0 then 2 ^ 31 else 0)"
proof -
  have q: "unat a = unat a div 2 ^ 31 * 2 ^ 31 + magnitude a" by (simp add: magnitude_def)
  have "unat a < 2 * 2 ^ 31" using unat_bound[of a] by simp
  then have "unat a div 2 ^ 31 < 2" by (rule less_mult_imp_div_less)
  moreover have "f_sign a \<noteq> 0 \<longleftrightarrow> odd (unat a div 2 ^ 31)"
    by (simp only: f_sign_bit bit_unat[symmetric] bit_iff_odd)
  ultimately have "unat a div 2 ^ 31 = (if f_sign a \<noteq> 0 then 1 else 0)"
    by (cases "unat a div 2 ^ 31" rule: nat.exhaust) auto
  then have "unat a = (if f_sign a \<noteq> 0 then 2 ^ 31 else 0) + magnitude a" using q by (simp split: if_splits)
  then have "int (unat a) = int ((if f_sign a \<noteq> 0 then 2 ^ 31 else 0) + magnitude a)" by (simp only:)
  then show ?thesis by (simp split: if_splits)
qed

lemma sint_magnitude: "sint a = int (magnitude a) - (if f_sign a \<noteq> 0 then 2 ^ 31 else 0)"
proof -
  have "sint a = signed_take_bit 31 (uint a)" by (simp add: sint_uint)
  also have "\<dots> = uint a - (if f_sign a \<noteq> 0 then 2 ^ 32 else 0)"
    using uint_bounded[of a]
    by (simp add: signed_take_bit_eq_take_bit_minus bit_uint_iff take_bit_int_eq_self f_sign_bit)
  finally show ?thesis using uint_magnitude[of a] by (simp split: if_splits)
qed

lemma float_eq_iff: "a = b \<longleftrightarrow> magnitude a = magnitude b \<and> (f_sign a \<noteq> 0 \<longleftrightarrow> f_sign b \<noteq> 0)"
proof
  assume "magnitude a = magnitude b \<and> (f_sign a \<noteq> 0 \<longleftrightarrow> f_sign b \<noteq> 0)"
  then have "uint a = uint b" unfolding uint_magnitude by simp
  then show "a = b" by (simp add: word_uint_eq_iff)
qed simp

lemma sint_flip_sign:
  assumes "f_sign a \<noteq> 0"
  shows "sint (a XOR SIGNBIT) = int (magnitude a)"
proof -
  have m: "a XOR 2 ^ 31 = a AND mask 31"
    by (rule bit_word_eqI)
       (use assms in \<open>auto simp: f_sign_bit bit_xor_iff bit_and_iff bit_mask_iff bit_exp_iff less_Suc_eq numeral_nat\<close>)
  have "magnitude (a XOR 2 ^ 31) = magnitude a"
    unfolding magnitude_def m unat_and_mask by simp
  moreover have "f_sign (a XOR 2 ^ 31) = 0"
  proof -
    have "\<not> bit (a AND mask 31) 31" by (simp add: bit_and_iff bit_mask_iff)
    then show ?thesis using f_sign_bit m by metis
  qed
  ultimately show ?thesis using sint_magnitude[of "a XOR 2 ^ 31"] by simp
qed

text \<open>Comparison orders floats by their value: the routine gives -1, 0 or 1 as the value of the first
  operand is below, equal to or above that of the second, infinities included; only the two zeros
  are told apart, the negative one below the positive one.\<close>

theorem float_compare:
  "cmpsf2 a b =
     (if sf_scaled a < sf_scaled b then - 1
      else if sf_scaled b < sf_scaled a then 1
      else if a = b then 0 else if a = 0 then 1 else - 1)"
proof -
  have z: "a = 0 \<longleftrightarrow> magnitude a = 0 \<and> f_sign a = 0"
    using float_eq_iff[of a 0] by (simp add: magnitude_def f_sign_def)
  show ?thesis
    using magnitude_bound[of a] magnitude_bound[of b]
    by (cases "f_sign a \<noteq> 0"; cases "f_sign b \<noteq> 0")
       (simp_all add: cmpsf2_def Let_def word_sless_alt sint_flip_sign sint_magnitude[of a] sint_magnitude[of b]
         sf_scaled_def z neg_less_int float_eq_iff[of a b])
qed

subsection \<open>Fields as numbers\<close>

lemma unat_f_exp: "unat (f_exp x) = unat x div 2 ^ 23 mod 256"
proof -
  have m: "(0xff :: u32) = mask 8" by (simp add: mask_eq_exp_minus_1)
  show ?thesis unfolding f_exp_def m unat_and_mask unat_shr by simp
qed

lemma unat_frac: "unat ((x :: u32) AND 0x7fffff) = unat x mod 2 ^ 23"
proof -
  have m: "(0x7fffff :: u32) = mask 23" by (simp add: mask_eq_exp_minus_1)
  show ?thesis unfolding m unat_and_mask ..
qed

lemma unat_or_disjoint:
  fixes x y :: u32
  assumes "\<And>n. \<not> bit x n \<or> \<not> bit y n" "unat x + unat y < 2 ^ 32"
  shows "unat (x OR y) = unat x + unat y"
  using assms(2) disjunctive_add[of x y] assms(1) by (simp add: unat_word_ariths flip: disjunctive_add)

lemma unat_f_mant: "unat (f_mant x) = 2 ^ 23 + unat x mod 2 ^ 23"
proof -
  have m: "(0x7fffff :: u32) = mask 23" "(HIDDEN :: u32) = 2 ^ 23" by (simp_all add: mask_eq_exp_minus_1)
  have fr: "unat x mod 2 ^ 23 < 2 ^ 23" by simp
  have "unat (f_mant x) = unat (x AND mask 23) + unat ((2 :: u32) ^ 23)"
    unfolding f_mant_def m
  proof (rule unat_or_disjoint)
    show "\<not> bit (x AND mask 23) n \<or> \<not> bit ((2 :: u32) ^ 23) n" for n
      by (auto simp only: bit_and_iff bit_mask_iff bit_exp_iff)
    show "unat (x AND mask 23) + unat ((2 :: u32) ^ 23) < 2 ^ 32"
      unfolding unat_and_mask using fr by simp
  qed
  then show ?thesis unfolding unat_and_mask by simp
qed

lemma unat_f_pack:
  assumes "s = 0 \<or> s = SIGNBIT" "unat e < 256" "unat m < 2 ^ 23"
  shows "unat (f_pack s e m) = unat s + unat e * 2 ^ 23 + unat m"
proof -
  have e: "unat (push_bit 23 e) = unat e * 2 ^ 23"
    using assms(2) by (intro unat_shl_no_carry) simp
  have eb: "\<not> bit e n" if "8 \<le> n" for n
  proof -
    have "e < 0x100" using assms(2) by (simp add: word_less_nat_alt)
    then show ?thesis using that by (simp add: less_256_iff)
  qed
  have mb: "\<not> bit m n" if "23 \<le> n" for n
  proof -
    have "take_bit 23 m = m" using assms(3) by (simp add: word_unat_eq_iff unat_low_bits)
    then show ?thesis using that by (metis bit_take_bit_iff not_le)
  qed
  have sb: "\<not> bit s n" if "n \<noteq> 31" for n
  proof -
    have "(SIGNBIT :: u32) = 2 ^ 31" by simp
    then have "s = 0 \<or> s = 2 ^ 31" using assms(1) by simp
    then show ?thesis
    proof
      assume "s = 2 ^ 31"
      then show ?thesis using that by (simp only: bit_exp_iff simp_thms)
    qed simp
  qed
  have es: "unat (s OR push_bit 23 e) = unat s + unat e * 2 ^ 23"
  proof (subst unat_or_disjoint)
    show "\<not> bit s n \<or> \<not> bit (push_bit 23 e) n" for n
      using sb[of n] eb[of "n - 23"] by (cases "n = 31") (simp_all add: bit_push_bit_iff)
    show "unat s + unat (push_bit 23 e) < 2 ^ 32" using assms(1,2) e by auto
    show "unat s + unat (push_bit 23 e) = unat s + unat e * 2 ^ 23" by (simp only: e)
  qed
  show ?thesis
  proof -
    have "unat ((s OR push_bit 23 e) OR m) = unat (s OR push_bit 23 e) + unat m"
    proof (rule unat_or_disjoint)
      show "\<not> bit (s OR push_bit 23 e) n \<or> \<not> bit m n" for n
        using sb[of n] mb[of n] by (cases "23 \<le> n") (simp_all add: bit_or_iff bit_push_bit_iff)
      show "unat (s OR push_bit 23 e) + unat m < 2 ^ 32" using assms es by auto
    qed
    then show ?thesis unfolding f_pack_def or.assoc[symmetric] es .
  qed
qed

lemma high_mask_zero: "(x :: u32) AND NOT (mask k) = 0 \<longleftrightarrow> unat x < 2 ^ k"
proof -
  have "x AND NOT (mask k) = 0 \<longleftrightarrow> take_bit k x = x"
    by (auto simp: bit_eq_iff bit_and_iff bit_not_iff bit_mask_iff bit_take_bit_iff bit_imp_le_length not_less
        dest: bit_imp_le_length)
  also have "\<dots> \<longleftrightarrow> unat x mod 2 ^ k = unat x" by (simp only: word_unat_eq_iff unat_low_bits)
  also have "\<dots> \<longleftrightarrow> unat x < 2 ^ k" by (metis mod_less mod_less_divisor zero_less_numeral zero_less_power)
  finally show ?thesis .
qed

lemma float_conditions:
  "(x :: u32) AND 0xff000000 = 0 \<longleftrightarrow> unat x < 2 ^ 24" "x AND 0xff800000 = 0 \<longleftrightarrow> unat x < 2 ^ 23"
  "x AND 0xE0000000 = 0 \<longleftrightarrow> unat x < 2 ^ 29"
proof -
  have c: "(0xff000000 :: u32) = NOT (mask 24)" "(0xff800000 :: u32) = NOT (mask 23)"
    "(0xE0000000 :: u32) = NOT (mask 29)"
    by (simp_all add: mask_eq_exp_minus_1)
  show "x AND 0xff000000 = 0 \<longleftrightarrow> unat x < 2 ^ 24" "x AND 0xff800000 = 0 \<longleftrightarrow> unat x < 2 ^ 23"
    "x AND 0xE0000000 = 0 \<longleftrightarrow> unat x < 2 ^ 29"
    unfolding c by (rule high_mask_zero)+
qed

subsection \<open>Conversions are exact below \<open>2 ^ 24\<close>\<close>

lemma float_up_shift:
  "2 ^ 23 \<le> unat af * 2 ^ k \<Longrightarrow> unat af * 2 ^ k < 2 ^ 24 \<Longrightarrow>
   float_up af ae = Some (push_bit k af, ae - of_nat k)"
proof (induction k arbitrary: af ae)
  case 0
  then show ?case by (subst float_up.simps) (simp add: float_conditions)
next
  case (Suc k)
  have "unat af * 2 < 2 ^ 24 "
  proof -
    have "unat af * 2 \<le> unat af * 2 ^ Suc k" by (simp add: mult_le_mono2)
    then show ?thesis using Suc.prems(2) by linarith
  qed
  then have lt: "unat af < 2 ^ 23" by simp
  then have u: "unat (push_bit 1 af) = unat af * 2" using unat_push_bit_1[of af] by simp
  have "float_up af ae = float_up (push_bit 1 af) (ae - 1)"
    using lt by (subst float_up.simps) (simp only: float_conditions if_True)
  also have "\<dots> = Some (push_bit k (push_bit 1 af), ae - 1 - of_nat k)"
    using Suc.prems by (intro Suc.IH) (simp_all only: u power_Suc mult.assoc)
  also have "\<dots> = Some (push_bit (Suc k) af, ae - of_nat (Suc k))"
    by (simp add: push_bit_push_bit algebra_simps del: One_nat_def) simp
  finally show ?case .
qed

lemma normal_shift:
  fixes n :: nat
  assumes "0 < n" "n < 2 ^ 24"
  obtains k where "k < 24" "2 ^ 23 \<le> n * 2 ^ k" "n * 2 ^ k < 2 ^ 24"
proof -
  obtain h where h: "2 ^ h \<le> n" "n < 2 ^ (h + 1)" using ex_power_ivl1[of 2 n] assms(1) by auto
  then have "2 ^ h < (2::nat) ^ 24" using assms(2) by linarith
  then have h24: "h < 24" by (simp only: power_strict_increasing_iff)
  show thesis
  proof
    show "23 - h < 24" by simp
    have "2 ^ 23 = 2 ^ h * (2::nat) ^ (23 - h)" "(2::nat) ^ 24 = 2 ^ (h + 1) * 2 ^ (23 - h)"
      using h24 by (simp_all flip: power_add)
    then show "2 ^ 23 \<le> n * 2 ^ (23 - h)" "n * 2 ^ (23 - h) < 2 ^ 24"
      using h by (simp_all only: mult_le_mono1 mult_less_mono1 zero_less_power zero_less_numeral)
  qed
qed


text \<open>The packed result of a conversion of a number below \<open>2 ^ 24\<close>.\<close>

lemma float_normal:
  assumes "0 < unat n" "unat n < 2 ^ 24"
  obtains k m ae where "k < 24" "float_down n (0x80 + 22) = Some (n, 0x80 + 22)"
    "float_down_u n (0x80 + 22) = Some (n, 0x80 + 22)" "float_up n (0x80 + 22) = Some (m, ae)"
    "unat m = unat n * 2 ^ k" "2 ^ 23 \<le> unat m" "unat m < 2 ^ 24" "unat ae = 150 - k"
proof -
  obtain k where k: "k < 24" "2 ^ 23 \<le> unat n * 2 ^ k" "unat n * 2 ^ k < 2 ^ 24"
    using normal_shift[OF assms] .
  show thesis
  proof
    show "k < 24" by fact
    show "float_down n (0x80 + 22) = Some (n, 0x80 + 22)"
      using assms(2) by (subst float_down.simps) (simp add: float_conditions)
    show "float_down_u n (0x80 + 22) = Some (n, 0x80 + 22)"
      using assms(2) by (subst float_down_u.simps) (simp add: float_conditions)
    show "float_up n (0x80 + 22) = Some (push_bit k n, 0x80 + 22 - of_nat k)"
      using k by (intro float_up_shift)
    show m: "unat (push_bit k n) = unat n * 2 ^ k"
      using k by (intro unat_shl_no_carry) simp
    show "2 ^ 23 \<le> unat (push_bit k n)" "unat (push_bit k n) < 2 ^ 24" unfolding m by fact+
    have "unat (of_nat k :: u32) = k" using k(1) by (simp add: unsigned_of_nat take_bit_nat_eq_self)
    then show "unat (0x80 + 22 - of_nat k :: u32) = 150 - k"
      using k(1) unat_sub[of "of_nat k" "150 :: u32"] by (simp add: word_le_nat_alt)
  qed
qed

lemma f_sign_pack:
  assumes "s = 0 \<or> s = SIGNBIT" "unat e < 256" "unat m < 2 ^ 23"
  shows "magnitude (f_pack s e m) = unat e * 2 ^ 23 + unat m" "f_sign (f_pack s e m) \<noteq> 0 \<longleftrightarrow> s \<noteq> 0"
    "f_exp (f_pack s e m) = e" "f_pack s e m AND 0x7fffff = m" "drop_bit 31 (f_pack s e m) \<noteq> 0 \<longleftrightarrow> s \<noteq> 0"
proof -
  let ?f = "f_pack s e m"
  note u = unat_f_pack[OF assms]
  have lt: "unat e * 2 ^ 23 + unat m < 2 ^ 31" using assms(2,3) by simp
  have s31: "unat s = (if s \<noteq> 0 then 2 ^ 31 else 0)" using assms(1) by auto
  have mag: "unat ?f mod 2 ^ 31 = unat e * 2 ^ 23 + unat m"
    using lt by (simp add: u s31 add.assoc)
  then show "magnitude ?f = unat e * 2 ^ 23 + unat m" by (simp only: magnitude_def)
  show sg: "f_sign ?f \<noteq> 0 \<longleftrightarrow> s \<noteq> 0"
  proof -
    have "bit ?f 31 \<longleftrightarrow> 2 ^ 31 \<le> unat ?f" by (rule top_bit_iff) simp
    also have "\<dots> \<longleftrightarrow> s \<noteq> 0" using lt by (simp add: u s31)
    finally show ?thesis by (simp add: f_sign_bit)
  qed
  have split: "unat ?f = ((if s \<noteq> 0 then 256 else 0) + unat e) * 2 ^ 23 + unat m"
    by (simp add: u s31)
  have "unat ?f div 2 ^ 23 = (if s \<noteq> 0 then 256 else 0) + unat e" "unat ?f mod 2 ^ 23 = unat m"
    unfolding split using assms(3) by (simp_all only: div_mult_self3 mod_mult_self3 div_less mod_less)
  then show "f_exp ?f = e" "?f AND 0x7fffff = m"
    using assms(2) by (simp_all add: word_unat_eq_iff unat_f_exp unat_frac)
  have "unat (drop_bit 31 ?f) = (if s \<noteq> 0 then 1 else 0)"
    using lt unfolding unat_shr u s31 by (auto simp: add.assoc intro!: div_nat_eqI)
  then show "drop_bit 31 ?f \<noteq> 0 \<longleftrightarrow> s \<noteq> 0" by (auto simp: word_unat_eq_iff)
qed


lemma sint_small:
  assumes "unat (x :: u32) = n" "n < 2 ^ 31"
  shows "sint x = int n"
proof -
  have "\<not> bit x 31" using assms top_bit_iff[of 31 x] by (simp add: not_le)
  then show ?thesis using assms by (simp add: sint_magnitude f_sign_bit magnitude_def)
qed

lemma sar_pos:
  assumes "unat (x :: u32) < 2 ^ 31"
  shows "signed_drop_bit k x = drop_bit k x"
proof -
  have "\<not> bit x 31" using assms top_bit_iff[of 31 x] by (simp add: not_le)
  then show ?thesis
    by (intro bit_word_eqI)
       (auto simp: bit_signed_drop_bit_iff bit_drop_bit_eq len32 less_Suc_eq dest: bit_imp_le_length)
qed

lemma sint_abs_unat: "int (unat (if 0 \<le>s n then n else - n)) = \<bar>sint (n :: u32)\<bar>"
proof -
  have "(if 0 \<le>s n then n else - n) = c_abs n" by (simp add: c_abs_def word_sle_eq word_sless_alt)
  then show ?thesis using uint_c_abs[of n] by simp
qed

text \<open>Conversions between integers and floats are exact below \<open>2 ^ 24\<close>: the float of such a signed
  integer has exactly its value, the conversion ends, and truncating it back gives the integer.\<close>

theorem float_int_exact:
  assumes "\<bar>sint n\<bar> < 2 ^ 24"
  shows "\<exists>f. floatsisf n = Some f \<and> sf_scaled f = sint n * 2 ^ 149 \<and> fixsfsi f = n"
proof (cases "n = 0")
  case True
  then show ?thesis
    by (simp add: floatsisf_def fixsfsi_def sf_scaled_def magnitude_def Let_def word_sless_alt)
next
  case False
  define p where "p = (if 0 \<le>s n then n else - n)"
  have p: "int (unat p) = \<bar>sint n\<bar>" unfolding p_def by (rule sint_abs_unat)
  have "p \<noteq> 0" using False by (auto simp: p_def)
  then have pos: "0 < unat p" by (simp add: unat_gt_0)
  have "int (unat p) < int (2 ^ 24)" using assms unfolding p by simp
  then have lt: "unat p < 2 ^ 24" by (simp only: of_nat_less_iff)
  obtain k m ae where k: "k < 24" and fd: "float_down p (0x80 + 22) = Some (p, 0x80 + 22)"
    and fu: "float_up p (0x80 + 22) = Some (m, ae)" and m: "unat m = unat p * 2 ^ k" "2 ^ 23 \<le> unat m" "unat m < 2 ^ 24"
    and ae: "unat ae = 150 - k"
    using float_normal[OF pos lt] by metis
  define s where "s = push_bit 31 (if 0 \<le>s n then 0 else 1 :: u32)"
  have s: "s = 0 \<or> s = SIGNBIT" "s \<noteq> 0 \<longleftrightarrow> sint n < 0" by (auto simp: s_def word_sle_eq)
  define f where "f = f_pack s ae (m AND 0x007fffff)"
  have fr: "unat (m AND 0x007fffff) = unat m - 2 ^ 23" "unat (m AND 0x007fffff) < 2 ^ 23"
    using m(2,3) by (simp_all add: unat_frac mod_if)
  have ae256: "unat ae < 256" using ae by simp
  note pk = f_sign_pack[OF s(1) ae256 fr(2), folded f_def]
  have "floatsisf n = Some f"
    using fd fu \<open>p \<noteq> 0\<close> unfolding floatsisf_def Let_def p_def[symmetric]
    by (simp add: f_def f_pack_def s_def or.assoc)
  moreover have "sf_scaled f = sint n * 2 ^ 149"
  proof -
    have "magnitude f div 2 ^ 23 = 150 - k" "magnitude f mod 2 ^ 23 = unat m - 2 ^ 23"
      unfolding pk(1) ae fr(1) using m(2,3) by (simp_all only: div_mult_self3 mod_mult_self3 div_less mod_less) simp_all
    then have "mag_value (magnitude f) = unat m * 2 ^ (149 - k)"
      using k m(2) by (simp add: mag_value_def)
    also have "\<dots> = unat p * 2 ^ 149" using k by (simp add: m(1) mult.assoc flip: power_add)
    finally have "int (mag_value (magnitude f)) = \<bar>sint n\<bar> * 2 ^ 149" using p by simp
    then show ?thesis using pk(2) s(2) by (simp add: sf_scaled_def)
  qed
  moreover have "fixsfsi f = n"
  proof -
    have "unat (f_mant f) = unat m"
      using m(2) pk(4) unat_frac[of f] fr(1) by (simp add: unat_f_mant)
    then have mant: "0x00800000 OR (f AND 0x007fffff) = m"
      by (simp add: word_unat_eq_iff f_mant_def or.commute)
    have sh: "unat (- (ae - 0x80 - 29)) = 7 + k" 
    proof -
      have "- (ae - 0x80 - 29) = 157 - ae" by simp
      then show ?thesis using ae k unat_sub[of ae "157 :: u32"] by (simp add: word_le_nat_alt)
    qed
    have pm: "unat (push_bit 7 m) = unat m * 2 ^ 7"
      using m(3) by (intro unat_shl_no_carry) simp
    have "unat (signed_drop_bit (7 + k) (push_bit 7 m)) = unat p"
    proof -
      have "unat (push_bit 7 m) < 2 ^ 31" unfolding pm using m(3) by simp
      then have "unat (signed_drop_bit (7 + k) (push_bit 7 m)) = unat m * 2 ^ 7 div 2 ^ (7 + k)"
        by (simp only: sar_pos unat_shr pm)
      also have "\<dots> = unat p" unfolding m(1) by (simp add: power_add mult.assoc)
      finally show ?thesis .
    qed
    then have trunc_back: "signed_drop_bit (7 + k) (push_bit 7 m) = p" by (simp add: word_unat_eq_iff)
    have "sint (- (ae - 0x80 - 29)) = int (7 + k)" using k sh by (intro sint_small) simp_all
    then have "0 <s - (ae - 0x80 - 29)" "- (ae - 0x80 - 29) <s 31" using k by (simp_all add: word_sless_alt)
    then show ?thesis
      using pk(3,5) s(2) unfolding fixsfsi_def Let_def f_exp_def[symmetric] pk(3) mant sh trunc_back
      by (auto simp: p_def word_sle_eq)
  qed
  ultimately show ?thesis by blast
qed

theorem float_int_exact_witness:
  "\<exists>f. floatsisf (- 5) = Some f \<and> sf_scaled f = - 5 * 2 ^ 149 \<and> fixsfsi f = - 5"
  using float_int_exact[of "- 5"] by simp

subsection \<open>The normalising loops end\<close>

text \<open>A nonzero mantissa is doubled until a bit reaches the top three, at most 31 times.\<close>

lemma normalize_up_ends:
  assumes "m \<noteq> 0"
  shows "\<exists>r. normalize_up m e = Some r"
  using assms
proof (induction "2 ^ 29 - unat m" arbitrary: m e rule: less_induct)
  case less
  show ?case
  proof (cases "m AND 0xE0000000 = 0")
    case True
    then have lt: "unat m < 2 ^ 29" by (simp only: float_conditions)
    then have u: "unat (push_bit 1 m) = 2 * unat m" using unat_push_bit_1[of m] by simp
    have pos: "0 < unat m" using less.prems by (simp add: unat_gt_0)
    have "push_bit 1 m \<noteq> 0" using u pos by (metis mult_is_0 unat_0 nat_neq_iff zero_neq_numeral)
    moreover have "2 ^ 29 - unat (push_bit 1 m) < 2 ^ 29 - unat m" using lt pos u by simp
    ultimately have "\<exists>r. normalize_up (push_bit 1 m) (e - 1) = Some r" using less.hyps by blast
    then show ?thesis using True by (subst normalize_up.simps) simp
  next
    case False
    then show ?thesis by (subst normalize_up.simps) simp
  qed
qed

lemma float_up_ends:
  assumes "m \<noteq> 0"
  shows "\<exists>r. float_up m e = Some r"
  using assms
proof (induction "2 ^ 23 - unat m" arbitrary: m e rule: less_induct)
  case less
  show ?case
  proof (cases "m AND 0xff800000 = 0")
    case True
    then have lt: "unat m < 2 ^ 23" by (simp only: float_conditions)
    then have u: "unat (push_bit 1 m) = 2 * unat m" using unat_push_bit_1[of m] by simp
    have pos: "0 < unat m" using less.prems by (simp add: unat_gt_0)
    have "push_bit 1 m \<noteq> 0" using u pos by (metis mult_is_0 unat_0 nat_neq_iff zero_neq_numeral)
    moreover have "2 ^ 23 - unat (push_bit 1 m) < 2 ^ 23 - unat m" using lt pos u by simp
    ultimately have "\<exists>r. float_up (push_bit 1 m) (e - 1) = Some r" using less.hyps by blast
    then show ?thesis using True by (subst float_up.simps) simp
  next
    case False
    then show ?thesis by (subst float_up.simps) simp
  qed
qed

text \<open>The loops that halve: the logical one ends for every value, the arithmetic one for a nonnegative one.\<close>

lemma halved_smaller: "(x :: u32) AND 0xff000000 \<noteq> 0 \<Longrightarrow> unat (drop_bit 1 x) < unat x"
  by (intro unat_drop_bit_less) auto

lemma halved_nonzero: "(x :: u32) AND 0xff000000 \<noteq> 0 \<Longrightarrow> drop_bit 1 x \<noteq> 0"
proof -
  assume "x AND 0xff000000 \<noteq> 0"
  then have "2 ^ 24 \<le> unat x" by (simp only: float_conditions not_less)
  then have "0 < unat (drop_bit 1 x)" unfolding unat_drop_bit_1 by simp
  then show ?thesis by (metis unat_0 less_irrefl)
qed

lemma float_down_u_ends: "m \<noteq> 0 \<Longrightarrow> \<exists>r e'. float_down_u m e = Some (r, e') \<and> r \<noteq> 0"
proof (induction "unat m" arbitrary: m e rule: less_induct)
  case less
  show ?case
    using less.hyps[OF halved_smaller halved_nonzero] less.prems
    by (subst float_down_u.simps) simp
qed

lemma float_down_ends:
  "m \<noteq> 0 \<Longrightarrow> unat m < 2 ^ 31 \<Longrightarrow> \<exists>r e'. float_down m e = Some (r, e') \<and> r \<noteq> 0"
proof (induction "unat m" arbitrary: m e rule: less_induct)
  case less
  have s: "signed_drop_bit 1 m = drop_bit 1 m" using less.prems(2) by (rule sar_pos)
  show ?case
  proof (cases "m AND 0xff000000 = 0")
    case False
    have "unat (drop_bit 1 m) < 2 ^ 31" using less.prems(2) halved_smaller[OF False] by simp
    then show ?thesis using less.hyps[OF halved_smaller halved_nonzero] False s
      by (subst float_down.simps) simp
  next
    case True
    then show ?thesis using less.prems(1) by (subst float_down.simps) simp
  qed
qed

text \<open>The arithmetic shift keeps the sign bit, so the loop never leaves a negative value.\<close>

lemma float_down_negative: "bit m 31 \<Longrightarrow> float_down m e = None"
proof (rule ccontr)
  assume "bit m 31" and "float_down m e \<noteq> None"
  then obtain r where "float_down m e = Some r" by auto
  then have "\<not> bit m 31"
  proof (rule float_down.raw_induct[where P = "\<lambda>m e r. \<not> bit m 31", rotated])
    fix f :: "u32 \<Rightarrow> u32 \<Rightarrow> (u32 \<times> u32) option" and af ae r
    assume IH: "\<And>af ae r. f af ae = Some r \<Longrightarrow> \<not> bit af 31"
      and eq: "(if af AND 0xff000000 \<noteq> 0 then f (signed_drop_bit 1 af) (ae + 1) else Some (af, ae)) = Some r"
    show "\<not> bit af 31"
    proof
      assume b: "bit af 31"
      then have "2 ^ 31 \<le> unat af" using top_bit_iff[of 31 af] by simp
      then have "\<not> unat af < 2 ^ 24" by simp
      then have "af AND 0xff000000 \<noteq> 0" by (simp add: float_conditions)
      then have "\<not> bit (signed_drop_bit 1 af) 31" using eq by (intro IH) simp
      then show False using b by (simp add: bit_signed_drop_bit_iff len32)
    qed
  qed
  with \<open>bit m 31\<close> show False by blast
qed

text \<open>C28: Converting a signed integer to float ends for every integer but the smallest one: negated it stays
  negative, and the arithmetic right shift of the loop never clears its top bits. Converting an
  unsigned integer always ends.\<close>

theorem float_conversion_ends:
  "(floatsisf n = None \<longleftrightarrow> n = 0x80000000) \<and> floatunsisf n \<noteq> None"
proof
  have u: "floatunsisf n \<noteq> None"
  proof (cases "n = 0")
    case False
    obtain r e where "float_down_u n (0x80 + 22) = Some (r, e)" "r \<noteq> 0"
      using float_down_u_ends[OF False] by blast
    moreover obtain q where "float_up r e = Some q" using float_up_ends[OF \<open>r \<noteq> 0\<close>] by blast
    ultimately show ?thesis using False by (cases q) (simp add: floatunsisf_def)
  qed (simp add: floatunsisf_def)
  then show "floatunsisf n \<noteq> None" .
  show "floatsisf n = None \<longleftrightarrow> n = 0x80000000"
  proof (cases "n = 0 \<or> n = 0x80000000")
    case True
    moreover have "floatsisf 0x80000000 = None"
    proof -
      have m: "(- 0x80000000 :: u32) = 0x80000000" and n: "\<not> 0 \<le>s (0x80000000 :: u32)" by (simp_all add: word_sle_eq)
      have "float_down 0x80000000 (0x80 + 22) = None" by (rule float_down_negative) simp
      then show ?thesis unfolding floatsisf_def Let_def by (simp only: m n if_False bind.simps) simp
    qed
    ultimately show ?thesis by (auto simp: floatsisf_def Let_def word_sle_eq)
  next
    case False
    define p where "p = (if 0 \<le>s n then n else - n)"
    have "p \<noteq> 0" using False by (auto simp: p_def)
    moreover have "unat p < 2 ^ 31"
    proof -
      have "int (unat p) = \<bar>sint n\<bar>" unfolding p_def by (rule sint_abs_unat)
      moreover have "sint n \<noteq> - (2 ^ 31)"
      proof
        assume "sint n = - (2 ^ 31)"
        then have "sint n = sint (0x80000000 :: u32)" by simp
        then show False using False signed_word_eqI by blast
      qed
      moreover have "- (2 ^ 31) \<le> sint n" "sint n < 2 ^ 31" using sint_ge[of n] sint_lt[of n] by simp_all
      ultimately have "int (unat p) < int (2 ^ 31)" by simp
      then show ?thesis by (simp only: of_nat_less_iff)
    qed
    ultimately obtain r e where "float_down p (0x80 + 22) = Some (r, e)" "r \<noteq> 0"
      using float_down_ends[of p "0x80 + 22"] by blast
    moreover obtain q where "float_up r e = Some q" using float_up_ends[OF \<open>r \<noteq> 0\<close>] by blast
    ultimately show ?thesis using False \<open>p \<noteq> 0\<close> unfolding floatsisf_def Let_def p_def[symmetric]
      by (cases q) simp
  qed
qed

definition signed_mant :: "u32 \<Rightarrow> u32" where
  "signed_mant a = (if f_sign a \<noteq> 0 then - push_bit 6 (f_mant a) else push_bit 6 (f_mant a))"

definition add_finish :: "u32 \<Rightarrow> u32 \<Rightarrow> u32 option" where
  "add_finish m e =
     (if m <s 0 then map_option (round_pack SIGNBIT \<circ> normalize_down) (normalize_up (- m) e)
      else if m = 0 then Some 0
      else map_option (round_pack 0 \<circ> normalize_down) (normalize_up m e))"

lemma f_exp_slt: "f_exp a + 25 <s f_exp b \<longleftrightarrow> unat (f_exp a) + 25 < unat (f_exp b)"
  "f_exp a <s f_exp b \<longleftrightarrow> unat (f_exp a) < unat (f_exp b)"
proof -
  have lt: "unat (f_exp x) < 256" for x unfolding unat_f_exp by simp
  have s: "sint (f_exp x) = int (unat (f_exp x))" for x
    using lt[of x] by (intro sint_small) simp_all
  have s25: "sint (f_exp a + 25) = int (unat (f_exp a) + 25)"
    using lt[of a] by (intro sint_small) (simp_all add: unat_word_ariths)
  show "f_exp a + 25 <s f_exp b \<longleftrightarrow> unat (f_exp a) + 25 < unat (f_exp b)"
    "f_exp a <s f_exp b \<longleftrightarrow> unat (f_exp a) < unat (f_exp b)"
    unfolding word_sless_alt s s25 by (simp_all only: of_nat_less_iff)
qed

lemma addsf3_eq:
  "addsf3 a b =
     (if a = 0 then Some b else if b = 0 then Some a
      else if unat (f_exp b) + 25 < unat (f_exp a) then Some a
      else if unat (f_exp a) + 25 < unat (f_exp b) then Some b
      else if unat (f_exp b) < unat (f_exp a)
        then add_finish (signed_mant a + signed_drop_bit (unat (f_exp a - f_exp b)) (signed_mant b)) (f_exp a)
        else add_finish (signed_drop_bit (unat (f_exp b - f_exp a)) (signed_mant a) + signed_mant b) (f_exp b))"
  unfolding addsf3_def Let_def f_exp_slt signed_mant_def[symmetric]
  by (cases "unat (f_exp b) < unat (f_exp a)") (simp_all only: if_True if_False prod.case add_finish_def)

lemma add_finish_total: "\<exists>r. add_finish m e = Some r"
proof -
  have "\<exists>r. normalize_up (- m) e = Some r" if "m <s 0" using that by (intro normalize_up_ends) auto
  moreover have "\<exists>r. normalize_up m e = Some r" if "m \<noteq> 0" using that by (intro normalize_up_ends)
  ultimately show ?thesis by (auto simp: add_finish_def)
qed

text \<open>Addition and subtraction of floats end for all operands, and addition does not depend on the
  order of its terms: the mantissa is normalised only where the sum is not zero.\<close>

theorem float_add_total:
  "addsf3 a b = addsf3 b a \<and> (\<exists>r. addsf3 a b = Some r) \<and> (\<exists>r. subsf3 a b = Some r)"
proof (intro conjI)
  show "addsf3 a b = addsf3 b a"
  proof (cases "unat (f_exp a) = unat (f_exp b)")
    case True
    then have "f_exp a = f_exp b" by (simp add: word_unat_eq_iff)
    then show ?thesis by (simp add: addsf3_eq add.commute)
  next
    case False
    then show ?thesis unfolding addsf3_eq[of a b] addsf3_eq[of b a]
      by (auto simp: add.commute)
  qed
  have total: "\<exists>r. addsf3 a b = Some r" for a b
    using add_finish_total unfolding addsf3_eq by simp
  then show "\<exists>r. addsf3 a b = Some r" .
  show "\<exists>r. subsf3 a b = Some r" using total by (simp add: subsf3_def)
qed

end
