(* ===== verification/Quotient_Bits.thy ===== *)
theory Quotient_Bits
  imports Prelude
begin

text \<open>
  What the floating point routines of both precisions share: the division loop that produces the bits of a quotient
  from the top, as an interface over words of any width, and the rounding of its result to a mantissa.
\<close>

unbundle bit_operations_syntax

lemma unat_or_no_carry:
  fixes x y :: "'a::len word"
  assumes "\<And>n. \<not> bit x n \<or> \<not> bit y n" "unat x + unat y < 2 ^ LENGTH('a)"
  shows "unat (x OR y) = unat x + unat y"
  using assms(2) disjunctive_add[of x y] assms(1) by (simp add: unat_word_ariths flip: disjunctive_add)

lemma unat_pow2: "j < LENGTH('a::len) \<Longrightarrow> unat ((2 :: 'a word) ^ j) = 2 ^ j"
  using unat_shl_no_carry[of "1 :: 'a word" j] power_strict_increasing[of j "LENGTH('a)" "2 :: nat"]
  by (simp add: push_bit_eq_mult)

lemma or_new_bit:
  fixes r :: "'a::len word"
  assumes "2 ^ Suc j dvd unat r" "j < LENGTH('a)"
  shows "unat (r OR 2 ^ j) = unat r + 2 ^ j"
proof -
  have p: "unat ((2 :: 'a word) ^ j) = 2 ^ j" using assms(2) by (rule unat_pow2)
  obtain k where k: "unat r = 2 ^ Suc j * k" using assms(1) by (auto elim: dvdE)
  have nb: "\<not> bit r j"
  proof -
    have "unat r div 2 ^ j = 2 * k" unfolding k by simp
    then have "even (unat r div 2 ^ j)" by simp
    then show ?thesis unfolding bit_unat[symmetric] bit_iff_odd by simp
  qed
  have "unat (r OR 2 ^ j) = unat r + unat ((2 :: 'a word) ^ j)"
  proof (rule unat_or_no_carry)
    show "\<not> bit r n \<or> \<not> bit ((2 :: 'a word) ^ j) n" for n using nb by (auto simp: bit_exp_iff)
    have pw: "(2 :: nat) ^ LENGTH('a) = 2 ^ Suc j * 2 ^ (LENGTH('a) - Suc j)" using assms(2) by (simp flip: power_add power_Suc)
    have "2 ^ Suc j * k < 2 ^ Suc j * (2::nat) ^ (LENGTH('a) - Suc j)" using unat_bound[of r] unfolding k pw .
    then have "k + 1 \<le> 2 ^ (LENGTH('a) - Suc j)" by simp
    then have "2 ^ Suc j * (k + 1) \<le> (2 :: nat) ^ LENGTH('a)" unfolding pw by (rule mult_le_mono2)
    moreover have "2 ^ Suc j * k + 2 ^ j < 2 ^ Suc j * (k + 1)" by simp
    ultimately show "unat r + unat ((2 :: 'a word) ^ j) < 2 ^ LENGTH('a)" unfolding p k by (rule less_le_trans[rotated])
  qed
  then show ?thesis by (simp only: p)
qed

lemma sar_nonneg:
  fixes x :: "'a::len word"
  assumes "2 * unat x < 2 ^ LENGTH('a)"
  shows "signed_drop_bit k x = drop_bit k x"
proof -
  obtain l where l: "LENGTH('a) = Suc l" using len_gt_0[where 'a = 'a] by (metis Suc_pred)
  then have "\<not> bit x l" using assms top_bit_iff[of l x] by simp
  moreover have "\<not> bit x (k + n)" if "Suc l \<le> k + n" for n using that bit_imp_le_length[of x "k + n"] l by auto
  ultimately show ?thesis
    by (intro bit_word_eqI) (auto simp: bit_signed_drop_bit_iff bit_drop_bit_eq l)
qed

lemma sint_half:
  fixes x :: "'a::len word"
  assumes "2 * unat x < 2 ^ LENGTH('a)"
  shows "sint x = int (unat x)"
proof -
  have "2 * 2 ^ (LENGTH('a) - 1) = (2 :: nat) ^ LENGTH('a)" by (simp flip: power_Suc)
  then have "unat x < 2 ^ (LENGTH('a) - 1)" using assms by linarith
  then have "int (unat x) < 2 ^ (LENGTH('a) - 1)" by (simp flip: of_nat_less_iff[where 'a = int])
  then have "signed_take_bit (LENGTH('a) - 1) (int (unat x)) = int (unat x)"
    by (intro signed_take_bit_int_eq_self order_trans[OF _ of_nat_0_le_iff]) simp_all
  then show ?thesis unfolding sint_uint uint_nat by simp
qed

subsection \<open>The bits of a quotient\<close>

text \<open>
  The contract of a division loop: \<open>loop f g b r\<close> compares, subtracts, shifts the dividend \<open>f\<close> left and the bit
  \<open>b\<close> right until the bit is gone. Only operands with a clear top bit are compared, so a signed comparison will do.
\<close>

locale quotient_bits =
  fixes loop :: "'a::len word \<Rightarrow> 'a word \<Rightarrow> 'a word \<Rightarrow> 'a word \<Rightarrow> 'a word"
  assumes loop_end: "loop f g 0 r = r"
    and loop_round: "b \<noteq> 0 \<Longrightarrow> unat f < 2 ^ (LENGTH('a) - 1) \<Longrightarrow> unat g < 2 ^ (LENGTH('a) - 1) \<Longrightarrow>
      loop f g b r = (if unat g \<le> unat f then loop (push_bit 1 (f - g)) g (drop_bit 1 b) (r OR b)
        else loop (push_bit 1 f) g (drop_bit 1 b) r)"
begin

lemma round:
  assumes "unat f < 2 * unat g" "4 * unat g \<le> 2 ^ LENGTH('a)" "j < LENGTH('a)" "2 ^ Suc j dvd unat r"
  obtains f' r' where "loop f g (2 ^ j) r = loop (push_bit 1 f') g (drop_bit 1 (2 ^ j)) r'"
    "unat f' < unat g" "unat (push_bit 1 f') = 2 * unat f'" "2 ^ j dvd unat r'"
    "unat r + unat f * 2 ^ j div unat g = unat r' + unat f' * 2 ^ j div unat g"
proof -
  define f' where "f' = (if unat g \<le> unat f then f - g else f)"
  define r' where "r' = (if unat g \<le> unat f then r OR 2 ^ j else r)"
  have half: "2 * 2 ^ (LENGTH('a) - 1) = (2 :: nat) ^ LENGTH('a)" by (simp flip: power_Suc)
  have fb: "unat f < 2 ^ (LENGTH('a) - 1)" "unat g < 2 ^ (LENGTH('a) - 1)"
    using assms(1,2) unfolding half[symmetric] by linarith+
  have nz: "(2 :: 'a word) ^ j \<noteq> 0" using unat_pow2[OF assms(3)] by (metis power_not_zero unat_0 zero_neq_numeral)
  have f': "unat f' = unat f - (if unat g \<le> unat f then unat g else 0)"
    by (simp add: f'_def unat_sub word_le_nat_alt)
  have r': "unat r' = unat r + (if unat g \<le> unat f then 2 ^ j else 0)"
    using or_new_bit[OF assms(4,3)] by (simp add: r'_def)
  have lt: "unat f' < unat g" using assms(1) unfolding f' by (simp split: if_split; linarith)
  show thesis
  proof (rule that)
    show "loop f g (2 ^ j) r = loop (push_bit 1 f') g (drop_bit 1 (2 ^ j)) r'"
      using loop_round[OF nz fb] by (simp add: f'_def r'_def)
    show "unat f' < unat g" by (rule lt)
    show "unat (push_bit 1 f') = 2 * unat f'" using lt assms(2) by (intro unat_push_bit_1) linarith
    have "2 ^ j dvd unat r" using assms(4) by (rule power_le_dvd) simp
    then show "2 ^ j dvd unat r'" by (simp add: r')
    show "unat r + unat f * 2 ^ j div unat g = unat r' + unat f' * 2 ^ j div unat g"
    proof (cases "unat g \<le> unat f")
      case True
      then have "unat f = unat f' + unat g" by (simp add: f')
      then have "unat f * 2 ^ j div unat g = unat f' * 2 ^ j div unat g + 2 ^ j"
        using lt by (simp only: add_mult_distrib) simp
      then show ?thesis using True by (simp add: r')
    qed (simp add: f' r')
  qed
qed

lemma quotient:
  assumes "unat f < 2 * unat g" "4 * unat g \<le> 2 ^ LENGTH('a)" "j < LENGTH('a)" "2 ^ Suc j dvd unat r"
  shows "unat (loop f g (2 ^ j) r) = unat r + unat f * 2 ^ j div unat g"
  using assms
proof (induction j arbitrary: f r)
  case 0
  obtain f' r' where st: "loop f g (2 ^ 0) r = loop (push_bit 1 f') g (drop_bit 1 (2 ^ 0)) r'"
    "unat f' < unat g" "unat r + unat f * 2 ^ 0 div unat g = unat r' + unat f' * 2 ^ 0 div unat g"
    using round[OF 0] .
  have "loop (push_bit 1 f') g (drop_bit 1 (2 ^ 0)) r' = r'" using loop_end by simp
  then show ?case using st by simp
next
  case (Suc j)
  obtain f' r' where st: "loop f g (2 ^ Suc j) r = loop (push_bit 1 f') g (drop_bit 1 (2 ^ Suc j)) r'"
    "unat f' < unat g" "unat (push_bit 1 f') = 2 * unat f'" "2 ^ Suc j dvd unat r'"
    "unat r + unat f * 2 ^ Suc j div unat g = unat r' + unat f' * 2 ^ Suc j div unat g"
    using round[OF Suc.prems] .
  have "drop_bit 1 ((2 :: 'a word) ^ Suc j) = 2 ^ j"
    using Suc.prems(3) by (simp add: word_unat_eq_iff unat_shr unat_pow2 del: power_Suc) simp
  then have "loop f g (2 ^ Suc j) r = loop (push_bit 1 f') g (2 ^ j) r'" using st(1) by simp
  moreover have "unat (loop (push_bit 1 f') g (2 ^ j) r') = unat r' + unat (push_bit 1 f') * 2 ^ j div unat g"
    using st Suc.prems(2,3) by (intro Suc.IH) linarith+
  ultimately show ?case using st(3,5) by (simp add: ac_simps)
qed

end

subsection \<open>Rounding to a mantissa\<close>

lemma floor_bounds: "0 < d \<Longrightarrow> d * (x div d) \<le> (x :: nat)" "0 < d \<Longrightarrow> x < d * (x div d) + d"
  using mult_div_mod_eq[of d x] mod_less_divisor[of d x] by linarith+

lemma abs_double: "2 * x \<le> 2 * y + n \<Longrightarrow> 2 * y \<le> 2 * x + n \<Longrightarrow> 2 * \<bar>x - y\<bar> \<le> (n :: int)"
  by (simp add: abs_if)

lemma signed_product:
  fixes s b g h r n :: int
  assumes "s = g * h * (r * p)" "b = h * (n * c)" "h * h = 1" "p * c = x"
  shows "s * b = g * (r * n) * x"
proof -
  have "s * b = g * (h * h) * (r * n) * (p * c)" unfolding assms(1,2) by (simp only: ac_simps)
  then show ?thesis using assms(3,4) by simp
qed

text \<open>The quotient of two mantissas to one bit more than the precision, rounded; it never reaches the next power of two.\<close>

lemma quotient_round:
  fixes m n p :: nat
  assumes "n \<le> m" "m < 2 * n" "2 ^ p \<le> n" "n < 2 ^ Suc p" "even m \<or> m < 2 ^ Suc p" "0 < p"
  defines "q \<equiv> m * 2 ^ Suc p div n" and "r \<equiv> (m * 2 ^ Suc p div n + 1) div 2"
  shows "2 ^ p \<le> r" "r < 2 ^ Suc p" "2 * \<bar>int r * int n - int m * 2 ^ p\<bar> \<le> int n" "q < 2 ^ Suc (Suc p)"
proof -
  define P where "P = (2 :: nat) ^ p"
  have P: "2 ^ Suc p = 2 * P" "2 ^ Suc (Suc p) = 4 * P" "2 ^ p = P" "2 \<le> P"
    using assms(6) self_le_power[of "2 :: nat" p] by (simp_all add: P_def)
  have n: "P \<le> n" "n < 2 * P" using assms(3,4) by (simp_all add: P_def)
  have q: "n * q \<le> m * (2 * P)" "m * (2 * P) < n * q + n" unfolding q_def P by (rule floor_bounds, use n P(4) in simp)+
  have r: "2 * r \<le> q + 1" "q + 1 < 2 * r + 2" unfolding r_def q_def by (rule floor_bounds, simp)+
  have "2 * P \<le> q" unfolding q_def P using assms(1) n P(4) by (subst less_eq_div_iff_mult_less_eq) (simp_all)
  then show "2 ^ p \<le> r" using r by (simp add: P)
  have "m * (2 * P) < n * (4 * P - 1)"
  proof (cases "m + 2 \<le> 2 * n")
    case True
    then have "(m + 2) * (2 * P) \<le> 2 * n * (2 * P)" by (rule mult_le_mono1)
    then have "m * (2 * P) + 4 * P \<le> n * (4 * P)" by (simp add: algebra_simps)
    moreover have "n * (4 * P - 1) = n * (4 * P) - n" by (simp add: right_diff_distrib')
    ultimately show ?thesis using n P(4) by linarith
  next
    case False
    then have m: "m + 1 = 2 * n" using assms(2) by simp
    then have "odd m" by presburger
    then have "m < 2 * P" using assms(5) unfolding P(1) by blast
    then have "n = P" using m n by linarith
    moreover have "m = 2 * P - 1" using m calculation by simp
    moreover have "(2 * P - 1) * (2 * P) < P * (4 * P - 1)"
    proof -
      have "(2 * P - 1) * (2 * P) = 4 * (P * P) - 2 * P" "P * (4 * P - 1) = 4 * (P * P) - P"
        by (simp_all add: algebra_simps diff_mult_distrib diff_mult_distrib2)
      moreover have "P \<le> P * P" using P(4) by simp
      ultimately show ?thesis using P(4) by linarith
    qed
    ultimately show ?thesis by simp
  qed
  then have "q < 4 * P - 1" unfolding q_def P using n P(4) by (intro less_mult_imp_div_less) (simp add: mult.commute)
  then show "q < 2 ^ Suc (Suc p)" "r < 2 ^ Suc p" using r unfolding P by linarith+
  have "2 * (r * n) \<le> (q + 1) * n" "(q + 1) * n \<le> (2 * r + 1) * n"
    using mult_le_mono1[OF r(1), of n] mult_le_mono1[of "q + 1" "2 * r + 1" n] r(2) by simp_all
  then have b: "2 * (r * n) \<le> q * n + n" "q * n \<le> 2 * (r * n)" by (simp_all add: algebra_simps)
  have "q * n \<le> 2 * (m * P)" "2 * (m * P) \<le> q * n + n" using q by (simp_all add: ac_simps)
  then have "2 * (r * n) \<le> 2 * (m * P) + n" "2 * (m * P) \<le> 2 * (r * n) + n" using b by linarith+
  then have "2 * (int r * int n) \<le> 2 * (int m * int P) + int n" "2 * (int m * int P) \<le> 2 * (int r * int n) + int n"
    by (simp_all flip: of_nat_le_iff[where 'a = int])
  then have "2 * \<bar>int r * int n - int m * int P\<bar> \<le> int n" by (rule abs_double)
  then show "2 * \<bar>int r * int n - int m * 2 ^ p\<bar> \<le> int n" by (simp add: P_def)
qed

text \<open>From the mantissas to the values: the quotient of two floats is off by at most half a unit in the last place.\<close>

lemma quotient_value:
  fixes s b a g h r n m :: int
  assumes s: "s = g * h * (r * 2 ^ es)" and b: "b = h * (n * 2 ^ eb)" and a: "a = g * (m * 2 ^ ea)"
    and sg: "g = 1 \<or> g = - 1" "h = 1 \<or> h = - 1" and e: "ea + c = k + p + (es + eb)"
    and le: "n \<le> 2 ^ k * m" and err: "2 * \<bar>r * n - 2 ^ k * m * 2 ^ p\<bar> \<le> n"
  shows "2 ^ Suc p * \<bar>s * b - a * 2 ^ c\<bar> \<le> \<bar>a * 2 ^ c\<bar>"
proof -
  define x where "x = es + eb"
  define y where "y = 2 ^ k * m"
  have "h * h = 1" using sg(2) by auto
  then have l: "s * b = g * (r * n) * 2 ^ x" by (rule signed_product[OF s b]) (simp only: x_def power_add)
  have "(2 :: int) ^ ea * 2 ^ c = 2 ^ k * 2 ^ p * 2 ^ x" unfolding x_def power_add[symmetric] e ..
  then have r: "a * 2 ^ c = g * (y * 2 ^ p) * 2 ^ x" unfolding a y_def by (simp only: ac_simps)
  have g: "\<bar>g\<bar> = 1" using sg(1) by auto
  have "0 \<le> n" by (rule order_trans[OF _ err]) simp
  then have y: "0 \<le> y" using le by (simp only: y_def)
  have "2 * \<bar>r * n - y * 2 ^ p\<bar> \<le> y" unfolding y_def by (rule order_trans[OF err le])
  then have "2 ^ p * (2 * \<bar>r * n - y * 2 ^ p\<bar>) \<le> 2 ^ p * y" by (rule mult_left_mono) simp
  then have "2 ^ Suc p * \<bar>r * n - y * 2 ^ p\<bar> \<le> y * 2 ^ p" by (simp only: power_Suc ac_simps)
  then have "2 ^ Suc p * \<bar>r * n - y * 2 ^ p\<bar> * 2 ^ x \<le> y * 2 ^ p * 2 ^ x" by (rule mult_right_mono) simp
  moreover have "\<bar>s * b - a * 2 ^ c\<bar> = \<bar>r * n - y * 2 ^ p\<bar> * 2 ^ x"
    unfolding l r left_diff_distrib[symmetric] right_diff_distrib[symmetric] abs_mult g by simp
  moreover have "\<bar>a * 2 ^ c\<bar> = y * 2 ^ p * 2 ^ x" unfolding r abs_mult g using y by simp
  ultimately show ?thesis by (simp only: mult.assoc)
qed

text \<open>
  The best approximation: a value of the format, with \<open>p\<close> bits behind the leading one, is a multiple of the unit
  \<open>2 ^ x\<close> or at most \<open>2 ^ p\<close> units; so a quotient that is off by at most half a unit, and not below \<open>2 ^ p\<close> units,
  is at least as close as any of them.
\<close>

lemma float_grid:
  fixes p x m :: nat
  defines "v \<equiv> (if m div 2 ^ p = 0 then m mod 2 ^ p else (2 ^ p + m mod 2 ^ p) * 2 ^ (m div 2 ^ p - 1))"
  shows "2 ^ x dvd v \<or> v \<le> 2 ^ p * 2 ^ x"
proof -
  have f: "m mod 2 ^ p < 2 ^ p" by simp
  have one: "(1 :: nat) \<le> 2 ^ x" by simp
  define E where "E = m div 2 ^ p - 1"
  consider "m div 2 ^ p = 0" | "m div 2 ^ p \<noteq> 0" "x \<le> E" | "m div 2 ^ p \<noteq> 0" "Suc E \<le> x" by linarith
  then show ?thesis
  proof cases
    case 1
    then have "v \<le> 2 ^ p * 1" using f by (simp add: v_def)
    also have "\<dots> \<le> 2 ^ p * 2 ^ x" using one by (rule mult_le_mono2)
    finally show ?thesis ..
  next
    case 2
    have "(2 :: nat) ^ x dvd 2 ^ E" using 2(2) by (rule le_imp_power_dvd)
    then have "2 ^ x dvd v" using 2(1) unfolding v_def E_def by simp
    then show ?thesis ..
  next
    case 3
    have "v \<le> (2 ^ p + 2 ^ p) * 2 ^ E" using 3(1) f unfolding v_def E_def[symmetric] by simp
    also have "\<dots> = 2 ^ p * 2 ^ Suc E" by simp
    also have "\<dots> \<le> 2 ^ p * 2 ^ x" using power_increasing[OF 3(2), of "2 :: nat"] by (intro mult_le_mono2) simp
    finally show ?thesis ..
  qed
qed

lemma nearest_multiple:
  fixes u B A N r c :: int
  assumes "0 < u" "0 < B" "0 \<le> N" "2 * \<bar>r * u * B - A\<bar> \<le> u * B" "N * u * B \<le> A" "u dvd c \<or> \<bar>c\<bar> \<le> N * u"
  shows "\<bar>r * u * B - A\<bar> \<le> \<bar>c * B - A\<bar>"
proof (cases "u dvd c")
  case True
  then obtain d where c: "c = u * d" ..
  show ?thesis
  proof (cases "d = r")
    case False
    then have "1 \<le> \<bar>d - r\<bar>" by linarith
    then have "u * B * 1 \<le> u * B * \<bar>d - r\<bar>" using assms(1,2) by (intro mult_left_mono) simp_all
    also have "\<dots> = \<bar>u * B * (d - r)\<bar>" using assms(1,2) by (simp only: abs_mult abs_of_pos)
    also have "u * B * (d - r) = (c * B - A) - (r * u * B - A)" by (simp add: c algebra_simps)
    finally have "u * B \<le> \<bar>(c * B - A) - (r * u * B - A)\<bar>" by (simp only: mult_1_right)
    moreover have "U \<le> \<bar>w - y\<bar> \<Longrightarrow> 2 * \<bar>y\<bar> \<le> U \<Longrightarrow> \<bar>y\<bar> \<le> \<bar>w\<bar>" for U w y :: int by linarith
    ultimately show ?thesis using assms(4) by blast
  qed (simp add: c mult.commute)
next
  case False
  then have "c \<le> N * u" using assms(6) by linarith
  then have c: "c * B \<le> N * u * B" using assms(2) by (intro mult_right_mono) simp_all
  show ?thesis
  proof (cases "r \<le> N")
    case True
    then have "r * (u * B) \<le> N * (u * B)" using assms(1,2) by (intro mult_right_mono) simp_all
    then have le: "r * u * B \<le> N * u * B" by (simp only: mult.assoc)
    show ?thesis
    proof (cases "r = N")
      case True
      then show ?thesis using c assms(5) unfolding True by linarith
    next
      case False
      then have "(r + 1) * (u * B) \<le> N * (u * B)" using \<open>r \<le> N\<close> assms(1,2) by (intro mult_right_mono) simp_all
      then have "r * u * B + u * B \<le> N * u * B" by (simp only: distrib_right mult_1 mult.assoc)
      moreover have "0 < u * B" using assms(1,2) by simp
      moreover have "x + U \<le> y \<Longrightarrow> y \<le> A \<Longrightarrow> 0 < U \<Longrightarrow> \<not> 2 * \<bar>x - A\<bar> \<le> U" for x y U :: int
        by (simp add: abs_if)
      ultimately show ?thesis using assms(4,5) by blast
    qed
  next
    case False
    then have "(N + 1) * (u * B) \<le> r * (u * B)" using assms(1,2) by (intro mult_right_mono) simp_all
    then have "N * u * B + u * B \<le> r * u * B" by (simp only: distrib_right mult_1 mult.assoc)
    moreover have "n + U \<le> x \<Longrightarrow> d \<le> n \<Longrightarrow> 2 * \<bar>x - A\<bar> \<le> U \<Longrightarrow> \<bar>x - A\<bar> \<le> \<bar>d - A\<bar>" for n U x d :: int
      by (simp add: abs_if split: if_splits)
    ultimately show ?thesis using c assms(4) by blast
  qed
qed

lemma quotient_nearest:
  fixes s b a g h r n m z :: int
  assumes s: "s = g * h * (r * 2 ^ es)" and b: "b = h * (n * 2 ^ eb)" and a: "a = g * (m * 2 ^ ea)"
    and sg: "g = 1 \<or> g = - 1" "h = 1 \<or> h = - 1" and e: "ea + c = k + p + (es + eb)"
    and le: "n \<le> 2 ^ k * m" and err: "2 * \<bar>r * n - 2 ^ k * m * 2 ^ p\<bar> \<le> n" and n: "0 < n"
    and z: "2 ^ es dvd z \<or> \<bar>z\<bar> \<le> 2 ^ p * 2 ^ es"
  shows "\<bar>s * b - a * 2 ^ c\<bar> \<le> \<bar>z * b - a * 2 ^ c\<bar>"
proof -
  define u :: int where "u = 2 ^ es"
  define B where "B = n * 2 ^ eb"
  define A where "A = 2 ^ k * m * 2 ^ p * (u * 2 ^ eb)"
  have pos: "0 < u" "0 < B" "0 < u * 2 ^ eb" using n by (simp_all add: u_def B_def)
  have "(2 :: int) ^ ea * 2 ^ c = 2 ^ k * 2 ^ p * (2 ^ es * 2 ^ eb)" unfolding power_add[symmetric] e ..
  then have r: "a * 2 ^ c = g * A" unfolding a A_def u_def by (simp only: ac_simps)
  have hh: "h * h = 1" "g * g = 1" using sg by auto
  have l: "s * b = g * (r * u * B)"
  proof -
    have "s * b = h * h * (g * (r * u * B))" unfolding s b u_def B_def by (simp only: ac_simps)
    then show ?thesis by (simp only: hh mult_1)
  qed
  have zb: "z * b = g * ((g * h * z) * B)"
  proof -
    have "g * ((g * h * z) * B) = g * g * (z * (h * B))" by (simp only: ac_simps)
    then show ?thesis unfolding hh b B_def by (simp only: mult_1)
  qed
  have g: "\<bar>g * x - g * y\<bar> = \<bar>x - y\<bar>" for x y using sg(1) by auto
  show ?thesis unfolding l r zb g
  proof (rule nearest_multiple[of u B "2 ^ p"])
    define t where "t = u * 2 ^ eb"
    have t: "0 < t" using pos(3) by (simp only: t_def)
    have "2 * \<bar>r * n - 2 ^ k * m * 2 ^ p\<bar> * t \<le> n * t" using err t by (intro mult_right_mono) simp_all
    moreover have "r * u * B - A = (r * n - 2 ^ k * m * 2 ^ p) * t" by (simp add: A_def B_def t_def algebra_simps)
    moreover have "u * B = n * t" by (simp only: B_def t_def ac_simps)
    ultimately show "2 * \<bar>r * u * B - A\<bar> \<le> u * B" using t by (simp only: abs_mult abs_of_pos mult.assoc)
    have "n * (2 ^ p * (u * 2 ^ eb)) \<le> 2 ^ k * m * (2 ^ p * (u * 2 ^ eb))" using le pos(3) by (intro mult_right_mono) simp_all
    then show "2 ^ p * u * B \<le> A" by (simp only: A_def B_def ac_simps)
    have "\<bar>g * h * z\<bar> = \<bar>z\<bar>" using sg by auto
    moreover have "2 ^ es dvd g * h * z" if "2 ^ es dvd z" using that by simp
    ultimately show "u dvd g * h * z \<or> \<bar>g * h * z\<bar> \<le> 2 ^ p * u" using z by (auto simp: u_def)
  qed (use pos in simp_all)
qed

text \<open>Packing: fields that do not overlap add up.\<close>

lemma unat_or_aligned:
  fixes x y :: "'a::len word"
  assumes "2 ^ k dvd unat x" "unat y < 2 ^ k" "k \<le> LENGTH('a)"
  shows "unat (x OR y) = unat x + unat y"
proof (rule unat_or_no_carry)
  obtain q where q: "unat x = 2 ^ k * q" using assms(1) by (auto elim: dvdE)
  have "\<not> bit (unat x) n" if "n < k" for n
    using that unfolding q mult.commute[of "2 ^ k"] push_bit_eq_mult[symmetric] bit_push_bit_iff by simp
  moreover have "\<not> bit (unat y) n" if "k \<le> n" for n
  proof -
    have "take_bit k (unat y) = unat y" using assms(2) by (simp add: take_bit_nat_eq_self)
    then show ?thesis using that by (metis bit_take_bit_iff not_le)
  qed
  ultimately show "\<not> bit x n \<or> \<not> bit y n" for n unfolding bit_unat[symmetric] by (meson not_le)
  have "2 ^ k * q < 2 ^ k * (2 :: nat) ^ (LENGTH('a) - k)"
    using unat_bound[of x] assms(3) unfolding q by (simp flip: power_add)
  then have "q + 1 \<le> 2 ^ (LENGTH('a) - k)" by simp
  then have "2 ^ k * (q + 1) \<le> 2 ^ k * (2 :: nat) ^ (LENGTH('a) - k)" by (rule mult_le_mono2)
  then show "unat x + unat y < 2 ^ LENGTH('a)" using assms(2,3) unfolding q by (simp flip: power_add)
qed

lemma clear_top:
  fixes r :: "'a::len word"
  assumes "2 ^ k \<le> unat r" "unat r < 2 ^ Suc k"
  shows "unat (r AND NOT (2 ^ k)) = unat r - 2 ^ k"
proof -
  have "r AND NOT (2 ^ k) = r AND mask k"
  proof (rule bit_word_eqI)
    fix n assume n: "n < LENGTH('a)"
    have "take_bit (Suc k) r = r" using assms(2) by (simp add: word_unat_eq_iff unat_low_bits)
    then have "n < Suc k" if "bit r n" using that by (metis bit_take_bit_iff)
    then have "bit r n \<Longrightarrow> n \<noteq> k \<longleftrightarrow> n < k" by fastforce
    then show "bit (r AND NOT (2 ^ k)) n = bit (r AND mask k) n"
      using n by (auto simp only: bit_and_iff bit_not_iff bit_exp_iff bit_mask_iff possible_bit_word)
  qed
  moreover have "unat r mod 2 ^ k = unat r - 2 ^ k" using assms by (simp add: mod_if)
  ultimately show ?thesis by (simp only: unat_and_mask)
qed

end
