(* ===== verification/Soft_Float_Round.thy ===== *)
theory Soft_Float_Round
  imports Soft_Float_Props Quotient_Bits
begin

text \<open>
  The accuracy of the single precision product and quotient: the packed result against the exact
  product and quotient of the values. The mantissa arithmetic is brought to naturals first
  (\<open>mul_top_unat\<close>, the interpretation \<open>single_quotient\<close>), then rounding is bounded there.
\<close>

unbundle bit_operations_syntax

subsection \<open>Products and quotients are within a rounding error\<close>

text \<open>The value of a packed float with a normal exponent.\<close>

lemma f_pack_scaled:
  assumes "s = 0 \<or> s = SIGNBIT" "1 \<le> unat e" "unat e < 256" "2 ^ 23 \<le> unat r" "unat r < 2 ^ 24"
  shows "sf_scaled (f_pack s e (r AND NOT HIDDEN)) = (if s \<noteq> 0 then - 1 else 1) * (int (unat r) * 2 ^ (unat e - 1))"
proof -
  have fr: "r AND NOT HIDDEN = r AND 0x7fffff"
  proof -
    have hi: "n < 24" if "bit r n" for n
    proof -
      have "take_bit 24 r = r" using assms(5) by (simp add: word_unat_eq_iff unat_low_bits)
      then show ?thesis using that by (metis bit_take_bit_iff)
    qed
    have "n \<noteq> 23 \<longleftrightarrow> n < 23" if "bit r n" for n using hi[OF that] by linarith
    moreover have h: "(HIDDEN :: u32) = 2 ^ 23" "(0x7fffff :: u32) = mask 23" by (simp_all add: mask_eq_exp_minus_1)
    ultimately show ?thesis unfolding h
      by (intro bit_word_eqI) (auto simp only: bit_and_iff bit_not_iff bit_exp_iff bit_mask_iff)
  qed
  have u: "unat (r AND 0x7fffff) = unat r - 2 ^ 23" "unat (r AND 0x7fffff) < 2 ^ 23"
    using assms(4,5) by (simp_all add: unat_frac mod_if)
  note pk = f_sign_pack[OF assms(1,3) u(2)]
  have "magnitude (f_pack s e (r AND 0x7fffff)) div 2 ^ 23 = unat e"
    "magnitude (f_pack s e (r AND 0x7fffff)) mod 2 ^ 23 = unat r - 2 ^ 23"
    unfolding pk(1) u(1) using assms(5) by (simp_all only: div_mult_self3 mod_mult_self3 div_less mod_less) simp_all
  then have "mag_value (magnitude (f_pack s e (r AND 0x7fffff))) = unat r * 2 ^ (unat e - 1)"
    using assms(2,4) by (simp add: mag_value_def)
  then show ?thesis unfolding fr sf_scaled_def pk(2) by (simp only: mult_minus1 mult_1 of_nat_mult of_nat_power of_nat_numeral split: if_split) simp
qed

lemma sf_scaled_normal:
  assumes "1 \<le> unat (f_exp a)"
  shows "sf_scaled a = (if f_sign a \<noteq> 0 then - 1 else 1) * (int (unat (f_mant a)) * 2 ^ (unat (f_exp a) - 1))"
proof -
  have "magnitude a div 2 ^ 23 = unat a div 2 ^ 23 mod 256"
    unfolding magnitude_def using div_exp_mod_exp_eq[of "unat a" 23 8] by simp
  then have q: "magnitude a div 2 ^ 23 = unat (f_exp a)" by (simp only: unat_f_exp)
  have "magnitude a mod 2 ^ 23 = unat a mod 2 ^ 23"
    unfolding magnitude_def by (simp add: mod_mod_cancel)
  then have "mag_value (magnitude a) = unat (f_mant a) * 2 ^ (unat (f_exp a) - 1)"
    using assms by (simp only: mag_value_def q unat_f_mant) simp
  then show ?thesis by (simp add: sf_scaled_def)
qed

lemma f_mant_bounds: "2 ^ 23 \<le> unat (f_mant a)" "unat (f_mant a) < 2 ^ 24"
  by (simp_all add: unat_f_mant)


text \<open>The steps of the product on the two halves of each mantissa: none of them carries out of 32 bits.\<close>

definition mul_top :: "u32 \<Rightarrow> u32 \<Rightarrow> u32" where
  "mul_top m n = drop_bit 2 (drop_bit 8 m * drop_bit 8 n + drop_bit 8 ((m AND 0xff) * drop_bit 8 n)
     + drop_bit 8 ((n AND 0xff) * drop_bit 8 m))"

lemma floor_arith:
  fixes a b w x y z :: nat
  assumes "256 * a \<le> x" "x < 256 * a + 256" "256 * b \<le> y" "y < 256 * b + 256" "z < 65536"
  shows "65536 * (w + a + b) \<le> 65536 * w + 256 * x + 256 * y + z"
    "65536 * w + 256 * x + 256 * y + z < 65536 * (w + a + b) + 196608"
proof -
  show "65536 * (w + a + b) \<le> 65536 * w + 256 * x + 256 * y + z" using assms unfolding distrib_left by linarith
  show "65536 * w + 256 * x + 256 * y + z < 65536 * (w + a + b) + 196608" using assms unfolding distrib_left by linarith
qed

lemma quarter_arith:
  fixes q r p :: nat
  assumes "4 * q \<le> r" "r < 4 * q + 4" "65536 * r \<le> p" "p < 65536 * r + 196608"
  shows "2 ^ 18 * q \<le> p" "p < 2 ^ 18 * q + 6 * 2 ^ 16"
proof -
  have "262144 * q \<le> p" using assms by linarith
  then show "2 ^ 18 * q \<le> p" by simp
  have "p < 262144 * q + 393216" using assms by linarith
  then show "p < 2 ^ 18 * q + 6 * 2 ^ 16" by simp
qed

lemma partial_products:
  fixes h l g k :: nat
  assumes "l < 256" "k < 256"
  defines "p \<equiv> (h * 256 + l) * (g * 256 + k)" and "r \<equiv> h * g + l * g div 256 + k * h div 256"
  shows "65536 * r \<le> p" "p < 65536 * r + 196608"
proof -
  have p: "p = 65536 * (h * g) + 256 * (l * g) + 256 * (k * h) + l * k"
    by (simp add: p_def algebra_simps)
  have lk: "l * k < 65536" using mult_strict_mono'[OF assms(1,2)] by simp
  show "65536 * r \<le> p" "p < 65536 * r + 196608"
    unfolding p r_def by (rule floor_arith; (rule lk | rule floor_bounds, simp))+
qed

lemma mul_top_unat:
  assumes "unat m < 2 ^ 24" "unat n < 2 ^ 24"
  shows "unat (mul_top m n) =
    (unat m div 256 * (unat n div 256) + unat m mod 256 * (unat n div 256) div 256
      + unat n mod 256 * (unat m div 256) div 256) div 4"
proof -
  have lo: "unat ((x :: u32) AND 0xff) = unat x mod 256" for x
    using unat_and_mask[of x 8] by (simp add: mask_eq_exp_minus_1)
  let ?h = "unat m div 256" and ?g = "unat n div 256" and ?l = "unat m mod 256" and ?k = "unat n mod 256"
  have b: "?h \<le> 65535" "?g \<le> 65535" using assms by simp_all
  have l: "?l \<le> 255" "?k \<le> 255" by (simp_all add: less_Suc_eq_le[symmetric])
  have hg: "?h * ?g \<le> 4294836225" using mult_le_mono[OF b] by simp
  have lg: "?l * ?g \<le> 16711425" "?k * ?h \<le> 16711425"
    using mult_le_mono[OF l(1) b(2)] mult_le_mono[OF l(2) b(1)] by simp_all
  have dg: "?l * ?g div 256 \<le> 65279" "?k * ?h div 256 \<le> 65279"
    using div_le_mono[OF lg(1), of 256] div_le_mono[OF lg(2), of 256] by simp_all
  have "unat (drop_bit 8 m * drop_bit 8 n) = ?h * ?g"
    using hg by (simp add: unat_word_ariths unat_shr)
  moreover have "unat (drop_bit 8 ((m AND 0xff) * drop_bit 8 n)) = ?l * ?g div 256"
    using lg by (simp add: unat_word_ariths unat_shr lo)
  moreover have "unat (drop_bit 8 ((n AND 0xff) * drop_bit 8 m)) = ?k * ?h div 256"
    using lg by (simp add: unat_word_ariths unat_shr lo)
  ultimately show ?thesis
    using hg dg by (simp add: mul_top_def unat_shr unat_word_ariths)
qed

lemma mul_top_error:
  assumes "unat m < 2 ^ 24" "unat n < 2 ^ 24"
  shows "2 ^ 18 * unat (mul_top m n) \<le> unat m * unat n"
    "unat m * unat n < 2 ^ 18 * unat (mul_top m n) + 6 * 2 ^ 16"
proof -
  let ?r = "unat m div 256 * (unat n div 256) + unat m mod 256 * (unat n div 256) div 256
      + unat n mod 256 * (unat m div 256) div 256"
  have pp: "65536 * ?r \<le> unat m * unat n" "unat m * unat n < 65536 * ?r + 196608"
    using partial_products[of "unat m mod 256" "unat n mod 256" "unat m div 256" "unat n div 256"] by simp_all
  have d: "4 * (?r div 4) \<le> ?r" "?r < 4 * (?r div 4) + 4" by (rule floor_bounds, simp)+
  show "2 ^ 18 * unat (mul_top m n) \<le> unat m * unat n"
    unfolding mul_top_unat[OF assms] by (rule quarter_arith(1)[OF d pp])
  show "unat m * unat n < 2 ^ 18 * unat (mul_top m n) + 6 * 2 ^ 16"
    unfolding mul_top_unat[OF assms] by (rule quarter_arith(2)[OF d pp])
qed

lemma quarter_le: "2 ^ 30 \<le> x \<Longrightarrow> 2 ^ 28 \<le> (x + y + z) div (4 :: nat)"
  using div_le_mono[of "2 ^ 30" "x + y + z" 4] by simp

lemma mul_top_bounds:
  assumes "2 ^ 23 \<le> unat m" "unat m < 2 ^ 24" "2 ^ 23 \<le> unat n" "unat n < 2 ^ 24"
  shows "2 ^ 28 \<le> unat (mul_top m n)" "unat (mul_top m n) < 2 ^ 30"
proof -
  have h: "2 ^ 15 \<le> unat m div 256" "2 ^ 15 \<le> unat n div 256"
    using div_le_mono[OF assms(1), of 256] div_le_mono[OF assms(3), of 256] by simp_all
  have "2 ^ 30 \<le> unat m div 256 * (unat n div 256)" using mult_le_mono[OF h] by simp
  then show "2 ^ 28 \<le> unat (mul_top m n)" unfolding mul_top_unat[OF assms(2,4)]
    by (intro quarter_le)
  have "unat m * unat n < 2 ^ 24 * 2 ^ 24" using mult_strict_mono'[OF assms(2,4)] by simp
  then show "unat (mul_top m n) < 2 ^ 30" using mul_top_error(1)[OF assms(2,4)] by simp
qed

text \<open>Rounding the 30-bit product to 24 bits.\<close>

lemma round_arith:
  fixes p q r :: int
  assumes "262144 * r \<le> p" "p + 1 \<le> 262144 * r + 393216"
  shows "64 * q \<le> r + 32 \<Longrightarrow> r + 33 \<le> 64 * q + 64 \<Longrightarrow> 536870912 \<le> r \<Longrightarrow> 536870912 * \<bar>16777216 * q - p\<bar> \<le> 33 * p"
    "32 * q \<le> r + 16 \<Longrightarrow> r + 17 \<le> 32 * q + 32 \<Longrightarrow> 268435456 \<le> r \<Longrightarrow> 536870912 * \<bar>8388608 * q - p\<bar> \<le> 33 * p"
proof -
  assume a: "64 * q \<le> r + 32" "r + 33 \<le> 64 * q + 64" "536870912 \<le> r"
  have "16777216 * q - p \<le> 8388608" "p - 16777216 * q \<le> 8519680" using assms a(1,2) by linarith+
  then have "\<bar>16777216 * q - p\<bar> \<le> 8519680" by linarith
  moreover have "262144 * 536870912 \<le> p" using assms(1) a(3) by simp
  ultimately show "536870912 * \<bar>16777216 * q - p\<bar> \<le> 33 * p" by simp
next
  assume a: "32 * q \<le> r + 16" "r + 17 \<le> 32 * q + 32" "268435456 \<le> r"
  have "8388608 * q - p \<le> 4194304" "p - 8388608 * q \<le> 4325376" using assms a(1,2) by linarith+
  then have "\<bar>8388608 * q - p\<bar> \<le> 4325376" by linarith
  moreover have "262144 * 268435456 \<le> p" using assms(1) a(3) by simp
  ultimately show "536870912 * \<bar>8388608 * q - p\<bar> \<le> 33 * p" by simp
qed

lemma mul_round:
  fixes r p q d :: nat
  assumes "2 ^ 18 * r \<le> p" "p < 2 ^ 18 * r + 6 * 2 ^ 16" "2 * d * q \<le> r + d" "r + d < 2 * d * q + 2 * d"
    and "d = 32 \<and> 2 ^ 29 \<le> r \<and> t = 24 \<or> d = 16 \<and> 2 ^ 28 \<le> r \<and> t = 23"
  shows "2 ^ 29 * \<bar>2 ^ t * int q - int p\<bar> \<le> 33 * int p"
proof -
  have c: "262144 * r \<le> p" "p < 262144 * r + 393216" using assms(1,2) by simp_all
  from assms(5) consider "d = 32" "536870912 \<le> r" "t = 24" | "d = 16" "268435456 \<le> r" "t = 23" by auto
  then have "536870912 * \<bar>2 ^ t * int q - int p\<bar> \<le> 33 * int p"
  proof cases
    case 1
    then have "64 * q \<le> r + 32" "r + 32 < 64 * q + 64" using assms(3,4) by simp_all
    then have "536870912 * \<bar>16777216 * int q - int p\<bar> \<le> 33 * int p" using c 1(2) by (intro round_arith(1)[of "int r"]) linarith+
    then show ?thesis using 1(3) by simp
  next
    case 2
    then have "32 * q \<le> r + 16" "r + 16 < 32 * q + 32" using assms(3,4) by simp_all
    then have "536870912 * \<bar>8388608 * int q - int p\<bar> \<le> 33 * int p" using c 2(2) by (intro round_arith(2)[of "int r"]) linarith+
    then show ?thesis using 2(3) by simp
  qed
  then show ?thesis by simp
qed

lemma high_bit_iff: "unat (x :: u32) < 2 ^ Suc n \<Longrightarrow> x AND 2 ^ n \<noteq> 0 \<longleftrightarrow> 2 ^ n \<le> unat x"
proof -
  assume "unat x < 2 ^ Suc n"
  then have "unat x div 2 ^ n < 2" by (intro less_mult_imp_div_less) simp
  then have "odd (unat x div 2 ^ n) \<longleftrightarrow> unat x div 2 ^ n \<noteq> 0"
    by (cases "unat x div 2 ^ n" rule: nat.exhaust) auto
  then have "bit (unat x) n \<longleftrightarrow> 2 ^ n \<le> unat x" by (auto simp: bit_iff_odd div_eq_0_iff)
  then show ?thesis by (simp add: and_power_eq_0 bit_unat)
qed

lemma f_sign_cases: "f_sign y = (if bit y 31 then SIGNBIT else 0)"
proof -
  have s: "(SIGNBIT :: u32) = 2 ^ 31" by simp
  show ?thesis unfolding f_sign_def s
    by (rule bit_word_eqI) (auto simp only: bit_and_iff bit_exp_iff bit_0_eq bot_apply bot_bool_def split: if_splits)
qed

lemma mulsf3_packed:
  assumes "1 \<le> unat (f_exp a)" "1 \<le> unat (f_exp b)"
    and "128 \<le> unat (f_exp a) + unat (f_exp b)" "unat (f_exp a) + unat (f_exp b) \<le> 379"
  obtains r e t where "mulsf3 a b = f_pack (f_sign a XOR f_sign b) e (r AND NOT HIDDEN)"
    "2 ^ 23 \<le> unat r" "unat r < 2 ^ 24" "t = 23 \<or> t = 24 \<or> t = 25"
    "unat e + 150 = unat (f_exp a) + unat (f_exp b) + t"
    "2 ^ 29 * \<bar>2 ^ t * int (unat r) - int (unat (f_mant a) * unat (f_mant b))\<bar> \<le> 33 * int (unat (f_mant a) * unat (f_mant b))"
proof -
  define m where "m = mul_top (f_mant a) (f_mant b)"
  define p where "p = unat (f_mant a) * unat (f_mant b)"
  note fb = f_mant_bounds[of a] f_mant_bounds[of b]
  have mb: "2 ^ 28 \<le> unat m" "unat m < 2 ^ 30" unfolding m_def by (rule mul_top_bounds[OF fb])+
  have me: "2 ^ 18 * unat m \<le> p" "p < 2 ^ 18 * unat m + 6 * 2 ^ 16"
    unfolding m_def p_def by (rule mul_top_error[OF fb(2,4)])+
  have nz: "a \<noteq> 0" "b \<noteq> 0" using assms(1,2) by (auto simp: f_exp_def)
  define e0 where "e0 = f_exp a - EXCESS + f_exp b"
  have e0: "unat e0 + 126 = unat (f_exp a) + unat (f_exp b)"
  proof -
    have "unat (f_exp a) < 256" "unat (f_exp b) < 256" unfolding unat_f_exp by simp_all
    then have "unat (f_exp a + f_exp b) = unat (f_exp a) + unat (f_exp b)" by (simp add: unat_word_ariths)
    moreover have "e0 = f_exp a + f_exp b - 126" by (simp add: e0_def)
    ultimately show ?thesis using assms(3) unat_sub[of 126 "f_exp a + f_exp b"] by (simp add: word_le_nat_alt)
  qed
  define c where "c \<longleftrightarrow> m AND 0x20000000 \<noteq> 0"
  have c: "c \<longleftrightarrow> 2 ^ 29 \<le> unat m"
    using high_bit_iff[of m 29] mb(2) by (simp add: c_def)
  define d where "d = (if c then 32 else 16 :: nat)"
  define q where "q = (if c then drop_bit 6 (m + 0x20) else drop_bit 5 (m + 0x10))"
  define e1 where "e1 = (if c then e0 else e0 - 1)"
  define t where "t = (if c then 24 else 23 :: nat)"
  have q: "unat q = (unat m + d) div (2 * d)"
    using mb(2) by (simp add: q_def d_def unat_shr unat_word_ariths)
  have e1: "unat e1 + 150 = unat (f_exp a) + unat (f_exp b) + t"
  proof (cases c)
    case False
    have "unat (e0 - 1) = unat e0 - 1" using e0 assms(3) by (intro unat_minus_one) auto
    then show ?thesis using False e0 assms(3) by (simp add: e1_def t_def)
  qed (use e0 in \<open>simp add: e1_def t_def\<close>)
  have err: "2 ^ 29 * \<bar>2 ^ t * int (unat q) - int p\<bar> \<le> 33 * int p"
  proof (rule mul_round[OF me])
    show "2 * d * unat q \<le> unat m + d" "unat m + d < 2 * d * unat q + 2 * d"
      unfolding q by (rule floor_bounds, simp add: d_def)+
    show "d = 32 \<and> 2 ^ 29 \<le> unat m \<and> t = 24 \<or> d = 16 \<and> 2 ^ 28 \<le> unat m \<and> t = 23"
      using c mb(1) by (simp add: d_def t_def)
  qed
  have qb: "2 ^ 23 \<le> unat q" "unat q \<le> 2 ^ 24"
    using div_le_mono[of "2 ^ 23 * (2 * d)" "unat m + d" "2 * d"] div_le_mono[of "unat m + d" "2 ^ 24 * (2 * d)" "2 * d"] c mb
    by (cases c; simp add: q d_def)+
  have mul: "mulsf3 a b = (let (r, e) = (if q AND 0x1000000 \<noteq> 0 then (drop_bit 1 q, e1 + 1) else (q, e1))
      in f_pack (f_sign a XOR f_sign b) e (r AND NOT HIDDEN))"
    using nz by (simp add: mulsf3_def Let_def m_def[symmetric] mul_top_def[symmetric] e0_def[symmetric] q_def e1_def c_def)
  have top: "q AND 0x1000000 \<noteq> 0 \<longleftrightarrow> unat q = 2 ^ 24"
    using high_bit_iff[of q 24] qb by auto
  show thesis
  proof (cases "unat q = 2 ^ 24")
    case True
    have "mulsf3 a b = f_pack (f_sign a XOR f_sign b) (e1 + 1) (drop_bit 1 q AND NOT HIDDEN)"
      using True top by (simp add: mul)
    moreover have "2 ^ 23 \<le> unat (drop_bit 1 q)" "unat (drop_bit 1 q) < 2 ^ 24"
      unfolding unat_shr True by simp_all
    moreover have "t + 1 = 23 \<or> t + 1 = 24 \<or> t + 1 = 25" by (simp add: t_def)
    moreover have "unat (e1 + 1) + 150 = unat (f_exp a) + unat (f_exp b) + (t + 1)"
      using e1 assms(4) by (simp add: unat_word_ariths t_def split: if_splits)
    moreover have "2 ^ 29 * \<bar>2 ^ (t + 1) * int (unat (drop_bit 1 q)) - int (unat (f_mant a) * unat (f_mant b))\<bar>
        \<le> 33 * int (unat (f_mant a) * unat (f_mant b))"
      using err unfolding unat_shr True p_def by (simp add: mult.commute)
    ultimately show thesis by (rule that)
  next
    case False
    have "mulsf3 a b = f_pack (f_sign a XOR f_sign b) e1 (q AND NOT HIDDEN)" using False top by (simp add: mul)
    moreover have "2 ^ 23 \<le> unat q" "unat q < 2 ^ 24" using qb False by simp_all
    moreover have "t = 23 \<or> t = 24 \<or> t = 25" by (simp add: t_def)
    ultimately show thesis using e1 err unfolding p_def by (rule that)
  qed
qed

text \<open>C22: The product of two floats whose exponent fields are not zero and add up to 128 to 379, so that the exponent of
  the result is normal too, is the product of their values up to a relative error of \<open>33 / 2 ^ 29\<close>, that is 0.52 units
  in the last place: the products of the low mantissa bytes that the routine drops cost less than 1/64 unit.\<close>

theorem float_mul_accurate:
  assumes "1 \<le> unat (f_exp a)" "1 \<le> unat (f_exp b)"
    and "128 \<le> unat (f_exp a) + unat (f_exp b)" "unat (f_exp a) + unat (f_exp b) \<le> 379"
  shows "2 ^ 29 * \<bar>sf_scaled (mulsf3 a b) * 2 ^ 149 - sf_scaled a * sf_scaled b\<bar>
    \<le> 33 * \<bar>sf_scaled a * sf_scaled b\<bar>"
proof -
  obtain r e t where mul: "mulsf3 a b = f_pack (f_sign a XOR f_sign b) e (r AND NOT HIDDEN)"
    and r: "2 ^ 23 \<le> unat r" "unat r < 2 ^ 24" and t: "t = 23 \<or> t = 24 \<or> t = (25 :: nat)"
    and e: "unat e + 150 = unat (f_exp a) + unat (f_exp b) + t"
    and err: "2 ^ 29 * \<bar>2 ^ t * int (unat r) - int (unat (f_mant a) * unat (f_mant b))\<bar>
      \<le> 33 * int (unat (f_mant a) * unat (f_mant b))"
    by (rule mulsf3_packed[OF assms])
  define x where "x = unat (f_exp a) + unat (f_exp b) - 2"
  define p where "p = int (unat (f_mant a) * unat (f_mant b))"
  define g where "g = (if (f_sign a \<noteq> 0) \<noteq> (f_sign b \<noteq> 0) then - 1 else 1 :: int)"
  have sg: "f_sign y = 0 \<or> f_sign y = SIGNBIT" for y
    by (auto simp: f_sign_cases)
  have "sf_scaled (mulsf3 a b) = g * (int (unat r) * 2 ^ (unat e - 1))"
    unfolding mul using e t r assms(3,4) sg[of a] sg[of b]
    by (subst f_pack_scaled) (auto simp: g_def)
  moreover have "(2 :: int) ^ (unat e - 1) * 2 ^ 149 = 2 ^ t * 2 ^ x"
  proof -
    have "unat e - 1 + 149 = t + x" using e t assms(3) unfolding x_def by linarith
    then show ?thesis by (simp only: power_add[symmetric])
  qed
  ultimately have "sf_scaled (mulsf3 a b) * 2 ^ 149 = g * int (unat r) * (2 ^ t * 2 ^ x)"
    by (simp only: mult.assoc)
  then have m: "sf_scaled (mulsf3 a b) * 2 ^ 149 = g * (2 ^ t * int (unat r)) * 2 ^ x"
    by (simp only: mult.assoc mult.left_commute)
  have ab: "sf_scaled a * sf_scaled b = g * p * 2 ^ x"
    unfolding sf_scaled_normal[OF assms(1)] sf_scaled_normal[OF assms(2)] g_def p_def x_def
    using assms(1,2) by (auto simp: algebra_simps simp flip: power_add)
  have "\<bar>sf_scaled (mulsf3 a b) * 2 ^ 149 - sf_scaled a * sf_scaled b\<bar> = \<bar>2 ^ t * int (unat r) - p\<bar> * 2 ^ x"
    unfolding m ab left_diff_distrib[symmetric] right_diff_distrib[symmetric] abs_mult
    by (simp add: g_def)
  moreover have "\<bar>sf_scaled a * sf_scaled b\<bar> = p * 2 ^ x"
    unfolding ab abs_mult by (simp add: g_def p_def)
  moreover have "(2 ^ 29 * \<bar>2 ^ t * int (unat r) - p\<bar>) * 2 ^ x \<le> (33 * p) * 2 ^ x"
    using err unfolding p_def by (intro mult_right_mono) simp_all
  ultimately show ?thesis by (simp only: mult.assoc)
qed

theorem float_mul_accurate_witness:
  "2 ^ 29 * \<bar>sf_scaled (mulsf3 0x40490fdb 0x3eaaaaab) * 2 ^ 149 - sf_scaled 0x40490fdb * sf_scaled 0x3eaaaaab\<bar>
    \<le> 33 * \<bar>sf_scaled 0x40490fdb * sf_scaled 0x3eaaaaab\<bar>"
  by (rule float_mul_accurate) code_simp+

text \<open>The division loop produces the bits of the quotient from the top.\<close>

lemma sle_small: "unat (x :: u32) < 2 ^ 31 \<Longrightarrow> unat y < 2 ^ 31 \<Longrightarrow> x \<le>s y \<longleftrightarrow> unat x \<le> unat y"
  "unat x < 2 ^ 31 \<Longrightarrow> unat y < 2 ^ 31 \<Longrightarrow> x <s y \<longleftrightarrow> unat x < unat y"
  using sint_small[of x "unat x"] sint_small[of y "unat y"] by (simp_all only: word_sle_eq word_sless_alt of_nat_le_iff of_nat_less_iff)

interpretation single_quotient: quotient_bits divsf3_loop
  by unfold_locales (subst divsf3_loop.simps, simp add: sle_small)+

lemma divsf3_packed:
  assumes "1 \<le> unat (f_exp a)" "1 \<le> unat (f_exp b)"
    and "unat (f_exp b) \<le> unat (f_exp a) + 125" "unat (f_exp a) \<le> unat (f_exp b) + 127"
  obtains r e k where "divsf3 a b = f_pack (f_sign a XOR f_sign b) e (r AND NOT HIDDEN)"
    "2 ^ 23 \<le> unat r" "unat r < 2 ^ 24" "k = 0 \<or> k = 1"
    "unat e + unat (f_exp b) + k = unat (f_exp a) + 127"
    "2 * \<bar>int (unat r) * int (unat (f_mant b)) - 2 ^ k * int (unat (f_mant a)) * 2 ^ 23\<bar> \<le> int (unat (f_mant b))"
    "unat (f_mant b) \<le> 2 ^ k * unat (f_mant a)"
proof -
  note fb = f_mant_bounds[of a] f_mant_bounds[of b]
  have nz: "a \<noteq> 0" "b \<noteq> 0" using assms(1,2) by (auto simp: f_exp_def)
  have xb: "unat (f_exp a) < 256" "unat (f_exp b) < 256" unfolding unat_f_exp by simp_all
  define k where "k = (if unat (f_mant a) < unat (f_mant b) then 1 else 0 :: nat)"
  define m where "m = (if f_mant a <s f_mant b then push_bit 1 (f_mant a) else f_mant a)"
  define e where "e = f_exp a - f_exp b + EXCESS - of_nat k + 1"
  have slt: "f_mant a <s f_mant b \<longleftrightarrow> unat (f_mant a) < unat (f_mant b)"
    using fb by (intro sle_small) simp_all
  have m: "unat m = 2 ^ k * unat (f_mant a)"
    using fb unat_push_bit_1[of "f_mant a"] by (simp add: m_def k_def slt)
  have mb: "unat (f_mant b) \<le> unat m" "unat m < 2 * unat (f_mant b)" "even (unat m) \<or> unat m < 2 ^ 24"
    unfolding m using fb by (simp_all add: k_def)
  define q where "q = divsf3_loop m (f_mant b) 0x1000000 0"
  have q: "unat q = unat m * 2 ^ 24 div unat (f_mant b)"
    using single_quotient.quotient[OF mb(2), of 24 0] fb(4) by (simp add: q_def)
  have c: "Suc 23 = 24" "Suc 24 = 25" by simp_all
  note qr = quotient_round[of "unat (f_mant b)" "unat m" 23, unfolded c, OF mb(1,2) fb(3,4) mb(3) zero_less_numeral]
  have q1: "unat (q + 1) = unat q + 1" using qr(4) by (simp add: unat_word_ariths q)
  have r: "unat (signed_drop_bit 1 (q + 1)) = (unat q + 1) div 2"
  proof -
    have "unat (q + 1) < 2 ^ 31" using qr(4) unfolding q1 q by simp
    then show ?thesis by (simp only: sar_pos unat_drop_bit_1 q1)
  qed
  have "divsf3 a b = f_pack (f_sign a XOR f_sign b) e (signed_drop_bit 1 (q + 1) AND NOT HIDDEN)"
    using nz by (simp add: divsf3_def Let_def slt q_def m_def e_def k_def)
  moreover have "2 ^ 23 \<le> unat (signed_drop_bit 1 (q + 1))" "unat (signed_drop_bit 1 (q + 1)) < 2 ^ 24"
    unfolding r q by (rule qr(1) qr(2))+
  moreover have "k = 0 \<or> k = 1" by (simp add: k_def)
  moreover have "unat e + unat (f_exp b) + k = unat (f_exp a) + 127"
  proof -
    have "e = of_nat (unat (f_exp a) + 127 - k - unat (f_exp b))"
      using assms(3) by (simp add: e_def k_def of_nat_diff)
    then have "unat e = unat (f_exp a) + 127 - k - unat (f_exp b)"
      using xb by (simp only: unat_of_nat) simp
    then show ?thesis using assms(3) by (simp add: k_def)
  qed
  moreover have "2 * \<bar>int (unat (signed_drop_bit 1 (q + 1))) * int (unat (f_mant b)) - 2 ^ k * int (unat (f_mant a)) * 2 ^ 23\<bar>
      \<le> int (unat (f_mant b))"
    using qr(3) unfolding r q by (simp add: m)
  moreover have "unat (f_mant b) \<le> 2 ^ k * unat (f_mant a)" using mb(1) unfolding m .
  ultimately show thesis by (rule that)
qed

lemma sf_scaled_grid: "2 ^ x dvd sf_scaled c \<or> \<bar>sf_scaled c\<bar> \<le> 2 ^ 23 * 2 ^ x"
proof -
  have "2 ^ x dvd mag_value (magnitude c) \<or> mag_value (magnitude c) \<le> 2 ^ 23 * 2 ^ x"
    unfolding mag_value_def by (rule float_grid)
  then have "(2 :: int) ^ x dvd int (mag_value (magnitude c)) \<or> int (mag_value (magnitude c)) \<le> 2 ^ 23 * 2 ^ x"
    by (simp only: of_nat_dvd_iff of_nat_le_iff flip: of_nat_power of_nat_mult of_nat_numeral[where 'a = int])
  then show ?thesis by (auto simp: sf_scaled_def simp del: of_nat_dvd_iff)
qed

lemma divsf3_value:
  assumes "1 \<le> unat (f_exp a)" "1 \<le> unat (f_exp b)"
    and "unat (f_exp b) \<le> unat (f_exp a) + 125" "unat (f_exp a) \<le> unat (f_exp b) + 127"
  shows "2 ^ 24 * \<bar>sf_scaled (divsf3 a b) * sf_scaled b - sf_scaled a * 2 ^ 149\<bar> \<le> \<bar>sf_scaled a * 2 ^ 149\<bar>"
    "\<bar>sf_scaled (divsf3 a b) * sf_scaled b - sf_scaled a * 2 ^ 149\<bar> \<le> \<bar>sf_scaled c * sf_scaled b - sf_scaled a * 2 ^ 149\<bar>"
proof -
  obtain r e k where div: "divsf3 a b = f_pack (f_sign a XOR f_sign b) e (r AND NOT HIDDEN)"
    and r: "2 ^ 23 \<le> unat r" "unat r < 2 ^ 24" and k: "k = 0 \<or> k = (1 :: nat)"
    and e: "unat e + unat (f_exp b) + k = unat (f_exp a) + 127"
    and err: "2 * \<bar>int (unat r) * int (unat (f_mant b)) - 2 ^ k * int (unat (f_mant a)) * 2 ^ 23\<bar> \<le> int (unat (f_mant b))"
    and le: "unat (f_mant b) \<le> 2 ^ k * unat (f_mant a)"
    by (rule divsf3_packed[OF assms])
  define g where "g = (if f_sign a \<noteq> 0 then - 1 else 1 :: int)"
  define h where "h = (if f_sign b \<noteq> 0 then - 1 else 1 :: int)"
  have sg: "f_sign y = 0 \<or> f_sign y = SIGNBIT" for y by (auto simp: f_sign_cases)
  have s: "sf_scaled (divsf3 a b) = g * h * (int (unat r) * 2 ^ (unat e - 1))"
    unfolding div using e k r assms(3,4) sg[of a] sg[of b]
    by (subst f_pack_scaled) (auto simp: g_def h_def)
  have b: "sf_scaled b = h * (int (unat (f_mant b)) * 2 ^ (unat (f_exp b) - 1))"
    and a: "sf_scaled a = g * (int (unat (f_mant a)) * 2 ^ (unat (f_exp a) - 1))"
    unfolding g_def h_def by (rule sf_scaled_normal, rule assms)+
  have gh: "g = 1 \<or> g = - 1" "h = 1 \<or> h = - 1" by (simp_all add: g_def h_def)
  have x: "unat (f_exp a) - 1 + 149 = k + 23 + (unat e - 1 + (unat (f_exp b) - 1))" using e k assms by linarith
  have lei: "int (unat (f_mant b)) \<le> 2 ^ k * int (unat (f_mant a))" using le by (simp flip: of_nat_le_iff[where 'a = int])
  have "0 < unat (f_mant b)" by (rule order.strict_trans2[OF _ f_mant_bounds(1)]) simp
  then have pos: "0 < int (unat (f_mant b))" by (simp only: of_nat_0_less_iff)
  have c24: "(24 :: nat) = Suc 23" by simp
  show "2 ^ 24 * \<bar>sf_scaled (divsf3 a b) * sf_scaled b - sf_scaled a * 2 ^ 149\<bar> \<le> \<bar>sf_scaled a * 2 ^ 149\<bar>"
    unfolding c24 by (rule quotient_value[OF s b a gh x lei err])
  show "\<bar>sf_scaled (divsf3 a b) * sf_scaled b - sf_scaled a * 2 ^ 149\<bar> \<le> \<bar>sf_scaled c * sf_scaled b - sf_scaled a * 2 ^ 149\<bar>"
    by (rule quotient_nearest[OF s b a gh x lei err pos sf_scaled_grid])
qed

text \<open>C23: The quotient of two floats whose exponent fields are not zero (a field of all ones read as the exponent it
  stands for), when the exponent of the result is normal too, that is
  \<open>f_exp b - 125 \<le> f_exp a \<le> f_exp b + 127\<close>, is the exact quotient rounded to nearest: no float at all is closer to it
  (both sides multiplied by the divisor), and its relative error is at most \<open>2 ^ -24\<close>.\<close>

theorem float_div_rounded:
  assumes "1 \<le> unat (f_exp a)" "1 \<le> unat (f_exp b)"
    and "unat (f_exp b) \<le> unat (f_exp a) + 125" "unat (f_exp a) \<le> unat (f_exp b) + 127"
  shows "(\<forall>c. \<bar>sf_scaled (divsf3 a b) * sf_scaled b - sf_scaled a * 2 ^ 149\<bar>
      \<le> \<bar>sf_scaled c * sf_scaled b - sf_scaled a * 2 ^ 149\<bar>) \<and>
    2 ^ 24 * \<bar>sf_scaled (divsf3 a b) * sf_scaled b - sf_scaled a * 2 ^ 149\<bar> \<le> \<bar>sf_scaled a * 2 ^ 149\<bar>"
  using divsf3_value[OF assms] by blast

theorem float_div_rounded_witness:
  "(\<forall>c. \<bar>sf_scaled (divsf3 0x3f800000 0x40400000) * sf_scaled 0x40400000 - sf_scaled 0x3f800000 * 2 ^ 149\<bar>
      \<le> \<bar>sf_scaled c * sf_scaled 0x40400000 - sf_scaled 0x3f800000 * 2 ^ 149\<bar>) \<and>
    2 ^ 24 * \<bar>sf_scaled (divsf3 0x3f800000 0x40400000) * sf_scaled 0x40400000 - sf_scaled 0x3f800000 * 2 ^ 149\<bar>
      \<le> \<bar>sf_scaled 0x3f800000 * 2 ^ 149\<bar>"
  by (rule float_div_rounded) code_simp+

end
