(* ===== verification/Soft_Double.thy ===== *)
theory Soft_Double
  imports Soft_Float
begin

text \<open>
  The software implementation of IEEE double precision in lib/libc.c (macros in include/libc.h). A \<open>double\<close> is its
  bit pattern \<open>ll\<close>, as in \<open>union double_long\<close>, whose two words are \<open>d_upper\<close> (signed in the code) and
  \<open>d_lower\<close>; the order of the words in memory follows the byte order, so the patterns are the same on both
  platforms. Loops whose end depends on their operand are partial functions: \<open>None\<close> is a loop that does not end.
\<close>

unbundle bit_operations_syntax

subsection \<open>Layout\<close>

abbreviation EXCESSD :: u32 where "EXCESSD \<equiv> 1022"
abbreviation HIDDEND :: u32 where "HIDDEND \<equiv> 0x100000"
abbreviation HIDDEND_LL :: u64 where "HIDDEND_LL \<equiv> 0x10000000000000"

definition d_upper :: "u64 \<Rightarrow> u32" where [c_layout]: "d_upper fp = ucast (drop_bit 32 fp)"
definition d_lower :: "u64 \<Rightarrow> u32" where [c_layout]: "d_lower fp = ucast fp"
definition d_make :: "u32 \<Rightarrow> u32 \<Rightarrow> u64" where [c_layout]: "d_make up lo = push_bit 32 (ucast up) OR ucast lo"
definition d_exp :: "u64 \<Rightarrow> u32" where [c_layout]: "d_exp fp = signed_drop_bit 20 (d_upper fp) AND 0x7FF"
definition d_sign :: "u64 \<Rightarrow> u32" where [c_layout]: "d_sign fp = d_upper fp AND SIGNBIT"
definition d_mant :: "u64 \<Rightarrow> u32" where
  [c_layout]: "d_mant fp = push_bit 10 ((d_upper fp AND 0xFFFFF) OR HIDDEND) OR drop_bit 22 (d_lower fp)"
definition d_mant_ll :: "u64 \<Rightarrow> u64" where [c_layout]: "d_mant_ll fp = (fp AND (HIDDEND_LL - 1)) OR HIDDEND_LL"
definition d_pack :: "u32 \<Rightarrow> u32 \<Rightarrow> u64 \<Rightarrow> u64" where [c_layout]: "d_pack s e m = push_bit 32 (scast (s + push_bit 20 e)) OR m"

subsection \<open>Conversion from integers\<close>

text \<open>The pairs of loops that bring the highest bit of a positive mantissa to the top, first in larger steps.\<close>

partial_function (option) raise_4 :: "u32 \<Rightarrow> u32 \<Rightarrow> (u32 \<times> u32) option" where
  [code]: "raise_4 a e = (if a <s 0x1000000 then raise_4 (push_bit 4 a) (e - 4) else Some (a, e))"

partial_function (option) raise_1 :: "u32 \<Rightarrow> u32 \<Rightarrow> (u32 \<times> u32) option" where
  [code]: "raise_1 a e = (if a <s 0x40000000 then raise_1 (push_bit 1 a) (e - 1) else Some (a, e))"

definition floatsidf :: "u32 \<Rightarrow> u64 option" where
  "floatsidf a1 =
     (if a1 = 0 then Some 0
      else let sb = (if a1 <s 0 then SIGNBIT else 0); a1 = (if a1 <s 0 then - a1 else a1)
      in if a1 <s 0 then Some (d_make (SIGNBIT OR push_bit 20 (32 + EXCESSD)) 0)
         else do {
           (a1, e) \<leftarrow> raise_4 a1 (31 + EXCESSD);
           (a1, e) \<leftarrow> raise_1 a1 e;
           Some (d_make (sb OR push_bit 20 e OR (signed_drop_bit 10 a1 AND NOT HIDDEND)) (push_bit 22 a1)) })"

partial_function (option) raise_8_ll :: "u64 \<Rightarrow> u32 \<Rightarrow> (u64 \<times> u32) option" where
  [code]: "raise_8_ll a e = (if a <s push_bit 54 1 then raise_8_ll (push_bit 8 a) (e - 8) else Some (a, e))"

partial_function (option) raise_1_ll :: "u64 \<Rightarrow> u32 \<Rightarrow> (u64 \<times> u32) option" where
  [code]: "raise_1_ll a e = (if a <s push_bit 62 1 then raise_1_ll (push_bit 1 a) (e - 1) else Some (a, e))"

definition floatdidf :: "u64 \<Rightarrow> u64 option" where
  "floatdidf a1 =
     (if a1 = 0 then Some 0
      else do {
        let (up, a1) = (if a1 <s 0 then (SIGNBIT, - a1) else (0, a1));
        (a1, e) \<leftarrow> raise_8_ll a1 (63 + EXCESSD);
        (a1, e) \<leftarrow> raise_1_ll a1 e;
        let dl = d_make up 0 OR (signed_drop_bit 10 a1 AND NOT HIDDEND_LL);
        Some (d_make (d_upper dl OR push_bit 20 e) (d_lower dl)) })"

subsection \<open>Negation and conversion between the precisions\<close>

definition negdf2 :: "u64 \<Rightarrow> u64" where
  "negdf2 a1 = (if d_upper a1 = 0 \<and> d_lower a1 = 0 then a1 else d_make (d_upper a1 XOR SIGNBIT) (d_lower a1))"

definition extendsfdf2 :: "u32 \<Rightarrow> u64" where
  "extendsfdf2 fl1 =
     (if fl1 = 0 then 0
      else let up = f_sign fl1;
               e = f_exp fl1 - EXCESS + EXCESSD;
               up = up OR push_bit 20 e;
               up = up OR signed_drop_bit 3 (f_mant fl1 AND NOT HIDDEN)
           in d_make up (push_bit 29 (f_mant fl1)))"

definition truncdfsf2 :: "u64 \<Rightarrow> u32" where
  "truncdfsf2 dl1 =
     (if d_upper dl1 = 0 \<and> d_lower dl1 = 0 then 0
      else let e = d_exp dl1 - EXCESSD + EXCESS;
               m = signed_drop_bit 6 (d_mant dl1);
               m = m + 1;
               m = signed_drop_bit 1 m;
               (m, e) = (if m AND 0xFF000000 \<noteq> 0 then (signed_drop_bit 1 m, e + 1) else (m, e));
               m = m AND NOT HIDDEN
           in f_pack (d_sign dl1) e m)"

subsection \<open>Comparison\<close>

text \<open>The upper words are compared as signed, the lower ones as unsigned.\<close>

definition cmpdf2 :: "u64 \<Rightarrow> u64 \<Rightarrow> u32" where
  "cmpdf2 dl1 dl2 =
     (let flip = d_sign dl1 \<noteq> 0 \<and> d_sign dl2 \<noteq> 0;
          up1 = (if flip then d_upper dl1 XOR SIGNBIT else d_upper dl1);
          up2 = (if flip then d_upper dl2 XOR SIGNBIT else d_upper dl2)
      in if up1 <s up2 then - 1
         else if up2 <s up1 then 1
         else if d_lower dl1 < d_lower dl2 then - 1
         else if d_lower dl2 < d_lower dl1 then 1
         else 0)"

text \<open>The cast to \<open>float\<close> is a call of \<open>__truncdfsf2\<close>, the conversion back for the parameter one of \<open>__extendsfdf2\<close>.\<close>

definition through_float :: "u64 \<Rightarrow> u64" where
  "through_float a = extendsfdf2 (truncdfsf2 a)"

definition gtdf2 :: "u64 \<Rightarrow> u64 \<Rightarrow> u32" where
  "gtdf2 a1 a2 = c_bool (0 <s cmpdf2 (through_float a1) (through_float a2))"
definition gedf2 :: "u64 \<Rightarrow> u64 \<Rightarrow> u32" where
  "gedf2 a1 a2 = c_bool (0 \<le>s cmpdf2 (through_float a1) (through_float a2)) - 1"
definition ltdf2 :: "u64 \<Rightarrow> u64 \<Rightarrow> u32" where
  "ltdf2 a1 a2 = - c_bool (cmpdf2 (through_float a1) (through_float a2) <s 0)"
definition ledf2 :: "u64 \<Rightarrow> u64 \<Rightarrow> u32" where
  "ledf2 a1 a2 = c_bool (0 <s cmpdf2 (through_float a1) (through_float a2))"
definition eqdf2 :: "u64 \<Rightarrow> u64 \<Rightarrow> u32" where "eqdf2 d1 d2 = c_bool (\<not> d1 = d2)"
definition nedf2 :: "u64 \<Rightarrow> u64 \<Rightarrow> u32" where "nedf2 d1 d2 = c_bool (d1 \<noteq> d2)"

subsection \<open>Conversion to integers\<close>

text \<open>\<open>if (exp < 0 && exp > -w && l) l >>= -exp; else return 0;\<close> then the sign; \<open>l\<close> is signed in the signed routines.\<close>

definition fixdfsi :: "u64 \<Rightarrow> u32" where
  "fixdfsi dl1 =
     (if d_upper dl1 = 0 \<and> d_lower dl1 = 0 then 0
      else let e = d_exp dl1 - EXCESSD - 31; l = d_mant dl1
      in if 0 <s e then (if d_sign dl1 \<noteq> 0 then push_bit 31 1 else push_bit 31 1 - 1)
         else if e <s 0 \<and> - 32 <s e \<and> l \<noteq> 0 then
           let l = signed_drop_bit (unat (- e)) l in if d_sign dl1 \<noteq> 0 then - l else l
         else 0)"

definition fixdfdi :: "u64 \<Rightarrow> u64" where
  "fixdfdi dl1 =
     (if d_upper dl1 = 0 \<and> d_lower dl1 = 0 then 0
      else let e = d_exp dl1 - EXCESSD - 64; l = d_mant_ll dl1
      in if 0 <s e then (if d_sign dl1 \<noteq> 0 then push_bit 63 1 else push_bit 63 1 - 1)
         else if e <s 0 \<and> - 64 <s e \<and> l \<noteq> 0 then
           let l = signed_drop_bit (unat (- e)) l in if d_sign dl1 \<noteq> 0 then - l else l
         else 0)"

definition fixunsdfsi :: "u64 \<Rightarrow> u32" where
  "fixunsdfsi dl1 =
     (if d_upper dl1 = 0 \<and> d_lower dl1 = 0 then 0
      else let e = d_exp dl1 - EXCESSD - 32;
               l = push_bit 11 ((d_upper dl1 AND 0xFFFFF) OR HIDDEND) OR drop_bit 21 (d_lower dl1)
      in if 0 <s e then 0xFFFFFFFF
         else if e <s 0 \<and> - 32 <s e \<and> l \<noteq> 0 then drop_bit (unat (- e)) l else 0)"

definition fixunsdfdi :: "u64 \<Rightarrow> u64" where
  "fixunsdfdi dl1 =
     (if dl1 = 0 then 0
      else let e = d_exp dl1 - EXCESSD - 64; l = dl1
      in if 0 <s e then - 1
         else if e <s 0 \<and> - 64 <s e \<and> l \<noteq> 0 then drop_bit (unat (- e)) l else 0)"

subsection \<open>Addition and subtraction\<close>

partial_function (option) normalize_up_ll :: "u64 \<Rightarrow> u32 \<Rightarrow> (u64 \<times> u32) option" where
  [code]: "normalize_up_ll m e = (if m AND push_bit 61 7 = 0 then normalize_up_ll (push_bit 1 m) (e - 1) else Some (m, e))"

definition normalize_down_ll :: "u64 \<times> u32 \<Rightarrow> u64 \<times> u32" where
  "normalize_down_ll = (\<lambda>(m, e). if m AND push_bit 62 3 \<noteq> 0 then (signed_drop_bit 1 m, e + 1) else (m, e))"

definition round_pack_ll :: "u32 \<Rightarrow> u64 \<times> u32 \<Rightarrow> u64" where
  "round_pack_ll sb = (\<lambda>(m, e).
     let m = m + (if m AND push_bit 9 1 \<noteq> 0 then push_bit 8 1 else push_bit 8 1 - 1);
         (m, e) = normalize_down_ll (m, e);
         m = signed_drop_bit 9 m;
         m = m AND NOT HIDDEND_LL
     in d_pack sb e m)"

definition adddf3 :: "u64 \<Rightarrow> u64 \<Rightarrow> u64 option" where
  "adddf3 fl1 fl2 =
     (if fl2 = 0 then Some fl1
      else if fl1 = 0 then Some fl2
      else let exp1 = d_exp fl1; exp2 = d_exp fl2 in
        if exp2 + 54 <s exp1 then Some fl1
        else if exp1 + 54 <s exp2 then Some fl2
        else let mant1 = push_bit 9 (d_mant_ll fl1); mant2 = push_bit 9 (d_mant_ll fl2);
                 mant1 = (if d_sign fl1 \<noteq> 0 then - mant1 else mant1);
                 mant2 = (if d_sign fl2 \<noteq> 0 then - mant2 else mant2);
                 (mant1, mant2, exp1) =
                   (if exp2 <s exp1 then (mant1, signed_drop_bit (unat (exp1 - exp2)) mant2, exp1)
                    else (signed_drop_bit (unat (exp2 - exp1)) mant1, mant2, exp2));
                 mant1 = mant1 + mant2
             in if mant1 <s 0 then
                  map_option (round_pack_ll SIGNBIT \<circ> normalize_down_ll) (normalize_up_ll (- mant1) exp1)
                else if mant1 = 0 then Some 0
                else map_option (round_pack_ll 0 \<circ> normalize_down_ll) (normalize_up_ll mant1 exp1))"

definition subdf3 :: "u64 \<Rightarrow> u64 \<Rightarrow> u64 option" where
  "subdf3 fl1 fl2 =
     (if fl2 = 0 then Some fl1
      else let fl2 = d_make (d_upper fl2 XOR SIGNBIT) (d_lower fl2)
      in if fl1 = 0 then Some fl2 else adddf3 fl1 fl2)"

subsection \<open>Multiplication and division\<close>

definition muldf3 :: "u64 \<Rightarrow> u64 \<Rightarrow> u64" where
  "muldf3 fl1 fl2 =
     (if fl1 = 0 \<or> fl2 = 0 then 0
      else let sb = d_sign fl1 XOR d_sign fl2;
               e = d_exp fl1 - EXCESSD;
               e = e + d_exp fl2;
               fl1 = d_mant_ll fl1; fl2 = d_mant_ll fl2;
               r = drop_bit 21 fl1 * drop_bit 21 fl2;
               r = r + drop_bit 21 ((fl1 AND 0x1FFFFF) * drop_bit 21 fl2);
               r = r + drop_bit 21 ((fl2 AND 0x1FFFFF) * drop_bit 21 fl1);
               r = drop_bit 2 r;
               (r, e) = (if r AND push_bit 61 1 \<noteq> 0 then (drop_bit 9 (r + push_bit 8 1), e)
                         else (drop_bit 8 (r + push_bit 7 1), e - 1));
               (r, e) = (if r AND push_bit 1 HIDDEND_LL \<noteq> 0 then (drop_bit 1 r, e + 1) else (r, e));
               r = r AND NOT HIDDEND_LL
           in d_pack sb e r)"

text \<open>The loop of the division: 54 rounds, one for each bit of the mask. \<open>mask\<close> is signed, but stays positive.\<close>

function divdf3_loop :: "u64 \<Rightarrow> u64 \<Rightarrow> u64 \<Rightarrow> u64 \<Rightarrow> u64" where
  "divdf3_loop fl1 fl2 mask_bit r =
     (if mask_bit \<noteq> 0 then
        let (r, fl1) = (if fl2 \<le> fl1 then (r OR mask_bit, fl1 - fl2) else (r, fl1))
        in divdf3_loop (push_bit 1 fl1) fl2 (drop_bit 1 mask_bit) r
      else r)"
  by auto
termination
  by (relation "measure (\<lambda>(fl1, fl2, b, r). unat b)") (auto intro!: unat_drop_bit_less simp flip: One_nat_def)

declare divdf3_loop.simps [simp del]

definition divdf3 :: "u64 \<Rightarrow> u64 \<Rightarrow> u64" where
  "divdf3 fl1 fl2 =
     (let e = d_exp fl1 - d_exp fl2 + EXCESSD;
          sb = d_sign fl1 XOR d_sign fl2
      in if fl1 = 0 then (if fl2 = 0 then push_bit 63 1 - 1 else 0)
         else if fl2 = 0 then d_pack (d_sign fl1) 2047 0
         else let fl1 = d_mant_ll fl1; fl2 = d_mant_ll fl2;
                  (fl1, e) = (if fl1 < fl2 then (push_bit 1 fl1, e - 1) else (fl1, e));
                  r = divdf3_loop fl1 fl2 (push_bit 53 1) 0;
                  r = r + 1;
                  e = e + 1;
                  r = signed_drop_bit 1 r;
                  r = r AND NOT HIDDEND_LL
              in d_pack sb e r)"

end
