(* ===== verification/Soft_Double_Props.thy ===== *)
theory Soft_Double_Props
  imports Soft_Double Soft_Float_Round "HOL-Library.Monad_Syntax"
begin

text \<open>
  What the double precision routines guarantee. The reference is \<open>df_scaled\<close>, the value of a bit pattern as an
  integer multiple of \<open>2 ^ -1074\<close>: integers convert exactly and the quotient is rounded to nearest; the conversion back,
  the comparison and the wider conversions are shown as they are.
\<close>

unbundle bit_operations_syntax

subsection \<open>Fields\<close>

lemma unat_d_upper: "unat (d_upper x) = unat x div 2 ^ 32"
proof -
  have "unat x < 2 ^ 64" using unat_bound[of x] by simp
  then have "unat x div 2 ^ 32 < 2 ^ 32" by (simp add: less_mult_imp_div_less)
  then show ?thesis by (simp add: d_upper_def unsigned_ucast_eq unat_shr take_bit_nat_eq_self)
qed

lemma unat_d_lower: "unat (d_lower x) = unat x mod 2 ^ 32"
  by (simp add: d_lower_def unsigned_ucast_eq take_bit_eq_mod)

lemma unat_d_make: "unat (d_make up lo) = unat up * 2 ^ 32 + unat lo"
proof -
  have b: "unat up < 2 ^ 32" "unat lo < 2 ^ 32" using unat_bound[of up] unat_bound[of lo] by simp_all
  have u: "unat (ucast up :: u64) = unat up" "unat (ucast lo :: u64) = unat lo" by (simp_all add: unsigned_ucast_eq take_bit_nat_eq_self unat_bound less_trans[OF unat_bound])
  have p: "unat (push_bit 32 (ucast up :: u64)) = unat up * 2 ^ 32"
    using b(1) by (subst unat_shl_no_carry) (simp_all add: u)
  have "unat (d_make up lo) = unat (push_bit 32 (ucast up :: u64)) + unat (ucast lo :: u64)"
    unfolding d_make_def
  proof (rule unat_or_no_carry)
    show "\<not> bit (push_bit 32 (ucast up :: u64)) n \<or> \<not> bit (ucast lo :: u64) n" for n
      by (auto simp: bit_push_bit_iff bit_ucast_iff dest: bit_imp_le_length)
    show "unat (push_bit 32 (ucast up :: u64)) + unat (ucast lo :: u64) < 2 ^ LENGTH(64)"
      unfolding p u using b by simp
  qed
  then show ?thesis unfolding p u .
qed

lemma d_halves [simp]: "d_upper (d_make up lo) = up" "d_lower (d_make up lo) = lo"
  using unat_bound[of lo] by (simp_all add: word_unat_eq_iff unat_d_upper unat_d_lower unat_d_make)

lemma d_make_halves [simp]: "d_make (d_upper x) (d_lower x) = x"
  by (simp add: word_unat_eq_iff unat_d_upper unat_d_lower unat_d_make)

lemma d_zero_iff: "d_upper x = 0 \<and> d_lower x = 0 \<longleftrightarrow> x = 0"
  by (metis d_make_halves d_halves word_unat_eq_iff unat_d_make unat_0 mult_0 add_0)

lemma d_sign_bit: "d_sign a \<noteq> 0 \<longleftrightarrow> bit a 63"
  using and_power_eq_0[of "d_upper a" 31] by (simp add: d_sign_def d_upper_def bit_ucast_iff bit_drop_bit_eq)

lemma d_sign_cases: "d_sign a = 0 \<or> d_sign a = SIGNBIT"
proof -
  have s: "(SIGNBIT :: u32) = 2 ^ 31" by simp
  have "d_upper a AND 2 ^ 31 = (if bit (d_upper a) 31 then 2 ^ 31 else 0)"
    by (rule bit_word_eqI) (auto simp only: bit_and_iff bit_exp_iff bit_0_eq bot_apply bot_bool_def split: if_splits)
  then show ?thesis unfolding d_sign_def s by (simp split: if_splits)
qed

lemma sar_and_mask: "signed_drop_bit n (x :: u32) AND mask k = drop_bit n x AND mask k" if "n + k \<le> 32"
  using that by (intro bit_word_eqI) (auto simp: bit_and_iff bit_mask_iff bit_signed_drop_bit_iff bit_drop_bit_eq)

lemma unat_d_exp: "unat (d_exp x) = unat x div 2 ^ 52 mod 2048"
proof -
  have m: "(0x7FF :: u32) = mask 11" by (simp add: mask_eq_exp_minus_1)
  have "unat x div 2 ^ 32 div 2 ^ 20 = unat x div 2 ^ 52" by (simp add: div_mult2_eq[symmetric])
  then show ?thesis unfolding d_exp_def m by (simp add: sar_and_mask unat_and_mask unat_shr unat_d_upper)
qed

lemma unat_frac_ll: "unat ((x :: u64) AND (HIDDEND_LL - 1)) = unat x mod 2 ^ 52"
proof -
  have m: "(HIDDEND_LL - 1 :: u64) = mask 52" by (simp add: mask_eq_exp_minus_1)
  show ?thesis unfolding m unat_and_mask ..
qed

lemma unat_d_mant_ll: "unat (d_mant_ll x) = 2 ^ 52 + unat x mod 2 ^ 52"
proof -
  have m: "(HIDDEND_LL - 1 :: u64) = mask 52" "(HIDDEND_LL :: u64) = 2 ^ 52" by (simp_all add: mask_eq_exp_minus_1)
  have fr: "unat x mod 2 ^ 52 < 2 ^ 52" by simp
  have "unat ((x AND mask 52) OR 2 ^ 52) = unat (x AND mask 52) + unat ((2 :: u64) ^ 52)"
  proof (rule unat_or_no_carry)
    show "\<not> bit (x AND mask 52) n \<or> \<not> bit ((2 :: u64) ^ 52) n" for n
      by (auto simp only: bit_and_iff bit_mask_iff bit_exp_iff)
    show "unat (x AND mask 52) + unat ((2 :: u64) ^ 52) < 2 ^ LENGTH(64)" unfolding unat_and_mask using fr by simp
  qed
  then show ?thesis unfolding d_mant_ll_def m(1) unfolding m(2) unat_and_mask by simp
qed

lemma d_mant_ll_bounds: "2 ^ 52 \<le> unat (d_mant_ll a)" "unat (d_mant_ll a) < 2 ^ 53"
  by (simp_all add: unat_d_mant_ll)

lemma unat_d_pack:
  assumes "s = 0 \<or> s = SIGNBIT" "unat e < 2048" "unat m < 2 ^ 52"
  shows "unat (d_pack s e m) = (if s \<noteq> 0 then 2 ^ 63 else 0) + unat e * 2 ^ 52 + unat m"
proof -
  have e: "unat (push_bit 20 e) = unat e * 2 ^ 20" using assms(2) by (intro unat_shl_no_carry) simp
  have s: "unat s = (if s \<noteq> 0 then 2 ^ 31 else 0)" using assms(1) by auto
  have se: "unat (s + push_bit 20 e) = unat s + unat e * 2 ^ 20"
    using assms(2) unfolding unat_word_ariths(1) e s by (simp split: if_split)
  define x where "x = s + push_bit 20 e"
  have "push_bit 32 (scast x :: u64) = push_bit 32 (ucast x)"
  proof (rule bit_word_eqI)
    fix n assume "n < LENGTH(64)"
    then have "min 31 (n - 32) = n - 32" by simp
    then show "bit (push_bit 32 (scast x :: u64)) n = bit (push_bit 32 (ucast x :: u64)) n"
      by (auto simp: bit_push_bit_iff bit_signed_iff bit_ucast_iff)
  qed
  moreover have "unat (ucast x :: u64) = unat x" by (simp add: unsigned_ucast_eq take_bit_nat_eq_self less_trans[OF unat_bound])
  moreover have "unat x < 2 ^ 32" using unat_bound[of x] by simp
  ultimately have p: "unat (push_bit 32 (scast x :: u64)) = unat x * 2 ^ 32" by (simp add: unat_shl_no_carry)
  have "unat x * 2 ^ 32 = 2 ^ 52 * ((if s \<noteq> 0 then 2 ^ 11 else 0) + unat e)" unfolding x_def se s by simp
  then have "2 ^ 52 dvd unat (push_bit 32 (scast x :: u64))" unfolding p by (rule dvdI)
  then have "unat (d_pack s e m) = unat x * 2 ^ 32 + unat m"
    unfolding d_pack_def x_def[symmetric] p[symmetric] using assms(3) by (intro unat_or_aligned[of 52]) simp_all
  then show ?thesis unfolding x_def se s by (simp split: if_split)
qed

subsection \<open>Values\<close>

definition df_mag :: "nat \<Rightarrow> nat" where
  "df_mag m = (if m div 2 ^ 52 = 0 then m mod 2 ^ 52 else (2 ^ 52 + m mod 2 ^ 52) * 2 ^ (m div 2 ^ 52 - 1))"

definition df_scaled :: "u64 \<Rightarrow> int" where
  "df_scaled a = (if d_sign a \<noteq> 0 then - 1 else 1) * int (df_mag (unat a mod 2 ^ 63))"

lemma df_scaled_fields:
  assumes "unat a = (if sg then 2 ^ 63 else 0) + e * 2 ^ 52 + f" "1 \<le> e" "e < 2048" "f < 2 ^ 52"
  shows "df_scaled a = (if sg then - 1 else 1) * (int (2 ^ 52 + f) * 2 ^ (e - 1))" "d_sign a \<noteq> 0 \<longleftrightarrow> sg"
    "unat (d_exp a) = e" "unat (d_mant_ll a) = 2 ^ 52 + f"
proof -
  have l: "e * 2 ^ 52 + f < 2 ^ 63" using assms(3,4) by simp
  then have m: "unat a mod 2 ^ 63 = e * 2 ^ 52 + f" unfolding assms(1) by (simp add: add.assoc)
  have "bit a 63 \<longleftrightarrow> 2 ^ 63 \<le> unat a" by (rule top_bit_iff) simp
  also have "\<dots> \<longleftrightarrow> sg" using l unfolding assms(1) by (simp split: if_split)
  finally show sg: "d_sign a \<noteq> 0 \<longleftrightarrow> sg" unfolding d_sign_bit .
  have q: "(e * 2 ^ 52 + f) div 2 ^ 52 = e" "(e * 2 ^ 52 + f) mod 2 ^ 52 = f"
    using assms(4) by (simp_all only: div_mult_self3 mod_mult_self3 div_less mod_less add_0_right)
  have w: "unat a = ((if sg then 2 ^ 11 else 0) + e) * 2 ^ 52 + f" unfolding assms(1) by simp
  have "unat a div 2 ^ 52 = (if sg then 2 ^ 11 else 0) + e" "unat a mod 2 ^ 52 = f"
    unfolding w using assms(4) by (simp_all only: div_mult_self3 mod_mult_self3 div_less mod_less add_0_right)
  then show "unat (d_exp a) = e" "unat (d_mant_ll a) = 2 ^ 52 + f" using assms(3) by (simp_all add: unat_d_exp unat_d_mant_ll)
  have "df_mag (e * 2 ^ 52 + f) = (2 ^ 52 + f) * 2 ^ (e - 1)"
    unfolding df_mag_def q using assms(2) by (simp only: if_False One_nat_def not_one_le_zero) simp
  then show "df_scaled a = (if sg then - 1 else 1) * (int (2 ^ 52 + f) * 2 ^ (e - 1))"
    unfolding df_scaled_def m using sg by (simp only: of_nat_mult of_nat_power of_nat_numeral)
qed

lemma df_scaled_normal:
  assumes "1 \<le> unat (d_exp a)"
  shows "df_scaled a = (if d_sign a \<noteq> 0 then - 1 else 1) * (int (unat (d_mant_ll a)) * 2 ^ (unat (d_exp a) - 1))"
proof -
  define sg where "sg \<longleftrightarrow> 2 ^ 63 \<le> unat a"
  have "unat a < 2 ^ 64" using unat_bound[of a] by simp
  then have top: "unat a div 2 ^ 52 div 2048 = (if sg then 1 else 0)"
    unfolding sg_def div_mult2_eq[symmetric] by (auto intro!: div_nat_eqI)
  have "unat a = unat a div 2 ^ 52 * 2 ^ 52 + unat a mod 2 ^ 52" by simp
  also have "unat a div 2 ^ 52 = unat a div 2 ^ 52 div 2048 * 2048 + unat (d_exp a)" unfolding unat_d_exp by simp
  finally have u: "unat a = (if sg then 2 ^ 63 else 0) + unat (d_exp a) * 2 ^ 52 + unat a mod 2 ^ 52"
    unfolding top by (simp add: algebra_simps split: if_splits)
  have "unat (d_exp a) < 2048" by (simp add: unat_d_exp)
  note f = df_scaled_fields[OF u assms this]
  show ?thesis using f(1,2) by (simp add: unat_d_mant_ll)
qed

lemma clear_hidden_ll:
  assumes "2 ^ 52 \<le> unat r" "unat r < 2 ^ 53"
  shows "unat ((r :: u64) AND NOT HIDDEND_LL) = unat r - 2 ^ 52"
proof -
  have "unat r < 2 ^ Suc 52" "(HIDDEND_LL :: u64) = 2 ^ 52" using assms(2) by simp_all
  then show ?thesis using clear_top[OF assms(1)] by (simp only:)
qed

lemma d_pack_scaled:
  assumes "s = 0 \<or> s = SIGNBIT" "1 \<le> unat e" "unat e < 2048" "2 ^ 52 \<le> unat r" "unat r < 2 ^ 53"
  shows "df_scaled (d_pack s e (r AND NOT HIDDEND_LL)) = (if s \<noteq> 0 then - 1 else 1) * (int (unat r) * 2 ^ (unat e - 1))"
proof -
  have m: "unat (r AND NOT HIDDEND_LL) = unat r - 2 ^ 52" "unat r - 2 ^ 52 < 2 ^ 52"
    using clear_hidden_ll[OF assms(4,5)] assms(5) by (simp_all only:, simp)
  have "df_scaled (d_pack s e (r AND NOT HIDDEND_LL)) = (if s \<noteq> 0 then - 1 else 1) * (int (2 ^ 52 + (unat r - 2 ^ 52)) * 2 ^ (unat e - 1))"
    using assms(1-3) m by (intro df_scaled_fields(1)) (simp_all only: unat_d_pack)
  then show ?thesis using assms(4) by simp
qed

subsection \<open>Division\<close>

interpretation double_quotient: quotient_bits divdf3_loop
  by unfold_locales (subst divdf3_loop.simps, simp add: word_le_nat_alt)+

lemma divdf3_packed:
  assumes "1 \<le> unat (d_exp a)" "1 \<le> unat (d_exp b)"
    and "unat (d_exp b) \<le> unat (d_exp a) + 1021" "unat (d_exp a) \<le> unat (d_exp b) + 1023"
  obtains r e k where "divdf3 a b = d_pack (d_sign a XOR d_sign b) e (r AND NOT HIDDEND_LL)"
    "2 ^ 52 \<le> unat r" "unat r < 2 ^ 53" "k = 0 \<or> k = 1"
    "unat e + unat (d_exp b) + k = unat (d_exp a) + 1023"
    "2 * \<bar>int (unat r) * int (unat (d_mant_ll b)) - 2 ^ k * int (unat (d_mant_ll a)) * 2 ^ 52\<bar> \<le> int (unat (d_mant_ll b))"
    "unat (d_mant_ll b) \<le> 2 ^ k * unat (d_mant_ll a)"
proof -
  note fb = d_mant_ll_bounds[of a] d_mant_ll_bounds[of b]
  have nz: "a \<noteq> 0" "b \<noteq> 0" using assms(1,2) by (auto simp: unat_d_exp)
  have xb: "unat (d_exp a) < 2048" "unat (d_exp b) < 2048" unfolding unat_d_exp by simp_all
  define k where "k = (if unat (d_mant_ll a) < unat (d_mant_ll b) then 1 else 0 :: nat)"
  define m where "m = (if d_mant_ll a < d_mant_ll b then push_bit 1 (d_mant_ll a) else d_mant_ll a)"
  define e where "e = d_exp a - d_exp b + EXCESSD - of_nat k + 1"
  have m: "unat m = 2 ^ k * unat (d_mant_ll a)"
    using fb unat_push_bit_1[of "d_mant_ll a"] by (simp add: m_def k_def word_less_nat_alt)
  have mb: "unat (d_mant_ll b) \<le> unat m" "unat m < 2 * unat (d_mant_ll b)" "even (unat m) \<or> unat m < 2 ^ 53"
    unfolding m using fb by (simp_all add: k_def)
  define q where "q = divdf3_loop m (d_mant_ll b) (push_bit 53 1) 0"
  have q: "unat q = unat m * 2 ^ 53 div unat (d_mant_ll b)"
    using double_quotient.quotient[OF mb(2), of 53 0] fb(4) by (simp add: q_def push_bit_eq_mult)
  have c: "Suc 52 = 53" "Suc 53 = 54" by simp_all
  note qr = quotient_round[of "unat (d_mant_ll b)" "unat m" 52, unfolded c, OF mb(1,2) fb(3,4) mb(3) zero_less_numeral]
  have q1: "unat (q + 1) = unat q + 1" using qr(4) by (simp add: unat_word_ariths q)
  have r: "unat (signed_drop_bit 1 (q + 1)) = (unat q + 1) div 2"
  proof -
    have "2 * unat (q + 1) < 2 ^ LENGTH(64)" using qr(4) unfolding q1 q by simp
    then show ?thesis by (simp only: sar_nonneg unat_drop_bit_1 q1)
  qed
  show thesis
  proof (rule that)
    show "divdf3 a b = d_pack (d_sign a XOR d_sign b) e (signed_drop_bit 1 (q + 1) AND NOT HIDDEND_LL)"
      using nz by (simp add: divdf3_def Let_def word_less_nat_alt q_def m_def e_def k_def)
    show "2 ^ 52 \<le> unat (signed_drop_bit 1 (q + 1))" "unat (signed_drop_bit 1 (q + 1)) < 2 ^ 53"
      unfolding r q by (rule qr(1) qr(2))+
    show "k = 0 \<or> k = 1" by (simp add: k_def)
    show "unat e + unat (d_exp b) + k = unat (d_exp a) + 1023"
    proof -
      have "e = of_nat (unat (d_exp a) + 1023 - k - unat (d_exp b))"
        using assms(3) by (simp add: e_def k_def of_nat_diff)
      then have "unat e = unat (d_exp a) + 1023 - k - unat (d_exp b)"
        using xb by (simp only: unat_of_nat) simp
      then show ?thesis using assms(3) by (simp add: k_def)
    qed
    show "2 * \<bar>int (unat (signed_drop_bit 1 (q + 1))) * int (unat (d_mant_ll b)) - 2 ^ k * int (unat (d_mant_ll a)) * 2 ^ 52\<bar>
        \<le> int (unat (d_mant_ll b))"
      using qr(3) unfolding r q by (simp add: m)
    show "unat (d_mant_ll b) \<le> 2 ^ k * unat (d_mant_ll a)" using mb(1) unfolding m .
  qed
qed

lemma df_scaled_grid: "2 ^ x dvd df_scaled c \<or> \<bar>df_scaled c\<bar> \<le> 2 ^ 52 * 2 ^ x"
proof -
  define v where "v = df_mag (unat c mod 2 ^ 63)"
  have "2 ^ x dvd v \<or> v \<le> 2 ^ 52 * 2 ^ x"
    unfolding v_def df_mag_def by (rule float_grid)
  then have "(2 :: int) ^ x dvd int v \<or> int v \<le> 2 ^ 52 * 2 ^ x"
    by (simp only: of_nat_dvd_iff of_nat_le_iff flip: of_nat_power of_nat_mult of_nat_numeral[where 'a = int])
  moreover have "df_scaled c = int v \<or> df_scaled c = - int v" by (simp add: df_scaled_def v_def)
  ultimately show ?thesis by (elim disjE) (simp_all only: dvd_minus_iff abs_minus_cancel abs_of_nat simp_thms)
qed

lemma divdf3_value:
  assumes "1 \<le> unat (d_exp a)" "1 \<le> unat (d_exp b)"
    and "unat (d_exp b) \<le> unat (d_exp a) + 1021" "unat (d_exp a) \<le> unat (d_exp b) + 1023"
  shows "2 ^ 53 * \<bar>df_scaled (divdf3 a b) * df_scaled b - df_scaled a * 2 ^ 1074\<bar> \<le> \<bar>df_scaled a * 2 ^ 1074\<bar>"
    "\<bar>df_scaled (divdf3 a b) * df_scaled b - df_scaled a * 2 ^ 1074\<bar> \<le> \<bar>df_scaled c * df_scaled b - df_scaled a * 2 ^ 1074\<bar>"
proof -
  obtain r e k where div: "divdf3 a b = d_pack (d_sign a XOR d_sign b) e (r AND NOT HIDDEND_LL)"
    and r: "2 ^ 52 \<le> unat r" "unat r < 2 ^ 53" and k: "k = 0 \<or> k = (1 :: nat)"
    and e: "unat e + unat (d_exp b) + k = unat (d_exp a) + 1023"
    and err: "2 * \<bar>int (unat r) * int (unat (d_mant_ll b)) - 2 ^ k * int (unat (d_mant_ll a)) * 2 ^ 52\<bar> \<le> int (unat (d_mant_ll b))"
    and le: "unat (d_mant_ll b) \<le> 2 ^ k * unat (d_mant_ll a)"
    by (rule divdf3_packed[OF assms])
  define g where "g = (if d_sign a \<noteq> 0 then - 1 else 1 :: int)"
  define h where "h = (if d_sign b \<noteq> 0 then - 1 else 1 :: int)"
  define s where "s = d_sign a XOR d_sign b"
  have s: "s = 0 \<or> s = SIGNBIT" "(if s \<noteq> 0 then - 1 else 1) = g * h"
    using d_sign_cases[of a] d_sign_cases[of b] by (auto simp: s_def g_def h_def)
  have eb: "1 \<le> unat e" "unat e < 2048" using e k assms(3,4) by auto
  have v: "df_scaled (divdf3 a b) = g * h * (int (unat r) * 2 ^ (unat e - 1))"
    unfolding div s_def[symmetric] d_pack_scaled[OF s(1) eb r] s(2) ..
  have vb: "df_scaled b = h * (int (unat (d_mant_ll b)) * 2 ^ (unat (d_exp b) - 1))"
    and va: "df_scaled a = g * (int (unat (d_mant_ll a)) * 2 ^ (unat (d_exp a) - 1))"
    unfolding g_def h_def by (rule df_scaled_normal, rule assms)+
  have gh: "g = 1 \<or> g = - 1" "h = 1 \<or> h = - 1" by (simp_all add: g_def h_def)
  have x: "unat (d_exp a) - 1 + 1074 = k + 52 + (unat e - 1 + (unat (d_exp b) - 1))" using e k assms by linarith
  have lei: "int (unat (d_mant_ll b)) \<le> 2 ^ k * int (unat (d_mant_ll a))" using le by (simp flip: of_nat_le_iff[where 'a = int])
  have "0 < unat (d_mant_ll b)" by (rule order.strict_trans2[OF _ d_mant_ll_bounds(1)]) simp
  then have pos: "0 < int (unat (d_mant_ll b))" by (simp only: of_nat_0_less_iff)
  have c53: "(53 :: nat) = Suc 52" by simp
  show "2 ^ 53 * \<bar>df_scaled (divdf3 a b) * df_scaled b - df_scaled a * 2 ^ 1074\<bar> \<le> \<bar>df_scaled a * 2 ^ 1074\<bar>"
    unfolding c53 by (rule quotient_value[OF v vb va gh x lei err])
  show "\<bar>df_scaled (divdf3 a b) * df_scaled b - df_scaled a * 2 ^ 1074\<bar> \<le> \<bar>df_scaled c * df_scaled b - df_scaled a * 2 ^ 1074\<bar>"
    by (rule quotient_nearest[OF v vb va gh x lei err pos df_scaled_grid])
qed

text \<open>C29: The quotient of two doubles whose exponent fields are not zero (a field of all ones read as the exponent it
  stands for), when the exponent of the result is normal too, that is
  \<open>d_exp b - 1021 \<le> d_exp a \<le> d_exp b + 1023\<close>, is the exact quotient rounded to nearest: no double at all is closer to
  it (both sides multiplied by the divisor), and its relative error is at most \<open>2 ^ -53\<close>.\<close>

theorem double_div_rounded:
  assumes "1 \<le> unat (d_exp a)" "1 \<le> unat (d_exp b)"
    and "unat (d_exp b) \<le> unat (d_exp a) + 1021" "unat (d_exp a) \<le> unat (d_exp b) + 1023"
  shows "(\<forall>c. \<bar>df_scaled (divdf3 a b) * df_scaled b - df_scaled a * 2 ^ 1074\<bar>
      \<le> \<bar>df_scaled c * df_scaled b - df_scaled a * 2 ^ 1074\<bar>) \<and>
    2 ^ 53 * \<bar>df_scaled (divdf3 a b) * df_scaled b - df_scaled a * 2 ^ 1074\<bar> \<le> \<bar>df_scaled a * 2 ^ 1074\<bar>"
  using divdf3_value[OF assms] by blast

lemma double_div_rounded_witness:
  "(\<forall>c. \<bar>df_scaled (divdf3 0x3FF0000000000000 0x4008000000000000) * df_scaled 0x4008000000000000
      - df_scaled 0x3FF0000000000000 * 2 ^ 1074\<bar>
      \<le> \<bar>df_scaled c * df_scaled 0x4008000000000000 - df_scaled 0x3FF0000000000000 * 2 ^ 1074\<bar>) \<and>
    2 ^ 53 * \<bar>df_scaled (divdf3 0x3FF0000000000000 0x4008000000000000) * df_scaled 0x4008000000000000
      - df_scaled 0x3FF0000000000000 * 2 ^ 1074\<bar> \<le> \<bar>df_scaled 0x3FF0000000000000 * 2 ^ 1074\<bar>"
  by (rule double_div_rounded) code_simp+

subsection \<open>Integers and doubles\<close>

lemma slt_power: "a <s push_bit k 1 \<longleftrightarrow> unat a < 2 ^ k" if "2 * unat a < 2 ^ LENGTH('a)" "k < LENGTH('a) - 1"
  for a :: "'a::len word"
proof -
  have "unat (push_bit k (1 :: 'a word)) = 2 ^ k" using unat_pow2[of k, where 'a = 'a] that(2) by (simp add: push_bit_eq_mult)
  moreover have "2 * (2 :: nat) ^ k < 2 ^ LENGTH('a)" using that(2) by (simp flip: power_Suc)
  ultimately show ?thesis using that(1) by (simp only: word_sless_alt sint_half of_nat_less_iff)
qed



text \<open>
  The contract of a loop that shifts a positive mantissa left, \<open>c\<close> bits at a time, until it reaches \<open>2 ^ h\<close>, and
  lowers the exponent: it ends, and the shift does not carry.
\<close>

locale raising =
  fixes loop :: "'a::len word \<Rightarrow> u32 \<Rightarrow> ('a word \<times> u32) option" and h c :: nat
  assumes steps: "0 < c" "h + c < LENGTH('a)"
    and step: "2 * unat a < 2 ^ LENGTH('a) \<Longrightarrow>
      loop a e = (if unat a < 2 ^ h then loop (push_bit c a) (e - of_nat c) else Some (a, e))"
begin

lemma raised:
  assumes "0 < unat a" "2 * unat a < 2 ^ LENGTH('a)"
  shows "\<exists>k m. loop a e = Some (m, e - of_nat k) \<and> unat m = unat a * 2 ^ k \<and> 2 ^ h \<le> unat m \<and> 2 * unat m < 2 ^ LENGTH('a)"
  using assms
proof (induction "2 ^ LENGTH('a) - unat a" arbitrary: a e rule: less_induct)
  case less
  show ?case
  proof (cases "unat a < 2 ^ h")
    case True
    define b where "b = push_bit c a"
    have p: "2 * (2 ^ h * 2 ^ c) \<le> (2 :: nat) ^ LENGTH('a)" using steps(2) by (simp flip: power_add power_Suc)
    have lt: "unat a * 2 ^ c < 2 ^ h * 2 ^ c" using True by simp
    have b: "unat b = unat a * 2 ^ c" unfolding b_def using lt p by (intro unat_shl_no_carry) linarith
    have bb: "2 * unat b < 2 ^ LENGTH('a)" using lt p unfolding b by linarith
    have "2 * unat a \<le> unat b" unfolding b using steps(1) self_le_power[of "2 :: nat" c] by (simp add: mult.commute)
    then have "0 < unat b" "2 ^ LENGTH('a) - unat b < 2 ^ LENGTH('a) - unat a" using less.prems bb by linarith+
    then obtain k m where k: "loop b (e - of_nat c) = Some (m, e - of_nat c - of_nat k)" "unat m = unat b * 2 ^ k" "2 ^ h \<le> unat m"
      "2 * unat m < 2 ^ LENGTH('a)" using less.hyps[of b "e - of_nat c"] bb by blast
    have "loop a e = loop b (e - of_nat c)" using step[OF less.prems(2), of e] True by (simp only: if_True b_def)
    then have "loop a e = Some (m, e - of_nat (c + k))" unfolding k(1) by (simp add: algebra_simps)
    moreover have "unat m = unat a * 2 ^ (c + k)" unfolding k(2) b power_add by (rule mult.assoc)
    ultimately show ?thesis using k(3,4) by blast
  next
    case False
    then have "loop a e = Some (a, e - of_nat 0)" using step[OF less.prems(2), of e] by simp
    then show ?thesis using False less.prems by (intro exI[of _ 0] exI[of _ a]) simp
  qed
qed

end

interpretation raise4: raising raise_4 24 4
proof
  show "raise_4 a e = (if unat a < 2 ^ 24 then raise_4 (push_bit 4 a) (e - of_nat 4) else Some (a, e))"
    if "2 * unat a < 2 ^ LENGTH(32)" for a e
    using slt_power[OF that, of 24] by (subst raise_4.simps) simp
qed simp_all

interpretation raise1: raising raise_1 30 1
proof
  show "raise_1 a e = (if unat a < 2 ^ 30 then raise_1 (push_bit 1 a) (e - of_nat 1) else Some (a, e))"
    if "2 * unat a < 2 ^ LENGTH(32)" for a e
    using slt_power[OF that, of 30] by (subst raise_1.simps) simp
qed simp_all

interpretation raise8: raising raise_8_ll 54 8
proof
  show "raise_8_ll a e = (if unat a < 2 ^ 54 then raise_8_ll (push_bit 8 a) (e - of_nat 8) else Some (a, e))"
    if "2 * unat a < 2 ^ LENGTH(64)" for a e
    using slt_power[OF that, of 54] by (subst raise_8_ll.simps) simp
qed simp_all

interpretation raise1_ll: raising raise_1_ll 62 1
proof
  show "raise_1_ll a e = (if unat a < 2 ^ 62 then raise_1_ll (push_bit 1 a) (e - of_nat 1) else Some (a, e))"
    if "2 * unat a < 2 ^ LENGTH(64)" for a e
    using slt_power[OF that, of 62] by (subst raise_1_ll.simps) simp
qed simp_all

lemma raise_both:
  assumes "0 < unat a" "unat a < 2 ^ 31"
  obtains k m where "k < 31" "unat m = unat a * 2 ^ k" "2 ^ 30 \<le> unat m" "unat m < 2 ^ 31"
    "do { (a, e) \<leftarrow> raise_4 a e0; raise_1 a e } = Some (m, e0 - of_nat k)"
proof -
  obtain i b where b: "raise_4 a e0 = Some (b, e0 - of_nat i)" "unat b = unat a * 2 ^ i" "2 ^ 24 \<le> unat b" "2 * unat b < 2 ^ LENGTH(32)"
    using raise4.raised[of a e0] assms by auto
  have "0 < unat b" using b(3) by (rule less_le_trans[rotated]) simp
  then obtain j m where m: "raise_1 b (e0 - of_nat i) = Some (m, e0 - of_nat i - of_nat j)" "unat m = unat b * 2 ^ j"
    "2 ^ 30 \<le> unat m" "2 * unat m < 2 ^ LENGTH(32)"
    using raise1.raised[OF _ b(4), of "e0 - of_nat i"] by blast
  have u: "unat m = unat a * 2 ^ (i + j)" unfolding m(2) b(2) power_add by (rule mult.assoc)
  have "2 ^ (i + j) \<le> unat m" unfolding u using assms(1) by simp
  moreover have m31: "unat m < 2 ^ 31" using m(4) by simp
  ultimately have "(2 :: nat) ^ (i + j) < 2 ^ 31" by linarith
  then have "i + j < 31" by (rule power_less_imp_less_exp[rotated]) simp
  moreover have "do { (a, e) \<leftarrow> raise_4 a e0; raise_1 a e } = Some (m, e0 - of_nat (i + j))" using b(1) m(1) by (simp add: algebra_simps)
  ultimately show thesis using that u m(3) m31 by blast
qed

lemma unat_d_mant: "unat (d_mant x) = 2 ^ 30 + unat x mod 2 ^ 52 div 2 ^ 22"
proof -
  define u where "u = unat x"
  have m: "(0xFFFFF :: u32) = mask 20" "(HIDDEND :: u32) = 2 ^ 20" by (simp_all add: mask_eq_exp_minus_1)
  have fr: "unat (d_upper x AND mask 20) < 2 ^ 20" unfolding unat_and_mask by simp
  have h: "unat (2 ^ 20 :: u32) = 2 ^ 20" by simp
  have oh: "unat (2 ^ 20 OR (d_upper x AND mask 20)) = 2 ^ 20 + unat (d_upper x) mod 2 ^ 20"
    using unat_or_aligned[of 20 "2 ^ 20 :: u32" "d_upper x AND mask 20"] fr unfolding h unat_and_mask by simp
  define y where "y = (d_upper x AND mask 20) OR 2 ^ 20"
  have a: "unat y = 2 ^ 20 + u div 2 ^ 32 mod 2 ^ 20"
    unfolding y_def or.commute[of "d_upper x AND mask 20"] using oh unat_d_upper[of x]
    by (simp only: u_def)
  have lt: "u div 2 ^ 32 mod 2 ^ 20 < 2 ^ 20" by simp
  have p: "unat (push_bit 10 y) = (2 ^ 20 + u div 2 ^ 32 mod 2 ^ 20) * 2 ^ 10"
    using lt by (subst unat_shl_no_carry) (simp_all add: a)
  have l: "unat (drop_bit 22 (d_lower x)) = u mod 2 ^ 32 div 2 ^ 22" unfolding unat_shr unat_d_lower u_def ..
  have "unat (d_mant x) = (2 ^ 20 + u div 2 ^ 32 mod 2 ^ 20) * 2 ^ 10 + u mod 2 ^ 32 div 2 ^ 22"
    unfolding d_mant_def m y_def[symmetric] p[symmetric] l[symmetric]
    by (rule unat_or_aligned[of 10]) (simp_all only: p l, simp_all add: less_mult_imp_div_less)
  moreover have "u mod 2 ^ 52 div 2 ^ 22 = u div 2 ^ 22 mod 2 ^ 30" "u mod 2 ^ 32 div 2 ^ 22 = u div 2 ^ 22 mod 2 ^ 10"
    using div_exp_mod_exp_eq[of u 22 30] div_exp_mod_exp_eq[of u 22 10] by simp_all
  moreover have "u div 2 ^ 22 mod (2 ^ 10 * 2 ^ 20) = 2 ^ 10 * (u div 2 ^ 22 div 2 ^ 10 mod 2 ^ 20) + u div 2 ^ 22 mod 2 ^ 10"
    by (rule mod_mult2_eq)
  moreover have "u div 2 ^ 22 div 2 ^ 10 = u div 2 ^ 32" by (simp add: div_mult2_eq[symmetric])
  ultimately show ?thesis unfolding u_def by (simp add: algebra_simps)
qed

text \<open>A double put together from a sign, an exponent and a mantissa of 31 bits.\<close>

lemma double_of_mantissa:
  assumes "s = 0 \<or> s = SIGNBIT" "unat e < 2048" "2 ^ 30 \<le> unat m" "unat m < 2 ^ 31"
  shows "unat (d_make (s OR push_bit 20 e OR (signed_drop_bit 10 m AND NOT HIDDEND)) (push_bit 22 m))
    = (if s \<noteq> 0 then 2 ^ 63 else 0) + unat e * 2 ^ 52 + (unat m - 2 ^ 30) * 2 ^ 22"
proof -
  have hd: "(HIDDEND :: u32) = 2 ^ 20" by simp
  have sv: "unat s = (if s \<noteq> 0 then 2 ^ 31 else 0)" using assms(1) by auto
  have e: "unat (push_bit 20 e) = unat e * 2 ^ 20" using assms(2) by (intro unat_shl_no_carry) simp
  have d: "unat (drop_bit 10 m) = unat m div 2 ^ 10" by (rule unat_shr)
  have sar: "signed_drop_bit 10 m = drop_bit 10 m" using assms(4) by (intro sar_nonneg) simp
  have q: "2 ^ 20 \<le> unat m div 2 ^ 10" "unat m div 2 ^ 10 < 2 ^ Suc 20"
    using div_le_mono[OF assms(3), of "2 ^ 10"] assms(4) by (simp_all add: less_mult_imp_div_less)
  have f: "unat (drop_bit 10 m AND NOT (2 ^ 20)) = unat m div 2 ^ 10 - 2 ^ 20"
    using clear_top[of 20 "drop_bit 10 m"] q unfolding d by blast
  have se: "unat (s OR push_bit 20 e) = unat s + unat e * 2 ^ 20"
    unfolding e[symmetric] by (rule unat_or_aligned[of 31]) (use assms(2) in \<open>simp_all only: e sv, simp_all\<close>)
  have "unat (s OR push_bit 20 e OR (drop_bit 10 m AND NOT (2 ^ 20))) = unat s + unat e * 2 ^ 20 + (unat m div 2 ^ 10 - 2 ^ 20)"
    unfolding se[symmetric] f[symmetric] or.assoc[symmetric]
    by (rule unat_or_aligned[of 20]) (use q in \<open>simp_all only: se f sv, simp_all\<close>)
  then have up: "unat (s OR push_bit 20 e OR (signed_drop_bit 10 m AND NOT HIDDEND)) = unat s + unat e * 2 ^ 20 + (unat m div 2 ^ 10 - 2 ^ 20)"
    unfolding sar hd .
  have lo: "unat (push_bit 22 m) = unat m mod 2 ^ 10 * 2 ^ 22"
    unfolding unat_shl using mult_mod_right[of "2 ^ 22" "unat m" "2 ^ 10"] by (simp add: mult.commute)
  have "(unat m - 2 ^ 30) * 2 ^ 22 = (unat m div 2 ^ 10 - 2 ^ 20) * 2 ^ 32 + unat m mod 2 ^ 10 * 2 ^ 22"
  proof -
    have "unat m - 2 ^ 30 = (unat m div 2 ^ 10 - 2 ^ 20) * 2 ^ 10 + unat m mod 2 ^ 10"
      using div_mult_mod_eq[of "unat m" "2 ^ 10"] q(1) by (simp add: diff_mult_distrib)
    then show ?thesis by (simp only: add_mult_distrib mult.assoc) simp
  qed
  then show ?thesis unfolding unat_d_make up lo sv by (simp add: add_mult_distrib split: if_split)
qed

lemma word_of_unat: "of_nat (unat (w :: 'a::len word)) = w"
  by simp

lemma floatsidf_fields:
  assumes "n \<noteq> 0" "n \<noteq> SIGNBIT"
  obtains d k m where "floatsidf n = Some d" "k < 31" "unat (m :: u32) = nat \<bar>sint n\<bar> * 2 ^ k" "2 ^ 30 \<le> unat m" "unat m < 2 ^ 31"
    "unat d = (if sint n < 0 then 2 ^ 63 else 0) + (1053 - k) * 2 ^ 52 + (unat m - 2 ^ 30) * 2 ^ 22"
proof -
  define a where "a = c_abs n"
  have ua: "unat a = nat \<bar>sint n\<bar>" unfolding a_def by (metis nat_uint_eq uint_c_abs)
  have "sint n \<noteq> 0" by (metis assms(1) word_of_int_of_sint word_of_int_0)
  moreover have "sint n \<noteq> - (2 ^ 31)"
  proof
    assume "sint n = - (2 ^ 31)"
    then have "n = word_of_int (- (2 ^ 31))" by (metis word_of_int_of_sint)
    then show False using assms(2) by simp
  qed
  ultimately have ab: "0 < unat a" "unat a < 2 ^ 31" using sint_ge[of n] sint_lt[of n] unfolding ua by auto
  obtain k m where k: "k < 31" "unat m = unat a * 2 ^ k" "2 ^ 30 \<le> unat m" "unat m < 2 ^ 31"
    "do { (a, e) \<leftarrow> raise_4 a 1053; raise_1 a e } = Some (m, 1053 - of_nat k)"
    by (rule raise_both[OF ab, of 1053])
  define s where "s = (if n <s 0 then SIGNBIT else 0)"
  define d where "d = d_make (s OR push_bit 20 (1053 - of_nat k) OR (signed_drop_bit 10 m AND NOT HIDDEND)) (push_bit 22 m)"
  have pos: "\<not> a <s 0" using ab(2) sint_half[of a] by (simp add: slt_zero)
  have a: "(if n <s 0 then - n else n) = a" by (simp add: a_def c_abs_def)
  obtain b i where b: "raise_4 a 1053 = Some (b, i)" "raise_1 b i = Some (m, 1053 - of_nat k)"
    using k(5) by (cases "raise_4 a 1053") auto
  have fl: "floatsidf n = Some d"
    unfolding floatsidf_def Let_def a s_def[symmetric] d_def using assms(1) pos b by simp
  have e: "unat (1053 - of_nat k :: u32) = 1053 - k"
    using k(1) unat_sub[of "of_nat k" "1053 :: u32"] by (simp add: word_le_nat_alt unat_of_nat take_bit_nat_eq_self)
  have "unat d = (if s \<noteq> 0 then 2 ^ 63 else 0) + unat (1053 - of_nat k :: u32) * 2 ^ 52 + (unat m - 2 ^ 30) * 2 ^ 22"
    unfolding d_def by (rule double_of_mantissa[OF _ _ k(3,4)]) (auto simp: s_def e)
  then have ud: "unat d = (if sint n < 0 then 2 ^ 63 else 0) + (1053 - k) * 2 ^ 52 + (unat m - 2 ^ 30) * 2 ^ 22"
    unfolding e by (simp add: s_def slt_zero)
  show thesis by (rule that[OF fl k(1) k(2)[unfolded ua] k(3,4) ud])
qed

lemma fixdfsi_fields:
  fixes m :: u32
  assumes "unat d = (if sg then 2 ^ 63 else 0) + (1053 - k) * 2 ^ 52 + (unat m - 2 ^ 30) * 2 ^ 22" "k < 31"
    "unat m = a * 2 ^ k" "2 ^ 30 \<le> unat m" "unat m < 2 ^ 31"
  shows "fixdfsi d = (if k = 0 then 0 else if sg then - of_nat a else of_nat a)"
proof -
  have f: "(unat m - 2 ^ 30) * 2 ^ 22 < 2 ^ 52" using assms(5) by simp
  have e1: "1 \<le> 1053 - k" "1053 - k < 2048" using assms(2) by simp_all
  note fields = df_scaled_fields[OF assms(1) e1 f]
  have d0: "d \<noteq> 0" using assms(1,2) by auto
  have u: "unat d mod 2 ^ 52 = (unat m - 2 ^ 30) * 2 ^ 22" using fields(4) unfolding unat_d_mant_ll by simp
  have m: "d_mant d = m"
    using assms(4) unfolding word_unat_eq_iff unat_d_mant u by simp
  have k32: "unat (of_nat k :: u32) = k" using assms(2) by (simp add: unat_of_nat take_bit_nat_eq_self)
  have "d_exp d = of_nat (1053 - k)" using fields(3) by (metis word_of_unat)
  then have e: "d_exp d - EXCESSD - 31 = - of_nat k" using assms(2) by (simp add: of_nat_diff)
  have sk: "sint (- of_nat k :: u32) = - int k"
  proof -
    have "(- of_nat k :: u32) = word_of_int (- int k)" by simp
    then have "sint (- of_nat k :: u32) = signed_take_bit 31 (- int k)" by (simp only: sint_sbintrunc') simp
    then show ?thesis using assms(2) by (simp add: signed_take_bit_int_eq_self)
  qed
  have "signed_drop_bit k m = of_nat a"
  proof -
    have "signed_drop_bit k m = drop_bit k m" using assms(5) by (intro sar_nonneg) simp
    moreover have "unat (drop_bit k m) = a" unfolding unat_shr assms(3) by simp
    ultimately show ?thesis by (metis word_of_unat)
  qed
  moreover have "m \<noteq> 0" using assms(4) by auto
  ultimately show ?thesis
    unfolding fixdfsi_def Let_def d_zero_iff e m using d0 assms(2) fields(2)
    by (simp add: word_sless_alt sk k32)
qed

text \<open>C30: The conversion of a 32-bit integer to double ends and is exact for every integer, and converting back gives the
  integer again, except between \<open>2 ^ 30\<close> and \<open>2 ^ 31\<close>, positive or negative: there no shift is needed, and
  the routine returns 0 (the smallest integer, a case of its own, comes back).\<close>

theorem double_int_round_trip:
  "\<exists>d. floatsidf n = Some d \<and> df_scaled d = sint n * 2 ^ 1074
     \<and> fixdfsi d = (if 2 ^ 30 \<le> \<bar>sint n\<bar> \<and> \<bar>sint n\<bar> < 2 ^ 31 then 0 else n)"
proof -
  consider "n = 0" | "n = SIGNBIT" | "n \<noteq> 0" "n \<noteq> SIGNBIT" by blast
  then show ?thesis
  proof cases
    case 1
    have "floatsidf 0 = Some 0" "df_scaled 0 = 0" "fixdfsi 0 = 0"
      by (simp_all add: floatsidf_def df_scaled_def df_mag_def fixdfsi_def d_zero_iff)
    then show ?thesis unfolding 1 by simp
  next
    case 2
    define d :: u64 where "d = 0xC1E0000000000000"
    have m: "d_make (SIGNBIT OR push_bit 20 (32 + EXCESSD)) 0 = d" "fixdfsi d = SIGNBIT" unfolding d_def by code_simp+
    have f: "floatsidf SIGNBIT = Some d" unfolding m(1)[symmetric] by (simp add: floatsidf_def slt_zero)
    have "unat d = (if True then 2 ^ 63 else 0) + 1054 * 2 ^ 52 + 0" by (simp add: d_def)
    then have "df_scaled d = (if True then - 1 else 1) * (int (2 ^ 52 + 0) * 2 ^ (1054 - 1))"
      by (rule df_scaled_fields(1)) simp_all
    moreover have "(2 :: int) ^ 52 * 2 ^ (1054 - 1) = 2 ^ 31 * 2 ^ 1074"
      unfolding power_add[symmetric] by (rule arg_cong[of _ _ "power 2"]) simp
    ultimately have "df_scaled d = - (2 ^ 31) * 2 ^ 1074"
      by (simp only: if_True add_0_right of_nat_power of_nat_numeral mult_minus1 mult_minus_left)
    moreover have "sint SIGNBIT = - (2 ^ 31)" by simp
    ultimately show ?thesis unfolding 2 using f m(2) by auto
  next
    case 3
    then obtain d k m where d: "floatsidf n = Some d" "k < 31" "unat (m :: u32) = nat \<bar>sint n\<bar> * 2 ^ k" "2 ^ 30 \<le> unat m"
      "unat m < 2 ^ 31" "unat d = (if sint n < 0 then 2 ^ 63 else 0) + (1053 - k) * 2 ^ 52 + (unat m - 2 ^ 30) * 2 ^ 22"
      by (rule floatsidf_fields)
    have "2 ^ 52 + (unat m - 2 ^ 30) * 2 ^ 22 = unat m * 2 ^ 22" using d(4) by (simp add: diff_mult_distrib)
    then have c: "int (2 ^ 52 + (unat m - 2 ^ 30) * 2 ^ 22) = \<bar>sint n\<bar> * 2 ^ (k + 22)" unfolding d(3) by (simp add: power_add)
    have "df_scaled d = (if sint n < 0 then - 1 else 1) * (int (2 ^ 52 + (unat m - 2 ^ 30) * 2 ^ 22) * 2 ^ (1053 - k - 1))"
      using d(2,5) by (intro df_scaled_fields(1)[OF d(6)]) simp_all
    also have "\<dots> = sint n * 2 ^ (k + 22 + (1053 - k - 1))"
      unfolding c power_add[of _ "k + 22"] by simp
    also have "k + 22 + (1053 - k - 1) = 1074" using d(2) by simp
    finally have v: "df_scaled d = sint n * 2 ^ 1074" .
    have "k = 0 \<longleftrightarrow> 2 ^ 30 \<le> nat \<bar>sint n\<bar>"
    proof (cases k)
      case (Suc j)
      have "nat \<bar>sint n\<bar> * 2 \<le> nat \<bar>sint n\<bar> * 2 ^ k" unfolding Suc by simp
      then have "nat \<bar>sint n\<bar> * 2 < 2 ^ 31" unfolding d(3)[symmetric] using d(5) by (rule le_less_trans)
      then have "nat \<bar>sint n\<bar> < 2 ^ 30" by simp
      then show ?thesis using Suc by simp
    qed (use d(3,4) in simp)
    then have "k = 0 \<longleftrightarrow> 2 ^ 30 \<le> \<bar>sint n\<bar>" by auto
    moreover have "fixdfsi d = (if k = 0 then 0 else n)"
      unfolding fixdfsi_fields[OF d(6,2,3,4,5)] by simp
    moreover have "nat \<bar>sint n\<bar> * 1 \<le> nat \<bar>sint n\<bar> * 2 ^ k" by (rule mult_le_mono2) simp
    then have "nat \<bar>sint n\<bar> < 2 ^ 31" unfolding d(3)[symmetric] mult_1_right using d(5) by (rule le_less_trans)
    then have "\<bar>sint n\<bar> < 2 ^ 31" by simp
    ultimately show ?thesis using d(1) v by auto
  qed
qed

subsection \<open>Comparison\<close>

lemma df_mag_Suc: "df_mag m < df_mag (Suc m)"
proof (cases "Suc (m mod 2 ^ 52) = 2 ^ 52")
  case True
  then have "Suc m div 2 ^ 52 = Suc (m div 2 ^ 52)" "Suc m mod 2 ^ 52 = 0"
    by (simp_all add: div_Suc mod_Suc)
  moreover have "m mod 2 ^ 52 < 2 ^ 52" by (rule mod_less_divisor) simp
  ultimately show ?thesis
    by (cases "m div 2 ^ 52") (simp_all add: df_mag_def)
next
  case False
  then have "Suc m div 2 ^ 52 = m div 2 ^ 52" "Suc m mod 2 ^ 52 = Suc (m mod 2 ^ 52)"
    by (simp_all add: div_Suc mod_Suc)
  then show ?thesis by (simp add: df_mag_def)
qed

lemma df_mag_less [simp]: "df_mag m < df_mag n \<longleftrightarrow> m < n" "df_mag m = df_mag n \<longleftrightarrow> m = n" "df_mag 0 = 0" "0 < df_mag m \<longleftrightarrow> 0 < m"
proof -
  show l: "df_mag m < df_mag n \<longleftrightarrow> m < n" for m n
    using strict_mono_less[of df_mag m n] df_mag_Suc by (simp add: strict_mono_Suc_iff)
  show "df_mag m = df_mag n \<longleftrightarrow> m = n" by (metis l nat_neq_iff)
  show z: "df_mag 0 = 0" by (simp add: df_mag_def)
  show "0 < df_mag m \<longleftrightarrow> 0 < m" using l[of 0 m] unfolding z .
qed

abbreviation d_magnitude :: "u64 \<Rightarrow> nat" where "d_magnitude a \<equiv> unat a mod 2 ^ 63"

lemma unat_sign_magnitude: "unat a = (if d_sign a \<noteq> 0 then 2 ^ 63 else 0) + d_magnitude a"
proof -
  have t: "bit a 63 \<longleftrightarrow> 2 ^ 63 \<le> unat a" by (rule top_bit_iff) simp
  have "unat a < 2 ^ 64" using unat_bound[of a] by simp
  then have "unat a div 2 ^ 63 = (if d_sign a \<noteq> 0 then 1 else 0)"
    unfolding d_sign_bit t by (auto intro!: div_nat_eqI)
  then show ?thesis using div_mult_mod_eq[of "unat a" "2 ^ 63"] by (simp split: if_splits)
qed

text \<open>Upper words as signed numbers, then lower words: the comparison of one number.\<close>

definition two_words :: "u32 \<Rightarrow> u32 \<Rightarrow> int" where
  "two_words up lo = sint up * 2 ^ 32 + int (unat lo)"

lemma two_words_less: "two_words u l < two_words v k \<longleftrightarrow> u <s v \<or> u = v \<and> l < k"
proof -
  have b: "int (unat l) < 2 ^ 32" "int (unat k) < 2 ^ 32"
    using unat_bound[of l] unat_bound[of k] by (simp_all flip: of_nat_less_iff[where 'a = int])
  have s: "u = v \<longleftrightarrow> sint u = sint v" by (metis word_of_int_of_sint)
  consider "sint u < sint v" | "sint u = sint v" | "sint v < sint u" by linarith
  then show ?thesis
  proof cases
    case 1
    then have "(sint u + 1) * 2 ^ 32 \<le> sint v * 2 ^ 32" by (intro mult_right_mono) simp_all
    then have "two_words u l < two_words v k"
      unfolding two_words_def distrib_right mult_1 using b(1) of_nat_0_le_iff[of "unat k", where 'a = int] by linarith
    then show ?thesis using 1 by (simp add: word_sless_alt)
  next
    case 2
    then show ?thesis by (simp add: two_words_def word_sless_alt s word_less_alt)
  next
    case 3
    then have "(sint v + 1) * 2 ^ 32 \<le> sint u * 2 ^ 32" by (intro mult_right_mono) simp_all
    then have "\<not> two_words u l < two_words v k"
      unfolding two_words_def distrib_right mult_1 using b(2) of_nat_0_le_iff[of "unat l", where 'a = int] by linarith
    then show ?thesis using 3 s by (simp add: word_sless_alt)
  qed
qed

lemma two_words_compare:
  "(if u <s v then - 1 else if v <s u then 1 else if l < k then - 1 else if k < l then 1 else 0)
    = (if two_words u l < two_words v k then - 1 else if two_words v k < two_words u l then 1 else (0 :: u32))"
proof -
  consider "sint u < sint v" | "u = v" | "sint v < sint u" by (metis linorder_neqE word_of_int_of_sint)
  then show ?thesis unfolding two_words_less by cases (auto simp: word_sless_alt)
qed

lemma two_words_value:
  "two_words (d_upper a) (d_lower a) = int (d_magnitude a) - (if d_sign a \<noteq> 0 then 2 ^ 63 else 0)"
  "d_sign a \<noteq> 0 \<Longrightarrow> two_words (d_upper a XOR SIGNBIT) (d_lower a) = int (d_magnitude a)"
proof -
  let ?u = "d_upper a"
  have f: "f_sign ?u \<noteq> 0 \<longleftrightarrow> d_sign a \<noteq> 0" by (simp add: f_sign_def d_sign_def)
  have m: "magnitude ?u = d_magnitude a div 2 ^ 32"
    using div_exp_mod_exp_eq[of "unat a" 32 31] by (simp add: magnitude_def unat_d_upper)
  have l: "unat (d_lower a) = d_magnitude a mod 2 ^ 32" by (simp add: unat_d_lower mod_mod_cancel)
  have j: "int (d_magnitude a div 2 ^ 32) * 2 ^ 32 + int (d_magnitude a mod 2 ^ 32) = int (d_magnitude a)"
    using div_mult_mod_eq[of "d_magnitude a" "2 ^ 32"] by (simp flip: of_nat_mult of_nat_add of_nat_power add: zdiv_int zmod_int)
  show "two_words ?u (d_lower a) = int (d_magnitude a) - (if d_sign a \<noteq> 0 then 2 ^ 63 else 0)"
    unfolding two_words_def l sint_magnitude m f j[symmetric] by (simp add: algebra_simps)
  assume "d_sign a \<noteq> 0"
  then show "two_words (?u XOR SIGNBIT) (d_lower a) = int (d_magnitude a)"
    unfolding two_words_def l using sint_flip_sign[of ?u] f j by (simp add: m)
qed

text \<open>C31: Comparison of doubles is right unless both are negative: then the order is reversed. (The two zeros are
  told apart, the negative one below the positive one.)\<close>

theorem double_compare:
  "cmpdf2 a b =
     (if d_sign a \<noteq> 0 \<and> d_sign b \<noteq> 0 then (if df_scaled b < df_scaled a then - 1 else if df_scaled a < df_scaled b then 1 else 0)
      else if df_scaled a < df_scaled b then - 1 else if df_scaled b < df_scaled a then 1
      else if a = b then 0 else if d_sign a \<noteq> 0 then - 1 else 1)"
proof -
  have eq: "a = b \<longleftrightarrow> d_magnitude a = d_magnitude b \<and> (d_sign a \<noteq> 0 \<longleftrightarrow> d_sign b \<noteq> 0)"
  proof
    assume h: "d_magnitude a = d_magnitude b \<and> (d_sign a \<noteq> 0 \<longleftrightarrow> d_sign b \<noteq> 0)"
    have "(if d_sign a \<noteq> 0 then 2 ^ 63 else 0) + d_magnitude a = (if d_sign b \<noteq> 0 then 2 ^ 63 else 0) + d_magnitude b"
      unfolding conjunct1[OF h] conjunct2[OF h] by (rule refl)
    then show "a = b" unfolding unat_sign_magnitude[symmetric] by (rule word_unat_eq_iff[THEN iffD2])
  qed (rule conjI, simp_all only:)
  have mb: "d_magnitude x < 2 ^ 63" for x by simp
  define u where "u = (if d_sign a \<noteq> 0 \<and> d_sign b \<noteq> 0 then d_upper a XOR SIGNBIT else d_upper a)"
  define v where "v = (if d_sign a \<noteq> 0 \<and> d_sign b \<noteq> 0 then d_upper b XOR SIGNBIT else d_upper b)"
  have c: "cmpdf2 a b = (if two_words u (d_lower a) < two_words v (d_lower b) then - 1
      else if two_words v (d_lower b) < two_words u (d_lower a) then 1 else 0)"
    unfolding two_words_compare[symmetric] cmpdf2_def Let_def u_def v_def by (rule refl)
  consider "d_sign a \<noteq> 0" "d_sign b \<noteq> 0" | "d_sign a \<noteq> 0" "d_sign b = 0" | "d_sign a = 0" "d_sign b \<noteq> 0" | "d_sign a = 0" "d_sign b = 0"
    by blast
  then show ?thesis
  proof cases
    case 1
    then show ?thesis using two_words_value(2)[of a] two_words_value(2)[of b] by (simp add: c u_def v_def df_scaled_def)
  next
    case 2
    then show ?thesis using two_words_value(1)[of a] two_words_value(1)[of b] mb[of a] mb[of b] eq
      by (simp add: c u_def v_def df_scaled_def)
  next
    case 3
    then show ?thesis using two_words_value(1)[of a] two_words_value(1)[of b] mb[of a] mb[of b] eq
      by (simp add: c u_def v_def df_scaled_def)
  next
    case 4
    then show ?thesis using two_words_value(1)[of a] two_words_value(1)[of b] eq by (simp add: c u_def v_def df_scaled_def)
  qed
qed

subsection \<open>Conversion between the precisions\<close>

lemma unat_extendsfdf2:
  assumes "f \<noteq> 0"
  shows "unat (extendsfdf2 f) = (if f_sign f \<noteq> 0 then 2 ^ 63 else 0) + (unat (f_exp f) + 896) * 2 ^ 52 + unat f mod 2 ^ 23 * 2 ^ 29"
proof -
  define F where "F = unat f mod 2 ^ 23"
  define e where "e = f_exp f - EXCESS + EXCESSD"
  have xb: "unat (f_exp f) < 256" unfolding unat_f_exp by simp
  have e: "unat e = unat (f_exp f) + 896"
  proof -
    have "e = f_exp f + 896" by (simp add: e_def)
    then show ?thesis using xb by (simp add: unat_word_ariths)
  qed
  have pe: "unat (push_bit 20 e) = unat e * 2 ^ 20" using xb e by (intro unat_shl_no_carry) simp
  have hd: "(HIDDEN :: u32) = 2 ^ 23" by simp
  have fm: "unat (f_mant f AND NOT (2 ^ 23)) = F"
    using clear_top[of 23 "f_mant f"] f_mant_bounds[of f] by (simp add: unat_f_mant F_def)
  have Fb: "F < 2 ^ 23" by (simp add: F_def)
  have sar: "unat (signed_drop_bit 3 (f_mant f AND NOT (2 ^ 23))) = F div 2 ^ 3"
  proof -
    have "2 * unat (f_mant f AND NOT (2 ^ 23)) < 2 ^ LENGTH(32)" unfolding fm using Fb by simp
    then show ?thesis by (simp only: sar_nonneg unat_shr fm)
  qed
  have sv: "unat (f_sign f) = (if f_sign f \<noteq> 0 then 2 ^ 31 else 0)" by (simp add: f_sign_cases)
  have se: "unat (f_sign f OR push_bit 20 e) = unat (f_sign f) + unat e * 2 ^ 20"
    unfolding pe[symmetric] by (rule unat_or_aligned[of 31]) (use xb e in \<open>simp_all only: pe sv, simp_all\<close>)
  have q: "F div 2 ^ 3 < 2 ^ 20" using Fb by (simp add: less_mult_imp_div_less)
  have "unat ((f_sign f OR push_bit 20 e) OR signed_drop_bit 3 (f_mant f AND NOT HIDDEN)) = unat (f_sign f) + unat e * 2 ^ 20 + F div 2 ^ 3"
    unfolding hd se[symmetric] sar[symmetric]
    by (rule unat_or_aligned[of 20]) (use q in \<open>simp_all only: se sar sv, simp_all\<close>)
  moreover have "unat (push_bit 29 (f_mant f)) = F mod 2 ^ 3 * 2 ^ 29"
  proof -
    have "unat (push_bit 29 (f_mant f)) = unat (f_mant f) mod 2 ^ 3 * 2 ^ 29"
      unfolding unat_shl using mult_mod_right[of "2 ^ 29" "unat (f_mant f)" "2 ^ 3"] by (simp add: mult.commute)
    moreover have "unat (f_mant f) mod 2 ^ 3 = F mod 2 ^ 3" unfolding unat_f_mant F_def[symmetric] by (subst mod_add_eq[symmetric]) simp
    ultimately show ?thesis by simp
  qed
  moreover have "F * 2 ^ 29 = F div 2 ^ 3 * 2 ^ 32 + F mod 2 ^ 3 * 2 ^ 29"
  proof -
    have "F * 2 ^ 29 = (F div 2 ^ 3 * 2 ^ 3 + F mod 2 ^ 3) * 2 ^ 29" by (simp only: div_mult_mod_eq)
    then show ?thesis by (simp only: add_mult_distrib mult.assoc) simp
  qed
  ultimately show ?thesis
    using assms e sv unfolding extendsfdf2_def Let_def e_def[symmetric] unat_d_make F_def[symmetric] if_not_P[OF assms]
    by (simp add: add_mult_distrib split: if_splits)
qed

lemma f_pack_fields: "f_pack (f_sign f) (f_exp f) m = f" if "unat m = unat f mod 2 ^ 23"
proof -
  have s: "f_sign f = 0 \<or> f_sign f = SIGNBIT" by (simp add: f_sign_cases)
  have xb: "unat (f_exp f) < 256" unfolding unat_f_exp by simp
  have mb: "unat m < 2 ^ 23" unfolding that by simp
  have "magnitude (f_pack (f_sign f) (f_exp f) m) = unat (f_exp f) * 2 ^ 23 + unat m" by (rule f_sign_pack[OF s xb mb])
  moreover have "magnitude f = unat (f_exp f) * 2 ^ 23 + unat m"
  proof -
    have "magnitude f div 2 ^ 23 = unat (f_exp f)" "magnitude f mod 2 ^ 23 = unat m"
      using div_exp_mod_exp_eq[of "unat f" 23 8] unfolding magnitude_def unat_f_exp that by (simp_all add: mod_mod_cancel)
    then show ?thesis using div_mult_mod_eq[of "magnitude f" "2 ^ 23"] by (simp only:)
  qed
  ultimately have "magnitude (f_pack (f_sign f) (f_exp f) m) = magnitude f" by (rule trans[OF _ sym])
  then show ?thesis using f_sign_pack(2)[OF s xb mb] by (intro float_eq_iff[THEN iffD2] conjI)
qed

text \<open>Every float survives the conversion to double and back, infinities and not-a-numbers included; the conversion to
  double keeps the value of every float with a normal exponent. (Infinities become finite, the negative zero and
  the smallest floats get the value of a normal number: their exponents are shifted like any other.)\<close>

theorem float_double_round_trip:
  "truncdfsf2 (extendsfdf2 f) = f \<and> (f_exp f \<noteq> 0 \<longrightarrow> df_scaled (extendsfdf2 f) = sf_scaled f * 2 ^ 925)"
proof (cases "f = 0")
  case True
  have "f_exp 0 = 0" by (simp add: f_exp_def)
  then show ?thesis using True by (simp add: extendsfdf2_def truncdfsf2_def d_zero_iff)
next
  case False
  define d where "d = extendsfdf2 f"
  define F where "F = unat f mod 2 ^ 23"
  have Fb: "F < 2 ^ 23" by (simp add: F_def)
  have xb: "unat (f_exp f) < 256" unfolding unat_f_exp by simp
  have ud: "unat d = (if f_sign f \<noteq> 0 then 2 ^ 63 else 0) + (unat (f_exp f) + 896) * 2 ^ 52 + F * 2 ^ 29"
    unfolding d_def F_def by (rule unat_extendsfdf2[OF False])
  have "1 \<le> unat (f_exp f) + 896" "unat (f_exp f) + 896 < 2048" "F * 2 ^ 29 < 2 ^ 52" using xb Fb by simp_all
  note d = df_scaled_fields[OF ud this]
  have "unat (d_mant d) = 2 ^ 30 + F * 2 ^ 7" using d(4) unfolding unat_d_mant unat_d_mant_ll by simp
  then have "unat (signed_drop_bit 6 (d_mant d)) = 2 ^ 24 + F * 2" using Fb by (simp add: sar_nonneg unat_shr)
  then have m1: "unat (signed_drop_bit 6 (d_mant d) + 1) = 2 ^ 24 + F * 2 + 1" using Fb by (simp add: unat_word_ariths)
  define m where "m = signed_drop_bit 1 (signed_drop_bit 6 (d_mant d) + 1)"
  have m: "unat m = 2 ^ 23 + F" using m1 Fb by (simp add: m_def sar_nonneg unat_shr)
  have hm: "m AND 0xFF000000 = 0" unfolding float_conditions m using Fb by simp
  have "unat (m AND NOT (2 ^ 23)) = F" using clear_top[of 23 m] m Fb by simp
  then have fm: "unat (m AND NOT HIDDEN) = F" by simp
  have e: "d_exp d - EXCESSD + EXCESS = f_exp f"
  proof -
    have "d_exp d = f_exp f + 896" using d(3) xb by (simp add: word_unat_eq_iff unat_word_ariths)
    then show ?thesis by simp
  qed
  have s: "d_sign d = f_sign f" using d(2) d_sign_cases[of d] by (auto simp: f_sign_cases split: if_splits)
  have d0: "d \<noteq> 0" using ud by auto
  have "truncdfsf2 d = f_pack (f_sign f) (f_exp f) (m AND NOT HIDDEN)"
    unfolding truncdfsf2_def Let_def d_zero_iff m_def[symmetric] e s using d0 hm by simp
  then have t: "truncdfsf2 d = f" using f_pack_fields[of "m AND NOT HIDDEN" f] fm unfolding F_def by simp
  have "df_scaled d = sf_scaled f * 2 ^ 925" if "f_exp f \<noteq> 0"
  proof -
    have x1: "1 \<le> unat (f_exp f)" using that by (simp add: Suc_le_eq unat_gt_0)
    have c: "int (2 ^ 52 + F * 2 ^ 29) = int (unat (f_mant f)) * 2 ^ 29" by (simp add: unat_f_mant F_def)
    have "(2 :: int) ^ 29 * 2 ^ (unat (f_exp f) + 896 - 1) = 2 ^ (unat (f_exp f) - 1) * 2 ^ 925"
      unfolding power_add[symmetric] using x1 by (intro arg_cong[of _ _ "power 2"]) simp
    then show ?thesis unfolding d(1) c sf_scaled_normal[OF x1] by (simp only: mult.assoc)
  qed
  then show ?thesis using t unfolding d_def by blast
qed

lemma float_double_round_trip_witness: "df_scaled (extendsfdf2 0x3F800000) = sf_scaled 0x3F800000 * 2 ^ 925"
proof -
  have "f_exp 0x3F800000 \<noteq> 0" by code_simp
  then show ?thesis by (rule float_double_round_trip[THEN conjunct2, rule_format])
qed

text \<open>The conversions to 64-bit integers shift by eleven bits too many or take the whole pattern for the mantissa.\<close>

lemma long_conversions:
  "fixdfdi 0x3FF0000000000000 = 0" "fixdfdi 0x40A0000000000000 = 1" "fixunsdfdi 0x3FF0000000000000 = 0"
  by code_simp+

end
