(* ===== verification/Mem_Routines.thy ===== *)
theory Mem_Routines
  imports Prelude "HOL-Library.Monad_Syntax"
begin

text \<open>
  The block and string routines of lib/libc.c, over a byte memory. A pointer is an address, \<open>NULL\<close> is 0.
  Each loop is a recursion over the pointers it moves; a loop that ends only at a byte of the
  memory (a NUL, a different character) is a partial function, \<open>None\<close> when it runs for ever.
\<close>

subsection \<open>Blocks\<close>

text \<open>\<open>while (n--) *r1++ = *r2++\<close>\<close>

function copy_up :: "byte_mem \<Rightarrow> u32 \<Rightarrow> u32 \<Rightarrow> u32 \<Rightarrow> byte_mem" where
  "copy_up m d s n = (if n = 0 then m else copy_up (m(d := m s)) (d + 1) (s + 1) (n - 1))"
  by auto
termination
  by (relation "measure (\<lambda>(m, d, s, n). unat n)") (simp_all add: measure_unat)

text \<open>\<open>while (n--) *--s = *--p\<close>\<close>

function copy_down :: "byte_mem \<Rightarrow> u32 \<Rightarrow> u32 \<Rightarrow> u32 \<Rightarrow> byte_mem" where
  "copy_down m d s n = (if n = 0 then m else copy_down (m(d - 1 := m (s - 1))) (d - 1) (s - 1) (n - 1))"
  by auto
termination
  by (relation "measure (\<lambda>(m, d, s, n). unat n)") (simp_all add: measure_unat)

function fill_up :: "byte_mem \<Rightarrow> u32 \<Rightarrow> u8 \<Rightarrow> u32 \<Rightarrow> byte_mem" where
  "fill_up m p c n = (if n = 0 then m else fill_up (m(p := c)) (p + 1) c (n - 1))"
  by auto
termination
  by (relation "measure (\<lambda>(m, p, c, n). unat n)") (simp_all add: measure_unat)

function skip_equal :: "byte_mem \<Rightarrow> u32 \<Rightarrow> u32 \<Rightarrow> u32 \<Rightarrow> u32 \<times> u32 \<times> u32" where
  "skip_equal m r1 r2 n = (if n \<noteq> 0 \<and> m r1 = m r2 then skip_equal m (r1 + 1) (r2 + 1) (n - 1) else (r1, r2, n))"
  by auto
termination
  by (relation "measure (\<lambda>(m, r1, r2, n). unat n)") (auto simp: measure_unat)

declare copy_up.simps [simp del] copy_down.simps [simp del] fill_up.simps [simp del] skip_equal.simps [simp del]

definition memcpy :: "byte_mem \<Rightarrow> u32 \<Rightarrow> u32 \<Rightarrow> u32 \<Rightarrow> byte_mem \<times> u32" where
  "memcpy m dst src n = (copy_up m dst src n, dst)"

definition memmove :: "byte_mem \<Rightarrow> u32 \<Rightarrow> u32 \<Rightarrow> u32 \<Rightarrow> byte_mem \<times> u32" where
  "memmove m dst src n =
     (if dst \<le> src then copy_up m dst src n else copy_down m (dst + n) (src + n) n, dst)"

definition memcmp :: "byte_mem \<Rightarrow> u32 \<Rightarrow> u32 \<Rightarrow> u32 \<Rightarrow> u32" where
  "memcmp m cs ct n =
     (let (r1, r2, n) = skip_equal m cs ct n in if n = 0 then 0 else if m r1 < m r2 then - 1 else 1)"

definition memset :: "byte_mem \<Rightarrow> u32 \<Rightarrow> u32 \<Rightarrow> u32 \<Rightarrow> byte_mem \<times> u32" where
  "memset m s c n = (fill_up m s (ucast c) n, s)"

subsection \<open>Strings\<close>

text \<open>\<open>do { c = *dst++ = *src++; } while (c)\<close>, the body of \<open>strcpy\<close> and the end of \<open>strcat\<close>.\<close>

partial_function (option) copy_str :: "byte_mem \<Rightarrow> u32 \<Rightarrow> u32 \<Rightarrow> byte_mem option" where
  [code]: "copy_str m d s = (let c = m s; m = m(d := c) in if c \<noteq> 0 then copy_str m (d + 1) (s + 1) else Some m)"

definition strcpy :: "byte_mem \<Rightarrow> u32 \<Rightarrow> u32 \<Rightarrow> (byte_mem \<times> u32) option" where
  "strcpy m dst src = map_option (\<lambda>m. (m, dst)) (copy_str m dst src)"

text \<open>\<open>while (++i < n) *s1++ = '\0'\<close>, with \<open>i\<close> already incremented.\<close>

function pad_zero :: "byte_mem \<Rightarrow> u32 \<Rightarrow> u32 \<Rightarrow> u32 \<Rightarrow> byte_mem" where
  "pad_zero m s1 i n = (if i <s n then pad_zero (m(s1 := 0)) (s1 + 1) (i + 1) n else m)"
  by auto
termination
  by (relation "measure (\<lambda>(m, s1, i, n). nat (sint n - sint i))") (auto simp: sint_inc_less)

function strncpy_loop :: "byte_mem \<Rightarrow> u32 \<Rightarrow> u32 \<Rightarrow> u32 \<Rightarrow> u32 \<Rightarrow> byte_mem" where
  "strncpy_loop m s1 s2 i n =
     (if i <s n then let c = m s2; m = m(s1 := c)
        in if c = 0 then pad_zero m (s1 + 1) (i + 1) n else strncpy_loop m (s1 + 1) (s2 + 1) (i + 1) n
      else m)"
  by auto
termination
  by (relation "measure (\<lambda>(m, s1, s2, i, n). nat (sint n - sint i))") (auto simp: sint_inc_less)

definition strncpy :: "byte_mem \<Rightarrow> u32 \<Rightarrow> u32 \<Rightarrow> u32 \<Rightarrow> byte_mem \<times> u32" where
  "strncpy m s1 s2 n = (strncpy_loop m s1 s2 0 n, s1)"

text \<open>\<open>while (*dst) ++dst\<close>: the address of the NUL.\<close>

partial_function (option) str_end :: "byte_mem \<Rightarrow> u32 \<Rightarrow> u32 option" where
  [code]: "str_end m p = (if m p \<noteq> 0 then str_end m (p + 1) else Some p)"

definition strcat :: "byte_mem \<Rightarrow> u32 \<Rightarrow> u32 \<Rightarrow> (byte_mem \<times> u32) option" where
  "strcat m dst src = do { d \<leftarrow> str_end m dst; m \<leftarrow> copy_str m d src; Some (m, dst) }"

partial_function (option) strncat_loop :: "byte_mem \<Rightarrow> u32 \<Rightarrow> u32 \<Rightarrow> u32 \<Rightarrow> byte_mem option" where
  [code]: "strncat_loop m s1 s2 n =
     (let c = m s2; m = m(s1 := c)
      in if c \<noteq> 0 then if n - 1 <s 0 then Some (m(s1 := 0)) else strncat_loop m (s1 + 1) (s2 + 1) (n - 1)
         else Some m)"

definition strncat :: "byte_mem \<Rightarrow> u32 \<Rightarrow> u32 \<Rightarrow> u32 \<Rightarrow> (byte_mem \<times> u32) option" where
  "strncat m s1 s2 n = do { e \<leftarrow> str_end m s1; m \<leftarrow> strncat_loop m e s2 n; Some (m, s1) }"

text \<open>Characters are signed: the difference is of the sign-extended bytes.\<close>

partial_function (option) strcmp :: "byte_mem \<Rightarrow> u32 \<Rightarrow> u32 \<Rightarrow> u32 option" where
  [code]: "strcmp m s1 s2 =
     (if m s1 = m s2 then if m s1 = 0 then Some 0 else strcmp m (s1 + 1) (s2 + 1)
      else Some (scast (m s1) - scast (m s2)))"

partial_function (option) strncmp :: "byte_mem \<Rightarrow> u32 \<Rightarrow> u32 \<Rightarrow> u32 \<Rightarrow> u32 option" where
  [code]: "strncmp m s1 s2 n =
     (let n = n - 1
      in if 0 \<le>s n \<and> m s1 = m s2 then if m s1 = 0 then Some 0 else strncmp m (s1 + 1) (s2 + 1) n
         else if n <s 0 then Some 0 else Some (scast (m s1) - scast (m s2)))"

text \<open>The inner loop of \<open>strstr\<close>: the first index where the string leaves the pattern, or where the pattern ends.\<close>

partial_function (option) match_len :: "byte_mem \<Rightarrow> u32 \<Rightarrow> u32 \<Rightarrow> u32 \<Rightarrow> u32 option" where
  [code]: "match_len m str pat i =
     (if m (str + i) = m (pat + i) \<and> m (pat + i) \<noteq> 0 then match_len m str pat (i + 1) else Some i)"

partial_function (option) strstr :: "byte_mem \<Rightarrow> u32 \<Rightarrow> u32 \<Rightarrow> u32 option" where
  [code]: "strstr m str pat =
     do { i \<leftarrow> match_len m str pat 0;
          if m (pat + i) = 0 then Some str
          else if m str = 0 then Some 0
          else strstr m (str + 1) pat }"

partial_function (option) strlen_loop :: "byte_mem \<Rightarrow> u32 \<Rightarrow> u32 \<Rightarrow> u32 option" where
  [code]: "strlen_loop m s n = (if m s \<noteq> 0 then strlen_loop m (s + 1) (n + 1) else Some n)"

definition strlen :: "byte_mem \<Rightarrow> u32 \<Rightarrow> u32 option" where
  "strlen m s = strlen_loop m s 0"

partial_function (option) strchr :: "byte_mem \<Rightarrow> u32 \<Rightarrow> u32 \<Rightarrow> u32 option" where
  [code]: "strchr m s c = (if m s \<noteq> ucast c then if m s = 0 then Some 0 else strchr m (s + 1) c else Some s)"

subsection \<open>Tokens\<close>

text \<open>A scan of a NUL-terminated set for a character that is not NUL.\<close>

partial_function (option) in_set :: "byte_mem \<Rightarrow> u32 \<Rightarrow> u8 \<Rightarrow> bool option" where
  [code]: "in_set m p c = (if m p = 0 then Some False else if c = m p then Some True else in_set m (p + 1) c)"

partial_function (option) strpbrk :: "byte_mem \<Rightarrow> u32 \<Rightarrow> u32 \<Rightarrow> u32 option" where
  [code]: "strpbrk m str st =
     (if m str = 0 then Some 0
      else do { b \<leftarrow> in_set m st (m str); if b then Some str else strpbrk m (str + 1) st })"

text \<open>\<open>strsep\<close> takes the value of \<open>*pp\<close> and returns the memory, the new value of \<open>*pp\<close> and the token.\<close>

definition strsep :: "byte_mem \<Rightarrow> u32 \<Rightarrow> u32 \<Rightarrow> (byte_mem \<times> u32 \<times> u32) option" where
  "strsep m p delim =
     (if p = 0 then Some (m, p, 0)
      else do { q \<leftarrow> strpbrk m p delim;
                if q \<noteq> 0 then Some (m(q := 0), q + 1, p) else Some (m, 0, p) })"

text \<open>The leading delimiters (label \<open>cont\<close>): the address of the first character that is none.\<close>

partial_function (option) skip_delims :: "byte_mem \<Rightarrow> u32 \<Rightarrow> u32 \<Rightarrow> u32 option" where
  [code]: "skip_delims m delim s = do { b \<leftarrow> in_set m delim (m s); if b then skip_delims m delim (s + 1) else Some s }"

text \<open>\<open>do { if ((sc = *spanp++) == c) ... } while (sc != 0)\<close>: here the NUL of the set counts.\<close>

partial_function (option) in_set_or_nul :: "byte_mem \<Rightarrow> u32 \<Rightarrow> u8 \<Rightarrow> bool option" where
  [code]: "in_set_or_nul m p c = (if m p = c then Some True else if m p \<noteq> 0 then in_set_or_nul m (p + 1) c else Some False)"

partial_function (option) token_end :: "byte_mem \<Rightarrow> u32 \<Rightarrow> u32 \<Rightarrow> u32 option" where
  [code]: "token_end m delim s = do { b \<leftarrow> in_set_or_nul m delim (m s); if b then Some s else token_end m delim (s + 1) }"

text \<open>The static \<open>last\<close> is passed and returned; the results are the memory, \<open>last\<close> and the token.\<close>

definition strtok :: "byte_mem \<Rightarrow> u32 \<Rightarrow> u32 \<Rightarrow> u32 \<Rightarrow> (byte_mem \<times> u32 \<times> u32) option" where
  "strtok m saved s delim =
     (let s = (if s = 0 then saved else s)
      in if s = 0 then Some (m, saved, 0)
         else do {
           tok \<leftarrow> skip_delims m delim s;
           if m tok = 0 then Some (m, 0, 0)
           else do {
             e \<leftarrow> token_end m delim (tok + 1);
             if m e = 0 then Some (m, 0, tok) else Some (m(e := 0), e + 1, tok) } })"

end
