(* ===== verification/Mem_Props.thy ===== *)
theory Mem_Props
  imports Mem_Routines "HOL-Library.Sublist"
begin

text \<open>
  What the block and string routines guarantee. A block routine is one update of the memory in
  closed form. A string is described by \<open>cstr m p xs\<close>: the bytes \<open>xs\<close>, none of them NUL, stored from
  \<open>p\<close> on and followed by a NUL; the string routines are then list functions.
\<close>

subsection \<open>Blocks\<close>

lemma less_unfold: "(n :: u32) \<noteq> 0 \<Longrightarrow> x < n \<longleftrightarrow> x = 0 \<or> x - 1 < n - 1"
  using unat_gt_0[of n] unat_gt_0[of x]
  by (cases "x = 0") (simp_all add: word_less_nat_alt unat_minus_one less_diff_iff Suc_le_eq)

lemma word_less_minus_one: "\<not> (- 1 :: u32) < x"
  by (simp add: not_less)

lemma copy_up_block:
  assumes "n \<le> d - s \<or> d = s"
  shows "copy_up m d s n = (\<lambda>a. if a - d < n then m (s + (a - d)) else m a)"
  using assms
proof (induction m d s n rule: copy_up.induct)
  case (1 m d s n)
  show ?case
  proof (cases "n = 0")
    case False
    have "n - 1 \<le> d + 1 - (s + 1) \<or> d + 1 = s + 1"
    proof -
      have "n - 1 \<le> n" using False measure_unat[of n] by (simp add: word_le_nat_alt)
      then show ?thesis using 1(2) by (auto intro: order_trans)
    qed
    then have "copy_up m d s n = (\<lambda>a. if a - (d + 1) < n - 1 then (m(d := m s)) (s + 1 + (a - (d + 1))) else (m(d := m s)) a)"
      using 1(1) False by (subst copy_up.simps) (simp del: fun_upd_apply)
    then have ih: "copy_up m d s n (d + x) = (if x - 1 < n - 1 then (m(d := m s)) (s + x) else (m(d := m s)) (d + x))" for x
      by simp
    have ne: "s + x \<noteq> d" if "x < n" "x \<noteq> 0" for x
    proof
      assume "s + x = d"
      then have "x = d - s" by auto
      then show False using 1(2) that by auto
    qed
    have "copy_up m d s n (d + x) = (if x < n then m (s + x) else m (d + x))" for x
      using ih[of x] ne[of x] less_unfold[OF False, of x] by (cases "x = 0") (auto simp: word_less_minus_one)
    from this[of "a - d" for a] show ?thesis by (simp add: fun_eq_iff)
  qed (subst copy_up.simps, simp)
qed

lemma copy_down_block:
  assumes "n \<le> s - d \<or> d = s"
  shows "copy_down m d s n = (\<lambda>a. if d - 1 - a < n then m (s - 1 - (d - 1 - a)) else m a)"
  using assms
proof (induction m d s n rule: copy_down.induct)
  case (1 m d s n)
  show ?case
  proof (cases "n = 0")
    case False
    have "n - 1 \<le> s - 1 - (d - 1) \<or> d - 1 = s - 1"
    proof -
      have "n - 1 \<le> n" using False measure_unat[of n] by (simp add: word_le_nat_alt)
      then show ?thesis using 1(2) by (auto intro: order_trans)
    qed
    then have "copy_down m d s n = (\<lambda>a. if d - 1 - 1 - a < n - 1 then (m(d - 1 := m (s - 1))) (s - 1 - 1 - (d - 1 - 1 - a))
        else (m(d - 1 := m (s - 1))) a)"
      using 1(1) False by (subst copy_down.simps) (simp del: fun_upd_apply)
    then have ih: "copy_down m d s n (d - 1 - x) =
        (if x - 1 < n - 1 then (m(d - 1 := m (s - 1))) (s - 1 - x) else (m(d - 1 := m (s - 1))) (d - 1 - x))" for x
      by (simp add: algebra_simps)
    have ne: "s - 1 - x \<noteq> d - 1" if "x < n" "x \<noteq> 0" for x
    proof
      assume "s - 1 - x = d - 1"
      then have "s = d + x" by (simp add: algebra_simps)
      then show False using 1(2) that by auto
    qed
    have "copy_down m d s n (d - 1 - x) = (if x < n then m (s - 1 - x) else m (d - 1 - x))" for x
      using ih[of x] ne[of x] less_unfold[OF False, of x] by (cases "x = 0") (auto simp: word_less_minus_one)
    from this[of "d - 1 - a" for a] show ?thesis by (simp add: fun_eq_iff)
  qed (subst copy_down.simps, simp)
qed

lemma fill_up_block: "fill_up m p c n = (\<lambda>a. if a - p < n then c else m a)"
proof (induction m p c n rule: fill_up.induct)
  case (1 m p c n)
  show ?case
  proof (cases "n = 0")
    case False
    then have "fill_up m p c n = (\<lambda>a. if a - (p + 1) < n - 1 then c else (m(p := c)) a)"
      using 1 by (subst fill_up.simps) (simp del: fun_upd_apply)
    then show ?thesis using False by (auto simp: fun_eq_iff less_unfold[of n] algebra_simps)
  qed (subst fill_up.simps, simp)
qed

text \<open>A block that starts above another one is far from it when going round the address space.\<close>

lemma block_gap:
  assumes "d \<le> s" "unat s + unat (n :: u32) \<le> 2 ^ 32"
  shows "n \<le> d - s \<or> d = s"
proof (cases "d = s")
  case False
  then have "unat d < unat s" using assms(1) by (simp add: word_le_nat_alt nat_less_le word_unat_eq_iff)
  then have "unat (s - d) = unat s - unat d" "s - d \<noteq> 0" using assms(1) False by (auto simp: unat_sub)
  then have "unat (d - s) = 2 ^ 32 - (unat s - unat d)"
    using \<open>unat d < unat s\<close> by (simp add: unat_sub_if')
  then have "unat n \<le> unat (d - s)" using assms(2) by simp
  then show ?thesis by (simp add: word_le_nat_alt)
qed simp

lemma mirror_less: "n - 1 - x < n \<longleftrightarrow> x < (n :: u32)"
proof (cases "n = 0")
  case False
  have "n - 1 - y < n" if "y < n" for y
  proof -
    have "y \<le> n - 1" using that False by (simp add: word_le_nat_alt word_less_nat_alt unat_minus_one)
    then show ?thesis using that False by (simp add: word_less_nat_alt word_le_nat_alt unat_sub unat_minus_one)
  qed
  from this[of x] this[of "n - 1 - x"] show ?thesis by auto
qed simp

text \<open>C39: \<open>memmove\<close> copies a block as it was before the call, whether or not the two blocks overlap, when
  neither wraps around the end of the address space; no byte outside the destination changes.\<close>

theorem memmove_copies:
  assumes "unat d + unat n \<le> 2 ^ 32" "unat s + unat n \<le> 2 ^ 32"
  shows "memmove m d s n = (\<lambda>a. if a - d < n then m (s + (a - d)) else m a, d)"
proof (cases "d \<le> s")
  case True
  then have "n \<le> d - s \<or> d = s" using block_gap[of d s n] assms(2) by blast
  then show ?thesis using True by (simp add: memmove_def copy_up_block)
next
  case False
  then have "n \<le> s + n - (d + n) \<or> d + n = s + n" using block_gap[of s d n] assms(1) by auto
  then have "copy_down m (d + n) (s + n) n = (\<lambda>a. if d + n - 1 - a < n then m (s + n - 1 - (d + n - 1 - a)) else m a)"
    by (rule copy_down_block)
  moreover have "d + n - 1 - a < n \<longleftrightarrow> a - d < n" for a
    using mirror_less[of n "a - d"] by (simp add: algebra_simps)
  moreover have "s + n - 1 - (d + n - 1 - a) = s + (a - d)" for a by simp
  ultimately show ?thesis using False by (simp only: memmove_def if_False)
qed

theorem memmove_copies_witness:
  "memmove (\<lambda>a. ucast a) 102 100 5 = (\<lambda>a. if a - 102 < 5 then ucast (100 + (a - 102)) else ucast a, 102)"
  by (rule memmove_copies) simp_all

subsection \<open>Strings as lists\<close>

fun cstr :: "byte_mem \<Rightarrow> u32 \<Rightarrow> u8 list \<Rightarrow> bool" where
  "cstr m p [] = (m p = 0)"
| "cstr m p (x # xs) = (m p = x \<and> x \<noteq> 0 \<and> cstr m (p + 1) xs)"

lemma cstr_unique: "cstr m p xs \<Longrightarrow> cstr m p ys \<Longrightarrow> xs = ys"
proof (induction xs arbitrary: p ys)
  case Nil then show ?case by (cases ys) auto
next
  case (Cons x xs) then show ?case by (cases ys) auto
qed

lemma cstr_append: "cstr m p (xs @ ys) \<longleftrightarrow> (\<forall>k<length xs. m (p + of_nat k) = xs ! k \<and> xs ! k \<noteq> 0) \<and> cstr m (p + of_nat (length xs)) ys"
  by (induction xs arbitrary: p) (auto simp: All_less_Suc2 add.assoc)

lemma cstr_bytes: "cstr m p xs \<longleftrightarrow> (\<forall>k<length xs. m (p + of_nat k) = xs ! k \<and> xs ! k \<noteq> 0) \<and> m (p + of_nat (length xs)) = 0"
  using cstr_append[of m p xs "[]"] by simp

lemma cstr_frame: "cstr m p xs \<Longrightarrow> (\<And>k. k \<le> length xs \<Longrightarrow> m' (p + of_nat k) = m (p + of_nat k)) \<Longrightarrow> cstr m' p xs"
  by (simp add: cstr_bytes)

text \<open>A byte outside the \<open>n\<close> bytes from \<open>p\<close> on.\<close>

definition outside :: "u32 \<Rightarrow> nat \<Rightarrow> u32 \<Rightarrow> bool" where
  "outside p n a \<longleftrightarrow> n \<le> unat (a - p)"

lemma strlen_cstr: "cstr m p xs \<Longrightarrow> strlen m p = Some (of_nat (length xs))"
proof -
  have "cstr m p xs \<Longrightarrow> strlen_loop m p n = Some (n + of_nat (length xs))" for n
    by (induction xs arbitrary: p n) (subst strlen_loop.simps; simp add: add.assoc)+
  then show "cstr m p xs \<Longrightarrow> ?thesis" by (simp add: strlen_def)
qed

lemma str_end_cstr: "cstr m p xs \<Longrightarrow> str_end m p = Some (p + of_nat (length xs))"
  by (induction xs arbitrary: p) (subst str_end.simps; simp add: add.assoc)+

lemma unat_of_nat_le: "unat (of_nat k :: u32) \<le> k"
  by (simp add: unat_of_nat)

lemma not_outside: "k < n \<Longrightarrow> \<not> outside p n (p + of_nat k)"
  using unat_of_nat_le[of k] by (simp add: outside_def)

lemma outside_Suc: "outside p (Suc n) a \<Longrightarrow> a \<noteq> p \<and> outside (p + 1) n a"
proof -
  assume o: "outside p (Suc n) a"
  then have "a - p \<noteq> 0" by (auto simp: outside_def)
  then have "unat (a - p - 1) = unat (a - p) - 1" by (rule unat_minus_one)
  then show ?thesis using o by (auto simp: outside_def algebra_simps)
qed

lemma unat_minus_1: "unat (- 1 :: u32) = 2 ^ 32 - 1"
  by (simp add: unsigned_minus_1_eq_mask mask_eq_exp_minus_1)

lemma outside_shift: "outside p (i + n) a \<Longrightarrow> outside (p + of_nat i) n a"
proof (induction i arbitrary: p)
  case (Suc i)
  then have "outside (p + 1) (i + n) a" using outside_Suc[of p "i + n" a] by simp
  from Suc.IH[OF this] show ?case by (simp add: add.assoc)
qed simp

lemma outside_before:
  assumes "k < i" "i + n \<le> 2 ^ 32"
  shows "outside (p + of_nat i) n (p + of_nat k)"
proof -
  have u: "unat (of_nat i :: u32) = i mod 2 ^ 32" "unat (of_nat k :: u32) = k"
    using assms by (simp_all add: unat_of_nat)
  have "unat (of_nat k - of_nat i :: u32) \<ge> n"
    using assms u by (cases "i = 2 ^ 32") (simp_all add: unat_sub_if')
  then show ?thesis by (simp add: outside_def)
qed

text \<open>Copying a string forwards is sound when the destination does not start inside it.\<close>

lemma copy_str_cstr:
  assumes "cstr m s xs" "length xs < unat (d - s)"
  shows "\<exists>m'. copy_str m d s = Some m' \<and> cstr m' d xs \<and> (\<forall>a. outside d (Suc (length xs)) a \<longrightarrow> m' a = m a)"
  using assms
proof (induction xs arbitrary: m d s)
  case Nil
  then show ?case by (subst copy_str.simps) (auto simp: outside_def Let_def)
next
  case (Cons x xs)
  define m1 where "m1 = m(d := x)"
  have "cstr m1 (s + 1) xs"
  proof (rule cstr_frame)
    show "cstr m (s + 1) xs" using Cons.prems(1) by simp
    fix k assume k: "k \<le> length xs"
    have "s + 1 + of_nat k \<noteq> d"
    proof
      assume "s + 1 + of_nat k = d"
      then have "d - s = of_nat (Suc k)" by auto
      then have "unat (d - s) \<le> Suc k" by (simp only: unat_of_nat_le)
      then show False using Cons.prems(2) k by simp
    qed
    then show "m1 (s + 1 + of_nat k) = m (s + 1 + of_nat k)" by (simp add: m1_def)
  qed
  then obtain m' where m': "copy_str m1 (d + 1) (s + 1) = Some m'" "cstr m' (d + 1) xs"
    "\<And>a. outside (d + 1) (Suc (length xs)) a \<Longrightarrow> m' a = m1 a"
    using Cons.IH[of m1 "s + 1" "d + 1"] Cons.prems(2) by auto
  have "outside (d + 1) (Suc (length xs)) d"
    using Cons.prems(2) unat_bound[of "d - s"] by (simp add: outside_def unat_minus_1)
  then have "m' d = x" using m'(3) by (simp add: m1_def)
  moreover have "copy_str m d s = Some m'"
    using Cons.prems(1) m'(1) by (subst copy_str.simps) (simp add: m1_def Let_def)
  moreover have "m' a = m a" if "outside d (Suc (length (x # xs))) a" for a
    using outside_Suc[of d "Suc (length xs)" a] that m'(3)[of a] by (simp add: m1_def)
  ultimately show ?case using m'(2) Cons.prems(1) by auto
qed

text \<open>\<open>strcat\<close> on a string followed by enough room appends the source: the result is the concatenation,
  \<open>strlen\<close> of it is the sum of the lengths, the source is intact and no byte beyond the new string
  changes.\<close>

theorem strcat_appends:
  assumes "cstr m d xs" "cstr m s ys" "length xs + length ys < 2 ^ 32"
    and "\<And>k. k \<le> length ys \<Longrightarrow> outside d (length xs + length ys + 1) (s + of_nat k)"
  shows "\<exists>m'. strcat m d s = Some (m', d) \<and> cstr m' d (xs @ ys) \<and> cstr m' s ys
    \<and> strlen m' d = Some (of_nat (length xs + length ys))
    \<and> (\<forall>a. outside (d + of_nat (length xs)) (length ys + 1) a \<longrightarrow> m' a = m a)"
proof -
  define e where "e = d + of_nat (length xs)"
  have off: "outside e (Suc (length ys)) (s + of_nat k)" if "k \<le> length ys" for k
    unfolding e_def using assms(4)[OF that] by (intro outside_shift) (simp add: add.assoc)
  have "length ys < unat (e - s)"
  proof (rule ccontr)
    assume "\<not> length ys < unat (e - s)"
    then have "outside e (Suc (length ys)) (s + of_nat (unat (e - s)))" by (intro off) simp
    then show False by (simp add: outside_def)
  qed
  then obtain m' where m': "copy_str m e s = Some m'" "cstr m' e ys"
    "\<And>a. outside e (Suc (length ys)) a \<Longrightarrow> m' a = m a"
    using copy_str_cstr[OF assms(2)] by blast
  have "m' (d + of_nat k) = m (d + of_nat k)" if "k < length xs" for k
    using outside_before[OF that, of "Suc (length ys)" d] assms(3) m'(3) by (simp add: e_def)
  then have cat: "cstr m' d (xs @ ys)"
    using assms(1) m'(2) unfolding cstr_append e_def[symmetric] by (simp add: cstr_bytes)
  have "strlen m' d = Some (of_nat (length xs + length ys))" using strlen_cstr[OF cat] by simp
  moreover have "cstr m' s ys" by (rule cstr_frame[OF assms(2)]) (rule m'(3)[OF off])
  moreover have "strcat m d s = Some (m', d)"
    using str_end_cstr[OF assms(1)] m'(1) by (simp add: strcat_def e_def)
  moreover have "\<forall>a. outside (d + of_nat (length xs)) (length ys + 1) a \<longrightarrow> m' a = m a"
    using m'(3) by (simp add: e_def)
  ultimately show ?thesis using cat by (intro exI[of _ m'] conjI)
qed


definition sample_mem :: byte_mem where
  "sample_mem a = (if a = 100 then 0x61 else if a = 101 then 0x62 else if a = 200 then 0x63 else 0)"

theorem strcat_appends_witness:
  "\<exists>m'. strcat sample_mem 100 200 = Some (m', 100) \<and> cstr m' 100 ([0x61, 0x62] @ [0x63]) \<and> cstr m' 200 [0x63]
    \<and> strlen m' 100 = Some (of_nat (length [0x61, 0x62 :: u8] + length [0x63 :: u8]))
    \<and> (\<forall>a. outside (100 + of_nat (length [0x61, 0x62 :: u8])) (length [0x63 :: u8] + 1) a \<longrightarrow> m' a = sample_mem a)"
proof (rule strcat_appends)
  show "cstr sample_mem 100 [0x61, 0x62]" "cstr sample_mem 200 [0x63]" by (simp_all add: sample_mem_def)
  show "outside 100 (length [0x61, 0x62 :: u8] + length [0x63 :: u8] + 1) (200 + of_nat k)"
    if "k \<le> length [0x63 :: u8]" for k
  proof -
    have "k = 0 \<or> k = 1" using that by auto
    then show ?thesis by (auto simp: outside_def)
  qed
qed simp

text \<open>Comparison and search.\<close>

definition first_occurrence :: "u8 list \<Rightarrow> u8 list \<Rightarrow> nat option" where
  "first_occurrence ys xs = List.find (\<lambda>k. prefix ys (drop k xs)) [0..<Suc (length xs)]"

lemma first_occurrence_rec:
  "first_occurrence ys xs = (if prefix ys xs then Some 0 else
     case xs of [] \<Rightarrow> None | x # zs \<Rightarrow> map_option Suc (first_occurrence ys zs))"
proof -
  have find_Suc: "List.find P (map Suc ks) = map_option Suc (List.find (P \<circ> Suc) ks)" for P ks
    by (induction ks) auto
  show ?thesis
  proof (cases xs)
    case (Cons x zs)
    have u: "[0..<Suc (length xs)] = 0 # map Suc [0..<Suc (length zs)]"
      unfolding Cons by (simp add: upt_conv_Cons map_Suc_upt del: upt_Suc)
    show ?thesis unfolding first_occurrence_def u by (simp add: find_Suc comp_def Cons del: upt_Suc)
  qed (simp add: first_occurrence_def)
qed

lemma match_len_cstr:
  assumes "cstr m (p + i) xs" "cstr m (q + i) ys"
  shows "\<exists>j. match_len m p q i = Some j \<and> (m (q + j) = 0 \<longleftrightarrow> prefix ys xs)"
  using assms
proof (induction ys arbitrary: xs i)
  case Nil
  then show ?case by (subst match_len.simps) auto
next
  case (Cons y ys)
  show ?case
  proof (cases xs)
    case Nil
    then show ?thesis using Cons.prems by (subst match_len.simps) auto
  next
    case xs: (Cons x zs)
    show ?thesis
    proof (cases "x = y")
      case True
      have "\<exists>j. match_len m p q (i + 1) = Some j \<and> (m (q + j) = 0 \<longleftrightarrow> prefix ys zs)"
        using Cons.prems xs by (intro Cons.IH) (simp_all add: add.assoc)
      then show ?thesis using Cons.prems xs True by (subst match_len.simps) auto
    next
      case False
      then show ?thesis using Cons.prems xs by (subst match_len.simps) auto
    qed
  qed
qed

text \<open>\<open>strstr\<close> returns the address of the first occurrence of the second string in the first, and NULL
  when there is none; the empty string occurs at the start.\<close>

theorem strstr_first:
  assumes "cstr m p xs" "cstr m q ys"
  shows "strstr m p q = Some (case first_occurrence ys xs of None \<Rightarrow> 0 | Some k \<Rightarrow> p + of_nat k)"
  using assms
proof (induction xs arbitrary: p)
  case Nil
  then obtain j where "match_len m p q 0 = Some j" "m (q + j) = 0 \<longleftrightarrow> prefix ys []"
    using match_len_cstr[of m p 0 "[]" q ys] by auto
  then show ?case using Nil by (subst strstr.simps, subst first_occurrence_rec) simp
next
  case (Cons x xs)
  then obtain j where "match_len m p q 0 = Some j" "m (q + j) = 0 \<longleftrightarrow> prefix ys (x # xs)"
    using match_len_cstr[of m p 0 "x # xs" q ys] by auto
  then show ?case using Cons
    by (subst strstr.simps, subst first_occurrence_rec) (simp add: add.assoc split: option.splits)
qed

theorem strstr_first_witness:
  "strstr sample_mem 100 101 = Some (case first_occurrence [0x62] [0x61, 0x62] of None \<Rightarrow> 0 | Some k \<Rightarrow> 100 + of_nat k)
    \<and> strstr sample_mem 100 101 = Some 101"
proof -
  have "cstr sample_mem 100 [0x61, 0x62]" "cstr sample_mem 101 [0x62]" by (simp_all add: sample_mem_def)
  from strstr_first[OF this] show ?thesis by (simp add: first_occurrence_def)
qed

lemma char_difference:
  fixes x y :: u8
  shows "(scast x - scast y :: u32) <s 0 \<longleftrightarrow> sint x < sint y" "(scast x - scast y :: u32) = 0 \<longleftrightarrow> x = y"
proof -
  have b: "- 128 \<le> sint z" "sint z < 128" for z :: u8
    using sint_ge[of z] sint_lt[of z] by simp_all
  have s: "sint (scast z :: u32) = sint z" for z :: u8
    using b[of z] by (simp add: signed_scast_eq signed_take_bit_int_eq_self)
  have d: "sint (scast x - scast y :: u32) = sint x - sint y"
    using b[of x] b[of y] by (simp add: sint_word_ariths s signed_take_bit_int_eq_self)
  then show "(scast x - scast y :: u32) <s 0 \<longleftrightarrow> sint x < sint y" by (simp add: word_sless_alt)
  have "(scast x - scast y :: u32) = 0 \<longleftrightarrow> sint x = sint y"
    using d signed_word_eqI[of "scast x - scast y :: u32" 0] by auto
  then show "(scast x - scast y :: u32) = 0 \<longleftrightarrow> x = y" by (auto intro: signed_word_eqI)
qed

lemmas char_alone = char_difference[of 0, simplified] char_difference[of _ 0, simplified]

lemma scast_char_eq: "(scast (x :: u8) :: u32) = scast y \<longleftrightarrow> x = y"
  using char_difference(2)[of x y] by simp

lemma sint_char_0: "sint (x :: u8) = 0 \<longleftrightarrow> x = 0"
  using signed_word_eqI[of x 0] by auto

text \<open>\<open>strcmp\<close> compares strings in the lexicographic order of their signed characters, the end of a string
  counting as the character 0: the result is 0 for equal strings only and negative exactly when the
  first one comes first.\<close>

theorem strcmp_order:
  assumes "cstr m p xs" "cstr m q ys"
  shows "\<exists>r. strcmp m p q = Some r \<and> (r = 0 \<longleftrightarrow> xs = ys)
    \<and> (r <s 0 \<longleftrightarrow> ord_class.lexordp (map sint xs @ [0]) (map sint ys @ [0 :: int]))"
  using assms
proof (induction xs arbitrary: p q ys)
  case Nil
  show ?case
  proof (cases ys)
    case (Cons y zs)
    then have "sint y \<noteq> 0" using Nil by (simp add: sint_char_0)
    then show ?thesis using Nil Cons by (subst strcmp.simps) (auto simp: char_alone)
  qed (use Nil in \<open>subst strcmp.simps, auto\<close>)
next
  case (Cons x xs)
  show ?case
  proof (cases ys)
    case Nil
    moreover have "sint x \<noteq> 0" using Cons.prems by (simp add: sint_char_0)
    ultimately show ?thesis using Cons.prems by (subst strcmp.simps) (auto simp: char_alone)
  next
    case ys: (Cons y zs)
    show ?thesis
    proof (cases "x = y")
      case True
      have "\<exists>r. strcmp m (p + 1) (q + 1) = Some r \<and> (r = 0 \<longleftrightarrow> xs = zs)
          \<and> (r <s 0 \<longleftrightarrow> ord_class.lexordp (map sint xs @ [0]) (map sint zs @ [0]))"
        using Cons.prems ys by (intro Cons.IH) simp_all
      then show ?thesis using Cons.prems ys True by (subst strcmp.simps) simp
    next
      case False
      then have "sint x \<noteq> sint y" using signed_word_eqI by blast
      then show ?thesis using Cons.prems ys False
        by (subst strcmp.simps) (auto simp: char_difference scast_char_eq)
    qed
  qed
qed

theorem strcmp_order_witness:
  "\<exists>r. strcmp sample_mem 100 200 = Some r \<and> (r = 0 \<longleftrightarrow> [0x61, 0x62] = [0x63 :: u8])
    \<and> (r <s 0 \<longleftrightarrow> ord_class.lexordp (map sint [0x61, 0x62 :: u8] @ [0]) (map sint [0x63 :: u8] @ [0 :: int]))"
  by (rule strcmp_order) (simp_all add: sample_mem_def)

subsection \<open>Tokens\<close>

lemma in_set_cstr: "cstr m q ds \<Longrightarrow> in_set m q c = Some (c \<in> set ds)"
proof (induction ds arbitrary: q)
  case Nil then show ?case by (subst in_set.simps) simp
next
  case (Cons d ds) then show ?case by (subst in_set.simps) auto
qed

lemma in_set_or_nul_cstr: "cstr m q ds \<Longrightarrow> in_set_or_nul m q c = Some (c = 0 \<or> c \<in> set ds)"
proof (induction ds arbitrary: q)
  case Nil then show ?case by (subst in_set_or_nul.simps) auto
next
  case (Cons d ds) then show ?case by (subst in_set_or_nul.simps) auto
qed

lemma skip_delims_cstr:
  assumes "cstr m q ds"
  shows "cstr m p xs \<Longrightarrow> skip_delims m q p = Some (p + of_nat (length (takeWhile (\<lambda>c. c \<in> set ds) xs)))"
proof (induction xs arbitrary: p)
  case Nil
  have "0 \<notin> set ds" using assms by (induction ds arbitrary: q) auto
  then show ?case using Nil by (subst skip_delims.simps) (simp add: in_set_cstr[OF assms])
next
  case (Cons x xs)
  then show ?case by (subst skip_delims.simps) (simp add: in_set_cstr[OF assms] add.assoc)
qed

lemma token_end_cstr:
  assumes "cstr m q ds"
  shows "cstr m p xs \<Longrightarrow> token_end m q p = Some (p + of_nat (length (takeWhile (\<lambda>c. c \<notin> set ds) xs)))"
proof (induction xs arbitrary: p)
  case Nil
  then show ?case by (subst token_end.simps) (simp add: in_set_or_nul_cstr[OF assms])
next
  case (Cons x xs)
  then show ?case by (subst token_end.simps) (auto simp add: in_set_or_nul_cstr[OF assms] add.assoc)
qed

lemma offset_inj: "i < 2 ^ 32 \<Longrightarrow> j < 2 ^ 32 \<Longrightarrow> (p :: u32) + of_nat i = p + of_nat j \<longleftrightarrow> i = j"
  by (auto dest!: arg_cong[of _ _ unat] simp: unat_of_nat)

lemma cstr_drop: "cstr m p (xs @ ys) \<Longrightarrow> cstr m (p + of_nat (length xs)) ys"
  by (simp add: cstr_append)

text \<open>One call of \<open>strtok\<close> skips the leading delimiters and cuts the token off: it returns the address of
  the token, now a string of its own, and keeps in \<open>last\<close> where the next call goes on: behind the delimiter
  it overwrote, or nowhere when the string is used up; a string of delimiters only gives NULL.\<close>

theorem strtok_cuts_token:
  assumes "cstr m p xs" "cstr m q ds" "p \<noteq> 0" "length xs < 2 ^ 32"
  defines "k \<equiv> length (takeWhile (\<lambda>c. c \<in> set ds) xs)"
    and "tok \<equiv> takeWhile (\<lambda>c. c \<notin> set ds) (dropWhile (\<lambda>c. c \<in> set ds) xs)"
    and "rest \<equiv> dropWhile (\<lambda>c. c \<notin> set ds) (dropWhile (\<lambda>c. c \<in> set ds) xs)"
  shows "if tok = [] then strtok m saved p q = Some (m, 0, 0)
    else \<exists>m' next. strtok m saved p q = Some (m', next, p + of_nat k) \<and> cstr m' (p + of_nat k) tok
      \<and> (if rest = [] then next = 0 \<and> m' = m
          else next = p + of_nat (k + length tok + 1) \<and> cstr m' next (tl rest)
            \<and> m' = m(p + of_nat (k + length tok) := 0))"
proof -
  define ys where "ys = dropWhile (\<lambda>c. c \<in> set ds) xs"
  define t where "t = p + of_nat k"
  define e where "e = p + of_nat (k + length tok)"
  have ys: "cstr m t ys"
    using assms(1) cstr_drop[of m p "takeWhile (\<lambda>c. c \<in> set ds) xs" ys] by (simp add: ys_def t_def k_def)
  have split: "ys = tok @ rest" by (simp add: tok_def rest_def ys_def)
  have len: "length tok + length rest < 2 ^ 32"
    using assms(4) length_dropWhile_le[of "\<lambda>c. c \<in> set ds" xs] split by (simp add: ys_def flip: length_append)
  have skip: "skip_delims m q p = Some t" unfolding t_def k_def by (rule skip_delims_cstr[OF assms(2,1)])
  have rest: "cstr m e rest" using cstr_drop[of m t tok rest] ys by (simp add: split e_def t_def add.assoc)
  show ?thesis
  proof (cases "tok = []")
    case True
    then have "ys = []" unfolding tok_def ys_def by (cases "dropWhile (\<lambda>c. c \<in> set ds) xs") (auto simp: dropWhile_eq_Cons_conv)
    then show ?thesis using True ys skip assms(3) by (simp add: strtok_def Let_def)
  next
    case False
    then obtain y zs where yz: "ys = y # zs" "tok = y # takeWhile (\<lambda>c. c \<notin> set ds) zs"
      unfolding tok_def ys_def by (cases "dropWhile (\<lambda>c. c \<in> set ds) xs") (auto split: if_splits)
    have "token_end m q (t + 1) = Some e"
      using token_end_cstr[OF assms(2), of "t + 1" zs] ys yz by (simp add: e_def t_def add.assoc)
    moreover have "m t \<noteq> 0" using ys yz by simp
    ultimately have call: "strtok m saved p q = (if m e = 0 then Some (m, 0, t) else Some (m(e := 0), e + 1, t))"
      using skip assms(3) by (simp add: strtok_def Let_def)
    show ?thesis
    proof (cases rest)
      case Nil
      then show ?thesis using call rest ys split False by (simp add: t_def)
    next
      case (Cons r rs)
      have "cstr (m(e := 0)) (e + 1) rs"
      proof (rule cstr_frame)
        show "cstr m (e + 1) rs" using rest Cons by simp
        fix j assume "j \<le> length rs"
        then have "e + of_nat (Suc j) \<noteq> e" using offset_inj[of "Suc j" 0 e] len Cons by simp
        then show "(m(e := 0)) (e + 1 + of_nat j) = m (e + 1 + of_nat j)" by (simp add: add.assoc)
      qed
      moreover have "cstr (m(e := 0)) t tok"
      proof -
        have e: "e = t + of_nat (length tok)" by (simp add: e_def t_def add.assoc)
        have "t + of_nat i \<noteq> e" if "i < length tok" for i
          using offset_inj[of i "length tok" t] len that unfolding e by simp
        then show ?thesis using ys unfolding split cstr_append by (simp add: cstr_bytes e)
      qed
      ultimately show ?thesis using call rest Cons False by (simp add: e_def t_def add.assoc)
    qed
  qed
qed

theorem strtok_cuts_token_witness:
  "\<exists>m' next. strtok sample_mem 7 100 101 = Some (m', next, 100) \<and> cstr m' 100 [0x61]
    \<and> next = 102 \<and> cstr m' next [] \<and> m' = sample_mem(101 := 0)"
proof -
  have "cstr sample_mem 100 [0x61, 0x62]" "cstr sample_mem 101 [0x62]" by (simp_all add: sample_mem_def)
  from strtok_cuts_token[OF this, of 7] show ?thesis by simp
qed

end
