(* ===== verification/Stdlib_Text.thy ===== *)
theory Stdlib_Text
  imports Mem_Routines Soft_Float
begin

text \<open>
  The rest of the small C library of lib/libc.c: delays, the polled console, number parsing and printing
  and the formatted output. The memory is a byte map; device registers are the sequences of values
  their reads return. A partial function is \<open>None\<close> where the code waits for ever, reads an argument
  that was not passed, or divides by zero.
\<close>

unbundle bit_operations_syntax

subsection \<open>Delays\<close>

text \<open>
  \<open>t k\<close> is the value the k-th read of \<open>TIMER0\<close> returns, \<open>cpu\<close> the macro \<open>CPU_SPEED\<close>, \<open>unit\<close> the cycles of one
  unit of time. The result is the number of reads.
\<close>

partial_function (option) delay_loop :: "u32 \<Rightarrow> u32 \<Rightarrow> u32 \<Rightarrow> (nat \<Rightarrow> u32) \<Rightarrow> nat \<Rightarrow> u32 \<Rightarrow> u32 \<Rightarrow> u32 \<Rightarrow> nat option" where
  [code]: "delay_loop cpu unit req t k prev delta elapsed =
     (if elapsed < req then
        let cur = t k;
            delta = (if cur < prev then delta + (cur + (cpu - prev)) else delta + (cur - prev))
        in if unit \<le> delta then
             if unit = 0 then None
             else delay_loop cpu unit req t (k + 1) cur (delta mod unit) (elapsed + delta div unit)
           else delay_loop cpu unit req t (k + 1) cur delta elapsed
      else Some k)"

definition delay_ms :: "u32 \<Rightarrow> u32 \<Rightarrow> (nat \<Rightarrow> u32) \<Rightarrow> nat option" where
  "delay_ms cpu msec t = delay_loop cpu (cpu div 1000) msec t 1 (t 0) 0 0"

definition delay_us :: "u32 \<Rightarrow> u32 \<Rightarrow> (nat \<Rightarrow> u32) \<Rightarrow> nat option" where
  "delay_us cpu usec t = delay_loop cpu (cpu div 1000000) usec t 1 (t 0) 0 0"

subsection \<open>The polled console\<close>

abbreviation (input) UART0_DATAAVAIL :: u32 where "UART0_DATAAVAIL \<equiv> 1"
abbreviation (input) UART0_WRITEBUSY :: u32 where "UART0_WRITEBUSY \<equiv> 2"

record console =
  uartcause :: "nat \<Rightarrow> u32"
  polls :: nat
  uart_in :: "nat \<Rightarrow> u32"
  taken :: nat
  sent :: "u32 list"

partial_function (option) wait_clear :: "(nat \<Rightarrow> u32) \<Rightarrow> u32 \<Rightarrow> nat \<Rightarrow> nat option" where
  [code]: "wait_clear st b k = (if st k AND b \<noteq> 0 then wait_clear st b (k + 1) else Some (k + 1))"

partial_function (option) wait_set :: "(nat \<Rightarrow> u32) \<Rightarrow> u32 \<Rightarrow> nat \<Rightarrow> nat option" where
  [code]: "wait_set st b k = (if st k AND b = 0 then wait_set st b (k + 1) else Some (k + 1))"

definition putchar :: "u32 \<Rightarrow> console \<Rightarrow> console option" where
  "putchar value c =
     do { k \<leftarrow> wait_clear (uartcause c) UART0_WRITEBUSY (polls c);
          Some (c\<lparr>polls := k, sent := sent c @ [value]\<rparr>) }"

definition kbhit :: "console \<Rightarrow> console \<times> u32" where
  "kbhit c = (c\<lparr>polls := polls c + 1\<rparr>, uartcause c (polls c) AND UART0_DATAAVAIL)"

definition uart_getchar :: "console \<Rightarrow> (console \<times> u32) option" where
  "uart_getchar c =
     do { k \<leftarrow> wait_set (uartcause c) UART0_DATAAVAIL (polls c);
          Some (c\<lparr>polls := k, taken := taken c + 1\<rparr>, uart_in c (taken c)) }"

partial_function (option) puts_loop :: "byte_mem \<Rightarrow> u32 \<Rightarrow> console \<Rightarrow> console option" where
  [code]: "puts_loop m str c =
     (if m str \<noteq> 0 then do { c \<leftarrow> putchar (scast (m str)) c; puts_loop m (str + 1) c } else Some c)"

definition puts :: "byte_mem \<Rightarrow> u32 \<Rightarrow> console \<Rightarrow> console option" where
  "puts m str c = do { c \<leftarrow> puts_loop m str c; putchar 10 c }"

text \<open>\<open>while ((c = getchar()) != '\n' && c >= 0) *cs++ = c\<close>\<close>

partial_function (option) gets_loop :: "byte_mem \<Rightarrow> u32 \<Rightarrow> console \<Rightarrow> (byte_mem \<times> u32 \<times> u32 \<times> console) option" where
  [code]: "gets_loop m cs con =
     do { (con, c) \<leftarrow> uart_getchar con;
          if c \<noteq> 10 \<and> 0 \<le>s c then gets_loop (m(cs := ucast c)) (cs + 1) con else Some (m, cs, c, con) }"

definition gets :: "byte_mem \<Rightarrow> u32 \<Rightarrow> console \<Rightarrow> (byte_mem \<times> u32 \<times> console) option" where
  "gets m s con =
     do { (m, cs, c, con) \<leftarrow> gets_loop m s con;
          if c <s 0 \<and> cs = s then Some (m, 0, con) else Some (m(cs := 0), s, con) }"

partial_function (option) getline_loop :: "byte_mem \<Rightarrow> u32 \<Rightarrow> u32 \<Rightarrow> console \<Rightarrow> (byte_mem \<times> u32 \<times> u32 \<times> console) option" where
  [code]: "getline_loop m cs i con =
     do { (con, c) \<leftarrow> uart_getchar con;
          if c \<noteq> 10 \<and> 0 \<le>s c then
            if i + 1 = 80 then Some (m(cs := 0), cs, c, con)
            else getline_loop (m(cs := ucast c)) (cs + 1) (i + 1) con
          else Some (m, cs, c, con) }"

definition getline :: "byte_mem \<Rightarrow> u32 \<Rightarrow> console \<Rightarrow> (byte_mem \<times> u32 \<times> console) option" where
  "getline m s con =
     do { (m, cs, c, con) \<leftarrow> getline_loop m s 0 con;
          if c <s 0 \<and> cs = s then Some (m, 0, con) else Some (m(cs := 0), s, con) }"

subsection \<open>Reading numbers\<close>

text \<open>\<open>isdigit\<close> and \<open>isspace\<close> of libc.h, on signed characters.\<close>

definition isdigit :: "u8 \<Rightarrow> bool" where "isdigit c \<longleftrightarrow> 0x30 \<le>s c \<and> c \<le>s 0x39"
definition isspace :: "u8 \<Rightarrow> bool" where "isspace c \<longleftrightarrow> c = 0x20 \<or> c = 9 \<or> c = 10 \<or> c = 13"

text \<open>At most nine characters, the value modulo \<open>2 ^ 32\<close>; the results are the value and \<open>*end\<close>.\<close>

fun strtol_loop :: "nat \<Rightarrow> byte_mem \<Rightarrow> u32 \<Rightarrow> u32 \<Rightarrow> u32 \<Rightarrow> u32 \<times> u32" where
  "strtol_loop 0 m s base value = (value, s)"
| "strtol_loop (Suc k) m s base value =
     (let ch = scast (m s); s = s + 1
      in if 0x30 \<le> ch \<and> ch \<le> 0x39 then strtol_loop k m s base (value * base + (ch - 0x30))
         else if 0x41 \<le> ch \<and> ch \<le> 0x5A then strtol_loop k m s base (value * base + (ch - 0x41 + 10))
         else if 0x61 \<le> ch \<and> ch \<le> 0x7A then strtol_loop k m s base (value * base + (ch - 0x61 + 10))
         else (value, s))"

definition strtol :: "byte_mem \<Rightarrow> u32 \<Rightarrow> u32 \<Rightarrow> u32 \<times> u32" where
  "strtol m s base =
     (let (neg, s) = (if m s = 0x2D then (True, s + 1) else (False, s));
          (base, s) = (if m s = 0x30 \<and> m (s + 1) = 0x78 then (16, s + 2) else (base, s));
          (value, s) = strtol_loop 9 m s base 0
      in (if neg then - value else value, s - 1))"

text \<open>The blanks and the sign: the flag \<open>f\<close> and the address of the first digit.\<close>

partial_function (option) atoi_sign :: "byte_mem \<Rightarrow> u32 \<Rightarrow> (bool \<times> u32) option" where
  [code]: "atoi_sign m s =
     (if m s = 0x20 \<or> m s = 9 then atoi_sign m (s + 1)
      else if m s = 0x2D then Some (True, s + 1)
      else if m s = 0x2B then Some (False, s + 1)
      else Some (False, s))"

partial_function (option) atoi_digits :: "byte_mem \<Rightarrow> u32 \<Rightarrow> u32 \<Rightarrow> u32 option" where
  [code]: "atoi_digits m s n =
     (if 0x30 \<le>s m s \<and> m s \<le>s 0x39 then atoi_digits m (s + 1) (n * 10 + scast (m s) - 0x30) else Some n)"

definition atoi :: "byte_mem \<Rightarrow> u32 \<Rightarrow> u32 option" where
  "atoi m s = do { (f, s) \<leftarrow> atoi_sign m s; n \<leftarrow> atoi_digits m s 0; Some (if f then - n else n) }"

text \<open>\<open>10.0f\<close> and \<open>1.0f\<close> as bit patterns; float arithmetic is that of the library.\<close>

partial_function (option) skip_spaces :: "byte_mem \<Rightarrow> u32 \<Rightarrow> u32 option" where
  [code]: "skip_spaces m p = (if isspace (m p) then skip_spaces m (p + 1) else Some p)"

definition atof_digit :: "u32 \<Rightarrow> u8 \<Rightarrow> u32 option" where
  "atof_digit val c = do { d \<leftarrow> floatsisf (scast c - 0x30); addsf3 (mulsf3 0x41200000 val) d }"

partial_function (option) atof_int :: "byte_mem \<Rightarrow> u32 \<Rightarrow> u32 \<Rightarrow> (u32 \<times> u32) option" where
  [code]: "atof_int m p val =
     (if isdigit (m p) then do { v \<leftarrow> atof_digit val (m p); atof_int m (p + 1) v } else Some (p, val))"

partial_function (option) atof_frac :: "byte_mem \<Rightarrow> u32 \<Rightarrow> u32 \<Rightarrow> u32 \<Rightarrow> (u32 \<times> u32) option" where
  [code]: "atof_frac m p val pwr =
     (if isdigit (m p) then do { v \<leftarrow> atof_digit val (m p); atof_frac m (p + 1) v (mulsf3 pwr 0x41200000) }
      else Some (val, pwr))"

definition atof :: "byte_mem \<Rightarrow> u32 \<Rightarrow> u32 option" where
  "atof m p =
     do { p \<leftarrow> skip_spaces m p;
          sign \<leftarrow> floatsisf (if m p = 0x2D then - 1 else 1);
          let p = (if m p = 0x2B \<or> m p = 0x2D then p + 1 else p);
          (p, val) \<leftarrow> atof_int m p 0;
          let p = (if m p = 0x2E then p + 1 else p);
          (val, pwr) \<leftarrow> atof_frac m p val 0x3f800000;
          Some (divsf3 (mulsf3 sign val) pwr) }"

subsection \<open>Writing numbers\<close>

definition itoa_chars :: "u8 list" where
  "itoa_chars = map of_char ''zyxwvutsrqponmlkjihgfedcba9876543210123456789abcdefghijklmnopqrstuvwxyz''"

text \<open>The digits, least significant first; the last result is the last nonzero remainder's \<open>tmp_value\<close>.\<close>

partial_function (option) itoa_loop :: "byte_mem \<Rightarrow> u32 \<Rightarrow> u32 \<Rightarrow> u32 \<Rightarrow> (byte_mem \<times> u32 \<times> u32) option" where
  [code]: "itoa_loop m ptr i base =
     (let tmp_value = i;
          i = word_of_int (sint i sdiv sint base);
          m = m(ptr := itoa_chars ! unat (35 + (tmp_value - i * base)))
      in if i \<noteq> 0 then itoa_loop m (ptr + 1) i base else Some (m, ptr + 1, tmp_value))"

partial_function (option) reverse_bytes :: "byte_mem \<Rightarrow> u32 \<Rightarrow> u32 \<Rightarrow> byte_mem option" where
  [code]: "reverse_bytes m ptr1 ptr =
     (if ptr1 < ptr then reverse_bytes (m(ptr := m ptr1, ptr1 := m ptr)) (ptr1 + 1) (ptr - 1) else Some m)"

definition itoa :: "byte_mem \<Rightarrow> u32 \<Rightarrow> u32 \<Rightarrow> u32 \<Rightarrow> (byte_mem \<times> u32) option" where
  "itoa m i s base =
     (if base <s 2 \<or> 36 <s base then Some (m(s := 0), s)
      else do { (m, ptr, tmp_value) \<leftarrow> itoa_loop m s i base;
                let (m, ptr) = (if tmp_value <s 0 then (m(ptr := 0x2D), ptr + 1) else (m, ptr));
                m \<leftarrow> reverse_bytes (m(ptr := 0)) s (ptr - 1);
                Some (m, s) })"

text \<open>
  \<open>f < 0.0\<close> is the comparison of the library, \<open>-f\<close> a flip of the sign bit. The results are the
  status and the memory.
\<close>

function ftoa_frac :: "byte_mem \<Rightarrow> u32 \<Rightarrow> u32 \<Rightarrow> u32 \<Rightarrow> u32 \<Rightarrow> byte_mem \<times> u32" where
  "ftoa_frac m p frac i precision =
     (if i <s precision then
        let frac = push_bit 3 frac + push_bit 1 frac
        in ftoa_frac (m(p := ucast (signed_drop_bit 24 frac + 0x30))) (p + 1) (frac AND 0xffffff) (i + 1) precision
      else (m, p))"
  by auto
termination
  by (relation "measure (\<lambda>(m, p, frac, i, n). nat (sint n - sint i))") (auto simp: sint_inc_less)

declare ftoa_frac.simps [simp del]

definition ftoa :: "byte_mem \<Rightarrow> u32 \<Rightarrow> u32 \<Rightarrow> u32 \<Rightarrow> (u32 \<times> byte_mem) option" where
  "ftoa m f outbuf precision =
     (let (m, p, f) = (if ltsf2 f 0 <s 0 then (m(outbuf := 0x2D), outbuf + 1, f XOR SIGNBIT) else (m, outbuf, f));
          exp2 = signed_drop_bit 23 f - 127;
          mantissa = (f AND 0xffffff) OR 0x800000
      in if 31 \<le>s exp2 then Some (- 1, m)
         else let (int_part, frac_part) =
                    (if exp2 <s - 23 then (0, 0)
                     else if 23 \<le>s exp2 then (push_bit (unat (exp2 - 23)) mantissa, 0)
                     else if 0 \<le>s exp2 then
                       (signed_drop_bit (unat (23 - exp2)) mantissa, push_bit (unat (exp2 + 1)) mantissa AND 0xffffff)
                     else (0, signed_drop_bit (unat (- (exp2 + 1))) (mantissa AND 0xffffff)))
              in do {
                (m, p) \<leftarrow> (if int_part = 0 then Some (m(p := 0x30), p + 1)
                           else do { (m, p) \<leftarrow> itoa m int_part p 10; p \<leftarrow> str_end m p; Some (m, p) });
                let (m, p) = ftoa_frac (m(p := 0x2E)) (p + 1) frac_part 0 precision;
                Some (0, m(p := 0)) })"

definition c_abs_int :: "u32 \<Rightarrow> u32" where
  "c_abs_int n = (if 0 \<le>s n then n else - n)"

text \<open>The static \<open>rand1\<close> is passed and returned.\<close>

definition random :: "u32 \<Rightarrow> u32 \<times> u32" where
  "random rand1 = (let rand1 = rand1 * 1103515245 + 12345 in (rand1, drop_bit 16 rand1 AND 32767))"

definition srand :: "u32 \<Rightarrow> u32" where
  "srand seed = seed"

end
