(* ===== verification/Formatted_Print.thy ===== *)
theory Formatted_Print
  imports Stdlib_Text
begin

text \<open>
  \<open>printf\<close>, \<open>sprintf\<close> and \<open>hexdump\<close> of lib/libc.c. The output goes to the console or to memory
  (\<open>dest\<close>, the value of \<open>*buf\<close>). The arguments are the words \<open>va_arg\<close> takes; \<open>None\<close> is an argument
  that was not passed, a write past the digit buffer or a wait that does not end.
\<close>

unbundle bit_operations_syntax

record printer =
  pmem :: byte_mem
  dest :: "u32 option"
  pcon :: console

definition printchar :: "u32 \<Rightarrow> printer \<Rightarrow> printer option" where
  "printchar c p =
     (case dest p of
        Some str \<Rightarrow> Some (p\<lparr>pmem := (pmem p)(str := ucast c), dest := Some (str + 1)\<rparr>)
      | None \<Rightarrow> if c \<noteq> 0 then map_option (\<lambda>con. p\<lparr>pcon := con\<rparr>) (putchar c (pcon p)) else Some p)"

fun printchars :: "u8 list \<Rightarrow> printer \<Rightarrow> printer option" where
  "printchars [] p = Some p"
| "printchars (c # cs) p = do { p \<leftarrow> printchar (scast c) p; printchars cs p }"

text \<open>\<open>while (width-- > 0) printchar(p, pad)\<close>\<close>

function print_pad :: "u32 \<Rightarrow> u8 \<Rightarrow> printer \<Rightarrow> printer option" where
  "print_pad width pad p =
     (if 0 <s width then case printchar (scast pad) p of None \<Rightarrow> None | Some p \<Rightarrow> print_pad (width - 1) pad p
      else Some p)"
  by auto
termination
  by (relation "measure (\<lambda>(width, pad, p). nat (sint width))") (auto simp: sint_dec_less)

declare print_pad.simps [simp del]

text \<open>\<open>for (; *str && width != 0; str++, width--)\<close>; the results are the width left and the printer.\<close>

partial_function (option) print_str :: "u32 \<Rightarrow> u32 \<Rightarrow> printer \<Rightarrow> (u32 \<times> printer) option" where
  [code]: "print_str str width p =
     (if pmem p str \<noteq> 0 \<and> width \<noteq> 0 then do { q \<leftarrow> printchar (scast (pmem p str)) p; print_str (str + 1) (width - 1) q }
      else Some (width, p))"

fun print_literal :: "u8 list \<Rightarrow> u32 \<Rightarrow> printer \<Rightarrow> (u32 \<times> printer) option" where
  "print_literal [] width p = Some (width, p)"
| "print_literal (c # cs) width p =
     (if width \<noteq> 0 then do { p \<leftarrow> printchar (scast c) p; print_literal cs (width - 1) p } else Some (width, p))"

definition print_string :: "u32 \<Rightarrow> u32 \<Rightarrow> u8 \<Rightarrow> printer \<Rightarrow> printer option" where
  "print_string str width pad p =
     do { (width, p) \<leftarrow> (if str = 0 then print_literal (map of_char ''<NULL>'') width p else print_str str width p);
          print_pad width pad p }"

definition divide :: "u32 \<Rightarrow> u32 \<Rightarrow> u32 \<times> u32" where
  "divide n base = (n div base, n mod base)"

definition hex_digits :: "u8 list" where
  "hex_digits = map of_char ''0123456789abcdef''"

text \<open>The 16 bytes of \<open>tmp\<close>, least significant digit first.\<close>

partial_function (option) fill_tmp :: "u8 list \<Rightarrow> u32 \<Rightarrow> u32 \<Rightarrow> u8 list option" where
  [code]: "fill_tmp tmp num base =
     (if num \<noteq> 0 then
        if length tmp < 16 then
          let (num, res) = divide num base in fill_tmp (tmp @ [hex_digits ! unat res]) num base
        else None
      else Some tmp)"

definition print_number :: "bool \<Rightarrow> u32 \<Rightarrow> u8 \<Rightarrow> u32 \<Rightarrow> u32 \<Rightarrow> printer \<Rightarrow> printer option" where
  "print_number sign base pad width num p =
     do { (num, width, p) \<leftarrow> (if sign \<and> num <s 0
            then do { p \<leftarrow> printchar 0x2D p; Some (- num, width - 1, p) } else Some (num, width, p));
          tmp \<leftarrow> (if num = 0 then Some [0x30] else fill_tmp [] num base);
          p \<leftarrow> print_pad (width - of_nat (length tmp)) pad p;
          printchars (rev tmp) p }"

partial_function (option) toint :: "byte_mem \<Rightarrow> u32 \<Rightarrow> u32 \<Rightarrow> (u32 \<times> u32) option" where
  [code]: "toint m s i = (if isdigit (m s) then toint m (s + 1) (i * 10 + scast (m s) - 0x30) else Some (i, s))"

text \<open>
  One conversion, \<open>fmt\<close> at the character behind the percent sign; the results are the address of its last character,
  the arguments left and the printer. An unknown character prints nothing and takes no argument.
\<close>

definition conversion :: "u32 \<Rightarrow> u32 list \<Rightarrow> printer \<Rightarrow> (u32 \<times> u32 list \<times> printer) option" where
  "conversion fmt args p =
     do { let m = pmem p;
          let (pad, fmt) = (if m fmt = 0x30 then (0x30, fmt + 1) else (0x20, fmt));
          (width, fmt) \<leftarrow> (if isdigit (m fmt) then toint m fmt 0 else Some (- 1, fmt));
          let fmt = (if m fmt = 0x6C then fmt + 1 else fmt);
          let c = m fmt;
          if c \<in> {0x63, 0x73, 0x58, 0x78, 0x64, 0x75} then
            case args of [] \<Rightarrow> None | a # args \<Rightarrow>
              map_option (\<lambda>p. (fmt, args, p))
                (if c = 0x63 then printchar (scast (ucast a :: u8)) p
                 else if c = 0x73 then print_string a width pad p
                 else print_number (c = 0x64) (if c = 0x58 \<or> c = 0x78 then 16 else 10) pad width a p)
          else Some (fmt, args, p) }"

partial_function (option) vsprintf_loop :: "u32 \<Rightarrow> u32 list \<Rightarrow> printer \<Rightarrow> printer option" where
  [code]: "vsprintf_loop fmt args p =
     (if pmem p fmt = 0 then Some p
      else if pmem p fmt \<noteq> 0x25 then do { q \<leftarrow> printchar (scast (pmem p fmt)) p; vsprintf_loop (fmt + 1) args q }
      else do { (fmt, args, q) \<leftarrow> conversion (fmt + 1) args p; vsprintf_loop (fmt + 1) args q })"

definition vsprintf :: "u32 \<Rightarrow> u32 list \<Rightarrow> printer \<Rightarrow> printer option" where
  "vsprintf fmt args p = do { p \<leftarrow> vsprintf_loop fmt args p; printchar 0 p }"

definition printf :: "byte_mem \<Rightarrow> console \<Rightarrow> u32 \<Rightarrow> u32 list \<Rightarrow> console option" where
  "printf m con fmt args = map_option pcon (vsprintf fmt args \<lparr>pmem = m, dest = None, pcon = con\<rparr>)"

definition sprintf :: "byte_mem \<Rightarrow> console \<Rightarrow> u32 \<Rightarrow> u32 \<Rightarrow> u32 list \<Rightarrow> byte_mem option" where
  "sprintf m con out fmt args = map_option pmem (vsprintf fmt args \<lparr>pmem = m, dest = Some out, pcon = con\<rparr>)"

text \<open>
  \<open>hexdump\<close>: the three format strings are written out as the text and the number fields they
  consist of; the bytes are signed characters, so \<open>%02x\<close> gets them sign extended.
\<close>

fun dump_bytes :: "nat \<Rightarrow> nat \<Rightarrow> u32 \<Rightarrow> printer \<Rightarrow> printer option" where
  "dump_bytes 0 l a p = Some p"
| "dump_bytes (Suc n) l a p =
     do { p \<leftarrow> print_number False 16 0x30 2 (scast (pmem p (a + of_nat l))) p;
          p \<leftarrow> printchar 0x20 p;
          p \<leftarrow> (if l = 7 then printchar 0x20 p else Some p);
          dump_bytes n (l + 1) a p }"

fun dump_chars :: "nat \<Rightarrow> u32 \<Rightarrow> printer \<Rightarrow> printer option" where
  "dump_chars 0 a p = Some p"
| "dump_chars (Suc n) a p =
     do { let ch = pmem p a;
          p \<leftarrow> printchar (if 32 \<le>s ch \<and> ch \<le>s 126 then scast ch else 0x2E) p;
          dump_chars n (a + 1) p }"

partial_function (option) hexdump_loop :: "u32 \<Rightarrow> u32 \<Rightarrow> u32 \<Rightarrow> printer \<Rightarrow> printer option" where
  [code]: "hexdump_loop buf sz k p =
     (if k < sz then do {
        p \<leftarrow> printchars [10] p;
        p \<leftarrow> print_number False 16 0x30 8 (buf + k) p;
        p \<leftarrow> printchars [0x20] p;
        p \<leftarrow> dump_bytes 16 0 (buf + k) p;
        p \<leftarrow> printchars [0x20, 0x7C] p;
        p \<leftarrow> dump_chars 16 (buf + k) p;
        p \<leftarrow> printchar 0x7C p;
        hexdump_loop buf sz (k + 16) p }
      else Some p)"

definition hexdump :: "byte_mem \<Rightarrow> console \<Rightarrow> u32 \<Rightarrow> u32 \<Rightarrow> console option" where
  "hexdump m con buf sz = map_option pcon (hexdump_loop buf sz 0 \<lparr>pmem = m, dest = None, pcon = con\<rparr>)"

end
