(* ===== verification/Text_Props.thy ===== *)
theory Text_Props
  imports Mem_Props Formatted_Print
begin

text \<open>
  What the number routines and the delays guarantee. Numbers are compared with \<open>digits b n\<close>, the
  digits of a natural number in a base, most significant first.
\<close>

unbundle bit_operations_syntax

subsection \<open>Numbers as text\<close>

text \<open>The digits of a number, most significant first.\<close>

fun digits :: "nat \<Rightarrow> nat \<Rightarrow> nat list" where
  "digits b n = (if n < b \<or> b < 2 then [n] else digits b (n div b) @ [n mod b])"

declare digits.simps [simp del]

definition digit_char :: "nat \<Rightarrow> u8" where
  "digit_char d = itoa_chars ! (35 + d)"

definition number_text :: "nat \<Rightarrow> int \<Rightarrow> u8 list" where
  "number_text b i = (if i < 0 then [0x2D] else []) @ map digit_char (digits b (nat \<bar>i\<bar>))"

lemma digits_length: "2 \<le> b \<Longrightarrow> n < 2 ^ Suc k \<Longrightarrow> length (digits b n) \<le> Suc k"
proof (induction k arbitrary: n)
  case 0
  then show ?case by (subst digits.simps) simp
next
  case (Suc k)
  show ?case
  proof (cases "n < b")
    case False
    have "n div b \<le> n div 2" using Suc.prems(1) by (intro div_le_mono2) simp_all
    also have "\<dots> < 2 ^ Suc k" using Suc.prems(2) by (intro less_mult_imp_div_less) simp
    finally have "length (digits b (n div b)) \<le> Suc k" by (intro Suc.IH Suc.prems)
    then show ?thesis using False Suc.prems(1) by (subst digits.simps) simp
  qed (subst digits.simps, simp)
qed

lemma digits_nonempty [simp]: "digits b n \<noteq> []"
  by (subst digits.simps) simp

lemma digits_bound: "2 \<le> b \<Longrightarrow> d \<in> set (digits b n) \<Longrightarrow> d < b"
proof (induction b n rule: digits.induct)
  case (1 b n)
  show ?case
  proof (cases "n < b")
    case True
    then show ?thesis using 1(3) by (subst (asm) digits.simps) simp
  next
    case False
    have "d \<in> set (digits b (n div b)) \<or> d = n mod b"
      using 1(3) False 1(2) by (subst (asm) digits.simps) auto
    then show ?thesis using 1(1,2) False by auto
  qed
qed

lemma itoa_chars_list: "itoa_chars = [0x7A, 0x79, 0x78, 0x77, 0x76, 0x75, 0x74, 0x73, 0x72, 0x71, 0x70, 0x6F, 0x6E, 0x6D, 0x6C, 0x6B, 0x6A, 0x69, 0x68, 0x67, 0x66, 0x65, 0x64, 0x63, 0x62, 0x61, 0x39, 0x38, 0x37, 0x36, 0x35, 0x34, 0x33, 0x32, 0x31, 0x30, 0x31, 0x32, 0x33, 0x34, 0x35, 0x36, 0x37, 0x38, 0x39, 0x61, 0x62, 0x63, 0x64, 0x65, 0x66, 0x67, 0x68, 0x69, 0x6A, 0x6B, 0x6C, 0x6D, 0x6E, 0x6F, 0x70, 0x71, 0x72, 0x73, 0x74, 0x75, 0x76, 0x77, 0x78, 0x79, 0x7A]"
  by (simp add: itoa_chars_def)

lemma hex_digits_list: "hex_digits = [0x30, 0x31, 0x32, 0x33, 0x34, 0x35, 0x36, 0x37, 0x38, 0x39, 0x61, 0x62, 0x63, 0x64, 0x65, 0x66]"
  by (simp add: hex_digits_def)

lemma digit_table:
  assumes "d < 36"
  shows "itoa_chars ! (35 - d) = digit_char d" "d < 10 \<Longrightarrow> digit_char d = 0x30 + of_nat d" "digit_char d \<noteq> 0"
proof -
  have "d \<in> set [0, 1, 2, 3, 4, 5, 6, 7, 8, 9, 10, 11, 12, 13, 14, 15, 16, 17, 18, 19, 20, 21, 22, 23, 24, 25, 26, 27, 28, 29, 30, 31, 32, 33, 34, 35]"
  proof -
    have "[0..<36] = [0, 1, 2, 3, 4, 5, 6, 7, 8, 9, 10, 11, 12, 13, 14, 15, 16, 17, 18, 19, 20, 21, 22, 23, 24, 25, 26, 27, 28, 29, 30, 31, 32, 33, 34, 35 :: nat]" by (simp add: upt_conv_Cons)
    then show ?thesis using assms by (metis atLeastLessThan_iff set_upt zero_le)
  qed
  then show "itoa_chars ! (35 - d) = digit_char d" "d < 10 \<Longrightarrow> digit_char d = 0x30 + of_nat d" "digit_char d \<noteq> 0"
    unfolding digit_char_def itoa_chars_list by auto
qed

text \<open>Bytes in memory.\<close>

fun bytes_at :: "byte_mem \<Rightarrow> u32 \<Rightarrow> u8 list \<Rightarrow> bool" where
  "bytes_at m p [] \<longleftrightarrow> True"
| "bytes_at m p (x # xs) \<longleftrightarrow> m p = x \<and> bytes_at m (p + 1) xs"

lemma bytes_at_append [simp]:
  "bytes_at m p (xs @ ys) \<longleftrightarrow> bytes_at m p xs \<and> bytes_at m (p + of_nat (length xs)) ys"
  by (induction xs arbitrary: p) (auto simp: add.assoc)

lemma bytes_at_frame:
  "bytes_at m p xs \<Longrightarrow> (\<And>k. k < length xs \<Longrightarrow> m' (p + of_nat k) = m (p + of_nat k)) \<Longrightarrow> bytes_at m' p xs"
proof (induction xs arbitrary: p)
  case (Cons x xs)
  have "m' (p + 1 + of_nat k) = m (p + 1 + of_nat k)" if "k < length xs" for k
    using Cons.prems(2)[of "Suc k"] that by (simp add: add.assoc)
  then show ?case using Cons Cons.prems(2)[of 0] by simp
qed simp

lemma cstr_bytes_at: "cstr m p xs \<longleftrightarrow> bytes_at m p xs \<and> 0 \<notin> set xs \<and> m (p + of_nat (length xs)) = 0"
  by (induction xs arbitrary: p) (auto simp: add.assoc)

lemma reverse_bytes_list:
  assumes "bytes_at m p xs" "unat p + length xs \<le> 2 ^ 32" "xs \<noteq> [] \<or> p \<noteq> 0"
  shows "\<exists>m'. reverse_bytes m p (p + of_nat (length xs) - 1) = Some m' \<and> bytes_at m' p (rev xs)
    \<and> (\<forall>a. outside p (length xs) a \<longrightarrow> m' a = m a)"
  using assms
proof (induction "length xs" arbitrary: xs m p rule: less_induct)
  case less
  consider "xs = []" | x where "xs = [x]" | x ys z where "xs = x # ys @ [z]"
    by (metis append_butlast_last_id list.exhaust)
  then show ?case
  proof cases
    case 1
    then have "\<not> p < p - 1" using less.prems(3) by (simp add: word_less_nat_alt unat_minus_one)
    then show ?thesis using 1 by (subst reverse_bytes.simps) simp
  next
    case 2
    then show ?thesis using less.prems(1) by (subst reverse_bytes.simps) simp
  next
    case 3
    define e where "e = p + of_nat (length xs) - 1"
    define m1 where "m1 = m(e := x, p := z)"
    have n: "length xs = length ys + 2" using 3 by simp
    then have e: "e = p + of_nat (Suc (length ys))" by (simp add: e_def)
    have ne: "p + of_nat i \<noteq> p" "p + of_nat i \<noteq> e \<longleftrightarrow> i \<noteq> Suc (length ys)" if "0 < i" "i < length xs" for i
      using offset_inj[of i 0 p] offset_inj[of i "Suc (length ys)" p] that n less.prems(2) unfolding e by simp_all
    have pe: "p \<noteq> e" "unat e = unat p + Suc (length ys)"
      using ne(1)[of "Suc (length ys)"] n less.prems(2) by (auto simp: e unat_word_ariths unat_of_nat)
    have val: "m p = x" "m e = z" "bytes_at m (p + 1) ys"
      using less.prems(1) unfolding 3 by (auto simp: e add.assoc)
    have "\<exists>m'. reverse_bytes m1 (p + 1) (p + 1 + of_nat (length ys) - 1) = Some m' \<and> bytes_at m' (p + 1) (rev ys)
        \<and> (\<forall>a. outside (p + 1) (length ys) a \<longrightarrow> m' a = m1 a)"
    proof (rule less.hyps)
      show "length ys < length xs" using n by simp
      show "bytes_at m1 (p + 1) ys"
      proof (rule bytes_at_frame[OF val(3)])
        fix k assume "k < length ys"
        then show "m1 (p + 1 + of_nat k) = m (p + 1 + of_nat k)"
          using ne[of "Suc k"] n by (simp add: m1_def add.assoc)
      qed
      have p1: "unat (p + 1) = unat p + 1" using less.prems(2) n by (simp add: unat_word_ariths)
      then show "unat (p + 1) + length ys \<le> 2 ^ 32" using less.prems(2) n by simp
      show "ys \<noteq> [] \<or> p + 1 \<noteq> 0" using p1 by (metis add_is_0 one_neq_zero unat_0)
    qed
    then obtain m' where m': "reverse_bytes m1 (p + 1) (e - 1) = Some m'" "bytes_at m' (p + 1) (rev ys)"
      "\<And>a. outside (p + 1) (length ys) a \<Longrightarrow> m' a = m1 a" by (auto simp: e)
    have "reverse_bytes m p e = Some m'"
    proof -
      have "p < e" using pe(2) by (simp add: word_less_nat_alt)
      then show ?thesis using m'(1) val by (subst reverse_bytes.simps) (simp add: m1_def)
    qed
    moreover have "bytes_at m' p (rev xs)"
    proof -
      have o: "outside (p + 1) (length ys) p" "outside (p + 1) (length ys) e"
        using less.prems(2) n by (simp_all add: outside_def unat_minus_1 e unat_of_nat)
      then have "m' p = z" "m' e = x" using m'(3)[OF o(1)] m'(3)[OF o(2)] pe(1) by (simp_all add: m1_def)
      then show ?thesis using m'(2) unfolding 3 by (simp add: e add.assoc)
    qed
    moreover have "m' a = m a" if o: "outside p (length xs) a" for a
    proof -
      have "outside (p + 1) (length ys) a" "a \<noteq> p" "a \<noteq> e"
        using outside_Suc[of p "Suc (length ys)" a] o n not_outside[of "Suc (length ys)" "length xs" p]
        by (auto simp: outside_def e)
      then show ?thesis using m'(3)[of a] by (simp add: m1_def)
    qed
    ultimately show ?thesis unfolding e_def by blast
  qed
qed

lemma sint_wi: "- (2 ^ 31) \<le> x \<Longrightarrow> x < 2 ^ 31 \<Longrightarrow> sint (word_of_int x :: u32) = x"
  by (simp add: sint_sbintrunc' signed_take_bit_int_eq_self)

text \<open>One round of the conversion: signed division by the base, and the digit of the signed remainder.\<close>

lemma itoa_step:
  fixes i :: u32
  assumes "sint b = int bb" "2 \<le> bb" "bb \<le> 36"
  defines "j \<equiv> word_of_int (sint i sdiv sint b) :: u32"
  shows "nat \<bar>sint j\<bar> = nat \<bar>sint i\<bar> div bb" "j \<noteq> 0 \<Longrightarrow> j <s 0 \<longleftrightarrow> i <s 0"
    "itoa_chars ! unat (35 + (i - j * b)) = digit_char (nat \<bar>sint i\<bar> mod bb)"
proof -
  define n where "n = nat \<bar>sint i\<bar>"
  define g where "g = (if sint i < 0 then - 1 else 1 :: int)"
  have i: "sint i = g * int n" by (simp add: g_def n_def)
  have q: "sint i sdiv sint b = g * int (n div bb)"
    using assms(2) unfolding signed_divide_int_def assms(1) i by (simp add: g_def zdiv_int sgn_if)
  have nb: "int n \<le> 2 ^ 31" using sint_ge[of i] sint_lt[of i] by (simp add: n_def)
  have "n div bb \<le> n div 2" using assms(2) by (intro div_le_mono2) simp_all
  moreover have "2 * (n div 2) \<le> n" by simp
  moreover have "n \<le> 2147483648" using nb by simp
  ultimately have "n div bb \<le> 1073741824" by linarith
  then have dv: "int (n div bb) \<le> 2 ^ 30" by simp
  have j: "sint j = g * int (n div bb)"
  proof -
    have "- (2 ^ 31) \<le> g * int (n div bb)" "g * int (n div bb) < 2 ^ 31" using dv by (simp_all add: g_def)
    then show ?thesis unfolding j_def q by (rule sint_wi)
  qed
  then show "nat \<bar>sint j\<bar> = nat \<bar>sint i\<bar> div bb" by (simp add: g_def flip: n_def)
  show "j <s 0 \<longleftrightarrow> i <s 0" if "j \<noteq> 0"
  proof -
    have "sint j \<noteq> 0" using that signed_word_eqI[of j 0] by auto
    moreover have "g = - 1 \<and> sint i < 0 \<or> g = 1 \<and> \<not> sint i < 0" by (simp add: g_def)
    ultimately show ?thesis using j by (auto simp: word_sless_alt)
  qed
  define d where "d = n mod bb"
  have d: "d < 36" using assms(2,3) unfolding d_def by (meson less_le_trans mod_less_divisor zero_less_numeral)
  have "i - j * b = word_of_int (sint i) - word_of_int (sint j) * word_of_int (sint b)"
    by (simp only: word_of_int_of_sint)
  also have "\<dots> = word_of_int (g * int n - g * int (n div bb) * int bb)"
    by (simp only: wi_hom_mult wi_hom_sub i j assms(1))
  also have "g * int n - g * int (n div bb) * int bb = g * int d"
  proof -
    have "int n = int (n div bb) * int bb + int d" unfolding d_def by (simp flip: of_nat_mult of_nat_add)
    then show ?thesis by (simp add: algebra_simps)
  qed
  finally have r: "35 + (i - j * b) = word_of_int (35 + g * int d)" by (simp add: wi_hom_add)
  have u: "unat (word_of_int x :: u32) = nat x" if "0 \<le> x" "x < 2 ^ 32" for x
    using that by (simp add: unat_eq_nat_uint uint_word_of_int)
  have "35 + g * int d = int (if sint i < 0 then 35 - d else 35 + d)" using d by (simp add: g_def)
  then have "unat (35 + (i - j * b)) = (if sint i < 0 then 35 - d else 35 + d)"
    unfolding r using d by (subst u) (simp_all only: nat_int, auto)
  then show "itoa_chars ! unat (35 + (i - j * b)) = digit_char (nat \<bar>sint i\<bar> mod bb)"
    unfolding n_def[symmetric] d_def[symmetric] using digit_table(1)[OF d] by (simp add: digit_char_def)
qed

lemma itoa_loop_digits:
  assumes "sint b = int bb" "2 \<le> bb" "bb \<le> 36"
  shows "length (digits bb (nat \<bar>sint i\<bar>)) < 2 ^ 32 \<Longrightarrow> \<exists>m' tmp. itoa_loop m p i b = Some (m', p + of_nat (length (digits bb (nat \<bar>sint i\<bar>))), tmp)
    \<and> bytes_at m' p (rev (map digit_char (digits bb (nat \<bar>sint i\<bar>)))) \<and> (tmp <s 0 \<longleftrightarrow> i <s 0)
    \<and> (\<forall>a. outside p (length (digits bb (nat \<bar>sint i\<bar>))) a \<longrightarrow> m' a = m a)"
proof (induction "nat \<bar>sint i\<bar>" arbitrary: m p i rule: less_induct)
  case less
  define j where "j = (word_of_int (sint i sdiv sint b) :: u32)"
  define n where "n = nat \<bar>sint i\<bar>"
  note st = itoa_step[OF assms, of i, folded j_def n_def]
  define m1 where "m1 = m(p := digit_char (n mod bb))"
  have un: "itoa_loop m p i b = (if j \<noteq> 0 then itoa_loop m1 (p + 1) j b else Some (m1, p + 1, i))"
    by (subst itoa_loop.simps) (simp only: Let_def j_def[symmetric] st(3) m1_def)
  show ?case
  proof (cases "j = 0")
    case True
    then have "n div bb = 0" using st(1) by simp
    then have "n < bb" using assms(2) by (simp add: div_eq_0_iff)
    then have "digits bb n = [n]" by (subst digits.simps) simp
    moreover have "bytes_at m1 p [digit_char n]" "\<forall>a. outside p 1 a \<longrightarrow> m1 a = m a"
      using \<open>n < bb\<close> by (auto simp: m1_def outside_def)
    ultimately show ?thesis using un True by (simp flip: n_def)
  next
    case False
    have nz: "n div bb \<noteq> 0"
    proof
      assume "n div bb = 0"
      then have "sint j = 0" using st(1) by simp
      then show False using False signed_word_eqI[of j 0] by auto
    qed
    then have nlt: "\<not> n < bb" "n div bb < n" using assms(2) by (cases n; auto intro!: div_less_dividend)+
    then have ds: "digits bb n = digits bb (n div bb) @ [n mod bb]"
      using assms(2) by (subst digits.simps) simp
    obtain m' tmp where IH: "itoa_loop m1 (p + 1) j b = Some (m', p + 1 + of_nat (length (digits bb (n div bb))), tmp)"
      "bytes_at m' (p + 1) (rev (map digit_char (digits bb (n div bb))))" "tmp <s 0 \<longleftrightarrow> j <s 0"
      "\<And>a. outside (p + 1) (length (digits bb (n div bb))) a \<Longrightarrow> m' a = m1 a"
      using less.hyps[of j m1 "p + 1"] less.prems nlt(2) ds unfolding st(1) n_def[symmetric] by auto
    have "m' p = digit_char (n mod bb)"
      using IH(4)[of p] less.prems ds by (simp add: outside_def unat_minus_1 m1_def flip: n_def)
    moreover have "m' a = m a" if "outside p (length (digits bb n)) a" for a
      using outside_Suc[of p "length (digits bb (n div bb))" a] that IH(4)[of a] by (simp add: ds m1_def)
    ultimately show ?thesis using un False IH(1,2,3) st(2)[OF False]
      by (simp add: ds add.assoc flip: n_def)
  qed
qed

lemma itoa_text:
  assumes "2 \<le>s base" "base \<le>s 36" "unat s + 34 \<le> 2 ^ 32"
  shows "\<exists>m'. itoa m i s base = Some (m', s) \<and> cstr m' s (number_text (unat base) (sint i))
    \<and> (\<forall>a. outside s 34 a \<longrightarrow> m' a = m a)"
proof -
  define bb where "bb = unat base"
  have "2 \<le> sint base" "sint base \<le> 36" using assms(1,2) by (simp_all add: word_sle_eq)
  moreover from this have b: "sint base = int bb" using sint_nonneg[of base] by (simp only: bb_def)
  ultimately have "2 \<le> bb" "bb \<le> 36" by linarith+
  note b = b this
  define ds where "ds = digits bb (nat \<bar>sint i\<bar>)"
  have "nat \<bar>sint i\<bar> < 2 ^ 32" using sint_ge[of i] sint_lt[of i] by simp
  then have len: "length ds \<le> 32" using digits_length[of bb "nat \<bar>sint i\<bar>" 31] b(2) by (simp add: ds_def)
  then obtain m1 tmp where loop: "itoa_loop m s i base = Some (m1, s + of_nat (length ds), tmp)"
    "bytes_at m1 s (rev (map digit_char ds))" "tmp <s 0 \<longleftrightarrow> i <s 0" "\<And>a. outside s (length ds) a \<Longrightarrow> m1 a = m a"
    using itoa_loop_digits[OF b, of i m s] by (auto simp: ds_def)
  define e where "e = s + of_nat (length ds)"
  define sg where "sg = (if i <s 0 then [0x2D] else [] :: u8 list)"
  define xs where "xs = rev (map digit_char ds) @ sg"
  define m2 where "m2 = (if i <s 0 then m1(e := 0x2D) else m1)"
  define q where "q = s + of_nat (length xs)"
  define m3 where "m3 = m2(q := 0)"
  have xl: "length xs \<le> 33" "length xs = length ds + length sg" using len by (simp_all add: xs_def sg_def)
  have ee: "(if i <s 0 then (m1(e := 0x2D), e + 1) else (m1, e)) = (m2, q)"
    by (simp add: m2_def q_def sg_def xl(2) e_def)
  have call: "itoa m i s base = map_option (\<lambda>m. (m, s)) (reverse_bytes m3 s (q - 1))"
  proof -
    have "\<not> (base <s 2 \<or> 36 <s base)" using assms(1,2) by (simp add: word_sle_eq word_sless_alt)
    moreover have "reverse_bytes m3 s (q - 1) \<bind> (\<lambda>m. Some (m, s)) = map_option (\<lambda>m. (m, s)) (reverse_bytes m3 s (q - 1))"
      by (cases "reverse_bytes m3 s (q - 1)") simp_all
    ultimately show ?thesis using loop(1,3) ee unfolding itoa_def
      by (simp only: if_False bind.simps prod.case Let_def e_def[symmetric] m3_def)
  qed
  have off: "s + of_nat k \<noteq> q" if "k < length xs" for k
    using offset_inj[of k "length xs" s] that xl unfolding q_def by simp
  have m2: "bytes_at m2 s xs"
  proof (cases "i <s 0")
    case True
    have "bytes_at m2 s (rev (map digit_char ds))"
    proof (rule bytes_at_frame[OF loop(2)])
      fix k assume "k < length (rev (map digit_char ds))"
      then show "m2 (s + of_nat k) = m1 (s + of_nat k)"
        using offset_inj[of k "length ds" s] len by (simp add: m2_def e_def)
    qed
    then show ?thesis using True by (simp add: xs_def sg_def m2_def e_def)
  qed (use loop(2) in \<open>simp add: xs_def sg_def m2_def\<close>)
  have m3: "bytes_at m3 s xs"
    by (rule bytes_at_frame[OF m2]) (simp add: m3_def off)
  have "unat s + length xs \<le> 2 ^ 32" "xs \<noteq> [] \<or> s \<noteq> 0"
    using assms(3) xl(1) by (simp_all add: xs_def ds_def)
  from reverse_bytes_list[OF m3 this] obtain m' where m': "reverse_bytes m3 s (q - 1) = Some m'" "bytes_at m' s (rev xs)"
    "\<And>a. outside s (length xs) a \<Longrightarrow> m' a = m3 a"
    by (auto simp: q_def)
  have tx: "rev xs = number_text bb (sint i)"
    by (auto simp: xs_def sg_def number_text_def ds_def rev_map word_sless_alt)
  have "0 \<notin> set xs"
    using digits_bound[OF b(2)] digit_table(3) b(3) by (force simp: xs_def sg_def ds_def)
  moreover have "m' q = 0"
  proof -
    have "outside s (length xs) q" using xl(1) by (simp add: q_def outside_def unat_of_nat)
    then show ?thesis using m'(3) by (simp add: m3_def)
  qed
  ultimately have "cstr m' s (rev xs)" using m'(2) by (simp add: cstr_bytes_at q_def)
  moreover have "m' a = m a" if "outside s 34 a" for a
  proof -
    have "outside s (length xs) a" "outside s (length ds) a" using that xl by (simp_all add: outside_def)
    moreover have "a \<noteq> q" "a \<noteq> e"
      using not_outside[of "length xs" 34 s] not_outside[of "length ds" 34 s] that xl len by (auto simp: q_def e_def)
    ultimately show ?thesis using m'(3) loop(4) by (simp add: m3_def m2_def)
  qed
  ultimately show ?thesis using call m'(1) by (simp add: tx bb_def)
qed

text \<open>\<open>itoa\<close> writes the text of the number in the base: a minus sign for a negative number, then its
  digits without leading zeros, and a NUL; the smallest integer included. It writes at most 34 bytes.\<close>

theorem itoa_writes_number:
  assumes "2 \<le>s base" "base \<le>s 36" "unat s + 34 \<le> 2 ^ 32"
  shows "\<exists>m'. itoa m i s base = Some (m', s) \<and> cstr m' s (number_text (unat base) (sint i))
    \<and> (\<forall>a. outside s 34 a \<longrightarrow> m' a = m a)"
  using assms by (rule itoa_text)

theorem itoa_writes_number_witness:
  "\<exists>m'. itoa (\<lambda>_. 0) (- 255) 100 16 = Some (m', 100) \<and> cstr m' 100 (number_text (unat (16 :: u32)) (sint (- 255 :: u32)))
    \<and> (\<forall>a. outside 100 34 a \<longrightarrow> m' a = 0)"
  by (rule itoa_writes_number) (simp_all add: word_sle_eq)

subsection \<open>Reading a number back\<close>

lemma atoi_digits_list:
  assumes "bytes_at m s (map digit_char ds)" "\<forall>d\<in>set ds. d < 10" "\<not> isdigit (m (s + of_nat (length ds)))"
  shows "atoi_digits m s v = Some (foldl (\<lambda>v d. v * 10 + of_nat d) v ds)"
  using assms
proof (induction ds arbitrary: s v)
  case Nil
  then show ?case by (subst atoi_digits.simps) (auto simp: isdigit_def)
next
  case (Cons d ds)
  have d: "digit_char d = 0x30 + of_nat d" "d < 10" using Cons.prems(2) digit_table(2)[of d] by simp_all
  have c: "0x30 \<le>s digit_char d" "digit_char d \<le>s 0x39" "scast (digit_char d) = (0x30 + of_nat d :: u32)"
  proof -
    have "d \<in> set [0, 1, 2, 3, 4, 5, 6, 7, 8, 9]" using d(2) by auto
    then show "0x30 \<le>s digit_char d" "digit_char d \<le>s 0x39" "scast (digit_char d) = (0x30 + of_nat d :: u32)"
      unfolding d(1) by (auto simp: word_sle_eq)
  qed
  have "atoi_digits m (s + 1) (v * 10 + of_nat d) = Some (foldl (\<lambda>v d. v * 10 + of_nat d) (v * 10 + of_nat d) ds)"
    using Cons.prems by (intro Cons.IH) (simp_all add: add.assoc)
  then show ?case using Cons.prems(1) c by (subst atoi_digits.simps) (simp add: c(3))
qed

lemma digits_value: "2 \<le> b \<Longrightarrow> foldl (\<lambda>v d. v * of_nat b + of_nat d) 0 (digits b n) = (of_nat n :: u32)"
proof (induction b n rule: digits.induct)
  case (1 b n)
  show ?case
  proof (cases "n < b")
    case False
    have "(of_nat n :: u32) = of_nat (n div b * b + n mod b)" by simp
    then show ?thesis using 1 False by (subst digits.simps) (simp only: of_nat_add of_nat_mult, simp)
  qed (subst digits.simps, simp)
qed

text \<open>C40: \<open>atoi\<close> reads back what \<open>itoa\<close> wrote in base ten, for every 32-bit integer, the smallest one included,
  whose digits overflow and wrap to the same value.\<close>

theorem atoi_itoa:
  assumes "unat s + 34 \<le> 2 ^ 32"
  shows "\<exists>m'. itoa m i s 10 = Some (m', s) \<and> atoi m' s = Some i"
proof -
  obtain m' where m': "itoa m i s 10 = Some (m', s)" "cstr m' s (number_text 10 (sint i))"
    using itoa_text[of 10 s m i] assms by (auto simp: word_sle_eq)
  define n where "n = nat \<bar>sint i\<bar>"
  define ds where "ds = digits 10 n"
  define p where "p = (if sint i < 0 then s + 1 else s)"
  have at: "bytes_at m' p (map digit_char ds)" "m' (p + of_nat (length ds)) = 0"
    using m'(2) by (auto simp: cstr_bytes_at number_text_def p_def ds_def n_def add.assoc)
  have "atoi_digits m' p 0 = Some (of_nat n)"
    using atoi_digits_list[OF at(1), of 0] at(2) digits_bound[of 10] digits_value[of 10 n]
    by (auto simp: ds_def isdigit_def word_sle_eq)
  moreover have "atoi_sign m' s = Some (sint i < 0, p)"
  proof (cases "sint i < 0")
    case True
    then show ?thesis using m'(2) by (subst atoi_sign.simps) (simp add: number_text_def p_def)
  next
    case False
    obtain d es where ds: "ds = d # es" using digits_nonempty[of 10 n] by (cases ds) (auto simp: ds_def)
    have d: "m' s = digit_char d" "d < 10"
      using at(1) False digits_bound[of 10 d n] ds by (simp_all add: p_def ds_def)
    then have "d \<in> set [0, 1, 2, 3, 4, 5, 6, 7, 8, 9]" by auto
    then have "m' s \<notin> {0x20, 9, 0x2D, 0x2B}" unfolding d(1) using digit_table(2)[of d] d(2) by auto
    then show ?thesis using False by (subst atoi_sign.simps) (simp add: p_def)
  qed
  moreover have "(if sint i < 0 then - of_nat n else of_nat n) = i"
  proof -
    have "(if sint i < 0 then - int n else int n) = sint i" by (simp add: n_def)
    then have "word_of_int (if sint i < 0 then - int n else int n) = i" by (simp only: word_of_int_of_sint)
    then show ?thesis by (simp split: if_splits)
  qed
  ultimately have "atoi m' s = Some i" by (simp add: atoi_def)
  then show ?thesis using m'(1) by blast
qed

theorem atoi_itoa_witness:
  "\<exists>m'. itoa (\<lambda>_. 0) 0x80000000 100 10 = Some (m', 100) \<and> atoi m' 100 = Some 0x80000000"
  by (rule atoi_itoa) simp

subsection \<open>Printed numbers\<close>

lemma fill_tmp_digits:
  assumes "unat b = bb" "2 \<le> bb" "bb \<le> 16"
  shows "num \<noteq> 0 \<Longrightarrow> length tmp + length (digits bb (unat num)) \<le> 16 \<Longrightarrow>
    fill_tmp tmp num b = Some (tmp @ rev (map digit_char (digits bb (unat num))))"
proof (induction "unat num" arbitrary: num tmp rule: less_induct)
  case less
  define q where "q = num div b"
  define r where "r = unat num mod bb"
  have q: "unat q = unat num div bb" and r: "unat (num mod b) = r"
    by (simp_all add: q_def r_def unat_div unat_mod_distrib assms(1))
  have "r < 16" using assms(2,3) unfolding r_def by (meson less_le_trans mod_less_divisor zero_less_numeral)
  then have hd: "hex_digits ! r = digit_char r"
  proof -
    have "r \<in> set [0, 1, 2, 3, 4, 5, 6, 7, 8, 9, 10, 11, 12, 13, 14, 15]"
    proof -
      have "[0..<16] = [0, 1, 2, 3, 4, 5, 6, 7, 8, 9, 10, 11, 12, 13, 14, 15 :: nat]" by (simp add: upt_conv_Cons)
      then show ?thesis using \<open>r < 16\<close> by (metis atLeastLessThan_iff set_upt zero_le)
    qed
    then show ?thesis unfolding hex_digits_list digit_char_def itoa_chars_list by auto
  qed
  have pos: "0 < length (digits bb (unat num))" by simp
  have un: "fill_tmp tmp num b = fill_tmp (tmp @ [digit_char r]) q b"
  proof -
    have "length tmp < 16" using less.prems(2) pos by linarith
    then show ?thesis using less.prems(1) by (subst fill_tmp.simps) (simp add: divide_def q_def r hd)
  qed
  show ?case
  proof (cases "q = 0")
    case True
    then have "unat num div bb = 0" using q by simp
    then have "unat num < bb" using assms(2) by (simp add: div_eq_0_iff)
    moreover from this have "r = unat num" by (simp add: r_def)
    ultimately have "digits bb (unat num) = [unat num]" "r = unat num" by (simp_all add: digits.simps)
    then show ?thesis using un True by (simp add: fill_tmp.simps)
  next
    case False
    then have "unat num div bb \<noteq> 0" using q by (metis unat_eq_zero)
    then have nlt: "\<not> unat num < bb" "unat num div bb < unat num" using assms(2) by (cases "unat num"; auto intro!: div_less_dividend)+
    then have ds: "digits bb (unat num) = digits bb (unat num div bb) @ [r]"
      using assms(2) unfolding r_def by (subst digits.simps) simp
    have "fill_tmp (tmp @ [digit_char r]) q b = Some ((tmp @ [digit_char r]) @ rev (map digit_char (digits bb (unat q))))"
      using less.prems(2) nlt(2) False by (intro less.hyps) (simp_all add: q ds)
    then show ?thesis using un by (simp add: q ds)
  qed
qed

text \<open>What the number conversions print: the sign, the padding up to the width, the digits.\<close>

lemma digits_length_pow: "2 \<le> b \<Longrightarrow> n < b ^ Suc k \<Longrightarrow> length (digits b n) \<le> Suc k"
proof (induction k arbitrary: n)
  case (Suc k)
  have "n div b < b ^ Suc k" using Suc.prems(2) by (intro less_mult_imp_div_less) (simp add: mult.commute)
  then have "length (digits b (n div b)) \<le> Suc k" using Suc.prems(1) by (intro Suc.IH)
  then show ?case by (subst digits.simps) simp
qed (subst digits.simps, simp)

lemma digits_length_10: "n < 2 ^ 32 \<Longrightarrow> length (digits 10 n) \<le> 10"
  using digits_length_pow[of 10 n 9] by simp

definition field :: "bool \<Rightarrow> nat \<Rightarrow> u8 \<Rightarrow> int \<Rightarrow> u32 \<Rightarrow> u8 list" where
  "field sign b pad width num =
     (let neg = sign \<and> num <s 0; ds = map digit_char (digits b (if neg then nat \<bar>sint num\<bar> else unat num))
      in (if neg then [0x2D] else []) @ replicate (nat (width - (if neg then 1 else 0) - int (length ds))) pad @ ds)"

lemma printchars_append: "printchars (xs @ ys) p = do { q \<leftarrow> printchars xs p; printchars ys q }"
  by (induction xs arbitrary: p) (simp_all, metis bind_assoc)

lemma print_pad_replicate: "print_pad w pad p = printchars (replicate (nat (sint w)) pad) p"
proof (induction w pad p rule: print_pad.induct)
  case (1 w pad p)
  show ?case
  proof (cases "0 <s w")
    case True
    have "nat (sint w) = Suc (nat (sint (w - 1)))" using sint_dec_less[OF True] by simp
    then show ?thesis using 1 True by (subst print_pad.simps) (simp split: option.splits)
  next
    case False
    then show ?thesis by (subst print_pad.simps) (simp add: word_sless_alt)
  qed
qed

text \<open>A number conversion of \<open>printf\<close> prints the sign, the padding up to the width and the digits, in decimal
  and in hexadecimal: the 16-byte digit buffer always suffices, and the smallest integer is printed right.\<close>

theorem print_number_field:
  assumes "base = 10 \<or> base = 16" "- 1 \<le> sint width"
  shows "print_number sign base pad width num p = printchars (field sign (unat base) pad (sint width) num) p"
proof -
  define bb where "bb = unat base"
  have b: "unat base = bb" "2 \<le> bb" "bb \<le> 16" "bb = 10 \<or> bb = 16" using assms(1) by (auto simp: bb_def)
  have len: "length (digits bb (unat n)) \<le> 10" for n :: u32
  proof -
    have lt: "unat n < 2 ^ 32" using unat_bound[of n] by simp
    have "length (digits 16 (unat n)) \<le> 8"
    proof -
      have "length (digits 16 (unat n)) \<le> Suc 7" using lt by (intro digits_length_pow) simp_all
      then show ?thesis by simp
    qed
    then show ?thesis using digits_length_10[OF lt] b(4) by auto
  qed
  have tmp: "(if n = 0 then Some [0x30] else fill_tmp [] n base) = Some (rev (map digit_char (digits bb (unat n))))" for n
  proof (cases "n = 0")
    case True
    have "digits bb 0 = [0]" using b(2) by (subst digits.simps) simp
    then show ?thesis using True digit_table(2)[of 0] by simp
  next
    case False
    then show ?thesis using fill_tmp_digits[OF b(1,2,3) False, of "[]"] len[of n] by simp
  qed
  define neg where "neg \<longleftrightarrow> sign \<and> num <s 0"
  define n where "n = (if neg then - num else num)"
  define w where "w = (if neg then width - 1 else width)"
  define ds where "ds = map digit_char (digits bb (unat n))"
  have un: "unat n = (if neg then nat \<bar>sint num\<bar> else unat num)"
  proof (cases neg)
    case True
    then have "c_abs num = - num" by (simp add: neg_def c_abs_def)
    then show ?thesis using True uint_c_abs[of num] by (simp add: n_def unat_eq_nat_uint)
  qed (simp add: n_def)
  have w: "sint (w - of_nat (length ds)) = sint width - (if neg then 1 else 0) - int (length ds)"
  proof -
    have l: "length ds \<le> 10" using len by (simp add: ds_def)
    define x where "x = sint width - (if neg then 1 else 0) - int (length ds)"
    have "w - of_nat (length ds) = word_of_int (sint width) - word_of_int (if neg then 1 else 0) - word_of_int (int (length ds))"
      by (simp add: w_def word_of_int_of_sint)
    then have "w - of_nat (length ds) = word_of_int x" by (simp only: x_def wi_hom_sub)
    moreover have "- (2 ^ 31) \<le> x" "x < 2 ^ 31" using sint_lt[of width] assms(2) l by (simp_all add: x_def)
    ultimately show ?thesis by (simp only: sint_wi x_def)
  qed
  have "print_number sign base pad width num p =
      do { q \<leftarrow> printchars (if neg then [0x2D] else []) p; q \<leftarrow> print_pad (w - of_nat (length ds)) pad q; printchars ds q }"
    unfolding print_number_def neg_def[symmetric]
    by (simp add: tmp n_def w_def ds_def)
  then show ?thesis
    unfolding print_pad_replicate w
    by (simp add: field_def Let_def printchars_append un ds_def flip: neg_def bb_def)
qed

definition sample_printer :: printer where
  "sample_printer = \<lparr>pmem = \<lambda>_. 0, dest = Some 64, pcon = \<lparr>uartcause = \<lambda>_. 0, polls = 0, uart_in = \<lambda>_. 0, taken = 0, sent = []\<rparr>\<rparr>"

theorem print_number_field_witness:
  "print_number True 10 0x30 4 (- 7) sample_printer
      = printchars (field True (unat (10 :: u32)) 0x30 (sint (4 :: u32)) (- 7)) sample_printer
    \<and> field True 10 0x30 4 (- 7) = [0x2D, 0x30, 0x30, 0x37]"
proof
  show "print_number True 10 0x30 4 (- 7) sample_printer
      = printchars (field True (unat (10 :: u32)) 0x30 (sint (4 :: u32)) (- 7)) sample_printer"
    by (rule print_number_field) simp_all
  show "field True 10 0x30 4 (- 7) = [0x2D, 0x30, 0x30, 0x37]" by code_simp
qed

subsection \<open>Delays\<close>

text \<open>
  With a timer that does not wrap, the loop keeps \<open>elapsed\<close> whole units and \<open>delta\<close> cycles of the
  time since the first read, and stops at the first read where the whole units are enough.
\<close>

lemma delay_loop_ends:
  assumes mono: "\<And>i. unat (t i) \<le> unat (t (Suc i))" and u: "0 < unit"
    and enough: "unat (t n) - unat (t 0) \<ge> unat req * unat unit"
    and first: "\<And>i. i < n \<Longrightarrow> unat (t i) - unat (t 0) < unat req * unat unit"
  shows "k \<le> n \<Longrightarrow> unat delta < unat unit \<Longrightarrow> unat elapsed * unat unit + unat delta = unat (t k) - unat (t 0) \<Longrightarrow>
    delay_loop cpu unit req t (Suc k) (t k) delta elapsed = Some (Suc n)"
proof (induction "n - k" arbitrary: k delta elapsed)
  case 0
  then have k: "k = n" by simp
  have "\<not> elapsed < req"
  proof
    assume "elapsed < req"
    then have "Suc (unat elapsed) \<le> unat req" by (simp add: word_less_nat_alt)
    then have "Suc (unat elapsed) * unat unit \<le> unat req * unat unit" by (rule mult_le_mono1)
    then show False using 0 enough k by simp
  qed
  then show ?case using k by (subst delay_loop.simps) simp
next
  case (Suc d)
  then have k: "k < n" by simp
  have lt: "elapsed < req"
  proof (rule ccontr)
    assume "\<not> elapsed < req"
    then have "unat req * unat unit \<le> unat elapsed * unat unit" by (intro mult_le_mono1) (simp add: word_less_nat_alt)
    then show False using first[OF k] Suc.prems(3) by linarith
  qed
  have m0: "unat (t 0) \<le> unat (t i)" for i
    by (induction i) (use mono order_trans in blast)+
  define c where "c = delta + (t (Suc k) - t k)"
  have dc: "unat (t (Suc k) - t k) = unat (t (Suc k)) - unat (t k)"
    using mono[of k] by (simp add: unat_sub word_le_nat_alt)
  have tot: "unat elapsed * unat unit + unat delta + unat (t (Suc k) - t k) = unat (t (Suc k)) - unat (t 0)"
    using Suc.prems(3) dc mono[of k] m0[of k] by simp
  have c: "unat c = unat delta + unat (t (Suc k) - t k)"
    using tot unat_bound[of "t (Suc k)"] by (simp add: c_def unat_word_ariths)
  have nc: "\<not> t (Suc k) < t k" using mono[of k] by (simp add: word_less_nat_alt not_less)
  have IH: "delay_loop cpu unit req t (Suc (Suc k)) (t (Suc k)) delta' elapsed' = Some (Suc n)"
    if "unat delta' < unat unit" "unat elapsed' * unat unit + unat delta' = unat (t (Suc k)) - unat (t 0)" for delta' elapsed'
    using Suc.hyps(2) k that by (intro Suc.hyps(1)) simp_all
  show ?case
  proof (cases "unit \<le> c")
    case True
    have cd: "unat (c mod unit) = unat c mod unat unit" "unat (c div unit) = unat c div unat unit"
      by (simp_all add: unat_div unat_mod_distrib)
    have u0: "0 < unat unit" using u by (simp add: word_less_nat_alt)
    have s: "(unat elapsed + unat c div unat unit) * unat unit + unat c mod unat unit = unat (t (Suc k)) - unat (t 0)"
      using tot c by (simp add: add_mult_distrib)
    have "unat elapsed + unat c div unat unit \<le> (unat elapsed + unat c div unat unit) * unat unit" using u0 by simp
    also have "\<dots> < 2 ^ 32" using s unat_bound[of "t (Suc k)"] by simp
    finally have e: "unat (elapsed + c div unit) = unat elapsed + unat c div unat unit"
      by (simp add: unat_word_ariths cd)
    have "delay_loop cpu unit req t (Suc (Suc k)) (t (Suc k)) (c mod unit) (elapsed + c div unit) = Some (Suc n)"
      using u0 s by (intro IH) (simp_all only: cd e mod_less_divisor)
    moreover have "unit \<noteq> 0" using u by auto
    ultimately show ?thesis using lt nc True by (subst delay_loop.simps) (simp add: c_def Let_def)
  next
    case False
    then have "delay_loop cpu unit req t (Suc (Suc k)) (t (Suc k)) c elapsed = Some (Suc n)"
      using tot c by (intro IH) (simp_all add: word_le_nat_alt)
    then show ?thesis using lt nc False by (subst delay_loop.simps) (simp add: c_def Let_def)
  qed
qed

text \<open>While the timer does not wrap, \<open>delay_ms\<close> returns at the first read of the timer that is at least the
  asked number of milliseconds after the one it started from: it ends, never early and never a read late,
  and the sums of cycles do not overflow however long the delay is.\<close>

theorem delay_ends_on_time:
  assumes "\<And>i. unat (t i) \<le> unat (t (Suc i))" "0 < cpu div 1000"
    and "unat msec * unat (cpu div 1000) \<le> unat (t n) - unat (t 0)"
    and "\<And>i. i < n \<Longrightarrow> unat (t i) - unat (t 0) < unat msec * unat (cpu div 1000)"
  shows "delay_ms cpu msec t = Some (Suc n)"
  unfolding delay_ms_def using delay_loop_ends[OF assms, of 0 0 0 cpu] assms(2)
  by (simp add: word_less_nat_alt)

theorem delay_ends_on_time_witness:
  "delay_ms 25000000 2 (\<lambda>i. of_nat (min i 100 * 10000)) = Some (Suc 5)"
proof (rule delay_ends_on_time)
  have u: "unat (of_nat (min i 100 * 10000) :: u32) = min i 100 * 10000" for i
    by (simp only: unat_of_nat) simp
  show "unat (of_nat (min i 100 * 10000) :: u32) \<le> unat (of_nat (min (Suc i) 100 * 10000) :: u32)" for i
    unfolding u by simp
  show "unat (2 :: u32) * unat ((25000000 :: u32) div 1000) \<le> unat (of_nat (min 5 100 * 10000) :: u32) - unat (of_nat (min 0 100 * 10000) :: u32)"
    by simp
  show "unat (of_nat (min i 100 * 10000) :: u32) - unat (of_nat (min 0 100 * 10000) :: u32) < unat (2 :: u32) * unat ((25000000 :: u32) div 1000)"
    if "i < 5" for i
    using that unfolding u by simp
qed simp

text \<open>When the timer wraps around its 32 bits during the delay, the code adds \<open>CPU_SPEED\<close> to the time that
  passed, as if the timer counted modulo \<open>CPU_SPEED\<close>: a delay of one second at 25 MHz ends at the first read
  after the wrap, here after 20 cycles.\<close>

theorem delay_short_at_wrap:
  "delay_ms 25000000 1000 (\<lambda>i. 4294967290 + 20 * of_nat i) = Some 2"
  by code_simp

end
