(* ===== verification/Heap_Alloc.thy ===== *)
theory Heap_Alloc
  imports Prelude "HOL-Library.Monad_Syntax"
begin

text \<open>
  The allocator of lib/malloc.c. The heap is a chain of blocks, each with a header of two words:
  the address of the next block at offset 0 and the size at offset 4, whose lowest bit says that the block
  is used. The memory is read and written by aligned words. The loops follow the chain, so they
  are partial functions: on a broken chain they may not end.
\<close>

unbundle bit_operations_syntax

type_synonym word_mem = "u32 \<Rightarrow> u32"

record heap =
  mem :: word_mem
  first_free :: u32
  last_free :: u32

definition align4 :: "u32 \<Rightarrow> u32" where
  "align4 x = push_bit 2 (drop_bit 2 (x + 3))"

definition heap_free :: "u32 \<Rightarrow> heap \<Rightarrow> heap" where
  "heap_free ptr h =
     (let p = ptr - 8
      in h\<lparr>mem := (mem h)(p + 4 := mem h (p + 4) AND NOT 1), last_free := first_free h\<rparr>)"

text \<open>\<open>while (p->size & 1) { p = p->next; q = p; }\<close>\<close>

partial_function (option) skip_used :: "word_mem \<Rightarrow> u32 \<Rightarrow> u32 \<Rightarrow> (u32 \<times> u32) option" where
  [code]: "skip_used m p q = (if m (p + 4) AND 1 \<noteq> 0 then skip_used m (m p) (m p) else Some (p, q))"

text \<open>\<open>while (!(p->size & 1) && p->next) p = p->next;\<close>\<close>

partial_function (option) skip_free :: "word_mem \<Rightarrow> u32 \<Rightarrow> u32 option" where
  [code]: "skip_free m p = (if m (p + 4) AND 1 = 0 \<and> m p \<noteq> 0 then skip_free m (m p) else Some p)"

partial_function (option) find_block :: "u32 \<Rightarrow> word_mem \<Rightarrow> u32 \<Rightarrow> u32 \<Rightarrow> (word_mem \<times> u32) option" where
  [code]: "find_block sz m p q =
     (if m p \<noteq> 0 then
        do { (p, q) \<leftarrow> skip_used m p q;
             p \<leftarrow> skip_free m p;
             let m = (if p \<noteq> 0 then m(q + 4 := p - q - 8, q := p) else m);
             if sz + 8 \<le> m (q + 4) then Some (m, q) else find_block sz m p q }
      else Some (m, p))"

definition heap_malloc :: "u32 \<Rightarrow> heap \<Rightarrow> (heap \<times> u32) option" where
  "heap_malloc sz h =
     (let sz = align4 sz
      in do { (m, p) \<leftarrow> find_block sz (mem h) (last_free h) (last_free h);
              if m p = 0 then Some (h\<lparr>mem := m\<rparr>, 0)
              else let r = m p;
                       m = m(p := p + sz + 8, p + 4 := sz OR 1);
                       n = m p;
                       m = m(n := r, n + 4 := (m (p + 4) AND NOT 1) - sz - 8)
                   in Some (h\<lparr>mem := m, last_free := p\<rparr>, p + 8) })"

text \<open>The end marker is placed with the length before it is aligned.\<close>

definition heap_init :: "u32 \<Rightarrow> u32 \<Rightarrow> heap \<Rightarrow> heap" where
  "heap_init zone len h =
     (let p = zone; q = zone + len - 8; len = align4 len
      in h\<lparr>mem := (mem h)(p := q, p + 4 := len - 8 - 8, q := 0, q + 4 := 0), first_free := zone, last_free := zone\<rparr>)"

end
