(* ===== verification/Heap_Props.thy ===== *)
theory Heap_Props
  imports Heap_Alloc
begin

text \<open>
  The allocator keeps its heap a chain of blocks in ascending order (\<open>seg\<close>), and its calls
  keep the used blocks: allocation writes only to the headers of free blocks and hands out
  memory no used block has.
\<close>

unbundle bit_operations_syntax

subsection \<open>Chains of blocks\<close>

definition start :: "(u32 \<times> bool) list \<Rightarrow> u32 \<Rightarrow> u32" where
  "start bs e = (case bs of [] \<Rightarrow> e | (a, _) # _ \<Rightarrow> a)"

lemma start_simps [simp]: "start [] e = e" "start ((a, u) # bs) e = a" "start (x # bs) e = fst x"
  by (simp_all add: start_def split: prod.split)

lemma start_append: "start (xs @ ys) e = start xs (start ys e)"
  by (cases xs) auto

text \<open>The blocks \<open>bs\<close>, each with its used flag, lie in ascending order and lead to the address \<open>e\<close>.\<close>

fun seg :: "word_mem \<Rightarrow> (u32 \<times> bool) list \<Rightarrow> u32 \<Rightarrow> bool" where
  "seg m [] e \<longleftrightarrow> True"
| "seg m ((a, u) # bs) e \<longleftrightarrow> m a = start bs e \<and> (m (a + 4) AND 1 \<noteq> 0 \<longleftrightarrow> u) \<and> 4 dvd unat a
     \<and> unat a + 8 \<le> unat (start bs e) \<and> seg m bs e"

definition end_block :: "word_mem \<Rightarrow> u32 \<Rightarrow> bool" where
  "end_block m e \<longleftrightarrow> m e = 0 \<and> m (e + 4) AND 1 = 0 \<and> 4 dvd unat e \<and> unat e + 8 \<le> 2 ^ 32"

lemma seg_append [simp]: "seg m (xs @ ys) e \<longleftrightarrow> seg m xs (start ys e) \<and> seg m ys e"
  by (induction xs) (auto simp: start_append)

lemma seg_cong:
  "(\<And>a u. (a, u) \<in> set bs \<Longrightarrow> m' a = m a \<and> m' (a + 4) = m (a + 4)) \<Longrightarrow> seg m' bs e \<longleftrightarrow> seg m bs e"
proof (induction bs)
  case (Cons b bs)
  obtain a u where b: "b = (a, u)" by (cases b)
  have "m' a = m a \<and> m' (a + 4) = m (a + 4)" by (rule Cons.prems[of a u]) (simp add: b)
  moreover have "seg m' bs e \<longleftrightarrow> seg m bs e" 
  proof (rule Cons.IH)
    fix c w assume "(c, w) \<in> set bs"
    then show "m' c = m c \<and> m' (c + 4) = m (c + 4)" by (intro Cons.prems[of c w]) simp
  qed
  ultimately show ?case by (simp add: b)
qed simp

lemma seg_start_le: "seg m bs e \<Longrightarrow> unat (start bs e) \<le> unat e"
proof (induction bs)
  case (Cons b bs)
  then have "unat (fst b) + 8 \<le> unat (start bs e)" "unat (start bs e) \<le> unat e" by (cases b; simp)+
  then show ?case by simp
qed simp

lemma seg_bounds:
  "seg m bs e \<Longrightarrow> (a, u) \<in> set bs \<Longrightarrow>
     unat (start bs e) \<le> unat a \<and> unat a + 8 \<le> unat (m a) \<and> unat (m a) \<le> unat e \<and> 4 dvd unat a"
proof (induction bs)
  case (Cons b bs)
  obtain c w where b: "b = (c, w)" by (cases b)
  show ?case
  proof (cases "(a, u) = b")
    case True
    then show ?thesis using Cons.prems(1) seg_start_le[of m bs e] by (simp add: b)
  next
    case False
    then have "unat (start bs e) \<le> unat a \<and> unat a + 8 \<le> unat (m a) \<and> unat (m a) \<le> unat e \<and> 4 dvd unat a"
      using Cons by (auto simp: b)
    moreover have "unat c + 8 \<le> unat (start bs e)" using Cons.prems(1) by (simp add: b)
    ultimately show ?thesis by (simp add: b)
  qed
qed simp

lemma seg_start_aligned: "seg m bs e \<Longrightarrow> 4 dvd unat e \<Longrightarrow> 4 dvd unat (start bs e)"
  by (cases bs) auto

lemma header_unat: "unat a + 8 \<le> 2 ^ 32 \<Longrightarrow> unat (a + 4 :: u32) = unat a + 4"
  by (simp add: unat_word_ariths)

text \<open>The words of a header.\<close>

definition headers :: "(u32 \<times> bool) list \<Rightarrow> u32 set" where
  "headers bs = (\<Union>(a, u)\<in>set bs. {a, a + 4})"

lemma seg_headers_cong: "(\<And>x. x \<in> headers bs \<Longrightarrow> m' x = m x) \<Longrightarrow> seg m' bs e \<longleftrightarrow> seg m bs e"
  by (rule seg_cong) (auto simp: headers_def)

lemma seg_headers_range:
  assumes "seg m bs e" "x \<in> headers bs" "unat e + 8 \<le> 2 ^ 32"
  shows "unat (start bs e) \<le> unat x" "unat x + 4 \<le> unat e"
proof -
  obtain a u where a: "(a, u) \<in> set bs" "x = a \<or> x = a + 4" using assms(2) by (auto simp: headers_def)
  note b = seg_bounds[OF assms(1) a(1)]
  have "unat (a + 4) = unat a + 4" using b assms(3) by (intro header_unat) linarith
  then show "unat (start bs e) \<le> unat x" "unat x + 4 \<le> unat e" using b a(2) by auto
qed

subsection \<open>The searches of one call\<close>

lemma skip_used_seg:
  assumes "end_block m e"
  shows "seg m (us @ bs) e \<Longrightarrow> (\<forall>b\<in>set us. snd b) \<Longrightarrow> (bs = [] \<or> \<not> snd (hd bs)) \<Longrightarrow>
    skip_used m (start (us @ bs) e) q = Some (start bs e, if us = [] then q else start bs e)"
proof (induction us arbitrary: q)
  case Nil
  then have "m (start bs e + 4) AND 1 = 0"
    using assms by (cases bs) (auto simp: end_block_def)
  then show ?case by (subst skip_used.simps) simp
next
  case (Cons b us)
  then show ?case by (cases b; subst skip_used.simps) (auto simp: start_append)
qed

lemma skip_free_seg:
  assumes "end_block m e"
  shows "seg m (fs @ bs) e \<Longrightarrow> (\<forall>b\<in>set fs. \<not> snd b) \<Longrightarrow> (bs = [] \<or> snd (hd bs)) \<Longrightarrow>
    skip_free m (start (fs @ bs) e) = Some (start bs e)"
proof (induction fs)
  case Nil
  then have "m (start bs e + 4) AND 1 \<noteq> 0 \<or> m (start bs e) = 0"
    using assms by (cases bs) (auto simp: end_block_def)
  then show ?case by (subst skip_free.simps) auto
next
  case (Cons b fs)
  obtain a where b: "b = (a, False)" using Cons.prems(2) by (cases b) auto
  have "m a \<noteq> 0" using Cons.prems(1) by (auto simp: b start_append)
  then show ?case using Cons by (subst skip_free.simps) (auto simp: b start_append)
qed


lemma headers_append [simp]: "headers (xs @ ys) = headers xs \<union> headers ys"
  and headers_Cons [simp]: "headers ((a, u) # bs) = {a, a + 4} \<union> headers bs"
  and headers_Nil [simp]: "headers [] = {}"
  by (auto simp: headers_def)

text \<open>One round merges the first run of free blocks into its first block.\<close>

lemma merge_free:
  assumes "seg m (xs @ (q, False) # fs @ rs) e" "end_block m e"
  defines "p \<equiv> start rs e" and "m' \<equiv> m(q + 4 := start rs e - q - 8, q := start rs e)"
  shows "seg m' (xs @ (q, False) # rs) e" "end_block m' e" "p \<noteq> 0" "m' (q + 4) = p - q - 8"
    "unat q + 8 \<le> unat p" "unat (p - q - 8) = unat p - unat q - 8"
proof -
  have e: "4 dvd unat e" "unat e + 8 \<le> 2 ^ 32" using assms(2) by (simp_all add: end_block_def)
  have sq: "seg m xs q" "seg m ((q, False) # fs) p" "seg m rs e" "seg m ((q, False) # fs @ rs) e"
    using assms(1) by (simp_all add: p_def start_append)
  have qp: "unat q + 8 \<le> unat p" "unat p \<le> unat e"
    using seg_bounds[OF sq(2), of q False] seg_start_le[OF sq(3)] by (auto simp: p_def)
  then show "unat q + 8 \<le> unat p" "p \<noteq> 0" by auto
  have q4: "unat (q + 4) = unat q + 4" using qp e by (intro header_unat) linarith
  show m'q: "m' (q + 4) = p - q - 8" by (simp add: m'_def p_def)
  show sz: "unat (p - q - 8) = unat p - unat q - 8" using qp by (simp add: unat_sub_if')
  have lsb: "(p - q - 8) AND 1 = 0"
  proof -
    have "4 dvd unat p" unfolding p_def using seg_start_aligned[OF sq(3) e(1)] .
    moreover have "4 dvd unat q" using assms(1) by simp
    ultimately have "2 dvd unat (p - q - 8)" unfolding sz by presburger
    then show ?thesis by (simp add: word_unat_eq_iff unat_and_1)
  qed
  have off: "x \<noteq> q \<and> x \<noteq> q + 4" if "x \<in> headers xs \<or> x \<in> headers rs \<or> x = e \<or> x = e + 4" for x
  proof -
    have "unat x + 4 \<le> unat q \<or> unat q + 8 \<le> unat x"
      using that
    proof (elim disjE)
      assume "x \<in> headers xs"
      then show ?thesis using seg_headers_range[OF sq(1)] qp e by auto
    next
      assume x: "x \<in> headers rs"
      show ?thesis using seg_headers_range(1)[OF sq(3) x e(2)] qp by (simp add: p_def)
    next
      assume "x = e"
      then show ?thesis using qp by simp
    next
      assume "x = e + 4"
      then show ?thesis using qp header_unat[OF e(2)] by simp
    qed
    then show ?thesis using q4 by (intro conjI notI) simp_all
  qed
  then have fr: "m' x = m x" if "x \<in> headers xs \<or> x \<in> headers rs \<or> x = e \<or> x = e + 4" for x
    using that by (simp add: m'_def)
  then have "seg m' xs q \<longleftrightarrow> seg m xs q" "seg m' rs e \<longleftrightarrow> seg m rs e"
    by (intro seg_headers_cong; simp)+
  then show "seg m' (xs @ (q, False) # rs) e"
    using sq qp lsb assms(1) m'q by (simp add: m'_def p_def)
  show "end_block m' e" using assms(2) fr by (simp add: end_block_def)
qed

text \<open>
  The search keeps the used blocks and their contents: it writes only to headers of free blocks.
\<close>

definition same_used :: "word_mem \<Rightarrow> (u32 \<times> bool) list \<Rightarrow> word_mem \<Rightarrow> (u32 \<times> bool) list \<Rightarrow> bool" where
  "same_used m bs m' bs' \<longleftrightarrow> filter snd bs' = filter snd bs \<and> (\<forall>x. x \<notin> headers (filter (Not \<circ> snd) bs) \<longrightarrow> m' x = m x)"

lemma dropWhile_split: "xs = takeWhile P xs @ dropWhile P xs" by simp

lemma find_block_seg:
  assumes "unat sz + 8 < 2 ^ 32"
  shows "seg m bs e \<Longrightarrow> end_block m e \<Longrightarrow> bs = [] \<or> \<not> snd (last bs) \<Longrightarrow> bs = [] \<or> snd (hd bs) \<or> q = start bs e \<Longrightarrow>
    \<exists>m' p bs'. find_block sz m (start bs e) q = Some (m', p) \<and> seg m' bs' e \<and> end_block m' e
      \<and> start bs' e = start bs e \<and> (bs' = [] \<longleftrightarrow> bs = []) \<and> (bs' = [] \<or> \<not> snd (last bs')) \<and> same_used m bs m' bs'
      \<and> (bs \<noteq> [] \<longrightarrow> hd bs' = hd bs)
      \<and> (p = e \<or> (p, False) \<in> set bs' \<and> unat sz + 8 \<le> unat (m' p) - unat p - 8)
      \<and> (\<forall>a. (a, False) \<in> set bs \<and> unat sz + 8 \<le> unat (m a) - unat a - 8 \<longrightarrow> p \<noteq> e)"
proof (induction "length bs" arbitrary: bs m q rule: less_induct)
  case less
  note prems = less.prems
  show ?case
  proof (cases "bs = []")
    case True
    then show ?thesis using prems
      by (subst find_block.simps) (auto simp: same_used_def end_block_def intro!: exI[of _ m] exI[of _ "[]"])
  next
    case False
    define us where "us = takeWhile snd bs"
    define fs where "fs = takeWhile (Not \<circ> snd) (dropWhile snd bs)"
    define rs where "rs = dropWhile (Not \<circ> snd) (dropWhile snd bs)"
    have split: "bs = us @ fs @ rs" by (simp add: us_def fs_def rs_def)
    have us: "\<forall>b\<in>set us. snd b" and fs: "\<forall>b\<in>set fs. \<not> snd b"
      by (auto simp: us_def fs_def dest: set_takeWhileD)
    have rs: "rs = [] \<or> snd (hd rs)" using hd_dropWhile[of "Not \<circ> snd" "dropWhile snd bs"] by (auto simp: rs_def)
    have "dropWhile snd bs \<noteq> []"
    proof
      assume "dropWhile snd bs = []"
      then have "snd (last bs)" using False by (auto simp: dropWhile_eq_Nil_conv)
      then show False using prems(3) False by simp
    qed
    moreover from this have "\<not> snd (hd (dropWhile snd bs))" by (rule hd_dropWhile)
    ultimately obtain q0 fs' where f: "fs = (q0, False) # fs'"
      unfolding fs_def by (cases "dropWhile snd bs") auto
    have hdrest: "fs @ rs = [] \<or> \<not> snd (hd (fs @ rs))" by (simp add: f)
    define p where "p = start rs e"
    define m1 where "m1 = m(q0 + 4 := p - q0 - 8, q0 := p)"
    have sg: "seg m (us @ (q0, False) # fs' @ rs) e" using prems(1) by (simp add: split f)
    have mf: "seg m1 (us @ (q0, False) # rs) e" "end_block m1 e" "p \<noteq> 0" "m1 (q0 + 4) = p - q0 - 8"
      "unat q0 + 8 \<le> unat p" "unat (p - q0 - 8) = unat p - unat q0 - 8"
      unfolding p_def m1_def by (rule merge_free[OF sg prems(2)])+
    have q: "(if us = [] then q else q0) = q0" using prems(4) False split f us by (cases us) auto
    have un: "find_block sz m (start bs e) q = (if sz + 8 \<le> p - q0 - 8 then Some (m1, q0) else find_block sz m1 p q0)"
    proof -
      have st: "m (start bs e) \<noteq> 0"
      proof (cases bs)
        case (Cons b bs')
        then show ?thesis using prems(1) by (cases b) auto
      qed (use False in simp)
      have sfr: "seg m (fs @ rs) e" using prems(1) by (simp add: split start_append)
      have "skip_used m (start bs e) q = Some (q0, q0)"
        using skip_used_seg[OF prems(2), of us "fs @ rs" q] prems(1) us hdrest q
        by (cases "us = []") (simp_all add: split f)
      moreover have "skip_free m q0 = Some p"
        using skip_free_seg[OF prems(2) sfr fs rs] by (simp add: f p_def)
      ultimately show ?thesis using st mf(3,4)
        by (subst find_block.simps) (simp add: Let_def flip: m1_def)
    qed
    have frame1: "m1 x = m x" if "x \<notin> headers (filter (Not \<circ> snd) bs)" for x
      using that by (auto simp: split f m1_def headers_def)
    have usf: "filter snd us = us" using us by (intro filter_True) auto
    have fsf: "filter snd fs = []" using fs by (intro filter_False) auto
    have filt: "filter snd (us @ (q0, False) # zs) = us @ filter snd zs" for zs
      by (simp add: usf)
    have filtbs: "filter snd bs = us @ filter snd rs"
      by (simp add: split usf fsf)
    have hdeq: "hd (us @ (q0, False) # zs) = hd bs" for zs by (cases us) (simp_all add: split f)
    have starteq: "start (us @ (q0, False) # zs) e = start bs e" for zs by (cases us) (auto simp: split f)
    show ?thesis
    proof (cases "sz + 8 \<le> p - q0 - 8")
      case True
      have "unat (sz + 8) = unat sz + 8" using assms by (simp add: unat_word_ariths)
      then have fit: "unat sz + 8 \<le> unat (m1 q0) - unat q0 - 8"
        using True mf(6) by (simp add: word_le_nat_alt m1_def)
      have "\<not> snd (last (us @ (q0, False) # rs))" using prems(3) False by (cases "rs = []") (simp_all add: split)
      moreover have "same_used m bs m1 (us @ (q0, False) # rs)"
        using frame1 by (simp add: same_used_def usf filtbs)
      moreover have "q0 \<noteq> e" using fit mf(2) by (auto simp: end_block_def)
      ultimately show ?thesis
        using un True mf(1,2) fit hdeq[of rs] starteq[of rs] False
        by (intro exI[of _ m1] exI[of _ q0] exI[of _ "us @ (q0, False) # rs"]) simp
    next
      case False
      have sg1: "seg m1 rs e" "seg m1 us q0" using mf(1) by simp_all
      have lastrs: "rs = [] \<or> \<not> snd (last rs)" using prems(3) \<open>bs \<noteq> []\<close> by (cases "rs = []") (simp_all add: split)
      have lenlt: "length rs < length bs" by (simp add: split f)
      have rshd: "rs = [] \<or> snd (hd rs) \<or> q0 = start rs e" using rs by blast
      obtain m' p' rs' where IH: "find_block sz m1 (start rs e) q0 = Some (m', p')" "seg m' rs' e" "end_block m' e"
        "start rs' e = start rs e" "rs' = [] \<longleftrightarrow> rs = []" "rs' = [] \<or> \<not> snd (last rs')" "same_used m1 rs m' rs'"
        "p' = e \<or> (p', False) \<in> set rs' \<and> unat sz + 8 \<le> unat (m' p') - unat p' - 8"
        "\<forall>a. (a, False) \<in> set rs \<and> unat sz + 8 \<le> unat (m1 a) - unat a - 8 \<longrightarrow> p' \<noteq> e"
        using less.hyps[OF lenlt sg1(1) mf(2) lastrs rshd] by blast
      have away: "x \<notin> headers (filter (Not \<circ> snd) rs)" if "x \<in> headers (us @ [(q0, False)])" for x
      proof
        assume "x \<in> headers (filter (Not \<circ> snd) rs)"
        then have x: "x \<in> headers rs" by (auto simp: headers_def)
        have e: "unat e + 8 \<le> 2 ^ 32" using prems(2) by (simp add: end_block_def)
        have s1: "seg m1 (us @ [(q0, False)]) p" using mf(1) by (simp add: p_def)
        have "unat p \<le> unat e" unfolding p_def using sg1(1) by (rule seg_start_le)
        then have "unat x + 4 \<le> unat p" using seg_headers_range(2)[OF s1 that] e by simp
        moreover have "unat p \<le> unat x" using seg_headers_range(1)[OF sg1(1) x e] by (simp add: p_def)
        ultimately show False by simp
      qed
      have fr: "m' x = m1 x" if "x \<in> headers (us @ [(q0, False)])" for x
        using IH(7) away[OF that] by (simp add: same_used_def)
      have "seg m' us q0" using sg1(2) fr by (subst seg_headers_cong[of us m' m1]) simp_all
      moreover have "seg m' ((q0, False) # rs') e"
        using mf(1) fr IH(2,4) by simp
      ultimately have sg': "seg m' (us @ (q0, False) # rs') e" by simp
      have "same_used m bs m' (us @ (q0, False) # rs')"
        unfolding same_used_def filt filtbs
      proof (intro conjI allI impI)
        show "us @ filter snd rs' = us @ filter snd rs" using IH(7) by (simp add: same_used_def)
        fix x assume x: "x \<notin> headers (filter (Not \<circ> snd) bs)"
        then have "x \<notin> headers (filter (Not \<circ> snd) rs)" by (simp add: split)
        then show "m' x = m x" using IH(7) frame1[OF x] by (simp add: same_used_def)
      qed
      moreover have "p' \<noteq> e" if a: "(a, False) \<in> set bs" "unat sz + 8 \<le> unat (m a) - unat a - 8" for a
      proof -
        have e: "unat e + 8 \<le> 2 ^ 32" using prems(2) by (simp add: end_block_def)
        have pe: "unat p \<le> unat e" unfolding p_def using sg1(1) by (rule seg_start_le)
        have sfr: "seg m (fs @ rs) e" using prems(1) by (simp add: split start_append)
        then have sf: "seg m fs p" by (simp add: p_def)
        have "a \<notin> fst ` set fs"
        proof
          assume "a \<in> fst ` set fs"
          then obtain u where u: "(a, u) \<in> set fs" by auto
          note ab = seg_bounds[OF sf u]
          have st: "start fs p = q0" by (simp add: f)
          have "unat (m a) - unat a - 8 \<le> unat (p - q0 - 8)" using ab unfolding mf(6) st by linarith
          moreover have "unat (sz + 8) = unat sz + 8" using assms by (simp add: unat_word_ariths)
          ultimately show False using a(2) False by (simp add: word_le_nat_alt)
        qed
        then have r: "(a, False) \<in> set rs" using a(1) us by (force simp: split)
        have "unat p \<le> unat a" using seg_bounds[OF sg1(1) r] by (simp add: p_def)
        moreover have "unat (q0 + 4) = unat q0 + 4" using mf(5) pe e by (intro header_unat) linarith
        ultimately have "a \<noteq> q0" "a \<noteq> q0 + 4" using mf(5) by auto
        then have "m1 a = m a" by (simp add: m1_def)
        then have "unat sz + 8 \<le> unat (m1 a) - unat a - 8" using a(2) by (simp only:)
        then show ?thesis using IH(9) r by blast
      qed
      ultimately show ?thesis
        using un False IH(1-8) sg' hdeq[of rs'] starteq[of rs'] \<open>bs \<noteq> []\<close>
        by (intro exI[of _ m'] exI[of _ p'] exI[of _ "us @ (q0, False) # rs'"]) (auto simp: p_def)
    qed
  qed
qed

subsection \<open>The contract of the allocator\<close>

text \<open>The heap from \<open>first_free\<close> to the end marker \<open>e\<close> is the chain \<open>bs\<close>; its last block is free.\<close>

definition heap_ok :: "heap \<Rightarrow> (u32 \<times> bool) list \<Rightarrow> u32 \<Rightarrow> bool" where
  "heap_ok h bs e \<longleftrightarrow> seg (mem h) bs e \<and> end_block (mem h) e \<and> bs \<noteq> [] \<and> \<not> snd (last bs)
     \<and> first_free h = start bs e \<and> last_free h \<in> fst ` set bs"

definition used_word :: "word_mem \<Rightarrow> (u32 \<times> bool) list \<Rightarrow> u32 \<Rightarrow> bool" where
  "used_word m bs x \<longleftrightarrow> (\<exists>a. (a, True) \<in> set bs \<and> unat a \<le> unat x \<and> unat x < unat (m a))"

lemma seg_flag: "seg m bs e \<Longrightarrow> (a, u) \<in> set bs \<Longrightarrow> u \<longleftrightarrow> m (a + 4) AND 1 \<noteq> 0"
  by (induction bs) auto

lemma seg_disjoint:
  "seg m bs e \<Longrightarrow> (a, u) \<in> set bs \<Longrightarrow> (b, w) \<in> set bs \<Longrightarrow> a \<noteq> b \<Longrightarrow> unat (m a) \<le> unat b \<or> unat (m b) \<le> unat a"
proof (induction bs)
  case (Cons c bs)
  obtain d v where c: "c = (d, v)" by (cases c)
  have d: "m d = start bs e" "seg m bs e" using Cons.prems(1) by (simp_all add: c)
  consider "(a, u) \<in> set bs" "(b, w) \<in> set bs" | "a = d" "(b, w) \<in> set bs" | "b = d" "(a, u) \<in> set bs"
    using Cons.prems(2,3,4) by (auto simp: c)
  then show ?case
  proof cases
    case 1
    then show ?thesis using Cons.IH[OF d(2)] Cons.prems(4) by blast
  next
    case 2
    then show ?thesis using seg_bounds[OF d(2), of b w] d(1) by simp
  next
    case 3
    then show ?thesis using seg_bounds[OF d(2), of a u] d(1) by simp
  qed
qed simp

lemma used_word_not_free:
  assumes "seg m bs e" "used_word m bs x" "(b, False) \<in> set bs"
  shows "unat x < unat b \<or> unat (m b) \<le> unat x"
proof -
  obtain a where a: "(a, True) \<in> set bs" "unat a \<le> unat x" "unat x < unat (m a)"
    using assms(2) by (auto simp: used_word_def)
  have "a \<noteq> b" using seg_flag[OF assms(1) a(1)] seg_flag[OF assms(1,3)] by auto
  from seg_disjoint[OF assms(1) a(1) assms(3) this] a(2,3) show ?thesis by linarith
qed

lemma used_word_not_header:
  assumes "seg m bs e" "end_block m e" "used_word m bs x"
  shows "x \<notin> headers (filter (Not \<circ> snd) bs)"
proof
  assume "x \<in> headers (filter (Not \<circ> snd) bs)"
  then obtain b where b: "(b, False) \<in> set bs" "x = b \<or> x = b + 4" by (auto simp: headers_def)
  note bb = seg_bounds[OF assms(1) b(1)]
  have "unat (b + 4) = unat b + 4" using bb assms(2) by (intro header_unat) (simp add: end_block_def)
  then show False using used_word_not_free[OF assms(1,3) b(1)] bb b(2) by auto
qed

lemma same_used_word:
  assumes "seg m bs e" "end_block m e" "same_used m bs m' bs'"
  shows "used_word m bs x \<Longrightarrow> m' x = m x" "(a, True) \<in> set bs' \<longleftrightarrow> (a, True) \<in> set bs"
proof -
  show eq: "m' x = m x" if "used_word m bs x" for x
    using used_word_not_header[OF assms(1,2) that] assms(3) by (simp add: same_used_def)
  have "(a, True) \<in> set (filter snd bs') \<longleftrightarrow> (a, True) \<in> set (filter snd bs)" using assms(3) by (simp add: same_used_def)
  then show "(a, True) \<in> set bs' \<longleftrightarrow> (a, True) \<in> set bs" by simp
qed

text \<open>Splitting the free block at \<open>p\<close>.\<close>

lemma split_block:
  assumes "seg m (xs @ (p, False) # ys) e" "end_block m e" "unat sz + 8 \<le> unat (m p) - unat p - 8" "4 dvd unat sz"
  defines "n \<equiv> p + sz + 8"
  defines "m' \<equiv> (m(p := n, p + 4 := sz OR 1))(n := m p, n + 4 := ((sz OR 1) AND NOT 1) - sz - 8)"
  shows "seg m' (xs @ (p, True) # (n, False) # ys) e" "end_block m' e" "m' p = n" "unat n = unat p + unat sz + 8"
    "\<And>x. unat x < unat p \<or> unat (m p) \<le> unat x \<Longrightarrow> m' x = m x"
proof -
  have e: "4 dvd unat e" "unat e + 8 \<le> 2 ^ 32" using assms(2) by (simp_all add: end_block_def)
  have sg: "seg m xs p" "seg m ys e" "m p = start ys e" "4 dvd unat p" "unat p + 8 \<le> unat (start ys e)" using assms(1) by simp_all
  have re: "unat (m p) \<le> unat e" unfolding sg(3) using sg(2) by (rule seg_start_le)
  have fit: "unat p + unat sz + 16 \<le> unat (m p)" using assms(3) sg(3,5) by simp
  have p4: "unat (p + 4) = unat p + 4" using fit re e by (intro header_unat) linarith
  show n: "unat n = unat p + unat sz + 8"
  proof -
    have "unat p + unat sz + 8 < 2 ^ 32" using fit re e by linarith
    then show ?thesis by (simp add: n_def unat_word_ariths)
  qed
  have n4: "unat (n + 4) = unat n + 4" using fit re e n by (intro header_unat) linarith
  have ne: "p \<noteq> n" "p + 4 \<noteq> n" "p \<noteq> n + 4" "p + 4 \<noteq> n + 4"
    using n n4 p4 by auto
  have even: "(sz OR 1) AND NOT 1 = sz"
  proof -
    have "even (unat sz)" using assms(4) by (auto elim!: dvdE)
    then have "\<not> bit sz 0" by (simp add: bit_unat[symmetric] bit_0)
    then have "n \<noteq> 0" if "bit sz n" for n using that by metis
    then show ?thesis by (intro bit_word_eqI) (auto simp: bit_or_iff bit_and_iff bit_not_iff bit_1_iff)
  qed
  have vals: "m' p = n" "m' (p + 4) = sz OR 1" "m' n = m p" "m' (n + 4) = - 8"
    using ne by (simp_all add: m'_def even[simplified])
  then show "m' p = n" by simp
  show far: "m' x = m x" if "unat x < unat p \<or> unat (m p) \<le> unat x" for x
  proof -
    have "x \<noteq> p" "x \<noteq> p + 4" "x \<noteq> n" "x \<noteq> n + 4" using that fit n n4 p4 by auto
    then show ?thesis by (simp add: m'_def)
  qed
  have "seg m' xs p \<longleftrightarrow> seg m xs p"
  proof (rule seg_headers_cong)
    fix x assume "x \<in> headers xs"
    then have "unat x + 4 \<le> unat p" using seg_headers_range(2)[OF sg(1)] re fit e by simp
    then show "m' x = m x" by (intro far) simp
  qed
  moreover have "seg m' ys e \<longleftrightarrow> seg m ys e"
  proof (rule seg_headers_cong)
    fix x assume "x \<in> headers ys"
    then show "m' x = m x" using seg_headers_range(1)[OF sg(2) _ e(2)] sg(3) by (intro far) simp
  qed
  moreover have "(sz OR 1) AND 1 \<noteq> 0" "(- 8 :: u32) AND 1 = 0"
  proof -
    have "bit ((sz OR 1) AND 1) 0" by (simp add: bit_and_iff bit_or_iff)
    then show "(sz OR 1) AND 1 \<noteq> 0" by auto
  qed simp
  moreover have "4 dvd unat n" using sg(4) assms(4) unfolding n by presburger
  ultimately show "seg m' (xs @ (p, True) # (n, False) # ys) e"
    using sg vals n fit by simp
  have "m' e = m e" "m' (e + 4) = m (e + 4)" using re header_unat[OF e(2)] by (intro far; simp)+
  then show "end_block m' e" using assms(2) by (simp add: end_block_def)
qed

lemma align4_unat: "unat sz + 3 < 2 ^ 32 \<Longrightarrow> unat (align4 sz) = (unat sz + 3) div 4 * 4"
proof -
  assume sz: "unat sz + 3 < 2 ^ 32"
  have "unat (sz + 3) = unat sz + 3" using sz by (simp add: unat_word_ariths)
  moreover have "(unat sz + 3) div 4 * 4 \<le> unat sz + 3" by simp
  ultimately show ?thesis using sz by (simp add: align4_def unat_shl unat_shr)
qed

lemma align4_props:
  assumes "unat sz + 3 < 2 ^ 32"
  shows "4 dvd unat (align4 sz)" "unat sz \<le> unat (align4 sz)" "unat (align4 sz) \<le> unat sz + 3"
proof -
  have d: "4 * ((unat sz + 3) div 4) \<le> unat sz + 3" "unat sz + 3 < 4 * ((unat sz + 3) div 4) + 4"
    using mult_div_mod_eq[of 4 "unat sz + 3"] mod_less_divisor[of 4 "unat sz + 3"] by linarith+
  show "4 dvd unat (align4 sz)" "unat sz \<le> unat (align4 sz)" "unat (align4 sz) \<le> unat sz + 3"
    using d unfolding align4_unat[OF assms] by (simp_all add: mult.commute)
qed

text \<open>
  One call: the heap stays well formed, the used blocks keep their words; on success there is one more
  used block, large enough, at a place that no used block had.
\<close>

lemma malloc_contract:
  assumes "heap_ok h bs e" "unat sz + 12 < 2 ^ 32"
  shows "\<exists>h' p bs'. heap_malloc sz h = Some (h', p) \<and> heap_ok h' bs' e
    \<and> (\<forall>x. used_word (mem h) bs x \<longrightarrow> mem h' x = mem h x)
    \<and> (\<forall>a. (a, True) \<in> set bs' \<longleftrightarrow> (a, True) \<in> set bs \<or> p \<noteq> 0 \<and> a = p - 8)
    \<and> (p \<noteq> 0 \<longrightarrow> (p - 8, True) \<notin> set bs \<and> 8 \<le> unat p \<and> 4 dvd unat p \<and> unat p + unat sz \<le> unat (mem h' (p - 8)))
    \<and> (\<forall>a. (a, False) \<in> set bs \<and> unat (last_free h) \<le> unat a \<and> unat (align4 sz) + 16 \<le> unat (mem h a) - unat a \<longrightarrow> p \<noteq> 0)"
proof -
  define sz' where "sz' = align4 sz"
  have sz': "4 dvd unat sz'" "unat sz \<le> unat sz'" "unat sz' + 8 < 2 ^ 32"
    using align4_props[of sz] assms(2) by (simp_all add: sz'_def)
  have ok: "seg (mem h) bs e" "end_block (mem h) e" "\<not> snd (last bs)" "first_free h = start bs e" "last_free h \<in> fst ` set bs"
    using assms(1) by (simp_all add: heap_ok_def)
  obtain pre b post where split: "bs = pre @ b # post" "last_free h = fst b" using ok(5) by (metis imageE split_list)
  define ps where "ps = b # post"
  have ps: "seg (mem h) ps e" "last_free h = start ps e" "ps = [] \<or> \<not> snd (last ps)" "ps \<noteq> []" "bs = pre @ ps"
    using ok split by (auto simp: ps_def)
  obtain m p ps' where fb: "find_block sz' (mem h) (last_free h) (last_free h) = Some (m, p)" "seg m ps' e" "end_block m e"
    "start ps' e = start ps e" "ps' \<noteq> []" "\<not> snd (last ps')" "same_used (mem h) ps m ps'" "hd ps' = hd ps"
    "p = e \<or> (p, False) \<in> set ps' \<and> unat sz' + 8 \<le> unat (m p) - unat p - 8"
    "\<forall>a. (a, False) \<in> set ps \<and> unat sz' + 8 \<le> unat (mem h a) - unat a - 8 \<longrightarrow> p \<noteq> e"
    using find_block_seg[OF sz'(3) ps(1) ok(2) ps(3), of "last_free h"] ps(2,4) by auto
  define bs1 where "bs1 = pre @ ps'"
  have su: "same_used (mem h) bs m bs1"
    using fb(7) by (simp add: same_used_def bs1_def ps(5))
  have spre: "seg (mem h) pre (start ps e)" using ok(1) by (simp add: ps(5))
  have sg1: "seg m bs1 e"
  proof -
    have "seg m pre (start ps e) \<longleftrightarrow> seg (mem h) pre (start ps e)"
    proof (rule seg_headers_cong)
      fix x assume x: "x \<in> headers pre"
      have e: "unat e + 8 \<le> 2 ^ 32" "unat (start ps e) \<le> unat e"
        using ok(2) seg_start_le[OF ps(1)] by (simp_all add: end_block_def)
      have "x \<notin> headers (filter (Not \<circ> snd) ps)"
      proof
        assume "x \<in> headers (filter (Not \<circ> snd) ps)"
        then have "x \<in> headers ps" by (auto simp: headers_def)
        then show False
          using seg_headers_range(2)[OF spre x] seg_headers_range(1)[OF ps(1) _ e(1), of x] e by simp
      qed
      then show "m x = mem h x" using fb(7) by (simp add: same_used_def)
    qed
    then show ?thesis using spre fb(2,4) by (simp add: bs1_def)
  qed
  have h1: "heap_ok (h\<lparr>mem := m\<rparr>) bs1 e"
  proof -
    have "last_free h \<in> fst ` set bs1" using ps(2,4) fb(5,8) by (cases ps; cases ps') (auto simp: bs1_def)
    moreover have "first_free h = start bs1 e" using ok(4) fb(4) by (simp add: bs1_def ps(5) start_append)
    ultimately show ?thesis using sg1 fb(3,5,6) by (simp add: heap_ok_def bs1_def)
  qed
  note suw = same_used_word[OF ok(1,2) su]
  have behind: "m p \<noteq> 0" if a: "(a, False) \<in> set bs" "unat (last_free h) \<le> unat a" "unat sz' + 16 \<le> unat (mem h a) - unat a" for a
  proof -
    have "(a, False) \<notin> set pre"
      using seg_bounds[OF spre, of a False] a(2) ps(2) by auto
    then have "p \<noteq> e" using fb(10) a(1,3) by (auto simp: ps(5))
    then have "(p, False) \<in> set ps'" using fb(9) by blast
    from seg_bounds[OF fb(2) this] show ?thesis by auto
  qed
  show ?thesis
  proof (cases "m p = 0")
    case True
    have "heap_malloc sz h = Some (h\<lparr>mem := m\<rparr>, 0)"
      using fb(1) True by (simp add: heap_malloc_def Let_def flip: sz'_def)
    moreover have none: "\<not> unat (align4 sz) + 16 \<le> unat (mem h a) - unat a" if "(a, False) \<in> set bs" "unat (last_free h) \<le> unat a" for a
      using behind[OF that] True by (auto simp: sz'_def)
    ultimately show ?thesis using h1 suw
      by (intro exI[of _ "h\<lparr>mem := m\<rparr>"] exI[of _ 0] exI[of _ bs1]) simp
  next
    case False
    then have p: "(p, False) \<in> set ps'" "unat sz' + 8 \<le> unat (m p) - unat p - 8" using fb(3,9) by (auto simp: end_block_def)
    then obtain xs ys where xy: "bs1 = xs @ (p, False) # ys" by (metis bs1_def append_assoc split_list)
    define n where "n = p + sz' + 8"
    define m3 where "m3 = (m(p := n, p + 4 := sz' OR 1))(n := m p, n + 4 := ((sz' OR 1) AND NOT 1) - sz' - 8)"
    define bs2 where "bs2 = xs @ (p, True) # (n, False) # ys"
    have sp: "seg m3 bs2 e" "end_block m3 e" "m3 p = n" "unat n = unat p + unat sz' + 8"
      unfolding m3_def n_def bs2_def by (rule split_block[OF sg1[unfolded xy] fb(3) p(2) sz'(1)])+
    have sp5: "m3 x = m x" if "unat x < unat p \<or> unat (m p) \<le> unat x" for x
      unfolding m3_def n_def using that by (rule split_block(5)[OF sg1[unfolded xy] fb(3) p(2) sz'(1)])
    have pin: "(p, False) \<in> set bs1" by (simp add: xy)
    note pb = seg_bounds[OF sg1 pin]
    have nr: "unat n + 8 \<le> unat (m p)" using p(2) pb sp(4) by simp
    have e: "unat e + 8 \<le> 2 ^ 32" using fb(3) by (simp add: end_block_def)
    have p8: "unat (p + 8) = unat p + 8" using nr pb e sp(4) by (simp add: unat_word_ariths)
    have call: "heap_malloc sz h = Some (h\<lparr>mem := m3, last_free := p\<rparr>, p + 8)"
      using fb(1) False by (simp add: heap_malloc_def Let_def m3_def n_def flip: sz'_def)
    have h2: "heap_ok (h\<lparr>mem := m3, last_free := p\<rparr>) bs2 e"
    proof -
      have "\<not> snd (last bs2)" using h1 by (cases "ys = []") (simp_all add: heap_ok_def bs2_def xy)
      moreover have "first_free h = start bs2 e" using h1 by (cases xs) (auto simp: heap_ok_def bs2_def xy)
      ultimately show ?thesis using sp(1,2) by (simp add: heap_ok_def bs2_def)
    qed
    have keep: "m3 x = mem h x" if u: "used_word (mem h) bs x" for x
    proof -
      obtain a where a: "(a, True) \<in> set bs1" "unat a \<le> unat x" "unat x < unat (mem h a)"
        using u suw(2) by (auto simp: used_word_def)
      have "used_word (mem h) bs a"
        unfolding used_word_def using a suw(2) by (intro exI[of _ a]) auto
      then have "m a = mem h a" by (rule suw(1))
      then have "used_word m bs1 x" unfolding used_word_def using a by (intro exI[of _ a]) simp
      then have "unat x < unat p \<or> unat (m p) \<le> unat x" by (rule used_word_not_free[OF sg1 _ pin])
      then show ?thesis using sp5 suw(1)[OF u] by simp
    qed
    have blocks: "(a, True) \<in> set bs2 \<longleftrightarrow> (a, True) \<in> set bs \<or> a = p" for a
      using suw(2)[of a] by (auto simp: bs2_def xy)
    have "(p, True) \<notin> set bs" using suw(2)[of p] seg_flag[OF sg1 pin] seg_flag[OF sg1, of p True] by auto
    moreover have "4 dvd unat p + 8" using pb by presburger
    moreover have "p + 8 \<noteq> 0" using p8 by (metis add_is_0 unat_0 zero_neq_numeral)
    moreover have "unat p + 8 + unat sz \<le> unat (m3 p)" using sp(3,4) sz'(2) by simp
    ultimately show ?thesis
      using call h2 keep blocks p8
      by (intro exI[of _ "h\<lparr>mem := m3, last_free := p\<rparr>"] exI[of _ "p + 8"] exI[of _ bs2]) simp
  qed
qed

lemma heap_init_ok:
  assumes "4 dvd unat zone" "4 dvd unat len" "16 \<le> unat len" "unat zone + unat len \<le> 2 ^ 32"
  shows "heap_ok (heap_init zone len h) [(zone, False)] (zone + len - 8)"
proof -
  have al: "align4 len = len"
  proof -
    have "unat len + 3 < 2 ^ 32"
    proof -
      have "unat len < 2 ^ 32" using unat_bound[of len] by simp
      then have "unat len + 3 \<le> 2 ^ 32 + 2" by simp
      moreover have "4 dvd (2 ^ 32 :: nat)" by simp
      ultimately show ?thesis using assms(2) \<open>unat len < 2 ^ 32\<close> by presburger
    qed
    from align4_unat[OF this] have "unat (align4 len) = unat len" using assms(2) by presburger
    then show ?thesis by (simp add: word_unat_eq_iff)
  qed
  have l: "unat (len - 8) = unat len - 8" using assms(3) by (simp add: unat_sub word_le_nat_alt)
  have e: "unat (zone + (len - 8)) = unat zone + (unat len - 8)"
    using assms(3,4) by (simp add: unat_word_ariths l)
  define q where "q = zone + len - 8"
  have q: "unat q = unat zone + unat len - 8" using e assms(3) by (simp add: q_def algebra_simps)
  have z4: "unat (zone + 4) = unat zone + 4" using assms(3,4) by (intro header_unat) linarith
  have q4: "unat (q + 4) = unat q + 4" using q assms(3,4) by (intro header_unat) linarith
  have ne: "zone \<noteq> q" "zone + 4 \<noteq> q" "zone \<noteq> q + 4" "zone + 4 \<noteq> q + 4" using q q4 z4 assms(3) by auto
  have lsb: "(len - 16) AND 1 = 0"
  proof -
    have "unat (len - 16) = unat len - 16" using assms(3) by (simp add: unat_sub word_le_nat_alt)
    then have "2 dvd unat (len - 16)" using assms(2) by presburger
    then show ?thesis by (simp add: word_unat_eq_iff unat_and_1)
  qed
  have "4 dvd unat q" "unat zone + 8 \<le> unat q" "unat q + 8 \<le> 2 ^ 32" using q assms by presburger+
  then show ?thesis
    using ne lsb assms(1) unfolding heap_init_def heap_ok_def end_block_def Let_def al q_def[symmetric]
    by simp
qed

definition freed :: "u32 \<Rightarrow> (u32 \<times> bool) list \<Rightarrow> (u32 \<times> bool) list" where
  "freed a bs = map (\<lambda>(b, u). (b, u \<and> b \<noteq> a)) bs"

lemma start_freed [simp]: "start (freed a bs) e = start bs e"
  by (cases bs) (auto simp: freed_def)

lemma freed_simps [simp]: "freed a [] = []" "freed a ((b, u) # bs) = (b, u \<and> b \<noteq> a) # freed a bs"
  by (simp_all add: freed_def)

lemma in_freed: "(b, u) \<in> set (freed a bs) \<longleftrightarrow> (\<exists>v. (b, v) \<in> set bs \<and> u = (v \<and> b \<noteq> a))"
  by (force simp: freed_def)

lemma seg_freed:
  assumes "unat e + 8 \<le> 2 ^ 32" "unat a + 8 \<le> 2 ^ 32"
  shows "seg m bs e \<Longrightarrow> (\<forall>(b, u)\<in>set bs. b = a \<or> unat b + 8 \<le> unat a \<or> unat a + 8 \<le> unat b) \<Longrightarrow>
    seg (m(a + 4 := m (a + 4) AND NOT 1)) (freed a bs) e"
proof (induction bs)
  case (Cons c bs)
  obtain b u where c: "c = (b, u)" by (cases c)
  have a4: "unat (a + 4) = unat a + 4" using assms(2) by (rule header_unat)
  have b: "unat b + 8 \<le> unat e" using seg_bounds[OF Cons.prems(1), of b u] by (simp add: c)
  then have b4: "unat (b + 4) = unat b + 4" using assms(1) by (intro header_unat) linarith
  have ne: "b \<noteq> a + 4" "b + 4 = a + 4 \<longleftrightarrow> b = a" using Cons.prems(2) a4 b4 by (auto simp: c)
  define m' where "m' = m(a + 4 := m (a + 4) AND NOT 1)"
  have z: "m' (a + 4) AND 1 = 0" by (simp add: m'_def and.assoc)
  have "seg m' (freed a bs) e" unfolding m'_def by (rule Cons.IH) (use Cons.prems in \<open>simp_all add: c\<close>)
  moreover have "m' b = m b" using ne(1) by (simp add: m'_def)
  moreover have "m' (b + 4) AND 1 \<noteq> 0 \<longleftrightarrow> u \<and> b \<noteq> a"
  proof (cases "b = a")
    case False
    then have "m' (b + 4) = m (b + 4)" using ne(2) by (simp add: m'_def)
    then show ?thesis using Cons.prems(1) False by (simp add: c)
  qed (use z in simp)
  ultimately have "seg m' (freed a (c # bs)) e" using Cons.prems(1) by (simp add: c)
  then show ?case by (simp only: m'_def)
qed simp

lemma heap_free_contract:
  assumes "heap_ok h bs e" "(a, True) \<in> set bs"
  shows "heap_ok (heap_free (a + 8) h) (freed a bs) e"
    "\<And>x. used_word (mem (heap_free (a + 8) h)) (freed a bs) x \<longleftrightarrow>
       used_word (mem h) bs x \<and> \<not> (unat a \<le> unat x \<and> unat x < unat (mem h a))"
    "\<And>x. x \<noteq> a + 4 \<Longrightarrow> mem (heap_free (a + 8) h) x = mem h x"
proof -
  have ok: "seg (mem h) bs e" "end_block (mem h) e" "bs \<noteq> []" "\<not> snd (last bs)" "first_free h = start bs e"
    using assms(1) by (simp_all add: heap_ok_def)
  have e: "unat e + 8 \<le> 2 ^ 32" using ok(2) by (simp add: end_block_def)
  note ab = seg_bounds[OF ok(1) assms(2)]
  have a8: "unat a + 8 \<le> 2 ^ 32" using ab e by linarith
  have a4: "unat (a + 4) = unat a + 4" using a8 by (rule header_unat)
  have m: "mem (heap_free (a + 8) h) = (mem h)(a + 4 := mem h (a + 4) AND NOT 1)"
    by (simp add: heap_free_def Let_def algebra_simps)
  have "b = a \<or> unat b + 8 \<le> unat a \<or> unat a + 8 \<le> unat b" if "(b, u) \<in> set bs" for b u
    using seg_disjoint[OF ok(1) that assms(2)] seg_bounds[OF ok(1) that] ab by (cases "b = a") auto
  then have sg: "seg (mem (heap_free (a + 8) h)) (freed a bs) e"
    unfolding m by (intro seg_freed[OF e a8 ok(1)]) blast
  show "mem (heap_free (a + 8) h) x = mem h x" if "x \<noteq> a + 4" for x using that by (simp add: m)
  have "e \<noteq> a + 4" "e + 4 \<noteq> a + 4" using ab a4 header_unat[OF e] by auto
  then have eb: "end_block (mem (heap_free (a + 8) h)) e" using ok(2) by (simp add: end_block_def m)
  obtain b v bs' where bs: "bs = (b, v) # bs'" using ok(3) by (cases bs) auto
  have "\<not> snd (last (freed a bs))" using ok(3,4) by (cases "last bs") (auto simp add: freed_def last_map)
  moreover have "last_free (heap_free (a + 8) h) \<in> fst ` set (freed a bs)"
    using ok(5) by (simp add: heap_free_def Let_def bs)
  moreover have "first_free (heap_free (a + 8) h) = start (freed a bs) e" using ok(5) by (simp add: heap_free_def Let_def)
  moreover have "freed a bs \<noteq> []" by (simp add: bs)
  ultimately show "heap_ok (heap_free (a + 8) h) (freed a bs) e" using sg eb by (simp add: heap_ok_def)
  have nb: "mem (heap_free (a + 8) h) b = mem h b" if "(b, u) \<in> set bs" for b u
  proof -
    have "b \<noteq> a + 4"
      using seg_disjoint[OF ok(1) that assms(2)] seg_bounds[OF ok(1) that] ab a4 by (cases "b = a") auto
    then show ?thesis by (simp add: m)
  qed
  show "used_word (mem (heap_free (a + 8) h)) (freed a bs) x \<longleftrightarrow>
       used_word (mem h) bs x \<and> \<not> (unat a \<le> unat x \<and> unat x < unat (mem h a))" for x
  proof
    assume "used_word (mem (heap_free (a + 8) h)) (freed a bs) x"
    then obtain b where b: "(b, True) \<in> set bs" "b \<noteq> a" "unat b \<le> unat x" "unat x < unat (mem h b)"
      using nb by (auto simp: used_word_def in_freed)
    then show "used_word (mem h) bs x \<and> \<not> (unat a \<le> unat x \<and> unat x < unat (mem h a))"
      using seg_disjoint[OF ok(1) b(1) assms(2) b(2)] by (auto simp: used_word_def)
  next
    assume u: "used_word (mem h) bs x \<and> \<not> (unat a \<le> unat x \<and> unat x < unat (mem h a))"
    then obtain b where b: "(b, True) \<in> set bs" "unat b \<le> unat x" "unat x < unat (mem h b)"
      by (auto simp: used_word_def)
    then have "b \<noteq> a" using u by auto
    then show "used_word (mem (heap_free (a + 8) h)) (freed a bs) x"
      unfolding used_word_def using b nb[OF b(1)] by (intro exI[of _ b]) (auto simp: in_freed)
  qed
qed

end
