(* ===== verification/Heap_Interface.thy ===== *)
theory Heap_Interface
  imports Heap_Props
begin

text \<open>
  The contract between the allocator and its clients as a locale, what a client that allocates
  two-word nodes may use, and the proof that the allocator of lib/malloc.c keeps the contract.
\<close>

unbundle bit_operations_syntax

subsection \<open>The interface of the allocator\<close>

text \<open>
  What a client of the allocator relies on: calls end, blocks keep their contents until they are freed, a new block
  is none of the old ones and shares no word with them, and writing inside a block disturbs nothing else.
  \<open>in_block s p x\<close> says that the word \<open>x\<close> belongs to the block handed out at \<open>p\<close>.
\<close>

definition is_node :: "(u32 \<Rightarrow> u32 \<Rightarrow> bool) \<Rightarrow> u32 \<Rightarrow> bool" where
  "is_node B p \<longleftrightarrow> B p p \<and> B p (p + 4) \<and> p \<noteq> 0"

locale block_allocator =
  fixes alloc :: "u32 \<Rightarrow> 's \<Rightarrow> ('s \<times> u32) option" and dealloc :: "u32 \<Rightarrow> 's \<Rightarrow> 's"
    and peek :: "'s \<Rightarrow> u32 \<Rightarrow> u32" and poke :: "'s \<Rightarrow> u32 \<Rightarrow> u32 \<Rightarrow> 's"
    and wf :: "'s \<Rightarrow> bool" and in_block :: "'s \<Rightarrow> u32 \<Rightarrow> u32 \<Rightarrow> bool"
  assumes alloc_ends: "wf s \<Longrightarrow> unat n + 12 < 2 ^ 32 \<Longrightarrow> \<exists>s' p. alloc n s = Some (s', p)"
    and alloc_keeps: "wf s \<Longrightarrow> unat n + 12 < 2 ^ 32 \<Longrightarrow> alloc n s = Some (s', p) \<Longrightarrow>
      wf s' \<and> (in_block s q x \<longrightarrow> in_block s' q x \<and> peek s' x = peek s x) \<and> (in_block s' q x \<longrightarrow> in_block s q x \<or> p \<noteq> 0 \<and> q = p)"
    and alloc_new: "wf s \<Longrightarrow> unat n + 12 < 2 ^ 32 \<Longrightarrow> alloc n s = Some (s', p) \<Longrightarrow> p \<noteq> 0 \<Longrightarrow>
      4 dvd unat p \<and> unat p + unat n < 2 ^ 32 \<and> \<not> in_block s p x \<and> (unat p \<le> unat x \<longrightarrow> unat x < unat p + unat n \<longrightarrow> in_block s' p x)"
    and disjoint: "wf s \<Longrightarrow> in_block s p x \<Longrightarrow> in_block s q x \<Longrightarrow> p = q"
    and poke: "wf s \<Longrightarrow> in_block s q x \<Longrightarrow>
      wf (poke s x v) \<and> (in_block (poke s x v) p y \<longleftrightarrow> in_block s p y) \<and> peek (poke s x v) y = (if y = x then v else peek s y)"
    and dealloc: "wf s \<Longrightarrow> in_block s p x \<Longrightarrow>
      wf (dealloc p s) \<and> (in_block (dealloc p s) q y \<longleftrightarrow> in_block s q y \<and> q \<noteq> p) \<and> (in_block s q y \<longrightarrow> peek (dealloc p s) y = peek s y)"
begin

text \<open>A two-word node, the shape the list library allocates.\<close>

lemma new_node:
  assumes "wf s" "alloc 8 s = Some (s', p)" "p \<noteq> 0"
  shows "wf s'" "is_node (in_block s') p" "is_node (in_block s) q \<Longrightarrow> is_node (in_block s') q \<and> q \<noteq> p"
    "is_node (in_block s) q \<Longrightarrow> peek s' q = peek s q \<and> peek s' (q + 4) = peek s (q + 4)"
proof -
  have sm: "unat (8 :: u32) + 12 < 2 ^ 32" by simp
  note k = alloc_keeps[OF assms(1) sm assms(2)] and n = alloc_new[OF assms(1) sm assms(2,3)]
  show "wf s'" using k by blast
  have "unat (p + 4) = unat p + 4" using n[of p] by (auto simp: unat_word_ariths)
  then show "is_node (in_block s') p" using n assms(3) by (simp add: is_node_def)
  show "is_node (in_block s) q \<Longrightarrow> is_node (in_block s') q \<and> q \<noteq> p"
    using k n by (auto simp: is_node_def)
  show "is_node (in_block s) q \<Longrightarrow> peek s' q = peek s q \<and> peek s' (q + 4) = peek s (q + 4)"
    using k[of q q] k[of q "q + 4"] by (simp add: is_node_def)
qed

lemma node_words: "wf s \<Longrightarrow> is_node (in_block s) p \<Longrightarrow> is_node (in_block s) q \<Longrightarrow> p \<noteq> q + 4"
  using disjoint[of s p p q] by (auto simp: is_node_def)

lemma poke_node:
  assumes "wf s" "is_node (in_block s) p" "x = p \<or> x = p + 4"
  shows "wf (poke s x v)" "is_node (in_block (poke s x v)) q \<longleftrightarrow> is_node (in_block s) q"
    "peek (poke s x v) y = (if y = x then v else peek s y)"
  using poke[OF assms(1), of p x v] assms(2,3) by (auto simp: is_node_def)

lemma release_node:
  assumes "wf s" "is_node (in_block s) p"
  shows "wf (dealloc p s)" "is_node (in_block (dealloc p s)) q \<longleftrightarrow> is_node (in_block s) q \<and> q \<noteq> p"
    "is_node (in_block s) q \<Longrightarrow> peek (dealloc p s) q = peek s q \<and> peek (dealloc p s) (q + 4) = peek s (q + 4)"
  using dealloc[OF assms(1), of p p] assms(2) by (auto simp: is_node_def)

end

definition heap_wf :: "heap \<Rightarrow> bool" where
  "heap_wf h \<longleftrightarrow> (\<exists>bs e. heap_ok h bs e)"

definition heap_in_block :: "heap \<Rightarrow> u32 \<Rightarrow> u32 \<Rightarrow> bool" where
  "heap_in_block h p x \<longleftrightarrow> (\<exists>bs e. heap_ok h bs e \<and> (p - 8, True) \<in> set bs
     \<and> unat (p - 8) + 8 \<le> unat x \<and> unat x < unat (mem h (p - 8)))"

definition heap_free_block :: "heap \<Rightarrow> u32 \<Rightarrow> bool" where
  "heap_free_block h a \<longleftrightarrow> (\<exists>bs e. heap_ok h bs e \<and> (a, False) \<in> set bs)"

definition heap_poke :: "heap \<Rightarrow> u32 \<Rightarrow> u32 \<Rightarrow> heap" where
  "heap_poke h x v = h\<lparr>mem := (mem h)(x := v)\<rparr>"

lemma chain_unique:
  "seg m bs e \<Longrightarrow> end_block m e \<Longrightarrow> seg m bs' e' \<Longrightarrow> end_block m e' \<Longrightarrow> start bs e = start bs' e' \<Longrightarrow> bs = bs' \<and> e = e'"
proof (induction bs arbitrary: bs')
  case Nil
  then show ?case by (cases bs') (auto simp: end_block_def)
next
  case (Cons b bs)
  obtain a u where b: "b = (a, u)" by (cases b)
  show ?case
  proof (cases bs')
    case Nil
    then show ?thesis using Cons.prems by (auto simp: b end_block_def)
  next
    case (Cons c cs)
    then show ?thesis using Cons.prems Cons.IH[of cs] by (cases c) (auto simp: b)
  qed
qed

lemma heap_ok_unique: "heap_ok h bs e \<Longrightarrow> heap_ok h bs' e' \<Longrightarrow> bs = bs' \<and> e = e'"
  unfolding heap_ok_def by (metis chain_unique)

lemma heap_in_block_ok:
  "heap_ok h bs e \<Longrightarrow> heap_in_block h p x \<longleftrightarrow> (p - 8, True) \<in> set bs \<and> unat (p - 8) + 8 \<le> unat x \<and> unat x < unat (mem h (p - 8))"
  unfolding heap_in_block_def by (metis heap_ok_unique)

lemma used_in_block: "heap_ok h bs e \<Longrightarrow> heap_in_block h p x \<Longrightarrow> used_word (mem h) bs x"
  by (auto simp: heap_in_block_ok used_word_def intro!: exI[of _ "p - 8"])

lemma used_block_header:
  assumes "heap_ok h bs e" "(a, True) \<in> set bs"
  shows "used_word (mem h) bs a"
proof -
  have "seg (mem h) bs e" using assms(1) by (simp add: heap_ok_def)
  from seg_bounds[OF this assms(2)] show ?thesis
    unfolding used_word_def using assms(2) by (intro exI[of _ a]) simp
qed

lemma payload_not_header:
  assumes "heap_ok h bs e" "heap_in_block h p x"
  shows "x \<notin> headers bs" "x \<noteq> e" "x \<noteq> e + 4"
proof -
  have ok: "seg (mem h) bs e" "end_block (mem h) e" using assms(1) by (simp_all add: heap_ok_def)
  have e: "unat e + 8 \<le> 2 ^ 32" using ok(2) by (simp add: end_block_def)
  have p: "(p - 8, True) \<in> set bs" "unat (p - 8) + 8 \<le> unat x" "unat x < unat (mem h (p - 8))"
    using assms heap_in_block_ok by blast+
  note pb = seg_bounds[OF ok(1) p(1)]
  show "x \<notin> headers bs"
  proof
    assume "x \<in> headers bs"
    then obtain b u where b: "(b, u) \<in> set bs" "x = b \<or> x = b + 4" by (auto simp: headers_def)
    note bb = seg_bounds[OF ok(1) b(1)]
    have b4: "unat (b + 4) = unat b + 4" using bb e by (intro header_unat) linarith
    show False
    proof (cases "b = p - 8")
      case True
      then show ?thesis using b(2) p(2) b4 by auto
    next
      case False
      then show ?thesis using seg_disjoint[OF ok(1) b(1) p(1)] b(2) p bb b4 by auto
    qed
  qed
  show "x \<noteq> e" "x \<noteq> e + 4" using p pb header_unat[OF e] by auto
qed

text \<open>The allocator of the library keeps the contract.\<close>

interpretation heap_blocks: block_allocator heap_malloc heap_free mem heap_poke heap_wf heap_in_block
proof unfold_locales
  fix s s' :: heap and n p q x y v :: u32
  assume wf: "heap_wf s"
  then obtain bs e where ok: "heap_ok s bs e" by (auto simp: heap_wf_def)
  note ib = heap_in_block_ok[OF ok]
  have sg: "seg (mem s) bs e" "end_block (mem s) e" using ok by (simp_all add: heap_ok_def)
  show "\<exists>s' p. heap_malloc n s = Some (s', p)" if "unat n + 12 < 2 ^ 32"
    using malloc_contract[OF ok that] by blast
  show "p = q" if "heap_in_block s p x" "heap_in_block s q x"
  proof -
    have "p - 8 = q - 8"
    proof (rule ccontr)
      assume "p - 8 \<noteq> q - 8"
      then show False using seg_disjoint[OF sg(1), of "p - 8" True "q - 8" True] that by (auto simp: ib)
    qed
    then show ?thesis by simp
  qed
  show "heap_wf (heap_poke s x v) \<and> (heap_in_block (heap_poke s x v) p y \<longleftrightarrow> heap_in_block s p y)
    \<and> mem (heap_poke s x v) y = (if y = x then v else mem s y)" if "heap_in_block s q x"
  proof -
    note np = payload_not_header[OF ok that]
    have "seg ((mem s)(x := v)) bs e \<longleftrightarrow> seg (mem s) bs e" using np(1) by (intro seg_headers_cong) auto
    then have ok': "heap_ok (heap_poke s x v) bs e"
      using ok np by (simp add: heap_ok_def heap_poke_def end_block_def)
    have "(p - 8, True) \<in> set bs \<Longrightarrow> p - 8 \<noteq> x" using np(1) by (auto simp: headers_def)
    then have "heap_in_block (heap_poke s x v) p y \<longleftrightarrow> heap_in_block s p y"
      unfolding heap_in_block_ok[OF ok'] ib by (auto simp: heap_poke_def)
    then show ?thesis using ok' by (auto simp: heap_wf_def heap_poke_def)
  qed
  show "heap_wf (heap_free p s) \<and> (heap_in_block (heap_free p s) q y \<longleftrightarrow> heap_in_block s q y \<and> q \<noteq> p)
    \<and> (heap_in_block s q y \<longrightarrow> mem (heap_free p s) y = mem s y)" if "heap_in_block s p x"
  proof -
    have p: "(p - 8, True) \<in> set bs" using that by (simp add: ib)
    have ok': "heap_ok (heap_free p s) (freed (p - 8) bs) e"
      and frame: "\<And>z. z \<noteq> p - 8 + 4 \<Longrightarrow> mem (heap_free p s) z = mem s z"
      using heap_free_contract(1,3)[OF ok p] by simp_all
    have hd: "p - 8 + 4 \<in> headers bs" using p by (auto simp: headers_def intro!: bexI[of _ "(p - 8, True)"])
    have "mem (heap_free p s) (q - 8) = mem s (q - 8)" if "(q - 8, True) \<in> set bs" for q
    proof (rule frame)
      note qb = seg_bounds[OF sg(1) that] and pb = seg_bounds[OF sg(1) p]
      have "unat (p - 8 + 4) = unat (p - 8) + 4" using pb sg(2) by (intro header_unat) (simp add: end_block_def)
      then show "q - 8 \<noteq> p - 8 + 4" using seg_disjoint[OF sg(1) that p] qb pb by (cases "q - 8 = p - 8") auto
    qed
    then have "heap_in_block (heap_free p s) q y \<longleftrightarrow> heap_in_block s q y \<and> q \<noteq> p"
      unfolding heap_in_block_ok[OF ok'] ib by (auto simp: in_freed)
    moreover have "heap_in_block s q y \<longrightarrow> mem (heap_free p s) y = mem s y"
      using payload_not_header(1)[OF ok, of q y] hd frame[of y] by metis
    ultimately show ?thesis using ok' by (auto simp: heap_wf_def)
  qed
  show "heap_wf s' \<and> (heap_in_block s q x \<longrightarrow> heap_in_block s' q x \<and> mem s' x = mem s x)
    \<and> (heap_in_block s' q x \<longrightarrow> heap_in_block s q x \<or> p \<noteq> 0 \<and> q = p)"
    if n: "unat n + 12 < 2 ^ 32" and call: "heap_malloc n s = Some (s', p)"
  proof -
    obtain bs' where c: "heap_ok s' bs' e" "\<And>x. used_word (mem s) bs x \<Longrightarrow> mem s' x = mem s x"
      "\<And>a. (a, True) \<in> set bs' \<longleftrightarrow> (a, True) \<in> set bs \<or> p \<noteq> 0 \<and> a = p - 8"
      using malloc_contract[OF ok n] call by auto
    have "mem s' a = mem s a" if "(a, True) \<in> set bs" for a
      by (rule c(2)) (rule used_block_header[OF ok that])
    then show ?thesis
      unfolding heap_in_block_ok[OF c(1)] using c(1,2,3) used_in_block[OF ok, of q x] by (auto simp: heap_wf_def ib)
  qed
  show "4 dvd unat p \<and> unat p + unat n < 2 ^ 32 \<and> \<not> heap_in_block s p x
    \<and> (unat p \<le> unat x \<longrightarrow> unat x < unat p + unat n \<longrightarrow> heap_in_block s' p x)"
    if n: "unat n + 12 < 2 ^ 32" and call: "heap_malloc n s = Some (s', p)" and nz: "p \<noteq> 0"
  proof -
    obtain bs' where c: "heap_ok s' bs' e" "(p - 8, True) \<in> set bs'"
      "(p - 8, True) \<notin> set bs" "8 \<le> unat p" "4 dvd unat p" "unat p + unat n \<le> unat (mem s' (p - 8))"
      using malloc_contract[OF ok n] call nz by auto
    have "seg (mem s') bs' e" "end_block (mem s') e" using c(1) by (simp_all add: heap_ok_def)
    then have "unat (mem s' (p - 8)) < 2 ^ 32" using unat_bound[of "mem s' (p - 8)"] by simp
    moreover have "unat (p - 8) + 8 = unat p" using c(4) by (simp add: unat_sub word_le_nat_alt)
    ultimately show ?thesis using c unfolding heap_in_block_ok[OF c(1)] ib by auto
  qed
qed

text \<open>A free block from \<open>last_free\<close> on that has room for the request is enough for a result.\<close>

lemma malloc_succeeds:
  assumes "heap_malloc n h = Some (h', p)" "unat n + 12 < 2 ^ 32" "heap_free_block h a"
    "unat (last_free h) \<le> unat a" "unat a + unat n + 19 \<le> unat (mem h a)"
  shows "p \<noteq> 0"
proof -
  obtain bs e where ok: "heap_ok h bs e" "(a, False) \<in> set bs" using assms(3) by (auto simp: heap_free_block_def)
  have "unat (align4 n) \<le> unat n + 3" using assms(2) by (intro align4_props(3)) simp
  then have "unat (align4 n) + 16 \<le> unat (mem h a) - unat a" using assms(5) by linarith
  then show ?thesis using malloc_contract[OF ok(1) assms(2)] assms(1,4) ok(2) by auto
qed

text \<open>C12: On a well-formed heap and for a request of less than \<open>2 ^ 32 - 12\<close> bytes, \<open>malloc\<close> ends and keeps
  the heap well formed; every block handed out before keeps its place and its contents, and a non-null result is
  the aligned address of a new block with room for the request, none of whose words belongs to an earlier block.
  The result is not null when some free block at or after \<open>last_free\<close> spans 19 bytes more than the request: its own
  header, the header that is split off, and up to three bytes for rounding the request to words.\<close>

theorem malloc_fresh_block:
  assumes "heap_wf h" "unat n + 12 < 2 ^ 32"
  shows "\<exists>h' p. heap_malloc n h = Some (h', p) \<and> heap_wf h'
    \<and> (\<forall>q x. heap_in_block h q x \<longrightarrow> heap_in_block h' q x \<and> mem h' x = mem h x)
    \<and> (p \<noteq> 0 \<longrightarrow> 4 dvd unat p \<and> (\<forall>x. unat p \<le> unat x \<and> unat x < unat p + unat n \<longrightarrow>
         heap_in_block h' p x \<and> (\<forall>q. \<not> heap_in_block h q x)))
    \<and> ((\<exists>a. heap_free_block h a \<and> unat (last_free h) \<le> unat a \<and> unat a + unat n + 19 \<le> unat (mem h a)) \<longrightarrow> p \<noteq> 0)"
proof -
  obtain h' p where call: "heap_malloc n h = Some (h', p)" using heap_blocks.alloc_ends[OF assms] by blast
  note k = heap_blocks.alloc_keeps[OF assms call] and w = heap_blocks.alloc_new[OF assms call]
  have new: "\<not> heap_in_block h q x" if "p \<noteq> 0" "heap_in_block h' p x" for q x
    using k[of q x] w[OF that(1)] heap_blocks.disjoint[of h' p x q] that(2) by blast
  show ?thesis
  proof (intro exI[of _ h'] exI[of _ p] conjI impI allI)
    show "p \<noteq> 0" if "\<exists>a. heap_free_block h a \<and> unat (last_free h) \<le> unat a \<and> unat a + unat n + 19 \<le> unat (mem h a)"
      using that malloc_succeeds[OF call assms(2)] by blast
  qed (use call k w new in blast)+
qed

definition small_heap :: heap where
  "small_heap = heap_init 0x1000 64 \<lparr>mem = \<lambda>_. 0, first_free = 0, last_free = 0\<rparr>"

lemma small_heap_ok: "heap_ok small_heap [(0x1000, False)] (0x1000 + 64 - 8)"
  unfolding small_heap_def by (rule heap_init_ok) simp_all

theorem malloc_fresh_block_witness:
  "\<exists>h' p. heap_malloc 12 small_heap = Some (h', p) \<and> heap_wf h' \<and> p \<noteq> 0 \<and> 4 dvd unat p
    \<and> heap_in_block h' p p"
proof -
  have wf: "heap_wf small_heap" using small_heap_ok by (auto simp: heap_wf_def)
  have small: "unat (12 :: u32) + 12 < 2 ^ 32" by simp
  have "heap_free_block small_heap 0x1000" using small_heap_ok by (auto simp: heap_free_block_def)
  moreover have "unat (last_free small_heap) \<le> unat (0x1000 :: u32)" by code_simp
  moreover have "unat (0x1000 :: u32) + unat (12 :: u32) + 19 \<le> unat (mem small_heap 0x1000)" by code_simp
  ultimately have room: "\<exists>a. heap_free_block small_heap a \<and> unat (last_free small_heap) \<le> unat a
      \<and> unat a + unat (12 :: u32) + 19 \<le> unat (mem small_heap a)"
    by blast
  obtain h' p where call: "heap_malloc 12 small_heap = Some (h', p)" "heap_wf h'"
    and new: "p \<noteq> 0 \<longrightarrow> 4 dvd unat p \<and> (\<forall>x. unat p \<le> unat x \<and> unat x < unat p + unat (12 :: u32) \<longrightarrow>
         heap_in_block h' p x \<and> (\<forall>q. \<not> heap_in_block small_heap q x))"
    and nz: "p \<noteq> 0"
    using malloc_fresh_block[OF wf small] room by blast
  have "unat p < unat p + unat (12 :: u32)" by simp
  then have "4 dvd unat p \<and> heap_in_block h' p p" using new nz by blast
  then show ?thesis using call nz by blast
qed

text \<open>The size computation of \<open>malloc\<close> overflows: a request of almost \<open>2 ^ 32\<close> bytes on a heap of 64 bytes does
  not return NULL but a block that stays marked free, and the next call hands the same address out again; a request
  that is only larger than the heap gives NULL.\<close>

theorem malloc_huge_request:
  "(case heap_malloc 0xFFFFFFF8 small_heap of None \<Rightarrow> None
     | Some (h, p) \<Rightarrow> map_option (\<lambda>(h', q). (p, q)) (heap_malloc 4 h)) = Some (0x1008, 0x1008)
    \<and> map_option snd (heap_malloc 56 small_heap) = Some 0"
  by code_simp

end
