(* ===== verification/Linked_List.thy ===== *)
theory Linked_List
  imports Heap_Interface
begin

text \<open>
  The list of lib/list.c over the heap of the allocator. A node has two words, the element at offset 0 and
  the address of the next node at offset 4; a list is the address of a head node without element.
  The abstraction is the list of elements: \<open>list_ok h lst xs\<close>. The loops follow the links and are
  partial functions.
\<close>

subsection \<open>Operations\<close>

definition set_elem :: "u32 \<Rightarrow> u32 \<Rightarrow> heap \<Rightarrow> heap" where
  "set_elem p v h = heap_poke h p v"

definition set_next :: "u32 \<Rightarrow> u32 \<Rightarrow> heap \<Rightarrow> heap" where
  "set_next p v h = heap_poke h (p + 4) v"

abbreviation next_of :: "heap \<Rightarrow> u32 \<Rightarrow> u32" where "next_of h p \<equiv> mem h (p + 4)"

definition list_init :: "heap \<Rightarrow> (heap \<times> u32) option" where
  "list_init h =
     do { (h, lst) \<leftarrow> heap_malloc 8 h;
          Some (if lst \<noteq> 0 then set_elem lst 0 (set_next lst 0 h) else h, lst) }"

text \<open>\<open>while (t2->next) t2 = t2->next\<close>\<close>

partial_function (option) last_node :: "heap \<Rightarrow> u32 \<Rightarrow> u32 option" where
  [code]: "last_node h t2 = (if next_of h t2 \<noteq> 0 then last_node h (next_of h t2) else Some t2)"

definition list_append :: "u32 \<Rightarrow> u32 \<Rightarrow> heap \<Rightarrow> (heap \<times> u32) option" where
  "list_append lst item h =
     do { (h, t1) \<leftarrow> heap_malloc 8 h;
          if t1 \<noteq> 0 then do {
            let h = set_next t1 0 (set_elem t1 item h);
            t2 \<leftarrow> last_node h lst;
            Some (set_next t2 t1 h, 0) }
          else Some (h, - 1) }"

text \<open>\<open>while (t2->next) { t2 = t2->next; if (++i == pos) break; }\<close>\<close>

partial_function (option) insert_node :: "heap \<Rightarrow> u32 \<Rightarrow> u32 \<Rightarrow> u32 \<Rightarrow> u32 option" where
  [code]: "insert_node h t2 i pos =
     (if next_of h t2 \<noteq> 0 then
        if i + 1 = pos then Some (next_of h t2) else insert_node h (next_of h t2) (i + 1) pos
      else Some t2)"

definition list_insert :: "u32 \<Rightarrow> u32 \<Rightarrow> u32 \<Rightarrow> heap \<Rightarrow> (heap \<times> u32) option" where
  "list_insert lst item pos h =
     do { (h, t1) \<leftarrow> heap_malloc 8 h;
          if t1 \<noteq> 0 then do {
            let h = set_next t1 0 (set_elem t1 item h);
            t2 \<leftarrow> insert_node h lst 0 pos;
            let h = set_next t1 (next_of h t2) h;
            Some (set_next t2 t1 h, 0) }
          else Some (h, - 1) }"

text \<open>The loop of \<open>list_remove\<close>, \<open>t1\<close> the node it stands on: the nodes before and at the position, or none.\<close>

partial_function (option) remove_nodes :: "heap \<Rightarrow> u32 \<Rightarrow> u32 \<Rightarrow> u32 \<Rightarrow> (u32 \<times> u32) option option" where
  [code]: "remove_nodes h t2 i pos =
     (let t1 = next_of h t2
      in if t1 \<noteq> 0 then if i = pos then Some (Some (t2, t1)) else remove_nodes h t1 (i + 1) pos
         else Some None)"

definition list_remove :: "u32 \<Rightarrow> u32 \<Rightarrow> heap \<Rightarrow> (heap \<times> u32) option" where
  "list_remove lst pos h =
     do { r \<leftarrow> remove_nodes h lst 0 pos;
          case r of
            Some (t2, t1) \<Rightarrow> Some (heap_free t1 (set_next t2 (next_of h t1) h), 0)
          | None \<Rightarrow> Some (h, - 1) }"

text \<open>The node at a position, 0 if there is none: the loop of \<open>list_get\<close> and \<open>list_set\<close>.\<close>

partial_function (option) node_at :: "heap \<Rightarrow> u32 \<Rightarrow> u32 \<Rightarrow> u32 \<Rightarrow> u32 option" where
  [code]: "node_at h t1 i pos =
     (let t1 = next_of h t1
      in if t1 \<noteq> 0 then if i = pos then Some t1 else node_at h t1 (i + 1) pos else Some 0)"

definition list_get :: "u32 \<Rightarrow> u32 \<Rightarrow> heap \<Rightarrow> u32 option" where
  "list_get lst pos h = do { t1 \<leftarrow> node_at h lst 0 pos; Some (if t1 \<noteq> 0 then mem h t1 else 0) }"

definition list_set :: "u32 \<Rightarrow> u32 \<Rightarrow> u32 \<Rightarrow> heap \<Rightarrow> (heap \<times> u32) option" where
  "list_set lst item pos h =
     do { t1 \<leftarrow> node_at h lst 0 pos; Some (if t1 \<noteq> 0 then (set_elem t1 item h, 0) else (h, - 1)) }"

partial_function (option) count_nodes :: "heap \<Rightarrow> u32 \<Rightarrow> u32 \<Rightarrow> u32 option" where
  [code]: "count_nodes h t1 i =
     (let t1 = next_of h t1 in if t1 \<noteq> 0 then count_nodes h t1 (i + 1) else Some i)"

definition list_count :: "u32 \<Rightarrow> heap \<Rightarrow> u32 option" where
  "list_count lst h = count_nodes h lst 0"

subsection \<open>Abstraction\<close>

text \<open>The nodes \<open>ps\<close> follow one another behind \<open>p\<close>.\<close>

fun links :: "heap \<Rightarrow> u32 \<Rightarrow> u32 list \<Rightarrow> bool" where
  "links h p [] \<longleftrightarrow> next_of h p = 0"
| "links h p (q # qs) \<longleftrightarrow> next_of h p = q \<and> q \<noteq> 0 \<and> links h q qs"

definition list_nodes :: "heap \<Rightarrow> u32 \<Rightarrow> u32 list \<Rightarrow> bool" where
  "list_nodes h lst ps \<longleftrightarrow> heap_wf h \<and> links h lst ps \<and> distinct (lst # ps)
     \<and> (\<forall>p\<in>set (lst # ps). is_node (heap_in_block h) p)"

definition list_ok :: "heap \<Rightarrow> u32 \<Rightarrow> u32 list \<Rightarrow> bool" where
  "list_ok h lst xs \<longleftrightarrow> (\<exists>ps. list_nodes h lst ps \<and> xs = map (mem h) ps)"

end
