(* ===== verification/Rt_Sched.thy ===== *)
theory Rt_Sched
  imports Linked_List "HOL-Library.Signed_Division"
begin

text \<open>
  The real-time scheduler of tp1/app/rt.c over the list library and the allocator. Task descriptors
  are a typed store by address (\<open>rt_task_at\<close>), their names the characters \<open>strncpy\<close> wrote
  (\<open>rt_name_at\<close>); both are blocks of the allocator, whose words the store keeps apart from the list nodes.
  A C \<open>int\<close> is a 32-bit word compared as signed; increments wrap. A jump buffer holds where
  \<open>setjmp\<close> was called. \<open>None\<close> is a write through a null pointer, an undefined remainder, or a loop that does not end.
\<close>

unbundle bit_operations_syntax

datatype enum_state = READY | RUNNING | BLOCKED | DONE | SYS

fun state_code :: "enum_state \<Rightarrow> u32" where
  "state_code READY = 0" | "state_code RUNNING = 1" | "state_code BLOCKED = 2" | "state_code DONE = 3" | "state_code SYS = 4"

record rt_task =
  t_function :: u32
  t_id :: u32
  t_name :: u32
  t_period :: u32
  t_capacity :: u32
  t_deadline :: u32
  t_state :: enum_state
  t_executed :: u32

datatype resume = In_Start | In_Switch | In_Idle | In_Task u32

record timer1_regs =
  timer1pre :: u32
  timer1 :: u32
  timer1ctc :: u32
  timermask :: u32

record rt_sys =
  rt_heap :: heap
  rt_task_at :: "u32 \<Rightarrow> rt_task"
  rt_name_at :: "u32 \<Rightarrow> u8 list"
  rt_list_task :: u32
  rt_running_task :: u32
  rt_idle_task :: u32
  rt_running_id :: u32
  rt_time :: u32
  rt_jmp :: "u32 \<Rightarrow> resume"
  rt_timer1 :: timer1_regs

definition set_task :: "u32 \<Rightarrow> rt_task \<Rightarrow> rt_sys \<Rightarrow> rt_sys" where
  "set_task p t s = s\<lparr>rt_task_at := (rt_task_at s)(p := t)\<rparr>"

definition running_task :: "rt_sys \<Rightarrow> rt_task" where
  "running_task s = rt_task_at s (rt_running_task s)"

subsection \<open>Creating, adding and deleting tasks\<close>

definition rt_create :: "u32 \<Rightarrow> rt_sys \<Rightarrow> rt_sys option" where
  "rt_create mem_pool s =
     do { (h, lst) \<leftarrow> list_init (heap_init mem_pool 8192 (rt_heap s));
          Some (s\<lparr>rt_heap := h, rt_list_task := lst, rt_running_id := 0\<rparr>) }"

text \<open>The result is 1 for success. The field \<open>executed\<close> keeps what the block held before.\<close>

definition rt_add_task :: "u32 \<Rightarrow> u32 \<Rightarrow> u32 \<Rightarrow> u32 \<Rightarrow> u8 list \<Rightarrow> enum_state \<Rightarrow> rt_sys \<Rightarrow> (rt_sys \<times> u32) option" where
  "rt_add_task function_ptr period capacity deadline name state s =
     (if state \<noteq> READY \<and> state \<noteq> BLOCKED then Some (s, 0)
      else if period = 0 \<or> capacity = 0 then Some (s, 0)
      else if period <s capacity then Some (s, 0)
      else do {
        (h, task) \<leftarrow> heap_malloc 32 (rt_heap s);
        if task = 0 then None else do {
        (h, nm) \<leftarrow> heap_malloc (of_nat (length name)) h;
        if nm = 0 \<and> name \<noteq> [] then None else do {
        let s = set_task task ((rt_task_at s task)\<lparr>t_function := function_ptr, t_id := rt_running_id s, t_name := nm,
                  t_period := period, t_capacity := capacity, t_deadline := deadline, t_state := state\<rparr>)
                  (s\<lparr>rt_name_at := (rt_name_at s)(nm := name)\<rparr>);
        (h, r) \<leftarrow> list_append (rt_list_task s) task h;
        let s = s\<lparr>rt_heap := h\<rparr>;
        if r \<noteq> 0 then Some (s, 0) else Some (s\<lparr>rt_running_id := rt_running_id s + 1\<rparr>, 1) } } })"

definition rt_del_task :: "u32 \<Rightarrow> rt_sys \<Rightarrow> (rt_sys \<times> u32) option" where
  "rt_del_task i s =
     do { (h, r) \<leftarrow> list_remove (rt_list_task s) i (rt_heap s); Some (s\<lparr>rt_heap := h\<rparr>, r) }"

subsection \<open>Reading the tasks\<close>

definition rt_get_self_id :: "rt_sys \<Rightarrow> u32" where "rt_get_self_id s = t_id (running_task s)"
definition rt_get_self_name :: "rt_sys \<Rightarrow> u32" where "rt_get_self_name s = t_name (running_task s)"
definition rt_get_self_period :: "rt_sys \<Rightarrow> u32" where "rt_get_self_period s = t_period (running_task s)"
definition rt_get_self_capacity :: "rt_sys \<Rightarrow> u32" where "rt_get_self_capacity s = t_capacity (running_task s)"
definition rt_get_self_deadline :: "rt_sys \<Rightarrow> u32" where "rt_get_self_deadline s = t_deadline (running_task s)"
definition rt_get_self_state :: "rt_sys \<Rightarrow> enum_state" where "rt_get_self_state s = t_state (running_task s)"
definition rt_get_self_executed :: "rt_sys \<Rightarrow> u32" where "rt_get_self_executed s = t_executed (running_task s)"

definition rt_task_count :: "rt_sys \<Rightarrow> u32 option" where
  "rt_task_count s = list_count (rt_list_task s) (rt_heap s)"

text \<open>The loop of the two table functions: one word per task into the new array.\<close>

partial_function (option) rt_table :: "(u32 \<Rightarrow> u32) \<Rightarrow> u32 \<Rightarrow> u32 \<Rightarrow> u32 \<Rightarrow> heap \<Rightarrow> heap option" where
  [code]: "rt_table f element dst i h =
     (if element \<noteq> 0 then
        if dst = 0 then None
        else let h = heap_poke h (dst + 4 * i) (f (mem h element))
             in rt_table f (next_of h element) dst (i + 1) h
      else Some h)"

definition rt_get_states :: "rt_sys \<Rightarrow> (rt_sys \<times> u32) option" where
  "rt_get_states s =
     do { n \<leftarrow> rt_task_count s;
          (h, state) \<leftarrow> heap_malloc (4 * n) (rt_heap s);
          (h, _) \<leftarrow> heap_malloc 32 h;
          h \<leftarrow> rt_table (\<lambda>p. state_code (t_state (rt_task_at s p))) (next_of h (rt_list_task s)) state 0 h;
          Some (s\<lparr>rt_heap := h\<rparr>, state) }"

definition rt_get_ids :: "rt_sys \<Rightarrow> (rt_sys \<times> u32) option" where
  "rt_get_ids s =
     do { n \<leftarrow> rt_task_count s;
          (h, idp) \<leftarrow> heap_malloc (4 * n) (rt_heap s);
          (h, _) \<leftarrow> heap_malloc 32 h;
          h \<leftarrow> rt_table (\<lambda>p. t_id (rt_task_at s p)) (next_of h (rt_list_task s)) idp 0 h;
          Some (s\<lparr>rt_heap := h\<rparr>, idp) }"

subsection \<open>The context switch\<close>

definition c_mod :: "u32 \<Rightarrow> u32 \<Rightarrow> u32 option" where
  "c_mod x y = (if y = 0 \<or> x = 0x80000000 \<and> y = - 1 then None else Some (word_of_int (sint x smod sint y)))"

definition rt_check_budget :: "rt_sys \<Rightarrow> rt_sys" where
  "rt_check_budget s =
     (let p = rt_running_task s; t = rt_task_at s p
      in if t_state t \<noteq> SYS then
           if t_executed t = t_capacity t then (set_task p (t\<lparr>t_state := DONE\<rparr>) s)\<lparr>rt_running_task := rt_idle_task s\<rparr>
           else s
         else s)"

definition rt_compete :: "u32 \<Rightarrow> rt_sys \<Rightarrow> rt_sys" where
  "rt_compete p s = (if t_period (rt_task_at s p) <s t_period (running_task s) then s\<lparr>rt_running_task := p\<rparr> else s)"

definition rt_visit :: "u32 \<Rightarrow> rt_sys \<Rightarrow> rt_sys option" where
  "rt_visit p s =
     (let t = rt_task_at s p
      in if t_state t = BLOCKED then Some s
         else if t_state t = DONE then
           do { r \<leftarrow> c_mod (rt_time s) (t_period t);
                if r \<noteq> 0 then Some s
                else Some (rt_compete p (set_task p (t\<lparr>t_executed := 0, t_state := READY\<rparr>) s)) }
         else Some (rt_compete p s))"

partial_function (option) rt_scan :: "u32 \<Rightarrow> rt_sys \<Rightarrow> rt_sys option" where
  [code]: "rt_scan element s =
     (if element \<noteq> 0 then
        do { s \<leftarrow> rt_visit (mem (rt_heap s) element) s; rt_scan (next_of (rt_heap s) element) s }
      else Some s)"

definition rt_dispatch :: "rt_sys \<Rightarrow> rt_sys" where
  "rt_dispatch s =
     (let p = rt_running_task s; t = rt_task_at s p; s = s\<lparr>rt_running_id := t_id t\<rparr>
      in (set_task p (t\<lparr>t_state := RUNNING, t_executed := t_executed t + 1\<rparr>) s)\<lparr>rt_time := rt_time s + 1\<rparr>)"

text \<open>The result is the index of the jump buffer that the switch jumps to.\<close>

definition rt_context_switch :: "rt_sys \<Rightarrow> (rt_sys \<times> u32) option" where
  "rt_context_switch s =
     do { (h, _) \<leftarrow> heap_malloc 32 (rt_heap s);
          let s = rt_check_budget (s\<lparr>rt_heap := h, rt_jmp := (rt_jmp s)(0 := In_Switch)\<rparr>);
          s \<leftarrow> rt_scan (next_of (rt_heap s) (rt_list_task s)) s;
          let s = rt_dispatch s;
          Some (s, rt_running_id s + 2) }"

definition rt_context_switch_circular :: "resume \<Rightarrow> rt_sys \<Rightarrow> (rt_sys \<times> u32) option" where
  "rt_context_switch_circular here s =
     do { let s = s\<lparr>rt_jmp := (rt_jmp s)(rt_running_id s := here), rt_running_id := rt_running_id s + 1\<rparr>;
          n \<leftarrow> rt_task_count s;
          let s = (if n = rt_running_id s then s\<lparr>rt_running_id := 0\<rparr> else s);
          Some (s, rt_running_id s) }"

definition timer1ctc_handler :: "rt_sys \<Rightarrow> (rt_sys \<times> u32) option" where
  "timer1ctc_handler s = rt_context_switch s"

subsection \<open>Starting\<close>

definition rt_clock :: "rt_sys \<Rightarrow> rt_sys" where
  "rt_clock s = s\<lparr>rt_timer1 := \<lparr>timer1pre = 2, timer1 = 0, timer1ctc = 15625, timermask = timermask (rt_timer1 s) OR 4\<rparr>\<rparr>"

text \<open>The first steps of the idle function and of a task: they save their context and jump back to \<open>rt_start\<close>.\<close>

definition rt_idle_enter :: "rt_sys \<Rightarrow> rt_sys" where
  "rt_idle_enter s = s\<lparr>rt_jmp := (rt_jmp s)(1 := In_Idle)\<rparr>"

definition task_enter :: "u32 \<Rightarrow> rt_sys \<Rightarrow> rt_sys" where
  "task_enter f s = s\<lparr>rt_jmp := (rt_jmp s)(rt_running_id s := In_Task f)\<rparr>"

text \<open>The jumps back to \<open>rt_start\<close> make its tail a loop.\<close>

function rt_enter_tasks :: "u32 \<Rightarrow> rt_sys \<Rightarrow> rt_sys" where
  "rt_enter_tasks count s =
     (if rt_running_id s <s count + 1 then
        let element = next_of (rt_heap s) (rt_list_task s);
            s = s\<lparr>rt_running_id := rt_running_id s + 1\<rparr>
        in rt_enter_tasks count (task_enter (t_function (rt_task_at s (mem (rt_heap s) element))) s)
      else s)"
  by pat_completeness auto

termination
  by (relation "measure (\<lambda>(count, s). nat (2 ^ 31 - sint (rt_running_id s)))")
     (use sint_lt[where 'a = 32] in \<open>auto simp: task_enter_def Let_def dest: sint_inc_less\<close>)

definition idle_task :: "u32 \<Rightarrow> u32 \<Rightarrow> rt_task \<Rightarrow> rt_task" where
  "idle_task f nm t = t\<lparr>t_id := - 1, t_name := nm, t_period := 65535, t_capacity := - 1, t_function := f, t_state := SYS\<rparr>"

text \<open>The blocks \<open>rt_start\<close> allocates: the jump buffers and the idle task; three other tasks are never used.\<close>

definition rt_start_blocks :: "rt_sys \<Rightarrow> (heap \<times> u32 \<times> u32) option" where
  "rt_start_blocks s =
     do { (h, _) \<leftarrow> heap_malloc 32 (rt_heap s);
          (h, _) \<leftarrow> heap_malloc 32 h;
          n \<leftarrow> list_count (rt_list_task s) h;
          (h, jmp) \<leftarrow> heap_malloc ((n + 2) * 80) h;
          (h, _) \<leftarrow> heap_malloc 32 h;
          (h, idle) \<leftarrow> heap_malloc 32 h;
          Some (h, jmp, idle) }"

definition rt_start :: "u32 \<Rightarrow> u32 \<Rightarrow> rt_sys \<Rightarrow> rt_sys option" where
  "rt_start idle_function idle_name s =
     do { count \<leftarrow> rt_task_count s;
          (h, jmp, idle) \<leftarrow> rt_start_blocks s;
          if idle = 0 \<or> jmp = 0 then None else do {
          let s = set_task idle (idle_task idle_function idle_name (rt_task_at s idle)) s;
          let s = s\<lparr>rt_heap := h, rt_idle_task := idle, rt_running_task := idle, rt_running_id := 1, rt_time := 0,
                    rt_jmp := (rt_jmp s)(0 := In_Start)\<rparr>;
          let s = rt_enter_tasks count (rt_idle_enter s);
          Some (rt_clock (s\<lparr>rt_running_id := 0\<rparr>)) } }"

end
