(* ===== verification/Linked_List_Props.thy ===== *)
theory Linked_List_Props
  imports Linked_List
begin

text \<open>
  The list library refines lists. The chain of nodes is a path; every operation is reduced to one
  of two surgeries on it, linking a node behind another one and unlinking one. What allocation
  and freeing leave alone comes from the contract of the allocator.
\<close>

subsection \<open>Following links\<close>

fun path :: "heap \<Rightarrow> u32 \<Rightarrow> u32 list \<Rightarrow> bool" where
  "path h p [] \<longleftrightarrow> True"
| "path h p (q # qs) \<longleftrightarrow> next_of h p = q \<and> q \<noteq> 0 \<and> path h q qs"

lemma links_path: "links h p qs \<longleftrightarrow> path h p qs \<and> next_of h (last (p # qs)) = 0"
  by (induction qs arbitrary: p) auto

lemma path_append [simp]: "path h p (qs @ rs) \<longleftrightarrow> path h p qs \<and> path h (last (p # qs)) rs"
  by (induction qs arbitrary: p) auto

lemma path_cong: "(\<And>q. q \<in> set (butlast (p # qs)) \<Longrightarrow> next_of h' q = next_of h q) \<Longrightarrow> path h' p qs \<longleftrightarrow> path h p qs"
proof (induction qs arbitrary: p)
  case (Cons q qs)
  have "next_of h' p = next_of h p" by (rule Cons.prems) simp
  moreover have "path h' q qs \<longleftrightarrow> path h q qs"
  proof (rule Cons.IH)
    fix r assume "r \<in> set (butlast (q # qs))"
    then show "next_of h' r = next_of h r" by (intro Cons.prems) simp
  qed
  ultimately show ?case by simp
qed simp

lemma last_node_links: "links h p qs \<Longrightarrow> last_node h p = Some (last (p # qs))"
  by (induction qs arbitrary: p) (subst last_node.simps; simp)+

lemma unat_Suc_word: "Suc (unat i) < 2 ^ 32 \<Longrightarrow> unat (i + 1 :: u32) = Suc (unat i)"
  by (simp add: unat_word_ariths)

lemma insert_node_links:
  "links h p qs \<Longrightarrow> unat i + length qs < 2 ^ 32 \<Longrightarrow>
   insert_node h p i pos = Some (if unat i < unat pos \<and> unat pos \<le> unat i + length qs then qs ! (unat pos - unat i - 1) else last (p # qs))"
proof (induction qs arbitrary: p i)
  case Nil
  then show ?case by (subst insert_node.simps) auto
next
  case (Cons q qs)
  have i: "unat (i + 1) = Suc (unat i)" using Cons.prems(2) by (intro unat_Suc_word) simp
  show ?case
  proof (cases "i + 1 = pos")
    case True
    then show ?thesis using Cons.prems i by (subst insert_node.simps) auto
  next
    case False
    then have ne: "unat pos \<noteq> Suc (unat i)" using i by (metis word_unat_eq_iff)
    have "insert_node h p i pos = insert_node h q (i + 1) pos"
      using Cons.prems False by (subst insert_node.simps) auto
    also have "\<dots> = Some (if unat (i + 1) < unat pos \<and> unat pos \<le> unat (i + 1) + length qs
        then qs ! (unat pos - unat (i + 1) - 1) else last (q # qs))"
      using Cons.prems i by (intro Cons.IH) simp_all
    finally show ?thesis using ne unfolding i by (auto simp: nth_Cons' not_less)
  qed
qed

lemma remove_nodes_links:
  "links h p qs \<Longrightarrow> unat i + length qs < 2 ^ 32 \<Longrightarrow>
   remove_nodes h p i pos = Some (if unat i \<le> unat pos \<and> unat pos < unat i + length qs
     then Some ((p # qs) ! (unat pos - unat i), qs ! (unat pos - unat i)) else None)"
proof (induction qs arbitrary: p i)
  case Nil
  then show ?case by (subst remove_nodes.simps) auto
next
  case (Cons q qs)
  show ?case
  proof (cases "i = pos")
    case True
    then show ?thesis using Cons.prems by (subst remove_nodes.simps) auto
  next
    case False
    then have ne: "unat pos \<noteq> unat i" by (metis word_unat_eq_iff)
    have i: "unat (i + 1) = Suc (unat i)" using Cons.prems(2) by (intro unat_Suc_word) simp
    have "remove_nodes h p i pos = remove_nodes h q (i + 1) pos"
      using Cons.prems False by (subst remove_nodes.simps) (auto simp: Let_def)
    also have "\<dots> = Some (if unat (i + 1) \<le> unat pos \<and> unat pos < unat (i + 1) + length qs
        then Some ((q # qs) ! (unat pos - unat (i + 1)), qs ! (unat pos - unat (i + 1))) else None)"
      using Cons.prems i by (intro Cons.IH) simp_all
    finally show ?thesis using ne unfolding i by (auto simp: nth_Cons' not_less)
  qed
qed

lemma node_at_links:
  "links h p qs \<Longrightarrow> unat i + length qs < 2 ^ 32 \<Longrightarrow>
   node_at h p i pos = Some (if unat i \<le> unat pos \<and> unat pos < unat i + length qs then qs ! (unat pos - unat i) else 0)"
proof (induction qs arbitrary: p i)
  case Nil
  then show ?case by (subst node_at.simps) auto
next
  case (Cons q qs)
  show ?case
  proof (cases "i = pos")
    case True
    then show ?thesis using Cons.prems by (subst node_at.simps) auto
  next
    case False
    then have ne: "unat pos \<noteq> unat i" by (metis word_unat_eq_iff)
    have i: "unat (i + 1) = Suc (unat i)" using Cons.prems(2) by (intro unat_Suc_word) simp
    have "node_at h p i pos = node_at h q (i + 1) pos"
      using Cons.prems False by (subst node_at.simps) (auto simp: Let_def)
    also have "\<dots> = Some (if unat (i + 1) \<le> unat pos \<and> unat pos < unat (i + 1) + length qs
        then qs ! (unat pos - unat (i + 1)) else 0)"
      using Cons.prems i by (intro Cons.IH) simp_all
    finally show ?thesis using ne unfolding i by (auto simp: nth_Cons' not_less)
  qed
qed

lemma count_nodes_links: "links h p qs \<Longrightarrow> count_nodes h p i = Some (i + of_nat (length qs))"
  by (induction qs arbitrary: p i) (subst count_nodes.simps; simp add: Let_def add.assoc)+

lemma list_nodes_length: "list_nodes h lst ps \<Longrightarrow> length ps < 2 ^ 32"
proof -
  assume l: "list_nodes h lst ps"
  have "card (set (lst # ps)) = Suc (length ps)" using l by (simp add: list_nodes_def distinct_card)
  moreover have "card (set (lst # ps)) \<le> card (UNIV :: u32 set)" by (rule card_mono) simp_all
  moreover have "card (UNIV :: u32 set) = 2 ^ 32" by (simp add: card_word)
  ultimately show ?thesis by simp
qed

subsection \<open>Operations refine the operations on lists\<close>

text \<open>Writing a field of a node.\<close>

lemmas poke_lemmas = heap_poke_def set_next_def set_elem_def

lemma set_field_node:
  assumes "heap_wf h" "is_node (heap_in_block h) p"
  shows "heap_wf (set_next p v h)" "is_node (heap_in_block (set_next p v h)) q \<longleftrightarrow> is_node (heap_in_block h) q"
    "heap_wf (set_elem p v h)" "is_node (heap_in_block (set_elem p v h)) q \<longleftrightarrow> is_node (heap_in_block h) q"
  using heap_blocks.poke_node[OF assms] by (simp_all add: set_next_def set_elem_def)

lemma mem_set_next: "mem (set_next p v h) y = (if y = p + 4 then v else mem h y)"
  and mem_set_elem: "mem (set_elem p v h) y = (if y = p then v else mem h y)"
  by (simp_all add: poke_lemmas)

text \<open>A list survives an allocation; a node that is allocated is outside the list.\<close>

lemma list_nodes_alloc:
  assumes "list_nodes h lst ps" "heap_malloc n h = Some (h', t)" and sm: "unat n + 12 < 2 ^ 32"
  shows "list_nodes h' lst ps" "map (mem h') ps = map (mem h) ps"
proof -
  have wf: "heap_wf h" and nodes: "\<And>p. p \<in> set (lst # ps) \<Longrightarrow> is_node (heap_in_block h) p"
    using assms(1) by (auto simp: list_nodes_def)
  have kept: "is_node (heap_in_block h') p \<and> mem h' p = mem h p \<and> next_of h' p = next_of h p" if "p \<in> set (lst # ps)" for p
    using heap_blocks.alloc_keeps[OF wf sm assms(2), of p p] heap_blocks.alloc_keeps[OF wf sm assms(2), of p "p + 4"] nodes[OF that]
    by (simp add: is_node_def)
  have "heap_wf h'" using heap_blocks.alloc_keeps[OF wf sm assms(2)] by blast
  moreover have "links h' lst ps"
  proof -
    have "path h' lst ps \<longleftrightarrow> path h lst ps"
      by (rule path_cong) (use kept in \<open>blast dest: in_set_butlastD\<close>)
    moreover have "next_of h' (last (lst # ps)) = next_of h (last (lst # ps))" using kept last_in_set[of "lst # ps"] by simp
    ultimately show ?thesis using assms(1) by (simp add: list_nodes_def links_path)
  qed
  ultimately show "list_nodes h' lst ps" using assms(1) kept by (simp add: list_nodes_def)
  show "map (mem h') ps = map (mem h) ps" using kept by simp
qed

lemma list_nodes_malloc:
  assumes "list_nodes h lst ps" "heap_malloc 8 h = Some (h', t)"
  shows "list_nodes h' lst ps" "map (mem h') ps = map (mem h) ps"
    "t \<noteq> 0 \<Longrightarrow> is_node (heap_in_block h') t \<and> t \<notin> set (lst # ps)"
proof -
  have sm: "unat (8 :: u32) + 12 < 2 ^ 32" by simp
  show "list_nodes h' lst ps" "map (mem h') ps = map (mem h) ps" using list_nodes_alloc[OF assms sm] by simp_all
  have wf: "heap_wf h" and nodes: "\<And>p. p \<in> set (lst # ps) \<Longrightarrow> is_node (heap_in_block h) p"
    using assms(1) by (auto simp: list_nodes_def)
  show "is_node (heap_in_block h') t \<and> t \<notin> set (lst # ps)" if "t \<noteq> 0"
    using heap_blocks.new_node[OF wf assms(2) that] nodes by blast
qed

lemma list_ok_malloc:
  assumes "list_ok h lst xs" "unat n + 12 < 2 ^ 32"
  shows "\<exists>h' t. heap_malloc n h = Some (h', t) \<and> list_ok h' lst xs"
proof -
  obtain ps where ps: "list_nodes h lst ps" "xs = map (mem h) ps" using assms(1) by (auto simp: list_ok_def)
  obtain h' t where m: "heap_malloc n h = Some (h', t)"
    using heap_blocks.alloc_ends[of h n] ps(1) assms(2) by (auto simp: list_nodes_def)
  have "list_ok h' lst xs" unfolding list_ok_def using list_nodes_alloc[OF ps(1) m assms(2)] ps(2) by metis
  then show ?thesis using m by blast
qed

text \<open>Linking a node that is not in the list behind the node \<open>last (lst # qs)\<close>.\<close>

lemma link_node:
  assumes "list_nodes h lst (qs @ rs)" "is_node (heap_in_block h) t" "t \<notin> set (lst # qs @ rs)"
    "next_of h t = next_of h (last (lst # qs))"
  shows "list_nodes (set_next (last (lst # qs)) t h) lst (qs @ t # rs)"
    "map (mem (set_next (last (lst # qs)) t h)) (qs @ t # rs) = map (mem h) qs @ mem h t # map (mem h) rs"
proof -
  define t2 where "t2 = last (lst # qs)"
  define h' where "h' = set_next t2 t h"
  have l: "heap_wf h" "links h lst (qs @ rs)" "distinct (lst # qs @ rs)" "\<forall>p\<in>set (lst # qs @ rs). is_node (heap_in_block h) p"
    using assms(1) by (simp_all add: list_nodes_def)
  have t2: "t2 \<in> set (lst # qs)" unfolding t2_def by (rule last_in_set) simp
  then have nt2: "is_node (heap_in_block h) t2" using l(4) by auto
  have nx: "next_of h' p = (if p = t2 then t else next_of h p)" for p by (simp add: h'_def mem_set_next)
  have el: "mem h' p = mem h p" if "is_node (heap_in_block h) p" for p
    using heap_blocks.node_words[OF l(1) that nt2] by (simp add: h'_def mem_set_next)
  have t0: "t \<noteq> 0" using assms(2) by (simp add: is_node_def)
  have p1: "path h lst qs" "path h t2 rs" "next_of h (last (lst # qs @ rs)) = 0"
    using l(2) by (auto simp: links_path t2_def)
  have "t2 \<notin> set (butlast (lst # qs))"
    using l(3) unfolding t2_def by (metis append_butlast_last_id distinct_append distinct.simps(2) disjoint_insert(1) list.distinct(1) list.set(2) not_distinct_conv_prefix append_Cons)
  then have pa: "path h' lst qs" using p1(1) by (subst path_cong[of lst qs h' h]) (auto simp: nx)
  have rs: "t2 \<notin> set rs" "t2 \<noteq> t" "t \<notin> set rs" using l(3) t2 assms(3) by auto
  have pb: "path h' t rs"
  proof (cases rs)
    case (Cons r rs')
    have "path h' r rs' \<longleftrightarrow> path h r rs'"
    proof (rule path_cong)
      fix q assume "q \<in> set (butlast (r # rs'))"
      then have "q \<in> set rs" using Cons by (metis in_set_butlastD)
      then show "next_of h' q = next_of h q" using rs(1) by (auto simp: nx)
    qed
    then show ?thesis using p1(2) Cons assms(4) rs(2) by (simp add: nx t2_def)
  qed simp
  have "links h' lst (qs @ t # rs)"
  proof -
    have "next_of h' (last (t # rs)) = 0"
    proof (cases "rs = []")
      case True
      then show ?thesis using p1(3) rs(2) assms(4) by (simp add: nx t2_def split: if_splits)
    next
      case False
      then have "last rs \<noteq> t2" using rs(1) last_in_set by metis
      then show ?thesis using False p1(3) by (simp add: nx)
    qed
    moreover have "path h' lst (qs @ t # rs)"
      unfolding path_append path.simps t2_def[symmetric] using pa pb t0 nx[of t2] by simp
    ultimately show ?thesis by (simp add: links_path)
  qed
  moreover have "heap_wf h'" "\<And>q. is_node (heap_in_block h') q \<longleftrightarrow> is_node (heap_in_block h) q"
    unfolding h'_def using set_field_node[OF l(1) nt2] by blast+
  ultimately show "list_nodes (set_next (last (lst # qs)) t h) lst (qs @ t # rs)"
    unfolding t2_def[symmetric] h'_def[symmetric] using l assms(2,3) by (auto simp: list_nodes_def)
  show "map (mem (set_next (last (lst # qs)) t h)) (qs @ t # rs) = map (mem h) qs @ mem h t # map (mem h) rs"
    unfolding t2_def[symmetric] h'_def[symmetric] using l(4) assms(2) el by simp
qed

definition insert_at :: "'a \<Rightarrow> nat \<Rightarrow> 'a list \<Rightarrow> 'a list" where
  "insert_at x pos xs = (if 1 \<le> pos \<and> pos \<le> length xs then take pos xs @ x # drop pos xs else xs @ [x])"

definition remove_at :: "nat \<Rightarrow> 'a list \<Rightarrow> 'a list" where
  "remove_at pos xs = take pos xs @ drop (Suc pos) xs"

text \<open>The new node, initialised, and the rest of an insertion.\<close>

lemma insert_new_node:
  fixes item :: u32
  assumes "list_nodes h lst (qs @ rs)" "heap_malloc 8 h = Some (h', t)" "t \<noteq> 0"
  defines "g \<equiv> set_next t 0 (set_elem t item h')"
  shows "links g lst (qs @ rs)"
    "list_nodes (set_next (last (lst # qs)) t (set_next t (next_of g (last (lst # qs))) g)) lst (qs @ t # rs)"
    "map (mem (set_next (last (lst # qs)) t (set_next t (next_of g (last (lst # qs))) g))) (qs @ t # rs)
      = map (mem h) qs @ item # map (mem h) rs"
proof -
  have ls: "list_nodes h' lst (qs @ rs)" "map (mem h') (qs @ rs) = map (mem h) (qs @ rs)"
    and t: "is_node (heap_in_block h') t" "t \<notin> set (lst # qs @ rs)"
    using list_nodes_malloc[OF assms(1,2)] assms(3) by blast+
  have wf: "heap_wf h'" and nodes: "\<And>p. p \<in> set (lst # qs @ rs) \<Longrightarrow> is_node (heap_in_block h') p"
    using ls(1) by (auto simp: list_nodes_def)
  have nw: "p \<noteq> t + 4" "p + 4 \<noteq> t" if "p \<in> set (lst # qs @ rs)" for p
    using heap_blocks.node_words[OF wf nodes[OF that] t(1)] heap_blocks.node_words[OF wf t(1) nodes[OF that]] by auto
  define g2 where "g2 = set_next t (next_of g (last (lst # qs))) g"
  have frame: "mem g2 p = mem h' p \<and> next_of g2 p = next_of h' p \<and> mem g p = mem h' p \<and> next_of g p = next_of h' p"
    if "p \<in> set (lst # qs @ rs)" for p
    using nw[OF that] t(2) that by (auto simp: g2_def g_def mem_set_next mem_set_elem)
  have inl: "last (lst # qs) \<in> set (lst # qs @ rs)" using last_in_set[of "lst # qs"] by auto
  have same: "links f lst (qs @ rs)" if "\<And>p. p \<in> set (lst # qs @ rs) \<Longrightarrow> next_of f p = next_of h' p" for f
  proof -
    have "path f lst (qs @ rs) \<longleftrightarrow> path h' lst (qs @ rs)"
      by (rule path_cong) (use that in \<open>blast dest: in_set_butlastD\<close>)
    moreover have "next_of f (last (lst # qs @ rs)) = next_of h' (last (lst # qs @ rs))"
      by (rule that) (rule last_in_set, simp)
    ultimately show ?thesis using ls(1) by (simp add: list_nodes_def links_path)
  qed
  show "links g lst (qs @ rs)" by (rule same) (use frame in blast)
  have wfs: "heap_wf g2" "\<And>q. is_node (heap_in_block g2) q \<longleftrightarrow> is_node (heap_in_block h') q"
    unfolding g2_def g_def using set_field_node wf t(1) by metis+
  have "links g2 lst (qs @ rs)" by (rule same) (use frame in blast)
  then have l2: "list_nodes g2 lst (qs @ rs)" using ls(1) wfs by (simp add: list_nodes_def)
  have nt: "next_of g2 t = next_of g2 (last (lst # qs))"
    using frame[OF inl] by (simp add: g2_def mem_set_next)
  have tg: "mem g2 t = item" by (simp add: g2_def g_def mem_set_next mem_set_elem)
  note ln = link_node[OF l2 _ t(2) nt]
  have "is_node (heap_in_block g2) t" using wfs(2) t(1) by blast
  then show "list_nodes (set_next (last (lst # qs)) t (set_next t (next_of g (last (lst # qs))) g)) lst (qs @ t # rs)"
    unfolding g2_def[symmetric] by (rule ln(1))
  have "map (mem g2) (qs @ rs) = map (mem h) (qs @ rs)" using frame ls(2) by simp
  then show "map (mem (set_next (last (lst # qs)) t (set_next t (next_of g (last (lst # qs))) g))) (qs @ t # rs)
      = map (mem h) qs @ item # map (mem h) rs"
    unfolding g2_def[symmetric] using ln(2) wfs(2) t(1) tg by simp
qed

lemma list_insert_refines:
  assumes "list_ok h lst xs"
  shows "\<exists>h' r. list_insert lst item pos h = Some (h', r) \<and>
    (r = 0 \<and> list_ok h' lst (insert_at item (unat pos) xs) \<or> r = - 1 \<and> list_ok h' lst xs)"
proof -
  obtain ps where ps: "list_nodes h lst ps" "xs = map (mem h) ps" using assms by (auto simp: list_ok_def)
  have "heap_wf h" using ps(1) by (simp add: list_nodes_def)
  then obtain h' t where call: "heap_malloc 8 h = Some (h', t)" using heap_blocks.alloc_ends[of h 8] by auto
  show ?thesis
  proof (cases "t = 0")
    case True
    have "list_nodes h' lst ps" "map (mem h') ps = xs" using list_nodes_malloc[OF ps(1) call] ps(2) by simp_all
    then have "list_ok h' lst xs" unfolding list_ok_def by metis
    then show ?thesis using call True by (simp add: list_insert_def)
  next
    case False
    define k where "k = (if 1 \<le> unat pos \<and> unat pos \<le> length ps then unat pos else length ps)"
    define g where "g = set_next t 0 (set_elem t item h')"
    have k: "k \<le> length ps" by (simp add: k_def)
    have psk: "list_nodes h lst (take k ps @ drop k ps)" using ps(1) by simp
    note ins = insert_new_node[OF psk call False, of item, folded g_def]
    have "insert_node g lst 0 pos = Some (last (lst # take k ps))"
    proof -
      have "links g lst ps" using ins(1) by simp
      moreover have "unat (0 :: u32) + length ps < 2 ^ 32" using list_nodes_length[OF ps(1)] by simp
      ultimately have "insert_node g lst 0 pos = Some (if 0 < unat pos \<and> unat pos \<le> length ps then ps ! (unat pos - 1) else last (lst # ps))"
        by (simp add: insert_node_links)
      moreover have "last (lst # take k ps) = ps ! (k - 1)" if "0 < k"
      proof -
        have "take k ps \<noteq> []" using that k by auto
        then show ?thesis using that k by (simp add: last_conv_nth min_def)
      qed
      ultimately show ?thesis by (auto simp: k_def)
    qed
    then have call2: "list_insert lst item pos h = Some (set_next (last (lst # take k ps)) t
        (set_next t (next_of g (last (lst # take k ps))) g), 0)"
      using call False by (simp add: list_insert_def Let_def flip: g_def)
    have "map (mem h) (take k ps) @ item # map (mem h) (drop k ps) = insert_at item (unat pos) xs"
      by (simp add: insert_at_def k_def ps(2) take_map drop_map)
    then have "list_ok (set_next (last (lst # take k ps)) t (set_next t (next_of g (last (lst # take k ps))) g)) lst
        (insert_at item (unat pos) xs)"
      using ins(2,3) unfolding list_ok_def by metis
    then show ?thesis using call2 by blast
  qed
qed

lemma list_append_refines:
  assumes "list_ok h lst xs"
  shows "\<exists>h' r. list_append lst item h = Some (h', r) \<and>
    (r = 0 \<and> list_ok h' lst (xs @ [item]) \<or> r = - 1 \<and> list_ok h' lst xs)"
proof -
  obtain ps where ps: "list_nodes h lst ps" using assms by (auto simp: list_ok_def)
  then have "heap_wf h" by (simp add: list_nodes_def)
  then obtain h' t where call: "heap_malloc 8 h = Some (h', t)" using heap_blocks.alloc_ends[of h 8] by auto
  have "list_append lst item h = list_insert lst item 0 h"
  proof (cases "t = 0")
    case False
    define g where "g = set_next t 0 (set_elem t item h')"
    have psa: "list_nodes h lst (ps @ [])" using ps by simp
    have l: "links g lst ps" using insert_new_node(1)[OF psa call False, of item] by (simp add: g_def)
    then have zero: "next_of g (last (lst # ps)) = 0" "next_of g t = 0" by (simp_all add: links_path g_def mem_set_next)
    then have "set_next t (next_of g (last (lst # ps))) g = g"
      by (simp add: set_next_def heap_poke_def fun_upd_idem)
    moreover have "last_node g lst = Some (last (lst # ps))" using l by (rule last_node_links)
    moreover have "insert_node g lst 0 0 = Some (last (lst # ps))"
      using insert_node_links[OF l, of 0 0] list_nodes_length[OF ps] by simp
    ultimately show ?thesis using call False by (simp add: list_append_def list_insert_def Let_def flip: g_def)
  qed (simp add: list_append_def list_insert_def call)
  then show ?thesis using list_insert_refines[OF assms, of item 0] by (simp add: insert_at_def)
qed

text \<open>Unlinking the node \<open>t1\<close> behind \<open>last (lst # qs)\<close> and freeing it.\<close>

lemma unlink_node:
  assumes "list_nodes h lst (qs @ t1 # rs)"
  defines "h' \<equiv> heap_free t1 (set_next (last (lst # qs)) (next_of h t1) h)"
  shows "list_nodes h' lst (qs @ rs)" "map (mem h') (qs @ rs) = map (mem h) (qs @ rs)"
proof -
  define t2 where "t2 = last (lst # qs)"
  define g where "g = set_next t2 (next_of h t1) h"
  have l: "heap_wf h" "links h lst (qs @ t1 # rs)" "distinct (lst # qs @ t1 # rs)"
    "\<And>p. p \<in> set (lst # qs @ t1 # rs) \<Longrightarrow> is_node (heap_in_block h) p"
    using assms(1) by (auto simp: list_nodes_def)
  have t2: "t2 \<in> set (lst # qs)" unfolding t2_def by (rule last_in_set) simp
  then have n: "is_node (heap_in_block h) t2" "is_node (heap_in_block h) t1" using l(4) by auto
  have ne: "t2 \<noteq> t1" using t2 l(3) by auto
  have gw: "heap_wf g" "\<And>q. is_node (heap_in_block g) q \<longleftrightarrow> is_node (heap_in_block h) q"
    unfolding g_def using set_field_node[OF l(1) n(1)] by blast+
  then have gt1: "is_node (heap_in_block g) t1" using n(2) by blast
  note rel = heap_blocks.release_node[OF gw(1) gt1]
  have nx: "next_of h' p = (if p = t2 then next_of h t1 else next_of h p)" and el: "mem h' p = mem h p"
    if "p \<in> set (lst # qs @ rs)" for p
  proof -
    have p: "is_node (heap_in_block h) p" using l(4) that by auto
    then have "is_node (heap_in_block g) p" using gw(2) by blast
    then have "mem h' p = mem g p \<and> next_of h' p = next_of g p"
      unfolding h'_def t2_def[symmetric] g_def[symmetric] by (rule rel(3))
    then show "next_of h' p = (if p = t2 then next_of h t1 else next_of h p)" "mem h' p = mem h p"
      using heap_blocks.node_words[OF l(1) p n(1)] by (auto simp: g_def mem_set_next)
  qed
  have nodes: "is_node (heap_in_block h') p" if "p \<in> set (lst # qs @ rs)" for p
  proof -
    have "p \<noteq> t1" "is_node (heap_in_block h) p" using that l(3,4) by auto
    then show ?thesis unfolding h'_def t2_def[symmetric] g_def[symmetric] using rel(2) gw(2) by blast
  qed
  have p1: "path h lst qs" "path h t1 rs" "next_of h (last (t1 # rs)) = 0"
    using l(2) by (auto simp: links_path)
  have b2: "t2 \<notin> set (butlast (lst # qs))"
  proof -
    have "lst # qs = butlast (lst # qs) @ [t2]" unfolding t2_def by simp
    then have "distinct (butlast (lst # qs) @ [t2])" using l(3) by (metis append_Cons distinct_append)
    then show ?thesis by simp
  qed
  have "path h' lst qs \<longleftrightarrow> path h lst qs"
  proof (rule path_cong)
    fix q assume q: "q \<in> set (butlast (lst # qs))"
    then have "q \<noteq> t2" "q \<in> set (lst # qs)" using b2 in_set_butlastD by fast+
    then show "next_of h' q = next_of h q" using nx[of q] by auto
  qed
  moreover have "path h' t2 rs \<and> next_of h' (last (t2 # rs)) = 0"
  proof (cases rs)
    case Nil
    then show ?thesis using nx[of t2] t2 p1(3) by auto
  next
    case (Cons r rs')
    have far: "next_of h' q = next_of h q" if "q \<in> set rs" for q
      using nx[of q] that l(3) t2 by auto
    have "path h' r rs' \<longleftrightarrow> path h r rs'"
      by (rule path_cong) (use far Cons in \<open>metis in_set_butlastD\<close>)
    moreover have "next_of h' (last rs) = next_of h (last rs)" using far Cons last_in_set by blast
    ultimately show ?thesis using p1(2,3) nx[of t2] t2 Cons by auto
  qed
  ultimately have "links h' lst (qs @ rs)"
    using p1(1) by (cases "rs = []") (auto simp: links_path t2_def)
  moreover have "heap_wf h'" unfolding h'_def t2_def[symmetric] g_def[symmetric] by (rule rel(1))
  ultimately show "list_nodes h' lst (qs @ rs)" using l(3) nodes by (simp add: list_nodes_def)
  show "map (mem h') (qs @ rs) = map (mem h) (qs @ rs)" using el by simp
qed

lemma list_remove_refines:
  assumes "list_ok h lst xs"
  shows "\<exists>h'. list_remove lst pos h = Some (h', if unat pos < length xs then 0 else - 1) \<and> list_ok h' lst (remove_at (unat pos) xs)"
proof -
  obtain ps where ps: "list_nodes h lst ps" "xs = map (mem h) ps" using assms by (auto simp: list_ok_def)
  define k where "k = unat pos"
  have "links h lst ps" "unat (0 :: u32) + length ps < 2 ^ 32" using ps(1) list_nodes_length[OF ps(1)] by (simp_all add: list_nodes_def)
  then have rn: "remove_nodes h lst 0 pos = Some (if k < length ps then Some ((lst # ps) ! k, ps ! k) else None)"
    by (simp add: remove_nodes_links k_def)
  show ?thesis
  proof (cases "k < length ps")
    case False
    then show ?thesis using rn assms ps(2) by (simp add: list_remove_def remove_at_def flip: k_def)
  next
    case True
    have sp: "ps = take k ps @ ps ! k # drop (Suc k) ps" using True by (simp add: id_take_nth_drop)
    have t2: "(lst # ps) ! k = last (lst # take k ps)"
    proof (cases k)
      case (Suc j)
      then have "take k ps \<noteq> []" using True by auto
      then show ?thesis using True Suc by (simp add: last_conv_nth min_def)
    qed simp
    have "list_nodes h lst (take k ps @ ps ! k # drop (Suc k) ps)" using ps(1) sp by simp
    note un = unlink_node[OF this]
    have "list_remove lst pos h = Some (heap_free (ps ! k) (set_next (last (lst # take k ps)) (next_of h (ps ! k)) h), 0)"
      using rn True t2 by (simp add: list_remove_def)
    moreover have "map (mem h) (take k ps @ drop (Suc k) ps) = remove_at k xs"
      by (simp add: remove_at_def ps(2) take_map drop_map)
    ultimately show ?thesis using un True ps(2) unfolding list_ok_def k_def[symmetric]
      by (metis length_map)
  qed
qed

lemma node_at_ok:
  assumes "list_nodes h lst ps"
  shows "node_at h lst 0 pos = Some (if unat pos < length ps then ps ! unat pos else 0)"
  using assms list_nodes_length[OF assms] node_at_links[of h lst ps 0 pos] by (simp add: list_nodes_def)

lemma list_get_refines:
  assumes "list_ok h lst xs"
  shows "list_get lst pos h = Some (if unat pos < length xs then xs ! unat pos else 0)"
proof -
  obtain ps where ps: "list_nodes h lst ps" "xs = map (mem h) ps" using assms by (auto simp: list_ok_def)
  have "ps ! unat pos \<noteq> 0" if "unat pos < length ps"
    using ps(1) nth_mem[OF that] by (auto simp: list_nodes_def is_node_def)
  then show ?thesis using node_at_ok[OF ps(1)] ps(2) by (simp add: list_get_def)
qed

lemma list_set_refines:
  assumes "list_ok h lst xs"
  shows "\<exists>h'. list_set lst item pos h = Some (h', if unat pos < length xs then 0 else - 1) \<and> list_ok h' lst (xs[unat pos := item])"
proof -
  obtain ps where ps: "list_nodes h lst ps" "xs = map (mem h) ps" using assms by (auto simp: list_ok_def)
  define k where "k = unat pos"
  show ?thesis
  proof (cases "k < length ps")
    case False
    then show ?thesis using node_at_ok[OF ps(1)] assms ps(2) by (simp add: list_set_def list_update_beyond flip: k_def)
  next
    case True
    define p where "p = ps ! k"
    have l: "heap_wf h" "links h lst ps" "distinct (lst # ps)" "\<And>q. q \<in> set (lst # ps) \<Longrightarrow> is_node (heap_in_block h) q"
      using ps(1) by (auto simp: list_nodes_def)
    have pin: "p \<in> set ps" using True by (simp add: p_def)
    then have pn: "is_node (heap_in_block h) p" using l(4) by simp
    then have call: "list_set lst item pos h = Some (set_elem p item h, 0)"
      using node_at_ok[OF ps(1), of pos] True by (simp add: list_set_def is_node_def p_def flip: k_def)
    have nx: "next_of (set_elem p item h) q = next_of h q" if "q \<in> set (lst # ps)" for q
      using heap_blocks.node_words[OF l(1) pn l(4)[OF that]] by (simp add: mem_set_elem)
    have "path (set_elem p item h) lst ps \<longleftrightarrow> path h lst ps"
      by (rule path_cong) (use nx in \<open>blast dest: in_set_butlastD\<close>)
    moreover have "next_of (set_elem p item h) (last (lst # ps)) = next_of h (last (lst # ps))"
      by (rule nx) (rule last_in_set, simp)
    ultimately have "links (set_elem p item h) lst ps" using l(2) by (simp add: links_path)
    then have "list_nodes (set_elem p item h) lst ps"
      using l set_field_node(3,4)[OF l(1) pn] by (simp add: list_nodes_def)
    moreover have "map (mem (set_elem p item h)) ps = xs[k := item]"
    proof (rule nth_equalityI)
      fix i assume "i < length (map (mem (set_elem p item h)) ps)"
      then have i: "i < length ps" by simp
      have "ps ! i = p \<longleftrightarrow> i = k" using l(3) i True by (simp add: p_def nth_eq_iff_index_eq)
      then show "map (mem (set_elem p item h)) ps ! i = xs[k := item] ! i"
        using i True by (simp add: ps(2) mem_set_elem nth_list_update)
    qed (simp add: ps(2))
    ultimately show ?thesis using call True ps(2) unfolding list_ok_def k_def[symmetric] by (metis length_map)
  qed
qed

lemma list_count_refines:
  assumes "list_ok h lst xs"
  shows "list_count lst h = Some (of_nat (length xs))"
  using assms by (auto simp: list_ok_def list_nodes_def list_count_def count_nodes_links)

text \<open>C13: The list library implements lists: on the chain of nodes of a list of elements, appending, inserting,
  removing, reading, writing and counting have the effect of the list operations, whatever blocks the allocator
  hands out, and change no list when no memory is left. Inserting at a position that is not one of
  1 to the length appends.\<close>

theorem list_operations_refine:
  assumes "list_ok h lst xs"
  shows "(\<exists>h' r. list_append lst item h = Some (h', r) \<and> (r = 0 \<and> list_ok h' lst (xs @ [item]) \<or> r = - 1 \<and> list_ok h' lst xs))
    \<and> (\<exists>h' r. list_insert lst item pos h = Some (h', r) \<and>
        (r = 0 \<and> list_ok h' lst (insert_at item (unat pos) xs) \<or> r = - 1 \<and> list_ok h' lst xs))
    \<and> (\<exists>h'. list_remove lst pos h = Some (h', if unat pos < length xs then 0 else - 1) \<and> list_ok h' lst (remove_at (unat pos) xs))
    \<and> list_get lst pos h = Some (if unat pos < length xs then xs ! unat pos else 0)
    \<and> (\<exists>h'. list_set lst item pos h = Some (h', if unat pos < length xs then 0 else - 1) \<and> list_ok h' lst (xs[unat pos := item]))
    \<and> list_count lst h = Some (of_nat (length xs))"
  using assms by (intro conjI list_append_refines list_insert_refines list_remove_refines list_get_refines
      list_set_refines list_count_refines)

text \<open>A new list is empty.\<close>

lemma list_init_empty:
  assumes "heap_wf h"
  shows "\<exists>h' lst. list_init h = Some (h', lst) \<and> (lst \<noteq> 0 \<longrightarrow> list_ok h' lst [])"
proof -
  obtain h' t where call: "heap_malloc 8 h = Some (h', t)" using heap_blocks.alloc_ends[OF assms, of 8] by auto
  have "list_ok (set_elem t 0 (set_next t 0 h')) t []" if "t \<noteq> 0"
  proof -
    have wf: "heap_wf h'" "is_node (heap_in_block h') t" using heap_blocks.new_node[OF assms call that] by blast+
    have n: "heap_wf (set_next t 0 h')" "is_node (heap_in_block (set_next t 0 h')) t"
      using set_field_node[OF wf] wf by blast+
    have "heap_wf (set_elem t 0 (set_next t 0 h'))" "is_node (heap_in_block (set_elem t 0 (set_next t 0 h'))) t"
      using set_field_node[OF n] n by blast+
    then show ?thesis unfolding list_ok_def list_nodes_def
      by (intro exI[of _ "[]"]) (simp add: mem_set_elem mem_set_next)
  qed
  then show ?thesis using call by (auto simp: list_init_def)
qed

theorem list_operations_refine_witness:
  "\<exists>h. list_ok h 0x1008 [] \<and> (\<exists>h' r. list_append 0x1008 7 h = Some (h', r)
      \<and> (r = 0 \<and> list_ok h' 0x1008 ([] @ [7]) \<or> r = - 1 \<and> list_ok h' 0x1008 []))"
proof -
  have "heap_wf small_heap" using small_heap_ok by (auto simp: heap_wf_def)
  then obtain h' lst where i: "list_init small_heap = Some (h', lst)" "lst \<noteq> 0 \<longrightarrow> list_ok h' lst []"
    using list_init_empty by blast
  have "map_option snd (list_init small_heap) = Some 0x1008" by code_simp
  then have "lst = 0x1008" using i(1) by simp
  then have ok: "list_ok h' 0x1008 []" using i(2) by simp
  from list_operations_refine[OF ok, of 7 0] ok show ?thesis by blast
qed

end
