(* ===== verification/Rt_Props.thy ===== *)
theory Rt_Props
  imports Rt_Sched Linked_List_Props
begin

text \<open>
  The scheduler: what one context switch does to every task and which task it picks, the invariant it keeps,
  the schedule of the task with the shortest period, and what adding, deleting and starting do.
\<close>

unbundle bit_operations_syntax

subsection \<open>The specification of one switch\<close>

text \<open>A task that has used its capacity is done; a task that is done is released at multiples of its period.\<close>

definition eligible :: "rt_task \<Rightarrow> bool" where
  "eligible t \<longleftrightarrow> t_state t \<noteq> BLOCKED \<and> t_state t \<noteq> DONE"

definition release :: "u32 \<Rightarrow> rt_task \<Rightarrow> rt_task" where
  "release now t = (if t_state t = DONE \<and> sint (t_period t) dvd sint now then t\<lparr>t_executed := 0, t_state := READY\<rparr> else t)"

definition rt_next :: "rt_sys \<Rightarrow> u32 \<Rightarrow> rt_task" where
  "rt_next s p = release (rt_time s) (rt_task_at (rt_check_budget s) p)"

definition run_tick :: "rt_task \<Rightarrow> rt_task" where
  "run_tick t = t\<lparr>t_state := RUNNING, t_executed := t_executed t + 1\<rparr>"

abbreviation period_at :: "rt_sys \<Rightarrow> u32 \<Rightarrow> int" where "period_at s p \<equiv> sint (t_period (rt_task_at s p))"
abbreviation capacity_at :: "rt_sys \<Rightarrow> u32 \<Rightarrow> int" where "capacity_at s p \<equiv> sint (t_capacity (rt_task_at s p))"
abbreviation executed_at :: "rt_sys \<Rightarrow> u32 \<Rightarrow> int" where "executed_at s p \<equiv> sint (t_executed (rt_task_at s p))"

definition task_ok :: "rt_sys \<Rightarrow> u32 \<Rightarrow> bool" where
  "task_ok s p \<longleftrightarrow> 0 < capacity_at s p \<and> capacity_at s p \<le> period_at s p
     \<and> 0 \<le> executed_at s p \<and> executed_at s p \<le> capacity_at s p
     \<and> t_state (rt_task_at s p) \<noteq> SYS
     \<and> (t_state (rt_task_at s p) = DONE \<longrightarrow> executed_at s p = capacity_at s p)
     \<and> (p = rt_running_task s \<longrightarrow> t_state (rt_task_at s p) = RUNNING)
     \<and> (p \<noteq> rt_running_task s \<longrightarrow> t_state (rt_task_at s p) \<noteq> DONE \<longrightarrow> executed_at s p < capacity_at s p)"

definition rt_ok :: "rt_sys \<Rightarrow> u32 list \<Rightarrow> bool" where
  "rt_ok s xs \<longleftrightarrow> list_ok (rt_heap s) (rt_list_task s) xs \<and> distinct xs
     \<and> rt_idle_task s \<notin> set xs \<and> rt_running_task s \<in> insert (rt_idle_task s) (set xs)
     \<and> period_at s (rt_idle_task s) = 65535 \<and> 0 \<le> sint (rt_time s) \<and> (\<forall>p\<in>set xs. task_ok s p)"

subsection \<open>The scan of the task list\<close>

fun rt_visits :: "u32 list \<Rightarrow> rt_sys \<Rightarrow> rt_sys option" where
  "rt_visits [] s = Some s"
| "rt_visits (p # ps) s = do { s \<leftarrow> rt_visit p s; rt_visits ps s }"

lemma rt_visit_frame: "rt_visit p s = Some s' \<Longrightarrow> rt_heap s' = rt_heap s"
  by (auto simp: rt_visit_def rt_compete_def set_task_def Let_def split: if_splits Option.bind_splits)

lemma rt_scan_links:
  "links (rt_heap s) e ps \<Longrightarrow> rt_scan (next_of (rt_heap s) e) s = rt_visits (map (mem (rt_heap s)) ps) s"
proof (induction ps arbitrary: e s)
  case Nil
  then show ?case by (simp add: rt_scan.simps)
next
  case (Cons q qs)
  show ?case
  proof (cases "rt_visit (mem (rt_heap s) q) s")
    case None
    then show ?thesis using Cons.prems by (simp add: rt_scan.simps[of q])
  next
    case (Some s')
    then have h: "rt_heap s' = rt_heap s" by (rule rt_visit_frame)
    have "rt_scan (next_of (rt_heap s') q) s' = rt_visits (map (mem (rt_heap s')) qs) s'"
      by (rule Cons.IH) (use Cons.prems h in simp)
    then show ?thesis using Cons.prems Some h by (simp add: rt_scan.simps[of q])
  qed
qed

lemma c_mod_pos:
  assumes "0 < sint y" "0 \<le> sint x"
  shows "\<exists>r. c_mod x y = Some r \<and> (r = 0 \<longleftrightarrow> sint y dvd sint x)"
proof -
  have "y \<noteq> 0" "y \<noteq> - 1" using assms(1) by auto
  have e: "sint x smod sint y = sint x mod sint y"
    using assms by (cases "sint x = 0") (simp_all add: smod_int_alt_def)
  have b: "0 \<le> sint x mod sint y" using assms(1) by (simp add: pos_mod_sign)
  have b': "sint x mod sint y < 2 ^ 31"
    by (rule less_trans[OF pos_mod_bound[OF assms(1)]]) (use sint_lt[of y] in simp)
  have "(word_of_int (sint x smod sint y) :: u32) = 0 \<longleftrightarrow> sint x smod sint y = 0"
  proof
    assume "(word_of_int (sint x smod sint y) :: u32) = 0"
    then have "uint (word_of_int (sint x smod sint y) :: u32) = 0" by simp
    then have "sint x mod sint y mod 2 ^ 32 = 0" unfolding e uint_word_of_int by simp
    then show "sint x smod sint y = 0" using b b' e by simp
  qed simp
  moreover have "sint x smod sint y = 0 \<longleftrightarrow> sint y dvd sint x" unfolding e by (simp add: dvd_eq_mod_eq_0)
  ultimately show ?thesis using \<open>y \<noteq> 0\<close> \<open>y \<noteq> - 1\<close> by (simp add: c_mod_def)
qed

text \<open>The choice among the tasks seen so far: the first of the shortest period.\<close>

definition better :: "rt_sys \<Rightarrow> u32 \<Rightarrow> u32 \<Rightarrow> u32" where
  "better s p b = (if eligible (release (rt_time s) (rt_task_at s p)) \<and> period_at s p < period_at s b then p else b)"

lemma release_period [simp]: "t_period (release now t) = t_period t" "t_capacity (release now t) = t_capacity t" "t_id (release now t) = t_id t"
  by (simp_all add: release_def)

lemma rt_visit_eq:
  assumes "0 < period_at s p" "0 \<le> sint (rt_time s)"
  shows "rt_visit p s = Some (s\<lparr>rt_task_at := (rt_task_at s)(p := release (rt_time s) (rt_task_at s p)),
           rt_running_task := better s p (rt_running_task s)\<rparr>)"
proof -
  obtain r where r: "c_mod (rt_time s) (t_period (rt_task_at s p)) = Some r"
      "r = 0 \<longleftrightarrow> sint (t_period (rt_task_at s p)) dvd sint (rt_time s)"
    using c_mod_pos[OF assms] by blast
  show ?thesis
    by (cases "t_state (rt_task_at s p)")
       (auto simp: rt_visit_def r(1) r(2) better_def release_def eligible_def rt_compete_def running_task_def set_task_def
         word_sless_alt Let_def)
qed

lemma rt_visits_eq:
  assumes "distinct xs" "\<forall>p\<in>set xs. 0 < period_at s p" "0 \<le> sint (rt_time s)"
  shows "rt_visits xs s = Some (s\<lparr>rt_task_at := (\<lambda>q. if q \<in> set xs then release (rt_time s) (rt_task_at s q) else rt_task_at s q),
           rt_running_task := fold (better s) xs (rt_running_task s)\<rparr>)"
  using assms
proof (induction xs arbitrary: s)
  case Nil
  then show ?case by simp
next
  case (Cons p ps)
  let ?s = "s\<lparr>rt_task_at := (rt_task_at s)(p := release (rt_time s) (rt_task_at s p)), rt_running_task := better s p (rt_running_task s)\<rparr>"
  have "rt_visits ps ?s = Some (?s\<lparr>rt_task_at := (\<lambda>q. if q \<in> set ps then release (rt_time ?s) (rt_task_at ?s q) else rt_task_at ?s q),
      rt_running_task := fold (better ?s) ps (rt_running_task ?s)\<rparr>)"
    by (rule Cons.IH) (use Cons.prems in auto)
  moreover have "fold (better ?s) ps b = fold (better s) ps b" for b
  proof (rule fold_cong)
    fix x assume "x \<in> set ps"
    then have "x \<noteq> p" using Cons.prems(1) by auto
    then show "better ?s x = better s x" by (auto simp: better_def fun_eq_iff)
  qed simp_all
  moreover have "rt_visit p s = Some ?s" by (rule rt_visit_eq) (use Cons.prems in auto)
  ultimately show ?case using Cons.prems(1) by (auto simp: fun_eq_iff intro!: rt_sys.equality)
qed

lemma fold_better:
  "fold (better s) xs b \<in> insert b (set xs) \<and> period_at s (fold (better s) xs b) \<le> period_at s b
   \<and> (fold (better s) xs b \<noteq> b \<longrightarrow> eligible (release (rt_time s) (rt_task_at s (fold (better s) xs b))))
   \<and> (\<forall>p\<in>set xs. eligible (release (rt_time s) (rt_task_at s p)) \<longrightarrow> period_at s (fold (better s) xs b) \<le> period_at s p)"
proof (induction xs arbitrary: b)
  case Nil
  then show ?case by simp
next
  case (Cons x xs)
  show ?case using Cons.IH[of "better s x b"] by (auto simp: better_def split: if_splits)
qed

subsection \<open>One context switch\<close>

text \<open>What holds of a task after the budget check and after the release, whether or not it was running.\<close>

definition budget_ok :: "rt_task \<Rightarrow> bool" where
  "budget_ok t \<longleftrightarrow> 0 < sint (t_capacity t) \<and> sint (t_capacity t) \<le> sint (t_period t) \<and> 0 \<le> sint (t_executed t)
     \<and> t_state t \<noteq> SYS
     \<and> (if t_state t = DONE then sint (t_executed t) = sint (t_capacity t) else sint (t_executed t) < sint (t_capacity t))"

lemma rt_check_budget_frame [simp]:
  "rt_heap (rt_check_budget s) = rt_heap s" "rt_time (rt_check_budget s) = rt_time s"
  "rt_list_task (rt_check_budget s) = rt_list_task s" "rt_idle_task (rt_check_budget s) = rt_idle_task s"
  "t_period (rt_task_at (rt_check_budget s) p) = t_period (rt_task_at s p)"
  "t_capacity (rt_task_at (rt_check_budget s) p) = t_capacity (rt_task_at s p)"
  "t_id (rt_task_at (rt_check_budget s) p) = t_id (rt_task_at s p)"
  by (simp_all add: rt_check_budget_def set_task_def Let_def)

lemma budget_checked:
  assumes "rt_ok s xs"
  shows "p \<in> set xs \<Longrightarrow> budget_ok (rt_task_at (rt_check_budget s) p)"
    "rt_running_task (rt_check_budget s) \<in> insert (rt_idle_task s) (set xs)"
    "p \<in> set xs \<Longrightarrow> rt_running_task (rt_check_budget s) = p \<Longrightarrow> t_state (rt_task_at (rt_check_budget s) p) = RUNNING"
proof -
  let ?r = "rt_running_task s"
  have ok: "p \<in> set xs \<Longrightarrow> task_ok s p" for p using assms by (simp add: rt_ok_def)
  have eq: "t_executed (rt_task_at s q) = t_capacity (rt_task_at s q) \<longleftrightarrow> executed_at s q = capacity_at s q" for q
    by (metis signed_word_eqI)
  show "p \<in> set xs \<Longrightarrow> budget_ok (rt_task_at (rt_check_budget s) p)"
    using ok[of p] eq[of p] by (cases "p = ?r") (auto simp: budget_ok_def task_ok_def rt_check_budget_def set_task_def Let_def)
  show "rt_running_task (rt_check_budget s) \<in> insert (rt_idle_task s) (set xs)"
    using assms by (simp add: rt_ok_def rt_check_budget_def set_task_def Let_def)
  show "p \<in> set xs \<Longrightarrow> rt_running_task (rt_check_budget s) = p \<Longrightarrow> t_state (rt_task_at (rt_check_budget s) p) = RUNNING"
    using ok[of p] assms by (auto simp: task_ok_def rt_ok_def rt_check_budget_def set_task_def Let_def split: if_splits)
qed

lemma release_budget_ok: "budget_ok t \<Longrightarrow> budget_ok (release now t)"
  by (auto simp: budget_ok_def release_def)

lemma release_running: "t_state t = RUNNING \<Longrightarrow> release now t = t"
  by (simp add: release_def)

lemma run_tick_ok:
  assumes "budget_ok t" "eligible t"
  shows "sint (t_executed (run_tick t)) = sint (t_executed t) + 1"
    "t_period (run_tick t) = t_period t" "t_capacity (run_tick t) = t_capacity t" "t_state (run_tick t) = RUNNING" "t_id (run_tick t) = t_id t"
proof -
  have "t_executed t <s t_capacity t" using assms by (simp add: budget_ok_def eligible_def word_sless_alt)
  then show "sint (t_executed (run_tick t)) = sint (t_executed t) + 1" using sint_inc_less(1) by (simp add: run_tick_def)
qed (simp_all add: run_tick_def)

lemma switch_step:
  assumes ok: "rt_ok s xs" and time: "sint (rt_time s) + 1 < 2 ^ 31"
  shows "\<exists>s'. rt_context_switch s = Some (s', rt_running_id s' + 2) \<and> rt_running_id s' = t_id (running_task s')
    \<and> rt_ok s' xs \<and> rt_time s' = rt_time s + 1 \<and> rt_idle_task s' = rt_idle_task s
    \<and> (\<forall>p\<in>set xs. rt_task_at s' p = (if p = rt_running_task s' then run_tick (rt_next s p) else rt_next s p))
    \<and> (\<forall>p\<in>set xs. eligible (rt_next s p) \<longrightarrow> period_at s' (rt_running_task s') \<le> period_at s p)
    \<and> (rt_running_task s' \<in> set xs \<longrightarrow> eligible (rt_next s (rt_running_task s')))
    \<and> (\<forall>p\<in>set xs. budget_ok (rt_next s p))"
proof -
  obtain h t where m: "heap_malloc 32 (rt_heap s) = Some (h, t)" and l: "list_ok h (rt_list_task s) xs"
    using list_ok_malloc[of "rt_heap s" "rt_list_task s" xs 32] ok by (auto simp: rt_ok_def)
  define s1 where "s1 = rt_check_budget (s\<lparr>rt_heap := h, rt_jmp := (rt_jmp s)(0 := In_Switch)\<rparr>)"
  have at0: "rt_task_at s1 = rt_task_at (rt_check_budget s)" "rt_running_task s1 = rt_running_task (rt_check_budget s)"
    by (simp_all add: s1_def rt_check_budget_def set_task_def Let_def)
  have fr1: "rt_heap s1 = h" "rt_time s1 = rt_time s" "rt_list_task s1 = rt_list_task s" "rt_idle_task s1 = rt_idle_task s"
      "t_period (rt_task_at s1 q) = t_period (rt_task_at s q)" for q
    by (simp_all add: s1_def)
  have nxt: "release (rt_time s) (rt_task_at s1 p) = rt_next s p" for p by (simp add: rt_next_def at0)
  have bud: "budget_ok (rt_next s p)" if "p \<in> set xs" for p
    unfolding rt_next_def by (rule release_budget_ok) (rule budget_checked(1)[OF ok that])
  define r where "r = fold (better s1) xs (rt_running_task s1)"
  let ?s2 = "s1\<lparr>rt_task_at := (\<lambda>q. if q \<in> set xs then release (rt_time s1) (rt_task_at s1 q) else rt_task_at s1 q), rt_running_task := r\<rparr>"
  obtain ps where ps: "links h (rt_list_task s) ps" "xs = map (mem h) ps" using l by (auto simp: list_ok_def list_nodes_def)
  have pos: "\<forall>p\<in>set xs. 0 < period_at s1 p" using ok by (force simp: rt_ok_def task_ok_def fr1)
  have "rt_visits xs s1 = Some ?s2" unfolding r_def by (rule rt_visits_eq) (use ok pos in \<open>auto simp: rt_ok_def fr1\<close>)
  then have scan: "rt_scan (next_of (rt_heap s1) (rt_list_task s1)) s1 = Some ?s2"
    using rt_scan_links[of s1 "rt_list_task s" ps] ps by (simp add: fr1)
  let ?s3 = "rt_dispatch ?s2"
  have run: "rt_context_switch s = Some (?s3, rt_running_id ?s3 + 2)"
    by (simp only: rt_context_switch_def m bind.bind_lunit prod.case Let_def s1_def[symmetric] scan)
  note fb = fold_better[of s1 xs "rt_running_task s1", folded r_def]
  have el: "eligible (rt_next s r)" if "r \<in> set xs"
  proof (cases "r = rt_running_task s1")
    case True
    then have "t_state (rt_task_at (rt_check_budget s) r) = RUNNING" using budget_checked(3)[OF ok that] at0 by simp
    then show ?thesis by (simp add: rt_next_def release_running eligible_def)
  next
    case False
    then show ?thesis using fb nxt by (simp add: fr1)
  qed
  have r_in: "r \<in> insert (rt_idle_task s) (set xs)" using fb budget_checked(2)[OF ok] at0(2) by auto
  have at3: "rt_task_at ?s3 p = (if p = r then run_tick (rt_next s p) else rt_next s p)" if "p \<in> set xs" for p
    using that nxt by (cases "p = r") (simp_all add: rt_dispatch_def set_task_def Let_def run_tick_def fr1)
  have fr: "rt_running_task ?s3 = r" "rt_time ?s3 = rt_time s + 1" "rt_idle_task ?s3 = rt_idle_task s" "rt_list_task ?s3 = rt_list_task s"
      "rt_heap ?s3 = h" "rt_running_id ?s3 = t_id (running_task ?s3)" "t_period (rt_task_at ?s3 q) = t_period (rt_task_at s q)" for q
    by (simp_all add: rt_dispatch_def set_task_def Let_def running_task_def fr1)
  have "rt_ok ?s3 xs"
  proof -
    have "task_ok ?s3 p" if p: "p \<in> set xs" for p
    proof (cases "p = r")
      case True
      then show ?thesis using run_tick_ok[OF bud[OF p]] el bud[OF p] p at3[OF p] fr(1) by (auto simp: task_ok_def budget_ok_def eligible_def)
    next
      case False
      then show ?thesis using bud[OF p] at3[OF p] fr(1) by (auto simp: task_ok_def budget_ok_def split: if_splits)
    qed
    moreover have "sint (rt_time s + 1) = sint (rt_time s) + 1"
      using ok time by (simp add: rt_ok_def sint_word_ariths signed_take_bit_int_eq_self)
    ultimately show ?thesis using ok l r_in fr by (simp add: rt_ok_def)
  qed
  then have ok3: "rt_ok ?s3 xs" .
  have rm: "period_at ?s3 r \<le> period_at s p" if "p \<in> set xs" "eligible (rt_next s p)" for p
    using fb that nxt[of p] fr(7) by (simp add: fr1)
  show ?thesis
    by (rule exI[of _ ?s3], unfold fr(1), intro conjI ballI impI) (simp_all add: run fr(6) ok3 fr(2) fr(3) at3 rm el bud)
qed

subsection \<open>Rate-monotonic choice\<close>

fun rt_ticks :: "nat \<Rightarrow> rt_sys \<Rightarrow> rt_sys option" where
  "rt_ticks 0 s = Some s"
| "rt_ticks (Suc n) s = do { s \<leftarrow> rt_ticks n s; (s, _) \<leftarrow> rt_context_switch s; Some s }"

lemma rt_next_eq:
  "rt_next s p = release (rt_time s) (let t = rt_task_at s p in
     if p = rt_running_task s \<and> t_state t \<noteq> SYS \<and> t_executed t = t_capacity t then t\<lparr>t_state := DONE\<rparr> else t)"
  by (auto simp: rt_next_def rt_check_budget_def set_task_def Let_def)

lemma rt_next_params [simp]:
  "t_period (rt_next s p) = t_period (rt_task_at s p)" "t_capacity (rt_next s p) = t_capacity (rt_task_at s p)"
  "t_id (rt_next s p) = t_id (rt_task_at s p)"
  by (simp_all add: rt_next_eq Let_def)

text \<open>The task with the shortest period of all.\<close>

definition top_task :: "rt_sys \<Rightarrow> u32 list \<Rightarrow> u32 \<Rightarrow> bool" where
  "top_task s xs p \<longleftrightarrow> p \<in> set xs \<and> (\<forall>q\<in>insert (rt_idle_task s) (set xs). q \<noteq> p \<longrightarrow> period_at s p < period_at s q)"

lemma top_step:
  assumes "rt_ok s xs" "sint (rt_time s) + 1 < 2 ^ 31" "top_task s xs p"
  shows "\<exists>s' i. rt_context_switch s = Some (s', i) \<and> rt_ok s' xs \<and> sint (rt_time s') = sint (rt_time s) + 1 \<and> top_task s' xs p
    \<and> period_at s' p = period_at s p \<and> capacity_at s' p = capacity_at s p
    \<and> (if eligible (rt_next s p)
       then rt_running_task s' = p \<and> executed_at s' p = sint (t_executed (rt_next s p)) + 1
       else rt_running_task s' \<noteq> p \<and> rt_task_at s' p = rt_next s p)"
proof -
  obtain s' where s': "rt_context_switch s = Some (s', rt_running_id s' + 2)"
    "rt_running_id s' = t_id (running_task s')"
    "rt_ok s' xs"
    "rt_time s' = rt_time s + 1"
    "rt_idle_task s' = rt_idle_task s"
    "(\<forall>p\<in>set xs. rt_task_at s' p = (if p = rt_running_task s' then run_tick (rt_next s p) else rt_next s p))"
    "(\<forall>p\<in>set xs. eligible (rt_next s p) \<longrightarrow> period_at s' (rt_running_task s') \<le> period_at s p)"
    "(rt_running_task s' \<in> set xs \<longrightarrow> eligible (rt_next s (rt_running_task s')))"
    "(\<forall>p\<in>set xs. budget_ok (rt_next s p))"
    using switch_step[OF assms(1,2)] by blast
  have p: "p \<in> set xs" using assms(3) by (simp add: top_task_def)
  have per: "period_at s' q = period_at s q" if "q \<in> insert (rt_idle_task s) (set xs)" for q
  proof (cases "q \<in> set xs")
    case True
    then show ?thesis using s'(6) by (simp add: run_tick_def)
  next
    case False
    then show ?thesis using that assms(1) s'(3,5) by (simp add: rt_ok_def)
  qed
  have cap: "capacity_at s' p = capacity_at s p" using bspec[OF s'(6) p] by (simp add: run_tick_def)
  have run: "rt_running_task s' = p \<longleftrightarrow> eligible (rt_next s p)"
  proof
    assume "rt_running_task s' = p"
    then show "eligible (rt_next s p)" using s'(8) p by simp
  next
    assume "eligible (rt_next s p)"
    then have "period_at s' (rt_running_task s') \<le> period_at s p" using s'(7) p by blast
    moreover have "rt_running_task s' \<in> insert (rt_idle_task s) (set xs)" using s'(3,5) by (simp add: rt_ok_def)
    ultimately show "rt_running_task s' = p" using assms(3) per by (force simp: top_task_def)
  qed
  have tm: "sint (rt_time s') = sint (rt_time s) + 1"
    using assms(1,2) s'(4) by (simp add: rt_ok_def sint_word_ariths signed_take_bit_int_eq_self)
  have tp: "top_task s' xs p" using assms(3) per s'(5) by (simp add: top_task_def)
  have ex: "executed_at s' p = sint (t_executed (rt_next s p)) + 1" if "eligible (rt_next s p)"
    using bspec[OF s'(6) p] run that run_tick_ok(1)[OF bspec[OF s'(9) p] that] by simp
  have fr: "rt_task_at s' p = rt_next s p" if "\<not> eligible (rt_next s p)" using bspec[OF s'(6) p] run that by simp
  have pp: "period_at s' p = period_at s p" using per[of p] p by simp
  show ?thesis using s'(1,3) tm tp pp cap run ex fr by simp
qed

lemma Suc_mod_int:
  assumes "0 < (T :: int)"
  shows "(n + 1) mod T = (if n mod T + 1 = T then 0 else n mod T + 1)"
proof -
  have "(n + 1) mod T = (n mod T + 1) mod T" by (simp add: mod_add_left_eq)
  moreover have "0 \<le> n mod T" "n mod T < T" using assms by (simp_all add: pos_mod_sign pos_mod_bound)
  ultimately show ?thesis by simp
qed

lemma dvd_Suc_int:
  assumes "0 < (T :: int)"
  shows "T dvd n + 1 \<longleftrightarrow> n mod T + 1 = T"
proof -
  have "0 \<le> n mod T" using assms by (simp add: pos_mod_sign)
  then show ?thesis unfolding dvd_eq_mod_eq_0 Suc_mod_int[OF assms] by simp
qed

lemma top_schedule:
  assumes ok: "rt_ok s xs" "rt_time s = 0" "rt_running_task s = rt_idle_task s" "top_task s xs p"
    and rdy: "t_state (rt_task_at s p) = READY" "t_executed (rt_task_at s p) = 0"
  shows "int n + 1 < 2 ^ 31 \<Longrightarrow> \<exists>s'. rt_ticks (Suc n) s = Some s' \<and> rt_ok s' xs \<and> sint (rt_time s') = int n + 1 \<and> top_task s' xs p
    \<and> period_at s' p = period_at s p \<and> capacity_at s' p = capacity_at s p
    \<and> (if int n mod period_at s p < capacity_at s p
       then rt_running_task s' = p \<and> executed_at s' p = int n mod period_at s p + 1
       else rt_running_task s' \<noteq> p \<and> t_state (rt_task_at s' p) = DONE)"
proof (induction n)
  case 0
  have p: "p \<in> set xs" "p \<noteq> rt_idle_task s" and tok: "0 < capacity_at s p" using ok by (auto simp: top_task_def rt_ok_def task_ok_def)
  have n: "rt_next s p = rt_task_at s p" using p(2) ok(3) rdy by (simp add: rt_next_eq release_def Let_def)
  have el: "eligible (rt_next s p)" using n rdy by (simp add: eligible_def)
  have tm: "sint (rt_time s) + 1 < 2 ^ 31" using ok(2) by simp
  obtain s2 i where s2: "rt_context_switch s = Some (s2, i)" "rt_ok s2 xs" "sint (rt_time s2) = sint (rt_time s) + 1" "top_task s2 xs p"
    "period_at s2 p = period_at s p" "capacity_at s2 p = capacity_at s p"
    "rt_running_task s2 = p" "executed_at s2 p = sint (t_executed (rt_next s p)) + 1"
    using top_step[OF ok(1) tm ok(4)] el by (simp only: if_True) blast
  then show ?case using n rdy ok(2) tok by simp
next
  case (Suc n)
  let ?T = "period_at s p" and ?C = "capacity_at s p"
  obtain s1 where s1: "rt_ticks (Suc n) s = Some s1" "rt_ok s1 xs" "sint (rt_time s1) = int n + 1" "top_task s1 xs p"
      "period_at s1 p = ?T" "capacity_at s1 p = ?C"
    and c: "if int n mod ?T < ?C then rt_running_task s1 = p \<and> executed_at s1 p = int n mod ?T + 1
       else rt_running_task s1 \<noteq> p \<and> t_state (rt_task_at s1 p) = DONE"
    using Suc by auto
  have p: "p \<in> set xs" using ok(4) by (simp add: top_task_def)
  then have tok: "task_ok s1 p" "0 < ?C" "?C \<le> ?T" using s1(2) ok(1) by (auto simp: rt_ok_def task_ok_def)
  have tm: "sint (rt_time s1) + 1 < 2 ^ 31" using Suc.prems s1(3) by simp
  obtain s2 i where s2: "rt_context_switch s1 = Some (s2, i)" "rt_ok s2 xs" "sint (rt_time s2) = sint (rt_time s1) + 1" "top_task s2 xs p"
    "period_at s2 p = period_at s1 p" "capacity_at s2 p = capacity_at s1 p"
    "if eligible (rt_next s1 p)
     then rt_running_task s2 = p \<and> executed_at s2 p = sint (t_executed (rt_next s1 p)) + 1
     else rt_running_task s2 \<noteq> p \<and> rt_task_at s2 p = rt_next s1 p"
    using top_step[OF s1(2) tm s1(4)] by blast
  have T: "0 < ?T" using tok by simp
  have sm: "int (Suc n) mod ?T = (if int n mod ?T + 1 = ?T then 0 else int n mod ?T + 1)"
    using Suc_mod_int[OF T, of "int n"] by (simp only: of_nat_Suc add.commute)
  have dvd: "?T dvd int n + 1 \<longleftrightarrow> int n mod ?T + 1 = ?T" by (rule dvd_Suc_int[OF T])
  have eq: "t_executed (rt_task_at s1 p) = t_capacity (rt_task_at s1 p) \<longleftrightarrow> executed_at s1 p = ?C"
    using s1(6) by (metis signed_word_eqI)
  define m where "m = int n mod ?T"
  have m: "0 \<le> m" "m < ?T" using tok by (simp_all add: m_def pos_mod_sign pos_mod_bound)
  have rel: "sint (t_period (rt_task_at s1 p)) dvd sint (rt_time s1) \<longleftrightarrow> m + 1 = ?T" using dvd s1(3,5) by (simp add: m_def)
  have c: "if m < ?C then rt_running_task s1 = p \<and> executed_at s1 p = m + 1
       else rt_running_task s1 \<noteq> p \<and> t_state (rt_task_at s1 p) = DONE" using c by (simp only: m_def)
  have nx: "if (if m + 1 = ?T then 0 else m + 1) < ?C
            then eligible (rt_next s1 p) \<and> sint (t_executed (rt_next s1 p)) = (if m + 1 = ?T then 0 else m + 1)
            else t_state (rt_next s1 p) = DONE"
  proof (cases "m < ?C")
    case True
    then have r: "p = rt_running_task s1" "executed_at s1 p = m + 1" "t_state (rt_task_at s1 p) = RUNNING"
      using c tok(1) by (simp_all add: task_ok_def)
    show ?thesis
    proof (cases "m + 1 = ?C")
      case True
      then have "rt_next s1 p = release (rt_time s1) ((rt_task_at s1 p)\<lparr>t_state := DONE\<rparr>)" using r eq by (simp add: rt_next_eq)
      then show ?thesis using True rel tok m by (simp add: release_def eligible_def)
    next
      case False
      then have "rt_next s1 p = rt_task_at s1 p" using r eq by (simp add: rt_next_eq release_def)
      then show ?thesis using False \<open>m < ?C\<close> r tok by (simp add: eligible_def)
    qed
  next
    case False
    then have "rt_next s1 p = release (rt_time s1) (rt_task_at s1 p)" "t_state (rt_task_at s1 p) = DONE" using c by (auto simp: rt_next_eq)
    then show ?thesis using False rel tok m by (simp add: release_def eligible_def)
  qed
  have "rt_ticks (Suc (Suc n)) s = Some s2" using s1(1) s2(1) by simp
  moreover have "t_state (rt_next s1 p) = DONE \<Longrightarrow> \<not> eligible (rt_next s1 p)" by (simp add: eligible_def)
  ultimately show ?case using s2 s1(3,5,6) nx unfolding sm m_def[symmetric] by (auto split: if_splits)
qed

text \<open>C14: a context switch of the scheduler is rate monotonic. It always finds a task and jumps to the context of
  that task; every task of the list takes exactly the step its budget and its period ask for (a task that has used
  its capacity stops, a task that stopped starts anew at a multiple of its period); the task that runs is ready and
  no ready task has a shorter period; and no task ever runs for more than its capacity between two releases,
  which is part of the invariant.\<close>

theorem rt_rate_monotonic:
  assumes "rt_ok s xs" "sint (rt_time s) + 1 < 2 ^ 31"
  shows "\<exists>s'. rt_context_switch s = Some (s', t_id (rt_task_at s' (rt_running_task s')) + 2)
    \<and> rt_ok s' xs \<and> rt_time s' = rt_time s + 1
    \<and> (\<forall>p\<in>set xs. rt_task_at s' p = (if p = rt_running_task s' then run_tick (rt_next s p) else rt_next s p))
    \<and> (rt_running_task s' \<in> set xs \<longrightarrow> eligible (rt_next s (rt_running_task s')))
    \<and> (\<forall>p\<in>set xs. eligible (rt_next s p) \<longrightarrow> period_at s' (rt_running_task s') \<le> period_at s p)"
proof -
  obtain s' where "rt_context_switch s = Some (s', rt_running_id s' + 2)" "rt_running_id s' = t_id (running_task s')"
    and r: "rt_ok s' xs \<and> rt_time s' = rt_time s + 1
    \<and> (\<forall>p\<in>set xs. rt_task_at s' p = (if p = rt_running_task s' then run_tick (rt_next s p) else rt_next s p))
    \<and> (rt_running_task s' \<in> set xs \<longrightarrow> eligible (rt_next s (rt_running_task s')))
    \<and> (\<forall>p\<in>set xs. eligible (rt_next s p) \<longrightarrow> period_at s' (rt_running_task s') \<le> period_at s p)"
    using switch_step[OF assms] by blast
  then have "rt_context_switch s = Some (s', t_id (rt_task_at s' (rt_running_task s')) + 2)" by (simp add: running_task_def)
  then show ?thesis using r by blast
qed

text \<open>C15: the task with the shortest period is served in every period. If all tasks are counted from time 0, the
  switch at time \<open>n\<close> runs it exactly if \<open>n\<close> is among the first \<open>capacity\<close> time units of one of its periods.\<close>

theorem top_priority_schedule:
  assumes "rt_ok s xs" "rt_time s = 0" "rt_running_task s = rt_idle_task s" "top_task s xs p"
    "t_state (rt_task_at s p) = READY" "t_executed (rt_task_at s p) = 0" "int n + 1 < 2 ^ 31"
  shows "\<exists>s'. rt_ticks (Suc n) s = Some s' \<and> (rt_running_task s' = p \<longleftrightarrow> int n mod period_at s p < capacity_at s p)"
  using top_schedule[OF assms] by (metis (no_types, lifting))

subsection \<open>Adding tasks\<close>

text \<open>The tasks of \<open>xs\<close> were added and the scheduler was not started: the numbers are the positions.\<close>

definition rt_loaded :: "rt_sys \<Rightarrow> u32 list \<Rightarrow> bool" where
  "rt_loaded s xs \<longleftrightarrow> list_ok (rt_heap s) (rt_list_task s) xs \<and> distinct xs \<and> rt_running_id s = of_nat (length xs)
     \<and> (\<forall>k<length xs. t_id (rt_task_at s (xs ! k)) = of_nat k)
     \<and> (\<forall>p\<in>set xs. heap_in_block (rt_heap s) p p \<and> t_state (rt_task_at s p) \<in> {READY, BLOCKED}
         \<and> t_period (rt_task_at s p) \<noteq> 0 \<and> t_capacity (rt_task_at s p) \<noteq> 0 \<and> capacity_at s p \<le> period_at s p)"

lemma set_field_blocks:
  assumes "heap_wf h" "is_node (heap_in_block h) p"
  shows "heap_in_block (set_next p v h) q x \<longleftrightarrow> heap_in_block h q x" "heap_in_block (set_elem p v h) q x \<longleftrightarrow> heap_in_block h q x"
  using heap_blocks.poke[OF assms(1), of p p v q x] heap_blocks.poke[OF assms(1), of p "p + 4" v q x] assms(2)
  by (simp_all add: set_next_def set_elem_def is_node_def)

lemma list_append_blocks:
  assumes ok: "list_ok h lst xs" and call: "list_append lst item h = Some (h', r)" and x: "heap_in_block h q x"
  shows "heap_in_block h' q x"
proof -
  obtain ps where ps: "list_nodes h lst ps" using ok by (auto simp: list_ok_def)
  then have wf: "heap_wf h" by (simp add: list_nodes_def)
  obtain g t where m: "heap_malloc 8 h = Some (g, t)" using heap_blocks.alloc_ends[OF wf, of 8] by auto
  have sm: "unat (8 :: u32) + 12 < 2 ^ 32" by simp
  have kg: "heap_wf g" "heap_in_block g q x" using heap_blocks.alloc_keeps[OF wf sm m, of q x] x by auto
  show ?thesis
  proof (cases "t = 0")
    case True
    then show ?thesis using call m kg by (simp add: list_append_def)
  next
    case False
    define f where "f = set_next t 0 (set_elem t item g)"
    have t: "is_node (heap_in_block g) t" using list_nodes_malloc(3)[OF ps m False] by blast
    then have te: "heap_wf (set_elem t item g)" "is_node (heap_in_block (set_elem t item g)) t"
      using set_field_node[OF kg(1)] by auto
    have f: "heap_wf f" "heap_in_block f q x" "is_node (heap_in_block f) p \<longleftrightarrow> is_node (heap_in_block g) p" for p
      using set_field_node[OF te] set_field_node[OF kg(1) t] set_field_blocks[OF te] set_field_blocks[OF kg(1) t] kg(2)
      by (simp_all add: f_def)
    have "links f lst ps" using insert_new_node(1)[of h lst ps "[]" g t item] ps m False by (simp add: f_def)
    then have l: "last_node f lst = Some (last (lst # ps))" by (rule last_node_links)
    have "is_node (heap_in_block g) (last (lst # ps))"
      using list_nodes_malloc(1)[OF ps m] last_in_set[of "lst # ps"] by (simp only: list_nodes_def) blast
    then have "is_node (heap_in_block f) (last (lst # ps))" using f(3) by simp
    then have "heap_in_block (set_next (last (lst # ps)) t f) q x" using set_field_blocks(1) f(1,2) by blast
    then show ?thesis using call m False l by (simp add: list_append_def flip: f_def)
  qed
qed

lemma rt_loaded_Nil: "rt_loaded s [] \<longleftrightarrow> list_ok (rt_heap s) (rt_list_task s) [] \<and> rt_running_id s = 0"
  by (simp add: rt_loaded_def)

text \<open>What a task is after it was added; the store keeps every other task.\<close>

definition new_task :: "u32 \<Rightarrow> u32 \<Rightarrow> u32 \<Rightarrow> u32 \<Rightarrow> u32 \<Rightarrow> enum_state \<Rightarrow> rt_task \<Rightarrow> bool" where
  "new_task i f period capacity deadline state t \<longleftrightarrow> t_function t = f \<and> t_id t = i \<and> t_period t = period
     \<and> t_capacity t = capacity \<and> t_deadline t = deadline \<and> t_state t = state"

definition valid_task :: "u32 \<Rightarrow> u32 \<Rightarrow> enum_state \<Rightarrow> bool" where
  "valid_task period capacity state \<longleftrightarrow> state \<in> {READY, BLOCKED} \<and> period \<noteq> 0 \<and> capacity \<noteq> 0 \<and> sint capacity \<le> sint period"

definition heap_full :: "u32 \<Rightarrow> u32 \<Rightarrow> heap \<Rightarrow> bool" where
  "heap_full n m h \<longleftrightarrow> (\<exists>h1 p. heap_malloc n h = Some (h1, p) \<and> (p = 0 \<or> (\<exists>h2. heap_malloc m h1 = Some (h2, 0))))"

lemma rt_add_task_invalid:
  "\<not> valid_task period capacity state \<Longrightarrow> rt_add_task f period capacity deadline name state s = Some (s, 0)"
  by (auto simp: valid_task_def rt_add_task_def word_sless_alt not_less)

lemma add_task_loaded:
  assumes ld: "rt_loaded s xs" and nm: "length name + 12 < 2 ^ 32" and v: "valid_task period capacity state"
  shows "(case rt_add_task f period capacity deadline name state s of
      None \<Rightarrow> heap_full 32 (of_nat (length name)) (rt_heap s)
    | Some (s', r) \<Rightarrow> rt_list_task s' = rt_list_task s \<and> (\<forall>q\<in>set xs. rt_task_at s' q = rt_task_at s q) \<and>
        (r = 1 \<and> (\<exists>p. p \<notin> set xs \<and> rt_loaded s' (xs @ [p])
             \<and> new_task (of_nat (length xs)) f period capacity deadline state (rt_task_at s' p)
             \<and> t_executed (rt_task_at s' p) = t_executed (rt_task_at s p))
         \<or> r = 0 \<and> rt_loaded s' xs))"
proof -
  have ok: "list_ok (rt_heap s) (rt_list_task s) xs" and dist: "distinct xs" and blk: "q \<in> set xs \<Longrightarrow> heap_in_block (rt_heap s) q q" for q
    using ld by (auto simp: rt_loaded_def)
  have wf: "heap_wf (rt_heap s)" using ok by (auto simp: list_ok_def list_nodes_def)
  have sm: "unat (32 :: u32) + 12 < 2 ^ 32" by simp
  have sn: "unat (of_nat (length name) :: u32) + 12 < 2 ^ 32" using nm by (simp add: unat_of_nat take_bit_nat_eq_self)
  obtain h1 p where m1: "heap_malloc 32 (rt_heap s) = Some (h1, p)" using heap_blocks.alloc_ends[OF wf sm] by auto
  have ok1: "list_ok h1 (rt_list_task s) xs" using list_ok_malloc[OF ok sm] m1 by auto
  note k1 = heap_blocks.alloc_keeps[OF wf sm m1]
  obtain h2 n where m2: "heap_malloc (of_nat (length name)) h1 = Some (h2, n)" using heap_blocks.alloc_ends[of h1] k1 sn by blast
  have ok2: "list_ok h2 (rt_list_task s) xs" using list_ok_malloc[OF ok1 sn] m2 by auto
  have k2: "heap_in_block h1 q x \<Longrightarrow> heap_in_block h2 q x" for q x using heap_blocks.alloc_keeps[OF _ sn m2, of q x] k1 by blast
  have v': "state = READY \<or> state = BLOCKED" "period \<noteq> 0" "capacity \<noteq> 0" "\<not> period <s capacity"
    using v by (auto simp: valid_task_def word_sless_alt)
  show ?thesis
  proof (cases "p = 0 \<or> n = 0 \<and> name \<noteq> []")
    case True
    then have "heap_full 32 (of_nat (length name)) (rt_heap s)" using m1 m2 by (auto simp: heap_full_def)
    then show ?thesis using m1 m2 True v' by (auto simp: rt_add_task_def)
  next
    case False
    let ?t = "(rt_task_at s p)\<lparr>t_function := f, t_id := rt_running_id s, t_name := n, t_period := period,
                 t_capacity := capacity, t_deadline := deadline, t_state := state\<rparr>"
    obtain h3 r where a: "list_append (rt_list_task s) p h2 = Some (h3, r)"
      "r = 0 \<and> list_ok h3 (rt_list_task s) (xs @ [p]) \<or> r = - 1 \<and> list_ok h3 (rt_list_task s) xs"
      using list_append_refines[OF ok2, of p] by blast
    define s1 where "s1 = (set_task p ?t (s\<lparr>rt_name_at := (rt_name_at s)(n := name)\<rparr>))\<lparr>rt_heap := h3\<rparr>"
    have run: "rt_add_task f period capacity deadline name state s =
        Some (if r \<noteq> 0 then (s1, 0) else (s1\<lparr>rt_running_id := rt_running_id s + 1\<rparr>, 1))"
      using m1 m2 a(1) v' False by (auto simp: rt_add_task_def s1_def set_task_def Let_def)
    have new: "p \<notin> set xs" "heap_in_block h1 p p" using heap_blocks.alloc_new[OF wf sm m1, of p] False blk by auto
    have b3: "heap_in_block h1 q x \<Longrightarrow> heap_in_block h3 q x" for q x
      using list_append_blocks[OF ok2 a(1) k2] .
    have blk3: "heap_in_block h3 q q" if "q \<in> set xs" for q using b3 k1 blk[OF that] by blast
    have fr: "rt_heap s1 = h3" "rt_list_task s1 = rt_list_task s" "rt_running_id s1 = rt_running_id s"
      "rt_task_at s1 = (rt_task_at s)(p := ?t)" by (simp_all add: s1_def set_task_def)
    have other: "rt_task_at s1 q = rt_task_at s q" if "q \<in> set xs" for q using that new(1) fr(4) by auto
    have i: "rt_running_id s = of_nat (length xs)" using ld by (simp add: rt_loaded_def)
    show ?thesis
    proof (cases "r = 0")
      case True
      have "rt_loaded (s1\<lparr>rt_running_id := rt_running_id s + 1\<rparr>) (xs @ [p])"
        using ld a(2) True new blk3 b3 v fr other
        by (auto simp: rt_loaded_def valid_task_def nth_append less_Suc_eq)
      moreover have "new_task (of_nat (length xs)) f period capacity deadline state (rt_task_at s1 p)"
        "t_executed (rt_task_at s1 p) = t_executed (rt_task_at s p)" using fr(4) i by (simp_all add: new_task_def)
      ultimately show ?thesis using run True new(1) fr(2) other by auto
    next
      case r: False
      then have "rt_loaded s1 xs" using ld a(2) blk3 fr other by (auto simp: rt_loaded_def)
      then show ?thesis using run r fr(2) other by simp
    qed
  qed
qed

text \<open>Adding a task. A task with a state other than ready or blocked, with no period, no capacity or more
  capacity than period is refused and nothing changes. A task that is accepted goes to the end of the
  list under the number of its position, and no other task changes; without memory for the list node
  nothing is added, and only without memory for the task or its name does the code write through a null pointer.\<close>

theorem rt_add_task_registers:
  assumes "rt_loaded s xs" "length name + 12 < 2 ^ 32"
  shows "case rt_add_task f period capacity deadline name state s of
      None \<Rightarrow> valid_task period capacity state \<and> heap_full 32 (of_nat (length name)) (rt_heap s)
    | Some (s', r) \<Rightarrow> (\<forall>q\<in>set xs. rt_task_at s' q = rt_task_at s q) \<and>
        (r = 1 \<and> valid_task period capacity state \<and> (\<exists>p. p \<notin> set xs \<and> rt_loaded s' (xs @ [p])
             \<and> new_task (of_nat (length xs)) f period capacity deadline state (rt_task_at s' p))
         \<or> r = 0 \<and> rt_loaded s' xs \<and> (\<not> valid_task period capacity state \<longrightarrow> s' = s))"
proof (cases "valid_task period capacity state")
  case True
  then show ?thesis using add_task_loaded[OF assms True, of f deadline]
    by (cases "rt_add_task f period capacity deadline name state s") auto
next
  case False
  then show ?thesis using assms(1) by (simp add: rt_add_task_invalid)
qed

subsection \<open>Deleting tasks\<close>

text \<open>Tasks are deleted by their position, not by their number. After the task \<open>a\<close> was deleted, deleting the
  task \<open>b > a\<close> removes the task whose number is \<open>b + 1\<close>, and the task with the number \<open>b\<close> stays.\<close>

theorem rt_delete_shifts:
  assumes "rt_loaded s xs" "a < b" "b + 1 < length xs"
  shows "\<exists>s1 s2. rt_del_task (of_nat a) s = Some (s1, 0) \<and> rt_del_task (of_nat b) s1 = Some (s2, 0)
    \<and> list_ok (rt_heap s2) (rt_list_task s2) (remove_at b (remove_at a xs))
    \<and> xs ! b \<in> set (remove_at b (remove_at a xs)) \<and> xs ! (b + 1) \<notin> set (remove_at b (remove_at a xs))
    \<and> t_id (rt_task_at s (xs ! b)) = of_nat b \<and> t_id (rt_task_at s (xs ! (b + 1))) = of_nat (b + 1)"
proof -
  have ok: "list_ok (rt_heap s) (rt_list_task s) xs" and d: "distinct xs" using assms(1) by (simp_all add: rt_loaded_def)
  obtain ps where "list_nodes (rt_heap s) (rt_list_task s) ps" "length ps = length xs" using ok by (auto simp: list_ok_def)
  then have "length xs < 2 ^ 32" using list_nodes_length by metis
  then have u: "unat (of_nat a :: u32) = a" "unat (of_nat b :: u32) = b"
    using assms(2,3) by (simp_all add: unat_of_nat take_bit_nat_eq_self)
  obtain h1 where h1: "list_remove (rt_list_task s) (of_nat a) (rt_heap s) = Some (h1, 0)" "list_ok h1 (rt_list_task s) (remove_at a xs)"
    using list_remove_refines[OF ok, of "of_nat a"] assms u by auto
  have l: "length (remove_at a xs) = length xs - 1" using assms by (simp add: remove_at_def)
  obtain h2 where h2: "list_remove (rt_list_task s) (of_nat b) h1 = Some (h2, 0)" "list_ok h2 (rt_list_task s) (remove_at b (remove_at a xs))"
    using list_remove_refines[OF h1(2), of "of_nat b"] assms u l by auto
  have ra: "remove_at a xs = take a xs @ drop (Suc a) xs" by (simp add: remove_at_def)
  have da: "distinct (remove_at a xs)" using d by (simp add: ra set_take_disj_set_drop_if_distinct)
  have nb: "remove_at a xs ! b = xs ! (b + 1)" using assms by (simp add: ra nth_append)
  have na: "remove_at a xs ! (b - 1) = xs ! b" using assms by (auto simp: ra nth_append)
  have "xs ! (b + 1) \<notin> set (remove_at b (remove_at a xs))"
  proof -
    have "remove_at a xs = take b (remove_at a xs) @ xs ! (b + 1) # drop (Suc b) (remove_at a xs)"
      using id_take_nth_drop[of b "remove_at a xs"] assms l nb by simp
    then have "distinct (take b (remove_at a xs) @ xs ! (b + 1) # drop (Suc b) (remove_at a xs))" using da by metis
    then show ?thesis by (simp add: remove_at_def[of b])
  qed
  moreover have "xs ! b \<in> set (remove_at b (remove_at a xs))"
  proof -
    have "remove_at b (remove_at a xs) ! (b - 1) = xs ! b" "b - 1 < length (remove_at b (remove_at a xs))"
      using na assms l by (auto simp: remove_at_def[of b] nth_append)
    then show ?thesis by (metis nth_mem)
  qed
  moreover have "t_id (rt_task_at s (xs ! b)) = of_nat b \<and> t_id (rt_task_at s (xs ! (b + 1))) = of_nat (b + 1)"
    using assms by (auto simp: rt_loaded_def)
  ultimately show ?thesis using h1 h2 by (simp add: rt_del_task_def)
qed

subsection \<open>Starting\<close>

definition first_function :: "rt_sys \<Rightarrow> u32" where
  "first_function s = t_function (rt_task_at s (mem (rt_heap s) (next_of (rt_heap s) (rt_list_task s))))"

declare rt_enter_tasks.simps [simp del]

lemma enter_tasks:
  "\<exists>r. rt_enter_tasks count s = s\<lparr>rt_running_id := r, rt_jmp := (\<lambda>i. if sint (rt_running_id s) < sint i \<and> sint i \<le> sint (count + 1)
     then In_Task (first_function s) else rt_jmp s i)\<rparr>"
proof (induction count s rule: rt_enter_tasks.induct)
  case (1 count s)
  show ?case
  proof (cases "rt_running_id s <s count + 1")
    case True
    define s1 where "s1 = s\<lparr>rt_running_id := rt_running_id s + 1\<rparr>"
    let ?f = "first_function s"
    let ?s2 = "task_enter ?f s1"
    have step: "rt_enter_tasks count s = rt_enter_tasks count ?s2"
      using True by (subst rt_enter_tasks.simps) (simp add: Let_def first_function_def s1_def)
    have ff: "first_function ?s2 = ?f" by (simp add: first_function_def task_enter_def s1_def)
    have inc: "sint (rt_running_id s + 1) = sint (rt_running_id s) + 1" "sint (rt_running_id s) < sint (count + 1)"
      using sint_inc_less[OF True] by simp_all
    have "\<exists>r. rt_enter_tasks count ?s2 = ?s2\<lparr>rt_running_id := r, rt_jmp := (\<lambda>i. if sint (rt_running_id ?s2) < sint i
        \<and> sint i \<le> sint (count + 1) then In_Task (first_function ?s2) else rt_jmp ?s2 i)\<rparr>"
      using 1[OF True refl refl] by (simp add: first_function_def s1_def cong: if_cong)
    then obtain r where r: "rt_enter_tasks count ?s2 = ?s2\<lparr>rt_running_id := r, rt_jmp := (\<lambda>i. if sint (rt_running_id ?s2) < sint i
        \<and> sint i \<le> sint (count + 1) then In_Task (first_function ?s2) else rt_jmp ?s2 i)\<rparr>" by blast
    have "(if sint (rt_running_id ?s2) < sint i \<and> sint i \<le> sint (count + 1) then In_Task (first_function ?s2) else rt_jmp ?s2 i)
      = (if sint (rt_running_id s) < sint i \<and> sint i \<le> sint (count + 1) then In_Task ?f else rt_jmp s i)" for i
    proof (cases "i = rt_running_id s + 1")
      case True
      then show ?thesis using inc by (simp add: task_enter_def s1_def)
    next
      case False
      then have "sint i \<noteq> sint (rt_running_id s) + 1" using inc(1) by (metis signed_word_eqI)
      then show ?thesis using False inc(1) unfolding ff by (auto simp: task_enter_def s1_def)
    qed
    then have "rt_enter_tasks count ?s2 = s\<lparr>rt_running_id := r, rt_jmp := (\<lambda>i. if sint (rt_running_id s) < sint i
        \<and> sint i \<le> sint (count + 1) then In_Task ?f else rt_jmp s i)\<rparr>"
      unfolding r by (simp only:) (simp add: task_enter_def s1_def)
    then show ?thesis using step by auto
  next
    case False
    then have "sint (count + 1) \<le> sint (rt_running_id s)" by (simp add: word_sless_alt)
    then have "(\<lambda>i. if sint (rt_running_id s) < sint i \<and> sint i \<le> sint (count + 1) then In_Task (first_function s) else rt_jmp s i) = rt_jmp s"
      by (auto simp: fun_eq_iff)
    then show ?thesis using False by (subst rt_enter_tasks.simps) (auto intro!: exI[of _ "rt_running_id s"])
  qed
qed

lemma start_keeps:
  assumes "list_ok h lst xs" "\<forall>q\<in>set xs. heap_in_block h q q" "unat n + 12 < 2 ^ 32"
  shows "\<exists>h' p. heap_malloc n h = Some (h', p) \<and> list_ok h' lst xs \<and> (\<forall>q\<in>set xs. heap_in_block h' q q) \<and> (p \<noteq> 0 \<longrightarrow> p \<notin> set xs)"
proof -
  have wf: "heap_wf h" using assms(1) by (auto simp: list_ok_def list_nodes_def)
  obtain h' p where m: "heap_malloc n h = Some (h', p)" "list_ok h' lst xs" using list_ok_malloc[OF assms(1,3)] by blast
  have "\<forall>q\<in>set xs. heap_in_block h' q q" using heap_blocks.alloc_keeps[OF wf assms(3) m(1)] assms(2) by blast
  moreover have "p \<noteq> 0 \<longrightarrow> p \<notin> set xs" using heap_blocks.alloc_new[OF wf assms(3) m(1), of p] assms(2) by blast
  ultimately show ?thesis using m by blast
qed

lemma start_blocks:
  assumes "rt_loaded s xs" "80 * (length xs + 2) + 12 < 2 ^ 32"
  shows "\<exists>h jmp idle. rt_start_blocks s = Some (h, jmp, idle) \<and> list_ok h (rt_list_task s) xs \<and> (idle \<noteq> 0 \<longrightarrow> idle \<notin> set xs)"
proof -
  let ?l = "rt_list_task s"
  have sm: "unat (32 :: u32) + 12 < 2 ^ 32" by simp
  have "unat ((of_nat (length xs) + 2) * 80 :: u32) = (length xs + 2) * 80"
    using assms(2) by (simp add: unat_word_ariths unat_of_nat take_bit_nat_eq_self)
  then have sj: "unat ((of_nat (length xs) + 2) * 80 :: u32) + 12 < 2 ^ 32" using assms(2) by simp
  have h0: "list_ok (rt_heap s) ?l xs" "\<forall>q\<in>set xs. heap_in_block (rt_heap s) q q" using assms(1) by (simp_all add: rt_loaded_def)
  obtain h1 p1 where h1: "heap_malloc 32 (rt_heap s) = Some (h1, p1)" "list_ok h1 ?l xs" "\<forall>q\<in>set xs. heap_in_block h1 q q"
    using start_keeps[OF h0 sm] by blast
  obtain h2 p2 where h2: "heap_malloc 32 h1 = Some (h2, p2)" "list_ok h2 ?l xs" "\<forall>q\<in>set xs. heap_in_block h2 q q"
    using start_keeps[OF h1(2,3) sm] by blast
  obtain h3 p3 where h3: "heap_malloc ((of_nat (length xs) + 2) * 80) h2 = Some (h3, p3)" "list_ok h3 ?l xs" "\<forall>q\<in>set xs. heap_in_block h3 q q"
    using start_keeps[OF h2(2,3) sj] by blast
  obtain h4 p4 where h4: "heap_malloc 32 h3 = Some (h4, p4)" "list_ok h4 ?l xs" "\<forall>q\<in>set xs. heap_in_block h4 q q"
    using start_keeps[OF h3(2,3) sm] by blast
  obtain h5 p5 where h5: "heap_malloc 32 h4 = Some (h5, p5)" "list_ok h5 ?l xs" "p5 \<noteq> 0 \<longrightarrow> p5 \<notin> set xs"
    using start_keeps[OF h4(2,3) sm] by blast
  have "rt_start_blocks s = Some (h5, p3, p5)"
    by (simp add: rt_start_blocks_def h1(1) h2(1) list_count_refines[OF h2(2)] h3(1) h4(1) h5(1) del: distrib_right_numeral)
  then show ?thesis using h5 by blast
qed

lemma sint_of_nat_small: "n < 2 ^ 31 \<Longrightarrow> sint (of_nat n :: u32) = int n"
  by (simp add: signed_of_nat signed_take_bit_int_eq_self)

lemma first_element:
  assumes "list_ok h lst xs" "xs \<noteq> []"
  shows "mem h (next_of h lst) = xs ! 0"
proof -
  obtain ps where ps: "links h lst ps" "xs = map (mem h) ps" using assms(1) by (auto simp: list_ok_def list_nodes_def)
  then show ?thesis using assms(2) by (cases ps) auto
qed

text \<open>Starting with fresh tasks that have positive capacities.\<close>

lemma start_ok:
  assumes ld: "rt_loaded s xs" and ne: "xs \<noteq> []" and len: "80 * (length xs + 2) + 12 < 2 ^ 32"
    and fresh: "\<forall>p\<in>set xs. t_executed (rt_task_at s p) = 0 \<and> 0 < capacity_at s p"
    and blocks: "rt_start_blocks s = Some (h, jmp, idle)" "jmp \<noteq> 0" "idle \<noteq> 0"
  shows "\<exists>s'. rt_start f nm s = Some s' \<and> rt_ok s' xs \<and> rt_running_task s' = rt_idle_task s' \<and> rt_time s' = 0
    \<and> rt_jmp s' 1 = In_Idle \<and> (\<forall>k<length xs. rt_jmp s' (of_nat k + 2) = In_Task (t_function (rt_task_at s (xs ! 0))))
    \<and> (\<forall>p\<in>set xs. rt_task_at s' p = rt_task_at s p)"
proof -
  let ?n = "of_nat (length xs) :: u32"
  have b: "list_ok h (rt_list_task s) xs" "idle \<notin> set xs" using start_blocks[OF ld len] blocks by auto
  define s1 where "s1 = rt_idle_enter ((set_task idle (idle_task f nm (rt_task_at s idle)) s)\<lparr>rt_heap := h, rt_idle_task := idle,
    rt_running_task := idle, rt_running_id := 1, rt_time := 0, rt_jmp := (rt_jmp s)(0 := In_Start)\<rparr>)"
  have s1: "rt_heap s1 = h" "rt_list_task s1 = rt_list_task s" "rt_running_id s1 = 1" "rt_idle_task s1 = idle"
      "rt_running_task s1 = idle" "rt_time s1 = 0" "rt_task_at s1 = (rt_task_at s)(idle := idle_task f nm (rt_task_at s idle))"
      "rt_jmp s1 1 = In_Idle"
    by (simp_all add: s1_def rt_idle_enter_def set_task_def)
  have f1: "first_function s1 = t_function (rt_task_at s (xs ! 0))"
    using first_element[OF b(1) ne] b(2) ne by (auto simp: first_function_def s1)
  obtain r where r: "rt_enter_tasks ?n s1 = s1\<lparr>rt_running_id := r, rt_jmp := (\<lambda>i. if sint (rt_running_id s1) < sint i
      \<and> sint i \<le> sint (?n + 1) then In_Task (first_function s1) else rt_jmp s1 i)\<rparr>"
    using enter_tasks by blast
  let ?s = "rt_clock ((rt_enter_tasks ?n s1)\<lparr>rt_running_id := 0\<rparr>)"
  have "list_count (rt_list_task s) (rt_heap s) = Some ?n" by (rule list_count_refines) (use ld in \<open>simp add: rt_loaded_def\<close>)
  then have run: "rt_start f nm s = Some ?s"
    using blocks by (simp add: rt_start_def rt_task_count_def s1_def Let_def set_task_def)
  have at: "rt_task_at ?s p = rt_task_at s p" if "p \<in> set xs" for p using that b(2) by (auto simp: rt_clock_def r s1)
  have "task_ok ?s p" if p: "p \<in> set xs" for p
    using ld fresh p at[OF p] b(2) by (auto simp: task_ok_def rt_loaded_def rt_clock_def r s1)
  then have "rt_ok ?s xs" using b ld by (simp add: rt_ok_def rt_loaded_def rt_clock_def r s1 idle_task_def)
  moreover have "rt_jmp ?s (of_nat k + 2) = In_Task (t_function (rt_task_at s (xs ! 0)))" if "k < length xs" for k
  proof -
    have "(of_nat k + 2 :: u32) = of_nat (k + 2)" "?n + 1 = of_nat (length xs + 1)" by simp_all
    moreover have "sint (of_nat (k + 2) :: u32) = int (k + 2)" "sint (of_nat (length xs + 1) :: u32) = int (length xs + 1)"
      by (rule sint_of_nat_small, use that len in simp)+
    ultimately have "sint (of_nat k + 2 :: u32) = int (k + 2)" "sint (?n + 1) = int (length xs + 1)" by metis+
    then show ?thesis using that f1 by (simp add: rt_clock_def r s1)
  qed
  ultimately show ?thesis using run at by (auto simp: rt_clock_def r s1)
qed

lemma start_full: "rt_start_blocks s = Some (h, jmp, idle) \<Longrightarrow> jmp = 0 \<or> idle = 0 \<Longrightarrow> rt_start f nm s = None"
  by (cases "rt_task_count s") (auto simp: rt_start_def)

text \<open>Starting the scheduler allocates its blocks, makes the idle task run and establishes the invariant of the
  context switch at time 0. The context saved for every task is the function of the first task of the list: the
  pointer to the list element is set to the first element each time control comes back to \<open>rt_start\<close>, so the functions
  of the other tasks are never called.\<close>

theorem rt_start_first_function:
  assumes "rt_loaded s xs" "xs \<noteq> []" "80 * (length xs + 2) + 12 < 2 ^ 32"
    "\<forall>p\<in>set xs. t_executed (rt_task_at s p) = 0 \<and> 0 < capacity_at s p"
  shows "\<exists>h jmp idle. rt_start_blocks s = Some (h, jmp, idle) \<and>
    (if jmp = 0 \<or> idle = 0 then rt_start f nm s = None
     else \<exists>s'. rt_start f nm s = Some s' \<and> rt_ok s' xs \<and> rt_running_task s' = rt_idle_task s' \<and> rt_time s' = 0
       \<and> (\<forall>p\<in>set xs. rt_task_at s' p = rt_task_at s p) \<and> rt_jmp s' 1 = In_Idle
       \<and> (\<forall>k<length xs. rt_jmp s' (of_nat k + 2) = In_Task (t_function (rt_task_at s (xs ! 0)))))"
proof -
  obtain h jmp idle where b: "rt_start_blocks s = Some (h, jmp, idle)" using start_blocks[OF assms(1,3)] by blast
  show ?thesis
  proof (cases "jmp = 0 \<or> idle = 0")
    case True
    then show ?thesis using b start_full[OF b True] by (intro exI[of _ h] exI[of _ jmp] exI[of _ idle]) simp
  next
    case False
    then show ?thesis using b start_ok[OF assms b, of f nm] by (intro exI[of _ h] exI[of _ jmp] exI[of _ idle]) auto
  qed
qed

subsection \<open>A system with three tasks\<close>

definition blank_sys :: rt_sys where
  "blank_sys = \<lparr>rt_heap = \<lparr>mem = \<lambda>_. 0, first_free = 0, last_free = 0\<rparr>,
     rt_task_at = \<lambda>_. \<lparr>t_function = 0, t_id = 0, t_name = 0, t_period = 0, t_capacity = 0, t_deadline = 0, t_state = READY, t_executed = 0\<rparr>,
     rt_name_at = \<lambda>_. [], rt_list_task = 0, rt_running_task = 0, rt_idle_task = 0, rt_running_id = 0, rt_time = 0,
     rt_jmp = \<lambda>_. In_Start, rt_timer1 = \<lparr>timer1pre = 0, timer1 = 0, timer1ctc = 0, timermask = 0\<rparr>\<rparr>"

definition demo0 :: "rt_sys option" where "demo0 = rt_create 0x1000 blank_sys"
definition demo1 :: "rt_sys option" where
  "demo1 = do { s \<leftarrow> demo0; (s, _) \<leftarrow> rt_add_task 0x100 5 2 0 [0x61] READY s; Some s }"
definition demo2 :: "rt_sys option" where
  "demo2 = do { s \<leftarrow> demo1; (s, _) \<leftarrow> rt_add_task 0x200 10 3 0 [0x62] READY s; Some s }"
definition demo3 :: "rt_sys option" where
  "demo3 = do { s \<leftarrow> demo2; (s, _) \<leftarrow> rt_add_task 0x300 20 4 0 [0x63] READY s; Some s }"

lemma demo_eval:
  "map_option (\<lambda>s. (rt_running_id s, map_option (\<lambda>(h, jmp, idle). jmp \<noteq> 0 \<and> idle \<noteq> 0) (rt_start_blocks s))) demo3 = Some (3, Some True)"
  by code_simp

lemma demo0_eval: "map_option rt_list_task demo0 = Some 0x1008"
  by code_simp

lemma demo0_loaded: "\<exists>s. demo0 = Some s \<and> rt_loaded s [] \<and> (\<forall>p. t_executed (rt_task_at s p) = 0)"
proof -
  have "heap_ok (heap_init 0x1000 8192 (rt_heap blank_sys)) [(0x1000, False)] (0x1000 + 8192 - 8)"
    by (rule heap_init_ok) (simp_all add: dvd_def)
  then have "heap_wf (heap_init 0x1000 8192 (rt_heap blank_sys))" by (auto simp: heap_wf_def)
  then obtain h lst where h: "list_init (heap_init 0x1000 8192 (rt_heap blank_sys)) = Some (h, lst)" "lst \<noteq> 0 \<longrightarrow> list_ok h lst []"
    using list_init_empty by blast
  then have d: "demo0 = Some (blank_sys\<lparr>rt_heap := h, rt_list_task := lst, rt_running_id := 0\<rparr>)" by (simp add: demo0_def rt_create_def)
  have "lst \<noteq> 0" using demo0_eval unfolding d by auto
  then show ?thesis using d h(2)
    by (intro exI[of _ "blank_sys\<lparr>rt_heap := h, rt_list_task := lst, rt_running_id := 0\<rparr>"]) (simp add: rt_loaded_Nil, simp add: blank_sys_def)
qed

lemma add_ready:
  assumes "rt_loaded s xs" "rt_add_task f period capacity deadline [c] READY s = Some (s', r)" "valid_task period capacity READY"
    "\<forall>p. t_executed (rt_task_at s p) = 0"
  shows "\<exists>ps. rt_loaded s' (xs @ ps) \<and> length ps \<le> 1 \<and> (\<forall>q\<in>set xs. rt_task_at s' q = rt_task_at s q)
    \<and> (\<forall>p\<in>set ps. new_task (of_nat (length xs)) f period capacity deadline READY (rt_task_at s' p)) \<and> (\<forall>p. t_executed (rt_task_at s' p) = 0)"
proof -
  have "t_executed (rt_task_at s' p) = t_executed (rt_task_at s p)" for p
    using assms(2,3) by (auto simp: rt_add_task_def set_task_def Let_def split: Option.bind_splits if_splits prod.splits)
  then have ex: "\<forall>p. t_executed (rt_task_at s' p) = 0" using assms(4) by simp
  from add_task_loaded[OF assms(1) _ assms(3), of "[c]" f deadline] assms(2)
  have k: "\<forall>q\<in>set xs. rt_task_at s' q = rt_task_at s q" and c: "r = 1 \<and> (\<exists>p. rt_loaded s' (xs @ [p])
      \<and> new_task (of_nat (length xs)) f period capacity deadline READY (rt_task_at s' p)) \<or> r = 0 \<and> rt_loaded s' xs"
    by auto
  from c show ?thesis
  proof
    assume "r = 1 \<and> (\<exists>p. rt_loaded s' (xs @ [p]) \<and> new_task (of_nat (length xs)) f period capacity deadline READY (rt_task_at s' p))"
    then obtain p where "rt_loaded s' (xs @ [p])" "new_task (of_nat (length xs)) f period capacity deadline READY (rt_task_at s' p)" by blast
    then show ?thesis using k ex by (intro exI[of _ "[p]"]) simp
  next
    assume "r = 0 \<and> rt_loaded s' xs"
    then show ?thesis using k ex by (intro exI[of _ "[]"]) simp
  qed
qed

lemma demo_loaded:
  "\<exists>s p q r. demo3 = Some s \<and> rt_loaded s [p, q, r] \<and> new_task 0 0x100 5 2 0 READY (rt_task_at s p)
    \<and> new_task 1 0x200 10 3 0 READY (rt_task_at s q) \<and> new_task 2 0x300 20 4 0 READY (rt_task_at s r)
    \<and> (\<forall>p. t_executed (rt_task_at s p) = 0)"
proof -
  obtain s0 where s0: "demo0 = Some s0" "rt_loaded s0 []" "\<forall>p. t_executed (rt_task_at s0 p) = 0" using demo0_loaded by blast
  obtain s3 where s3: "demo3 = Some s3" "rt_running_id s3 = 3" using demo_eval by (cases demo3) auto
  obtain s2 r2 where s2: "demo2 = Some s2" "rt_add_task 0x300 20 4 0 [0x63] READY s2 = Some (s3, r2)"
    using s3(1) by (auto simp: demo3_def split: Option.bind_splits)
  obtain s1 r1 where s1: "demo1 = Some s1" "rt_add_task 0x200 10 3 0 [0x62] READY s1 = Some (s2, r1)"
    using s2(1) by (auto simp: demo2_def split: Option.bind_splits)
  obtain r0 where r0: "rt_add_task 0x100 5 2 0 [0x61] READY s0 = Some (s1, r0)"
    using s1(1) unfolding demo1_def s0(1) by (auto split: Option.bind_splits)
  obtain ps where ps: "rt_loaded s1 ps" "length ps \<le> 1" "\<forall>p\<in>set ps. new_task 0 0x100 5 2 0 READY (rt_task_at s1 p)"
      "\<forall>p. t_executed (rt_task_at s1 p) = 0"
    using add_ready[OF s0(2) r0 _ s0(3)] by (auto simp: valid_task_def)
  obtain qs where qs: "rt_loaded s2 (ps @ qs)" "length qs \<le> 1" "\<forall>p\<in>set ps. rt_task_at s2 p = rt_task_at s1 p"
      "\<forall>p\<in>set qs. new_task (of_nat (length ps)) 0x200 10 3 0 READY (rt_task_at s2 p)" "\<forall>p. t_executed (rt_task_at s2 p) = 0"
    using add_ready[OF ps(1) s1(2) _ ps(4)] by (auto simp: valid_task_def)
  obtain rs where rs: "rt_loaded s3 ((ps @ qs) @ rs)" "length rs \<le> 1" "\<forall>p\<in>set (ps @ qs). rt_task_at s3 p = rt_task_at s2 p"
      "\<forall>p\<in>set rs. new_task (of_nat (length (ps @ qs))) 0x300 20 4 0 READY (rt_task_at s3 p)" "\<forall>p. t_executed (rt_task_at s3 p) = 0"
    using add_ready[OF qs(1) s2(2) _ qs(5)] by (auto simp: valid_task_def)
  have "(of_nat (length ps + length qs + length rs) :: u32) = 3" using rs(1) s3(2) by (simp add: rt_loaded_def add.assoc)
  then have "unat (of_nat (length ps + length qs + length rs) :: u32) = 3" by (simp only: unat_numeral) simp
  then have "length ps + length qs + length rs = 3"
    unfolding unat_of_nat using ps(2) qs(2) rs(2) by (simp add: take_bit_nat_eq_self)
  then have "length ps = 1" "length qs = 1" "length rs = 1" using ps(2) qs(2) rs(2) by auto
  then obtain p q r where l: "ps = [p]" "qs = [q]" "rs = [r]" by (auto simp: length_Suc_conv)
  then have "new_task 0 0x100 5 2 0 READY (rt_task_at s3 p)" "new_task 1 0x200 10 3 0 READY (rt_task_at s3 q)"
      "new_task 2 0x300 20 4 0 READY (rt_task_at s3 r)"
    using ps(3) qs(3,4) rs(3,4) by auto
  then show ?thesis using l rs(1,5) s3(1) by (intro exI[of _ s3] exI[of _ p] exI[of _ q] exI[of _ r]) auto
qed

text \<open>The demonstration system after the start: everything the theorems on the running scheduler assume.\<close>

lemma demo_started:
  "\<exists>s xs p. rt_ok s xs \<and> rt_time s = 0 \<and> rt_running_task s = rt_idle_task s \<and> top_task s xs p
    \<and> t_state (rt_task_at s p) = READY \<and> t_executed (rt_task_at s p) = 0 \<and> period_at s p = 5 \<and> capacity_at s p = 2"
proof -
  obtain s p q r where d: "demo3 = Some s" "rt_loaded s [p, q, r]" "new_task 0 0x100 5 2 0 READY (rt_task_at s p)"
    "new_task 1 0x200 10 3 0 READY (rt_task_at s q)" "new_task 2 0x300 20 4 0 READY (rt_task_at s r)"
    "\<forall>p. t_executed (rt_task_at s p) = 0"
    using demo_loaded by blast
  obtain h jmp idle where b: "rt_start_blocks s = Some (h, jmp, idle)" "jmp \<noteq> 0" "idle \<noteq> 0" using demo_eval unfolding d(1) by auto
  have len: "80 * (length [p, q, r] + 2) + 12 < 2 ^ 32" by simp
  have fresh: "\<forall>p\<in>set [p, q, r]. t_executed (rt_task_at s p) = 0 \<and> 0 < capacity_at s p" using d(3-6) by (simp add: new_task_def)
  obtain s' where s': "rt_ok s' [p, q, r]" "rt_running_task s' = rt_idle_task s'" "rt_time s' = 0"
    "\<forall>p\<in>set [p, q, r]. rt_task_at s' p = rt_task_at s p"
    using start_ok[OF d(2) _ len fresh b, of 0 0] by auto
  have "top_task s' [p, q, r] p" using s' d(3-5) by (auto simp: top_task_def rt_ok_def new_task_def)
  then show ?thesis using s' d(3,6) by (intro exI[of _ s'] exI[of _ "[p, q, r]"] exI[of _ p]) (simp add: new_task_def)
qed

theorem rt_rate_monotonic_witness:
  "\<exists>s xs s'. rt_ok s xs \<and> xs \<noteq> [] \<and> rt_context_switch s = Some (s', t_id (rt_task_at s' (rt_running_task s')) + 2) \<and> rt_ok s' xs"
proof -
  obtain s xs p where s: "rt_ok s xs" "rt_time s = 0" "top_task s xs p" using demo_started by blast
  have t: "sint (rt_time s) + 1 < 2 ^ 31" using s(2) by simp
  have "xs \<noteq> []" using s(3) by (auto simp: top_task_def)
  then show ?thesis using rt_rate_monotonic[OF s(1) t] s(1) by blast
qed

theorem top_priority_schedule_witness:
  "\<exists>s xs p s' s''. rt_ok s xs \<and> top_task s xs p \<and> period_at s p = 5 \<and> capacity_at s p = 2
    \<and> rt_ticks (Suc 6) s = Some s' \<and> rt_running_task s' = p \<and> rt_ticks (Suc 7) s = Some s'' \<and> rt_running_task s'' \<noteq> p"
proof -
  obtain s xs p where s: "rt_ok s xs" "rt_time s = 0" "rt_running_task s = rt_idle_task s" "top_task s xs p"
    "t_state (rt_task_at s p) = READY" "t_executed (rt_task_at s p) = 0" "period_at s p = 5" "capacity_at s p = 2"
    using demo_started by blast
  obtain s' where "rt_ticks (Suc 6) s = Some s'" "rt_running_task s' = p \<longleftrightarrow> int 6 mod period_at s p < capacity_at s p"
    using top_priority_schedule[OF s(1-6), of 6] by auto
  moreover obtain s'' where "rt_ticks (Suc 7) s = Some s''" "rt_running_task s'' = p \<longleftrightarrow> int 7 mod period_at s p < capacity_at s p"
    using top_priority_schedule[OF s(1-6), of 7] by auto
  ultimately show ?thesis using s(1,4,7,8)
    by (intro exI[of _ s] exI[of _ xs] exI[of _ p] exI[of _ s'] exI[of _ s'']) simp
qed

theorem rt_add_task_registers_witness:
  "\<exists>s s' p. demo0 = Some s \<and> rt_add_task 0x100 5 2 0 [0x61] READY s = Some (s', 1) \<and> rt_loaded s' [p]"
proof -
  obtain s where s: "demo0 = Some s" "rt_loaded s []" using demo0_loaded by blast
  obtain s1 r where r: "rt_add_task 0x100 5 2 0 [0x61] READY s = Some (s1, r)"
    using demo_eval unfolding demo3_def demo2_def demo1_def s(1) by (auto split: Option.bind_splits)
  have "map_option rt_running_id demo1 = Some 1" by code_simp
  moreover have "demo1 = Some s1" unfolding demo1_def s(1) by (simp add: r)
  ultimately have "rt_running_id s1 = 1" by (metis option.inject option.map(2))
  then have "\<not> rt_loaded s1 []" by (simp add: rt_loaded_Nil)
  then show ?thesis
    using rt_add_task_registers[OF s(2), where name = "[0x61]" and f = "0x100" and period = 5 and capacity = 2 and deadline = 0 and state = READY] r s(1) by auto
qed

theorem rt_delete_shifts_witness:
  "\<exists>s p q r s1 s2. rt_loaded s [p, q, r] \<and> rt_del_task (of_nat 0) s = Some (s1, 0) \<and> rt_del_task (of_nat 1) s1 = Some (s2, 0)
    \<and> list_ok (rt_heap s2) (rt_list_task s2) (remove_at 1 (remove_at 0 [p, q, r]))"
proof -
  obtain s p q r where d: "rt_loaded s [p, q, r]" using demo_loaded by blast
  have l: "(0 :: nat) < 1" "1 + 1 < length [p, q, r]" by simp_all
  show ?thesis using rt_delete_shifts[OF d l] d by blast
qed

theorem rt_start_first_function_witness:
  "\<exists>s s' p q r. rt_loaded s [p, q, r] \<and> t_function (rt_task_at s q) = 0x200 \<and> rt_start 0 0 s = Some s' \<and> rt_jmp s' 3 = In_Task 0x100"
proof -
  obtain s p q r where d: "demo3 = Some s" "rt_loaded s [p, q, r]" "new_task 0 0x100 5 2 0 READY (rt_task_at s p)"
    "new_task 1 0x200 10 3 0 READY (rt_task_at s q)" "new_task 2 0x300 20 4 0 READY (rt_task_at s r)"
    "\<forall>p. t_executed (rt_task_at s p) = 0"
    using demo_loaded by blast
  obtain h jmp idle where b: "rt_start_blocks s = Some (h, jmp, idle)" "jmp \<noteq> 0" "idle \<noteq> 0" using demo_eval unfolding d(1) by auto
  have fresh: "\<forall>p\<in>set [p, q, r]. t_executed (rt_task_at s p) = 0 \<and> 0 < capacity_at s p" using d(3-6) by (simp add: new_task_def)
  have len: "80 * (length [p, q, r] + 2) + 12 < 2 ^ 32" by simp
  obtain s' where s': "rt_start 0 0 s = Some s'" "\<forall>k<length [p, q, r]. rt_jmp s' (of_nat k + 2) = In_Task (t_function (rt_task_at s ([p, q, r] ! 0)))"
    using rt_start_first_function[OF d(2) _ len fresh, of 0 0] b by auto
  have "rt_jmp s' (of_nat 1 + 2) = In_Task (t_function (rt_task_at s ([p, q, r] ! 0)))" using s'(2)[rule_format, of 1] by simp
  then have "rt_jmp s' 3 = In_Task 0x100" using d(3) by (simp add: new_task_def)
  then show ?thesis using s'(1) d(2,4) by (intro exI[of _ s] exI[of _ s'] exI[of _ p] exI[of _ q] exI[of _ r]) (simp add: new_task_def)
qed

end
