(* ===== verification/Irq_Dispatch.thy ===== *)
theory Irq_Dispatch
  imports Prelude "HOL-Library.Monad_Syntax"
begin

text \<open>
  The interrupt dispatcher of lib/interrupt.c. The peripheral registers it reads and writes are the
  record \<open>irq_dev\<close>, which a client extends by its own state; the handlers are a parameter, a
  function on that state for every entry of the vectors. \<open>GPIOCAUSE\<close> and \<open>S0CAUSE\<close> are
  combinations of the other registers, as in devices/peripherals; the input registers change only
  when a handler runs. The events are the calls and the messages in order; \<open>None\<close> is an access past the end of a vector.
\<close>

unbundle bit_operations_syntax

datatype vector_entry = Irq_Vector nat | Gpio_Vector nat | Timer_Vector nat

datatype irq_event = Call vector_entry | Printed string "u32 list"

record irq_dev =
  pin_in :: "nat \<Rightarrow> u32"        \<comment> \<open>PAIN, PBIN, PCIN, PDIN\<close>
  pin_inv :: "nat \<Rightarrow> u32"
  pin_mask :: "nat \<Rightarrow> u32"
  gpiocauseinv :: u32
  gpiomask :: u32
  timercause :: u32
  timercauseinv :: u32
  timer_mask :: u32
  s0_other :: u32
  uart0 :: u32
  uart0div :: u32
  paaltcfg0 :: u32
  irq_mask :: u32
  irq_status :: u32
  events :: "irq_event list"

type_synonym 'a handlers = "vector_entry \<Rightarrow> 'a irq_dev_scheme \<Rightarrow> 'a irq_dev_scheme"

subsection \<open>The cause registers\<close>

definition port_pending :: "nat \<Rightarrow> 'a irq_dev_scheme \<Rightarrow> u32" where
  "port_pending i d = (pin_in d i XOR pin_inv d i) AND pin_mask d i"

definition gpiocause :: "'a irq_dev_scheme \<Rightarrow> u32" where
  "gpiocause d = (if port_pending 0 d \<noteq> 0 then 1 else 0) OR (if port_pending 1 d \<noteq> 0 then 2 else 0)
     OR (if port_pending 2 d \<noteq> 0 then 4 else 0) OR (if port_pending 3 d \<noteq> 0 then 8 else 0)"

definition gpio_pending :: "'a irq_dev_scheme \<Rightarrow> u32" where
  "gpio_pending d = (gpiocause d XOR gpiocauseinv d) AND gpiomask d"

definition timer_pending :: "'a irq_dev_scheme \<Rightarrow> u32" where
  "timer_pending d = (timercause d XOR timercauseinv d) AND timer_mask d"

definition s0cause :: "'a irq_dev_scheme \<Rightarrow> u32" where
  "s0cause d = (if gpio_pending d \<noteq> 0 then 2 else 0) OR (if timer_pending d \<noteq> 0 then 4 else 0) OR (s0_other d AND NOT 6)"

subsection \<open>Calls through the vectors\<close>

definition vector_size :: "vector_entry \<Rightarrow> nat \<times> nat" where
  "vector_size v = (case v of Irq_Vector i \<Rightarrow> (i, 8) | Gpio_Vector i \<Rightarrow> (i, 4) | Timer_Vector i \<Rightarrow> (i, 16))"

definition call_vector :: "'a handlers \<Rightarrow> vector_entry \<Rightarrow> 'a irq_dev_scheme \<Rightarrow> 'a irq_dev_scheme option" where
  "call_vector hs v d = (if fst (vector_size v) < snd (vector_size v) then Some (hs v (d\<lparr>events := events d @ [Call v]\<rparr>)) else None)"

definition emit :: "string \<Rightarrow> u32 list \<Rightarrow> 'a irq_dev_scheme \<Rightarrow> 'a irq_dev_scheme" where
  "emit fmt args d = d\<lparr>events := events d @ [Printed fmt args]\<rparr>"

definition dummy_handler :: "'a irq_dev_scheme \<Rightarrow> 'a irq_dev_scheme" where
  "dummy_handler d = emit ''irq!'' [] d"

lemma drop_bit_less: "drop_bit 1 (x :: u32) \<noteq> 0 \<Longrightarrow> unat (drop_bit 1 x) < unat x"
proof -
  assume "drop_bit 1 x \<noteq> 0"
  then have "x \<noteq> 0" by auto
  then have "0 < unat x" by (simp add: unat_gt_0)
  then show ?thesis unfolding unat_drop_bit_eq by (simp add: drop_bit_eq_div)
qed

text \<open>The loop shared by the three dispatchers: \<open>do { if (irq & 0x1) ... irq >>= 1; ++i; } while (irq)\<close>.\<close>

function each_bit :: "(nat \<Rightarrow> 'b \<Rightarrow> 'b option) \<Rightarrow> u32 \<Rightarrow> nat \<Rightarrow> 'b \<Rightarrow> 'b option" where
  "each_bit svc irq i d =
     (case (if irq AND 1 \<noteq> 0 then svc i d else Some d) of
        None \<Rightarrow> None
      | Some d \<Rightarrow> (let irq = drop_bit 1 irq in if irq \<noteq> 0 then each_bit svc irq (i + 1) d else Some d))"
  by pat_completeness auto

termination
  by (relation "measure (\<lambda>(svc, irq, i, d). unat irq)") (use drop_bit_less in auto)

declare each_bit.simps [simp del]

definition gpio_service :: "'a handlers \<Rightarrow> nat \<Rightarrow> 'a irq_dev_scheme \<Rightarrow> 'a irq_dev_scheme option" where
  "gpio_service hs i d =
     call_vector hs (Gpio_Vector i)
       (if i < 4 then d\<lparr>pin_inv := (pin_inv d)(i := pin_inv d i XOR port_pending i d)\<rparr> else d)"

definition timer_service :: "'a handlers \<Rightarrow> nat \<Rightarrow> 'a irq_dev_scheme \<Rightarrow> 'a irq_dev_scheme option" where
  "timer_service hs i d = call_vector hs (Timer_Vector i) (d\<lparr>timercauseinv := timercauseinv d XOR push_bit i 1\<rparr>)"

text \<open>One round of \<open>irq0_handler\<close>: the switch on \<open>S0CAUSE & k\<close>.\<close>

definition irq0_round :: "'a handlers \<Rightarrow> u32 \<Rightarrow> 'a irq_dev_scheme \<Rightarrow> 'a irq_dev_scheme option" where
  "irq0_round hs k d =
     (let c = s0cause d AND k
      in if c = 2 then each_bit (gpio_service hs) (gpio_pending d) 0 d
         else if c = 4 then each_bit (timer_service hs) (timer_pending d) 0 d
         else if c \<in> {0, 1, 8, 16, 32} then Some d
         else Some (emit (''unknown irq source for S0CAUSE %08x'' @ [CHR 0x0A]) [s0cause d] d))"

text \<open>The round with the mask \<open>push_bit j 1\<close> and the ones behind it.\<close>

lemma push_bit_one_nonzero: "push_bit j (1 :: u32) \<noteq> 0 \<longleftrightarrow> j < 32"
proof -
  have "push_bit j (1 :: u32) = 0 \<longleftrightarrow> 32 \<le> j" by (simp add: push_bit_eq_mult exp_eq_zero_iff)
  then show ?thesis by auto
qed

function irq0_loop :: "'a handlers \<Rightarrow> nat \<Rightarrow> 'a irq_dev_scheme \<Rightarrow> 'a irq_dev_scheme option" where
  "irq0_loop hs j d =
     (case irq0_round hs (push_bit j 1) d of
        None \<Rightarrow> None
      | Some d \<Rightarrow> if s0cause d \<noteq> 0 \<and> push_bit (j + 1) (1 :: u32) \<noteq> 0 then irq0_loop hs (j + 1) d else Some d)"
  by pat_completeness auto
termination
  by (relation "measure (\<lambda>(hs, j, d). 32 - j)") (auto simp only: push_bit_one_nonzero in_measure wf_measure split_conv)

declare irq0_loop.simps [simp del]

definition irq0_handler :: "'a handlers \<Rightarrow> 'a irq_dev_scheme \<Rightarrow> 'a irq_dev_scheme option" where
  "irq0_handler hs d = irq0_loop hs 0 d"

text \<open>Entry 0 of the interrupt vector is \<open>irq0_handler\<close>, the others are the user's.\<close>

definition irq_service :: "'a handlers \<Rightarrow> nat \<Rightarrow> 'a irq_dev_scheme \<Rightarrow> 'a irq_dev_scheme option" where
  "irq_service hs i d =
     (if i = 0 then irq0_handler hs (d\<lparr>events := events d @ [Call (Irq_Vector 0)]\<rparr>) else call_vector hs (Irq_Vector i) d)"

definition irq_handler :: "'a handlers \<Rightarrow> u32 \<Rightarrow> 'a irq_dev_scheme \<Rightarrow> 'a irq_dev_scheme option" where
  "irq_handler hs cause d = each_bit (irq_service hs) cause 0 d"

text \<open>Without \<open>DEBUG_PORT\<close>; \<open>CPU_SPEED\<close> is a parameter of the build.\<close>

definition irq_enable :: "u32 \<Rightarrow> 'a irq_dev_scheme \<Rightarrow> 'a irq_dev_scheme" where
  "irq_enable cpu_speed d =
     d\<lparr>uart0div := ucast (ucast (cpu_speed div 57600) :: u16), uart0 := 0, paaltcfg0 := paaltcfg0 d OR 0x150,
       irq_mask := 1, irq_status := 1\<rparr>"

definition exception_handler :: "u32 \<Rightarrow> u32 \<Rightarrow> u32 \<Rightarrow> u32 \<Rightarrow> 'a irq_dev_scheme \<Rightarrow> 'a irq_dev_scheme \<times> u32" where
  "exception_handler service arg0 arg1 arg2 d =
     (emit ''syscall: %d, [arg0: %d, arg1: %d, arg2: %d]'' [service, arg0, arg1, arg2] d, - 1)"

end
