(* ===== verification/Irq_Props.thy ===== *)
theory Irq_Props
  imports Irq_Dispatch
begin

text \<open>
  The dispatcher of interrupts serves exactly the pending and enabled sources, each once and in ascending order,
  and leaves none of them pending.
\<close>

unbundle bit_operations_syntax

subsection \<open>The loop over the bits of a cause\<close>

definition set_bits_of :: "u32 \<Rightarrow> nat list" where
  "set_bits_of x = filter (bit x) [0..<32]"

fun run_all :: "(nat \<Rightarrow> 'b \<Rightarrow> 'b option) \<Rightarrow> nat list \<Rightarrow> 'b \<Rightarrow> 'b option" where
  "run_all svc [] d = Some d"
| "run_all svc (i # is) d = do { d \<leftarrow> svc i d; run_all svc is d }"

lemma set_bits_of_0 [simp]: "set_bits_of 0 = []"
  by (simp add: set_bits_of_def)

lemma in_set_bits_of [simp]: "i \<in> set (set_bits_of x) \<longleftrightarrow> bit x i"
  using bit_imp_le_length[of x i] by (auto simp: set_bits_of_def)

lemma distinct_set_bits_of [simp]: "distinct (set_bits_of x)"
  by (simp add: set_bits_of_def)

lemma set_bits_of_step:
  "set_bits_of x = (if bit x 0 then [0] else []) @ map Suc (set_bits_of (drop_bit 1 x))"
proof -
  have u: "[0..<32] = 0 # map Suc [0..<31]" by (simp add: map_Suc_upt upt_conv_Cons)
  have v: "[0..<32] = [0..<31] @ [31]" by (simp add: upt_conv_Cons)
  have f: "filter (bit x) (map Suc ns) = map Suc (filter (bit (drop_bit 1 x)) ns)" for ns
    by (simp add: filter_map comp_def bit_drop_bit_eq)
  have n: "\<not> bit (drop_bit 1 x) 31" using bit_imp_le_length[of x 32] by (auto simp: bit_drop_bit_eq)
  have "set_bits_of (drop_bit 1 x) = filter (bit (drop_bit 1 x)) [0..<31]" unfolding set_bits_of_def v using n by simp
  then show ?thesis unfolding set_bits_of_def[of x] u by (simp add: f)
qed

lemma each_bit_run_all: "each_bit svc x i d = run_all svc (map ((+) i) (set_bits_of x)) d"
proof (induction svc x i d rule: each_bit.induct)
  case (1 svc x i d)
  have b: "x AND 1 \<noteq> 0 \<longleftrightarrow> bit x 0" by (simp add: and_one_eq odd_iff_mod_2_eq_one bit_0)
  have e: "(+) (Suc i) = (\<lambda>a. Suc (i + a))" by auto
  have rest: "(let irq = drop_bit 1 x in if irq \<noteq> 0 then each_bit svc irq (i + 1) e else Some e)
      = run_all svc (map ((+) (Suc i)) (set_bits_of (drop_bit 1 x))) e"
    if "(if x AND 1 \<noteq> 0 then svc i d else Some d) = Some e" for e
    using 1[OF that refl] by (cases "drop_bit 1 x = 0") (simp_all add: Let_def e)
  have m: "map ((+) i) (set_bits_of x) = (if bit x 0 then [i] else []) @ map ((+) (Suc i)) (set_bits_of (drop_bit 1 x))"
    by (subst set_bits_of_step) (simp add: comp_def e)
  show ?case
    unfolding each_bit.simps[of svc x i d] m
    using rest b by (cases "bit x 0"; cases "svc i d") auto
qed

lemma each_bit_from_0: "each_bit svc x 0 d = run_all svc (set_bits_of x) d"
proof -
  have "map ((+) 0) (set_bits_of x) = set_bits_of x" by (rule map_idI) simp
  then show ?thesis by (simp only: each_bit_run_all)
qed

subsection \<open>Handlers that leave the interrupt registers alone\<close>

definition quiet :: "'a handlers \<Rightarrow> bool" where
  "quiet hs \<longleftrightarrow> (\<forall>v d. irq_dev.truncate (hs v d) = irq_dev.truncate d)"

lemma quiet_frame:
  assumes "quiet hs"
  shows "pin_in (hs v d) = pin_in d" "pin_inv (hs v d) = pin_inv d" "pin_mask (hs v d) = pin_mask d"
    "gpiocauseinv (hs v d) = gpiocauseinv d" "gpiomask (hs v d) = gpiomask d" "timercause (hs v d) = timercause d"
    "timercauseinv (hs v d) = timercauseinv d" "timer_mask (hs v d) = timer_mask d" "s0_other (hs v d) = s0_other d"
    "events (hs v d) = events d"
  using assms[unfolded quiet_def, rule_format, of v d] by (simp_all add: irq_dev.truncate_def)

text \<open>What serving a list of timers and of ports does to the registers.\<close>

lemma run_timers:
  assumes q: "quiet hs"
  shows "\<forall>i\<in>set is. i < 16 \<Longrightarrow> \<exists>d'. run_all (timer_service hs) is d = Some d'
    \<and> events d' = events d @ map (\<lambda>i. Call (Timer_Vector i)) is
    \<and> timercauseinv d' = fold (\<lambda>i x. x XOR push_bit i 1) is (timercauseinv d) \<and> timercause d' = timercause d \<and> timer_mask d' = timer_mask d
    \<and> gpio_pending d' = gpio_pending d \<and> s0_other d' = s0_other d"
proof (induction "is" arbitrary: d)
  case Nil
  then show ?case by simp
next
  case (Cons i js)
  obtain d1 where d1: "timer_service hs i d = Some d1" "events d1 = events d @ [Call (Timer_Vector i)]"
    "timercauseinv d1 = timercauseinv d XOR push_bit i 1" "timercause d1 = timercause d" "timer_mask d1 = timer_mask d"
    "gpio_pending d1 = gpio_pending d" "s0_other d1 = s0_other d"
    using Cons.prems by (simp add: timer_service_def call_vector_def vector_size_def quiet_frame[OF q] gpio_pending_def gpiocause_def port_pending_def)
  have "\<forall>i\<in>set js. i < 16" using Cons.prems by simp
  from Cons.IH[OF this, of d1] show ?case using d1 by auto
qed

lemma run_ports:
  assumes q: "quiet hs"
  shows "\<forall>i\<in>set is. i < 4 \<Longrightarrow> distinct is \<Longrightarrow> \<exists>d'. run_all (gpio_service hs) is d = Some d'
    \<and> events d' = events d @ map (\<lambda>i. Call (Gpio_Vector i)) is
    \<and> (\<forall>i. port_pending i d' = (if i \<in> set is then 0 else port_pending i d)) \<and> gpiocauseinv d' = gpiocauseinv d \<and> gpiomask d' = gpiomask d
    \<and> timer_pending d' = timer_pending d \<and> timer_mask d' = timer_mask d \<and> s0_other d' = s0_other d"
proof (induction "is" arbitrary: d)
  case Nil
  then show ?case by simp
next
  case (Cons i js)
  have ack: "(a XOR (b XOR ((a XOR b) AND m))) AND m = 0" for a b m :: u32
    by (rule bit_word_eqI) (auto simp: bit_simps)
  obtain d1 where d1: "gpio_service hs i d = Some d1" "events d1 = events d @ [Call (Gpio_Vector i)]"
    "\<forall>j. port_pending j d1 = (if j = i then 0 else port_pending j d)" "gpiocauseinv d1 = gpiocauseinv d" "gpiomask d1 = gpiomask d"
    "timer_pending d1 = timer_pending d" "timer_mask d1 = timer_mask d" "s0_other d1 = s0_other d"
    using Cons.prems by (simp add: gpio_service_def call_vector_def vector_size_def quiet_frame[OF q] port_pending_def timer_pending_def ack)
  have "\<forall>i\<in>set js. i < 4" "distinct js" "i \<notin> set js" using Cons.prems by simp_all
  from Cons.IH[OF this(1,2), of d1] this(3) show ?case using d1 by (auto split: if_splits)
qed

text \<open>Toggling the bits of \<open>x\<close> one by one is an exclusive or with \<open>x\<close>.\<close>

lemma fold_toggle: "distinct is \<Longrightarrow> bit (fold (\<lambda>i x. x XOR push_bit i (1 :: u32)) is y) n \<longleftrightarrow> bit y n \<noteq> (n \<in> set is \<and> n < 32)"
  by (induction "is" arbitrary: y) (auto simp: bit_simps)

lemma toggle_set_bits: "fold (\<lambda>i x. x XOR push_bit i (1 :: u32)) (set_bits_of x) y = y XOR x"
proof (rule bit_word_eqI)
  fix n
  have "bit x n \<Longrightarrow> n < 32" using bit_imp_le_length[of x n] by simp
  then show "bit (fold (\<lambda>i x. x XOR push_bit i (1 :: u32)) (set_bits_of x) y) n \<longleftrightarrow> bit (y XOR x) n"
    by (auto simp only: fold_toggle[OF distinct_set_bits_of] bit_xor_iff in_set_bits_of)
qed

subsection \<open>One interrupt\<close>

lemma small_bits:
  "bit (1 :: u32) i \<longleftrightarrow> i = 0" "bit (2 :: u32) i \<longleftrightarrow> i = 1" "bit (4 :: u32) i \<longleftrightarrow> i = 2" "bit (8 :: u32) i \<longleftrightarrow> i = 3"
proof -
  have e: "bit (2 ^ k :: u32) i \<longleftrightarrow> i = k" if "k < 32" for k using that by (auto simp: bit_exp_iff)
  show "bit (1 :: u32) i \<longleftrightarrow> i = 0" using e[of 0] by simp
  show "bit (2 :: u32) i \<longleftrightarrow> i = 1" using e[of 1] by (simp only: power_one_right)
  have "(2 ^ 2 :: u32) = 4" "(2 ^ 3 :: u32) = 8" by simp_all
  then show "bit (4 :: u32) i \<longleftrightarrow> i = 2" "bit (8 :: u32) i \<longleftrightarrow> i = 3" using e[of 2] e[of 3] by (simp_all only:)
qed

lemma gpio_bits:
  assumes "gpiocauseinv d = 0" "bit (gpio_pending d) i"
  shows "i < 4" "port_pending i d \<noteq> 0"
proof -
  have c: "bit (gpiocause d) i" using assms by (simp add: gpio_pending_def bit_simps)
  note b = small_bits[of i]
  have "i = 0 \<and> port_pending 0 d \<noteq> 0 \<or> i = 1 \<and> port_pending 1 d \<noteq> 0 \<or> i = 2 \<and> port_pending 2 d \<noteq> 0 \<or> i = 3 \<and> port_pending 3 d \<noteq> 0"
    using c unfolding gpiocause_def bit_or_iff 
    by (cases "port_pending 0 d = 0"; cases "port_pending 1 d = 0"; cases "port_pending 2 d = 0"; cases "port_pending 3 d = 0") (simp_all only: b if_True if_False simp_thms bit_0_eq bot_apply bot_bool_def)
  then show "i < 4" "port_pending i d \<noteq> 0" by auto
qed

lemma gpio_bit_iff:
  assumes "gpiocauseinv d = 0" "i < 4"
  shows "bit (gpio_pending d) i \<longleftrightarrow> port_pending i d \<noteq> 0 \<and> bit (gpiomask d) i"
proof -
  note b = small_bits[of i]
  have "bit (gpiocause d) i \<longleftrightarrow> port_pending i d \<noteq> 0"
    using assms(2) unfolding gpiocause_def bit_or_iff by (auto simp: b less_Suc_eq numeral_eq_Suc)
  then show ?thesis using assms(1) by (simp add: gpio_pending_def bit_and_iff)
qed

lemma irq0_loop_step:
  assumes "irq0_round hs (push_bit j 1) d = Some e" "s0cause e = 0 \<Longrightarrow> irq0_loop hs (j + 1) e = Some e" "j < 31"
  shows "irq0_loop hs j d = irq0_loop hs (j + 1) e"
  using assms push_bit_one_nonzero[of "j + 1"] by (subst irq0_loop.simps) auto

text \<open>Rounds that see no source that can be served end with no effect.\<close>

lemma irq0_round_idle:
  assumes "s0cause d AND push_bit j 1 \<in> {0, 1, 8, 16, 32}"
  shows "irq0_round hs (push_bit j 1) d = Some d"
  using assms by (auto simp: irq0_round_def)

lemma and_bit_cases: "x AND push_bit j (1 :: u32) = (if bit x j then push_bit j 1 else 0)"
  by (rule bit_word_eqI) (auto simp: bit_simps)

lemma and_bit_set: "bit x j \<Longrightarrow> x AND push_bit j (1 :: u32) = push_bit j 1"
  by (simp only: and_bit_cases if_True)

lemma irq0_loop_idle:
  assumes "\<And>k. j \<le> k \<Longrightarrow> s0cause d AND push_bit k 1 \<in> {0, 1, 8, 16, 32}" "j < 32"
  shows "irq0_loop hs j d = Some d"
  using assms
proof (induction "31 - j" arbitrary: j)
  case 0
  then have "\<not> push_bit (j + 1) (1 :: u32) \<noteq> 0" unfolding push_bit_one_nonzero by simp
  then show ?case using irq0_round_idle[OF 0(2)[of j]] by (subst irq0_loop.simps) simp
next
  case (Suc n)
  then have IH: "irq0_loop hs (j + 1) d = Some d" by simp
  then show ?case using irq0_round_idle[OF Suc.prems(1)[of j]] by (subst irq0_loop.simps) simp
qed

lemma s0cause_bit:
  "bit (s0cause d) k \<longleftrightarrow> (if k = 1 then gpio_pending d \<noteq> 0 else if k = 2 then timer_pending d \<noteq> 0 else bit (s0_other d) k)"
proof -
  have n: "bit (NOT 6 :: u32) k \<longleftrightarrow> k \<noteq> 1 \<and> k \<noteq> 2 \<and> k < 32"
  proof -
    have "(6 :: u32) = 4 OR 2" by simp
    then show ?thesis using small_bits[of k] by (auto simp only: bit_not_iff bit_or_iff possible_bit_word) simp_all
  qed
  have l: "bit (s0_other d) k \<Longrightarrow> k < 32" using bit_imp_le_length[of "s0_other d" k] by simp
  have one: "bit (if P then 2 else 0 :: u32) k \<longleftrightarrow> P \<and> k = 1" "bit (if P then 4 else 0 :: u32) k \<longleftrightarrow> P \<and> k = 2" for P
    by (cases P; simp only: small_bits if_True if_False simp_thms bit_0_eq bot_apply bot_bool_def)+
  show ?thesis unfolding s0cause_def bit_or_iff bit_and_iff n one using l by (cases "k = 1"; cases "k = 2") auto
qed

lemma irq0_serves:
  assumes q: "quiet hs" and inv: "gpiocauseinv d = 0" and tm: "\<forall>i. bit (timer_mask d) i \<longrightarrow> i < 16" and ot: "\<forall>i. bit (s0_other d) i \<longrightarrow> i < 6"
  shows "\<exists>d'. irq0_handler hs d = Some d' \<and> gpio_pending d' = 0 \<and> timer_pending d' = 0
    \<and> events d' = events d @ map (\<lambda>i. Call (Gpio_Vector i)) (set_bits_of (gpio_pending d))
        @ map (\<lambda>i. Call (Timer_Vector i)) (set_bits_of (timer_pending d))"
proof -
  have p: "push_bit 0 (1 :: u32) = 1" "push_bit (Suc 0) (1 :: u32) = 2" "push_bit 2 (1 :: u32) = 4" "push_bit 3 (1 :: u32) = 8"
    "push_bit 4 (1 :: u32) = 16" "push_bit 5 (1 :: u32) = 32" by simp_all
  have gl: "\<forall>i\<in>set (set_bits_of (gpio_pending d)). i < 4" using gpio_bits[OF inv] by auto
  obtain d1 where d1: "run_all (gpio_service hs) (set_bits_of (gpio_pending d)) d = Some d1"
    "events d1 = events d @ map (\<lambda>i. Call (Gpio_Vector i)) (set_bits_of (gpio_pending d))"
    "\<forall>i. port_pending i d1 = (if i \<in> set (set_bits_of (gpio_pending d)) then 0 else port_pending i d)"
    "gpiocauseinv d1 = gpiocauseinv d" "gpiomask d1 = gpiomask d" "timer_pending d1 = timer_pending d" "timer_mask d1 = timer_mask d"
    "s0_other d1 = s0_other d"
    using run_ports[OF q gl distinct_set_bits_of] by blast
  have g1: "gpio_pending d1 = 0"
  proof (rule bit_word_eqI)
    fix i
    have "\<not> bit (gpio_pending d1) i"
    proof
      assume a: "bit (gpio_pending d1) i"
      have inv1: "gpiocauseinv d1 = 0" using inv d1(4) by simp
      have i: "i < 4" "port_pending i d1 \<noteq> 0" using gpio_bits[OF inv1 a] by auto
      then have "bit (gpio_pending d) i" using a d1(3,5) gpio_bit_iff[OF inv i(1)] gpio_bit_iff[OF inv1 i(1)] by (auto split: if_splits)
      then show False using d1(3) i(2) by simp
    qed
    then show "bit (gpio_pending d1) i = bit 0 i" by simp
  qed
  have tl: "\<forall>i\<in>set (set_bits_of (timer_pending d)). i < 16" using tm by (auto simp: timer_pending_def bit_and_iff)
  obtain d2 where d2: "run_all (timer_service hs) (set_bits_of (timer_pending d)) d1 = Some d2"
    "events d2 = events d1 @ map (\<lambda>i. Call (Timer_Vector i)) (set_bits_of (timer_pending d))"
    "timercauseinv d2 = timercauseinv d1 XOR timer_pending d" "timercause d2 = timercause d1" "timer_mask d2 = timer_mask d1"
    "gpio_pending d2 = gpio_pending d1" "s0_other d2 = s0_other d1"
    using run_timers[OF q tl, of d1] unfolding toggle_set_bits by blast
  have t2: "timer_pending d2 = 0"
  proof -
    have "(c XOR (v XOR ((c XOR v) AND m))) AND m = 0" for c v m :: u32 by (rule bit_word_eqI) (auto simp: bit_simps)
    then show ?thesis using d2(3,4,5) d1(6) by (metis timer_pending_def)
  qed
  have idle: "irq0_loop hs j e = Some e" if "3 \<le> j" "j < 32" "s0_other e = s0_other d" for j e
  proof (rule irq0_loop_idle)
    fix k assume k: "j \<le> k"
    then show "s0cause e AND push_bit k 1 \<in> {0, 1, 8, 16, 32}"
    proof (cases "bit (s0cause e) k")
      case True
      then have "k = 3 \<or> k = 4 \<or> k = 5" using k that(1,3) ot s0cause_bit[of e k] by (auto split: if_splits)
      moreover have "s0cause e AND push_bit k 1 = push_bit k 1" using True by (simp only: and_bit_cases if_True)
      ultimately show ?thesis using p by (elim disjE) simp_all
    next
      case False
      then show ?thesis by (simp only: and_bit_cases if_False) simp
    qed
  qed fact
  have e3: "irq0_loop hs 3 d2 = Some d2" using idle[of 3 d2] d2(7) d1(8) by simp
  have r2: "irq0_round hs (push_bit 2 1) d1 = Some d2"
  proof (cases "timer_pending d = 0")
    case True
    then have "s0cause d1 AND push_bit 2 1 = 0" using s0cause_bit[of d1 2] d1(6) by (simp only: and_bit_cases) simp
    then show ?thesis using d2(1) True by (simp add: irq0_round_def)
  next
    case False
    then have "s0cause d1 AND push_bit 2 1 = 4" using and_bit_set[of "s0cause d1" 2] s0cause_bit[of d1 2] d1(6) p by simp
    then show ?thesis using d2(1) d1(6) by (simp add: irq0_round_def each_bit_from_0)
  qed
  have "irq0_loop hs 2 d1 = irq0_loop hs 3 d2" using irq0_loop_step[OF r2] e3 by simp
  then have e2: "irq0_loop hs 2 d1 = Some d2" using e3 by simp
  have r1: "irq0_round hs (push_bit 1 1) d = Some d1"
  proof (cases "gpio_pending d = 0")
    case True
    then have "s0cause d AND push_bit 1 1 = 0" using s0cause_bit[of d 1] by (simp only: and_bit_cases) simp
    then show ?thesis using d1(1) True by (simp add: irq0_round_def)
  next
    case False
    then have "s0cause d AND push_bit 1 1 = 2" using and_bit_set[of "s0cause d" 1] s0cause_bit[of d 1] p by simp
    then show ?thesis using d1(1) by (simp add: irq0_round_def each_bit_from_0)
  qed
  have n1: "s0cause d1 = 0 \<Longrightarrow> d2 = d1" using s0cause_bit[of d1 2] d1(6) d2(1) by auto
  have e1: "irq0_loop hs 1 d = Some d2" using irq0_loop_step[OF r1] e2 n1 by (simp add: numeral_2_eq_2)
  have n0: "s0cause d = 0 \<Longrightarrow> d2 = d" using s0cause_bit[of d 1] s0cause_bit[of d 2] d1(1,6) d2(1) by auto
  have r0: "irq0_round hs (push_bit 0 1) d = Some d"
  proof (rule irq0_round_idle)
    have "s0cause d AND push_bit 0 1 \<in> {0, push_bit 0 1}" by (simp only: and_bit_cases) simp
    then show "s0cause d AND push_bit 0 1 \<in> {0, 1, 8, 16, 32}" by auto
  qed
  have "irq0_handler hs d = Some d2" unfolding irq0_handler_def using irq0_loop_step[OF r0] e1 n0 by simp
  then show ?thesis using g1 t2 d1(2) d2(2,6) by simp
qed

text \<open>C16: An interrupt of the GPIO ports and timer events. With handlers that leave the interrupt registers alone,
  \<open>GPIOCAUSEINV\<close> at its reset value 0, no timer event from 16 on enabled and no bit from 6 on in the rest of \<open>S0CAUSE\<close>,
  \<open>irq0_handler\<close> ends without running past a vector; it calls the handler of every pending and enabled port and then of
  every pending and enabled timer event, each exactly once and in ascending order, calls nothing else, and no port or timer
  event is pending afterwards. Nothing is claimed of the UART, SPI and I2C causes, which the code recognises and ignores.\<close>

theorem irq0_serves_pending:
  assumes "quiet hs" "gpiocauseinv d = 0" "\<forall>i. bit (timer_mask d) i \<longrightarrow> i < 16" "\<forall>i. bit (s0_other d) i \<longrightarrow> i < 6"
  shows "\<exists>d'. irq0_handler hs d = Some d' \<and> gpio_pending d' = 0 \<and> timer_pending d' = 0
    \<and> events d' = events d @ map (\<lambda>i. Call (Gpio_Vector i)) (set_bits_of (gpio_pending d))
        @ map (\<lambda>i. Call (Timer_Vector i)) (set_bits_of (timer_pending d))"
  using irq0_serves[OF assms] .

definition sample_dev :: irq_dev where
  "sample_dev = \<lparr>pin_in = \<lambda>i. if i = 1 then 4 else 0, pin_inv = \<lambda>_. 0, pin_mask = \<lambda>_. 0xFF, gpiocauseinv = 0, gpiomask = 0xF,
     timercause = 0xD, timercauseinv = 0, timer_mask = 0x5, s0_other = 0, uart0 = 0, uart0div = 0, paaltcfg0 = 0,
     irq_mask = 1, irq_status = 1, events = []\<rparr>"

theorem irq0_serves_pending_witness:
  "\<exists>d'. irq0_handler (\<lambda>v d. d) sample_dev = Some d' \<and> gpio_pending d' = 0 \<and> timer_pending d' = 0
    \<and> events d' = [Call (Gpio_Vector 1), Call (Timer_Vector 0), Call (Timer_Vector 2)]"
proof -
  have t: "\<forall>i. bit (timer_mask sample_dev) i \<longrightarrow> i < 16"
  proof (intro allI impI)
    fix i assume "bit (timer_mask sample_dev) i"
    then have "bit (4 OR 1 :: u32) i" by (simp add: sample_dev_def)
    then show "i < 16" by (auto simp only: bit_or_iff small_bits)
  qed
  have o: "\<forall>i. bit (s0_other sample_dev) i \<longrightarrow> i < 6" by (simp add: sample_dev_def)
  have b: "set_bits_of (gpio_pending sample_dev) = [1]" "set_bits_of (timer_pending sample_dev) = [0, 2]" by code_simp+
  have "quiet (\<lambda>v d. d)" "gpiocauseinv sample_dev = 0" "events sample_dev = []" by (simp_all add: quiet_def sample_dev_def)
  then show ?thesis using irq0_serves_pending[of "\<lambda>v d. d" sample_dev] t o b by simp
qed

lemma run_all_None: "i \<in> set is \<Longrightarrow> (\<And>d. svc i d = None) \<Longrightarrow> run_all svc is d = None"
proof (induction "is" arbitrary: d)
  case (Cons j js)
  then show ?case by (cases "svc j d") auto
qed simp

text \<open>A timer event above 15 that is pending and enabled makes the dispatcher call past the end of the
  timer vector, which has 16 entries, and an interrupt line above 7 past the end of the interrupt vector: the loops
  run over all set bits and do not know the sizes of the vectors.\<close>

theorem irq_vector_overrun:
  assumes "bit (timer_pending d) i" "16 \<le> i" "bit cause j" "8 \<le> j"
  shows "irq0_round hs 4 d = None \<and> irq_handler hs cause d = None"
proof -
  have "run_all (timer_service hs) (set_bits_of (timer_pending d)) d = None"
    by (rule run_all_None[of i]) (use assms in \<open>simp_all add: timer_service_def call_vector_def vector_size_def\<close>)
  then have "each_bit (timer_service hs) (timer_pending d) 0 d = None" by (simp add: each_bit_from_0)
  moreover have "s0cause d AND 4 = 4"
  proof -
    have "timer_pending d \<noteq> 0" using assms(1) by auto
    then have "bit (s0cause d) 2" using s0cause_bit[of d 2] by simp
    then show ?thesis using and_bit_set[of "s0cause d" 2] by simp
  qed
  ultimately have "irq0_round hs 4 d = None" by (simp add: irq0_round_def)
  moreover have "run_all (irq_service hs) (set_bits_of cause) d = None"
    by (rule run_all_None[of j]) (use assms in \<open>simp_all add: irq_service_def call_vector_def vector_size_def\<close>)
  then have "irq_handler hs cause d = None" by (simp add: irq_handler_def each_bit_from_0)
  ultimately show ?thesis by blast
qed

theorem irq_vector_overrun_witness:
  "irq0_round (\<lambda>v d. d) 4 (sample_dev\<lparr>timercause := 0x10000, timer_mask := 0x10000\<rparr>) = None \<and>
   irq_handler (\<lambda>v d. d) 0x100 (sample_dev\<lparr>timercause := 0x10000, timer_mask := 0x10000\<rparr>) = None"
proof -
  have a: "bit (timer_pending (sample_dev\<lparr>timercause := 0x10000, timer_mask := 0x10000\<rparr>)) 16" by code_simp
  have b: "bit (0x100 :: u32) 8" by code_simp
  show ?thesis by (rule irq_vector_overrun[OF a _ b]) simp_all
qed

end
