(* ===== verification/Riscv_Sim.thy ===== *)
theory Riscv_Sim
  imports Prelude
begin

text \<open>
  The HF-RISCV simulator, tools/sim/hf_riscv_sim/hf_riscv_sim.c: the machine state, the memory and
  device registers (\<open>mem_fetch\<close>, \<open>mem_read\<close>, \<open>mem_write\<close>), one instruction (\<open>cycle\<close>) and the
  loop of \<open>main\<close>. The C terminates the process from inside these functions; here that is a value of
  the type \<open>sim_halt\<close>, and so is every operation C leaves undefined.

  Record fields carry the prefix \<open>rv_\<close>, otherwise the names of the C struct \<open>state\<close>. The array
  \<open>sram\<close> is a function from offsets, of which the code uses those below \<open>MEM_SIZE\<close>. The host is
  little endian, as the targets of the simulator are. Standard input is the list of bytes still
  to be read, \<open>rv_out\<close> what the UART printed, \<open>rv_log\<close> the log file when one is open.
\<close>

unbundle bit_operations_syntax

subsection \<open>State\<close>

abbreviation MEM_SIZE :: u32 where "MEM_SIZE \<equiv> 0x00100000"
abbreviation SRAM_BASE :: u32 where "SRAM_BASE \<equiv> 0x40000000"
abbreviation EXIT_TRAP :: u32 where "EXIT_TRAP \<equiv> 0xe0000000"
abbreviation IRQ_VECTOR :: u32 where "IRQ_VECTOR \<equiv> 0xf0000000"
abbreviation IRQ_CAUSE :: u32 where "IRQ_CAUSE \<equiv> 0xf0000010"
abbreviation IRQ_MASK :: u32 where "IRQ_MASK \<equiv> 0xf0000020"
abbreviation IRQ_STATUS :: u32 where "IRQ_STATUS \<equiv> 0xf0000030"
abbreviation IRQ_EPC :: u32 where "IRQ_EPC \<equiv> 0xf0000040"
abbreviation DEBUG_ADDR :: u32 where "DEBUG_ADDR \<equiv> 0xf00000d0"
abbreviation S0CAUSE :: u32 where "S0CAUSE \<equiv> 0xe1000400"
abbreviation GPIOCAUSE :: u32 where "GPIOCAUSE \<equiv> 0xe1010400"
abbreviation GPIOCAUSEINV :: u32 where "GPIOCAUSEINV \<equiv> 0xe1010800"
abbreviation GPIOMASK :: u32 where "GPIOMASK \<equiv> 0xe1010c00"
abbreviation PADDR :: u32 where "PADDR \<equiv> 0xe1014000"
abbreviation PAOUT :: u32 where "PAOUT \<equiv> 0xe1014010"
abbreviation PAIN :: u32 where "PAIN \<equiv> 0xe1014020"
abbreviation PAININV :: u32 where "PAININV \<equiv> 0xe1014030"
abbreviation PAINMASK :: u32 where "PAINMASK \<equiv> 0xe1014040"
abbreviation TIMERCAUSE :: u32 where "TIMERCAUSE \<equiv> 0xe1020400"
abbreviation TIMERCAUSE_INV :: u32 where "TIMERCAUSE_INV \<equiv> 0xe1020800"
abbreviation TIMERMASK :: u32 where "TIMERMASK \<equiv> 0xe1020c00"
abbreviation TIMER0 :: u32 where "TIMER0 \<equiv> 0xe1024000"
abbreviation TIMER1 :: u32 where "TIMER1 \<equiv> 0xe1024400"
abbreviation TIMER1_PRE :: u32 where "TIMER1_PRE \<equiv> 0xe1024410"
abbreviation TIMER1_CTC :: u32 where "TIMER1_CTC \<equiv> 0xe1024420"
abbreviation TIMER1_OCR :: u32 where "TIMER1_OCR \<equiv> 0xe1024430"
abbreviation UARTCAUSE :: u32 where "UARTCAUSE \<equiv> 0xe1030400"
abbreviation UARTCAUSE_INV :: u32 where "UARTCAUSE_INV \<equiv> 0xe1030800"
abbreviation UARTMASK :: u32 where "UARTMASK \<equiv> 0xe1030c00"
abbreviation UART0 :: u32 where "UART0 \<equiv> 0xe1034000"
abbreviation UART0_DIV :: u32 where "UART0_DIV \<equiv> 0xe1034010"

record riscv_state =
  rv_r :: "u32 \<Rightarrow> u32"
  rv_pc :: u32
  rv_pc_next :: u32
  rv_mem :: byte_mem
  rv_vector :: u32
  rv_cause :: u32
  rv_mask :: u32
  rv_status :: u32
  rv_status_dly :: "nat \<Rightarrow> u32"
  rv_epc :: u32
  rv_exception :: u32
  rv_s0cause :: u32
  rv_gpiocause :: u32
  rv_gpiocause_inv :: u32
  rv_gpiomask :: u32
  rv_paddr :: u32
  rv_paout :: u32
  rv_pain :: u32
  rv_pain_inv :: u32
  rv_pain_mask :: u32
  rv_timercause :: u32
  rv_timercause_inv :: u32
  rv_timermask :: u32
  rv_timer0 :: u32
  rv_timer1 :: u32
  rv_timer1_pre :: u32
  rv_timer1_ctc :: u32
  rv_timer1_ocr :: u32
  rv_uartcause :: u32
  rv_uartcause_inv :: u32
  rv_uartmask :: u32
  rv_cycles :: u64
  rv_in :: "u8 list"
  rv_out :: "u8 list"
  rv_log :: "u8 list option"

text \<open>
  Why the simulation stops: the calls of \<open>exit\<close> (through the trap address with register a0, an
  unaligned access, an opcode that is not decoded) and the operations without a defined result.
\<close>

datatype sim_halt =
    Exit_Trap u32
  | Unaligned u32
  | Invalid_Opcode u32
  | Undefined_Shift
  | Undefined_Division
  | Fetch_Out_Of_Bounds u32

text \<open>The status the process ends with; none where C defines no behaviour.\<close>

fun exit_status :: "sim_halt \<Rightarrow> u32 option" where
  "exit_status (Exit_Trap v) = Some v"
| "exit_status (Unaligned a) = Some 1"
| "exit_status (Invalid_Opcode i) = Some 0"
| "exit_status _ = None"

subsection \<open>Memory\<close>

definition load_half :: "byte_mem \<Rightarrow> u32 \<Rightarrow> u16" where
  [c_layout]: "load_half m a = ucast (m a) OR push_bit 8 (ucast (m (a + 1)))"

definition load_word :: "byte_mem \<Rightarrow> u32 \<Rightarrow> u32" where
  [c_layout]: "load_word m a = ucast (m a) OR push_bit 8 (ucast (m (a + 1)))
     OR push_bit 16 (ucast (m (a + 2))) OR push_bit 24 (ucast (m (a + 3)))"

definition store_half :: "byte_mem \<Rightarrow> u32 \<Rightarrow> u16 \<Rightarrow> byte_mem" where
  [c_layout]: "store_half m a v = m(a := ucast v, a + 1 := ucast (drop_bit 8 v))"

definition store_word :: "byte_mem \<Rightarrow> u32 \<Rightarrow> u32 \<Rightarrow> byte_mem" where
  [c_layout]: "store_word m a v = m(a := ucast v, a + 1 := ucast (drop_bit 8 v),
     a + 2 := ucast (drop_bit 16 v), a + 3 := ucast (drop_bit 24 v))"

text \<open>An instruction fetch does not check its alignment, so the last three bytes can be passed.\<close>

definition mem_fetch :: "riscv_state \<Rightarrow> u32 \<Rightarrow> sim_halt + u32" where
  "mem_fetch s address =
     (if MEM_SIZE < address mod MEM_SIZE + 4 then Inl (Fetch_Out_Of_Bounds address)
      else Inr (load_word (rv_mem s) (address mod MEM_SIZE)))"

definition getchar :: "riscv_state \<Rightarrow> u32 \<times> riscv_state" where
  "getchar s = (case rv_in s of [] \<Rightarrow> (- 1, s) | c # cs \<Rightarrow> (ucast c, s\<lparr>rv_in := cs\<rparr>))"

definition mem_read :: "riscv_state \<Rightarrow> u32 \<Rightarrow> u32 \<Rightarrow> sim_halt + (u32 \<times> riscv_state)" where
  "mem_read s sz address =
     (if address = IRQ_VECTOR then Inr (rv_vector s, s)
      else if address = IRQ_CAUSE then Inr (rv_cause s, s)
      else if address = IRQ_MASK then Inr (rv_mask s, s)
      else if address = IRQ_STATUS then Inr (rv_status s, s)
      else if address = IRQ_EPC then Inr (rv_epc s, s)
      else if address = S0CAUSE then Inr (rv_s0cause s, s)
      else if address = GPIOCAUSE then Inr (rv_gpiocause s, s)
      else if address = GPIOCAUSEINV then Inr (rv_gpiocause_inv s, s)
      else if address = GPIOMASK then Inr (rv_gpiomask s, s)
      else if address = PADDR then Inr (rv_paddr s, s)
      else if address = PAOUT then Inr (rv_paout s, s)
      else if address = PAIN then Inr (rv_pain s, s)
      else if address = PAININV then Inr (rv_pain_inv s, s)
      else if address = PAINMASK then Inr (rv_pain_mask s, s)
      else if address = TIMERCAUSE then Inr (rv_timercause s, s)
      else if address = TIMERCAUSE_INV then Inr (rv_timercause_inv s, s)
      else if address = TIMERMASK then Inr (rv_timermask s, s)
      else if address = TIMER0 then Inr (rv_timer0 s, s)
      else if address = TIMER1 then Inr (rv_timer1 s, s)
      else if address = TIMER1_PRE then Inr (rv_timer1_pre s, s)
      else if address = TIMER1_CTC then Inr (rv_timer1_ctc s, s)
      else if address = TIMER1_OCR then Inr (rv_timer1_ocr s, s)
      else if address = UARTCAUSE then Inr (rv_uartcause s, s)
      else if address = UARTCAUSE_INV then Inr (rv_uartcause_inv s, s)
      else if address = UARTMASK then Inr (rv_uartmask s, s)
      else if address = UART0 then Inr (getchar s)
      else if address = UART0_DIV then Inr (0, s)
      else if address \<ge> EXIT_TRAP then Inr (0, s)
      else let ptr = address mod MEM_SIZE in
        if sz = 4 then
          (if address AND 3 \<noteq> 0 then Inl (Unaligned address) else Inr (load_word (rv_mem s) ptr, s))
        else if sz = 2 then
          (if address AND 1 \<noteq> 0 then Inl (Unaligned address)
           else Inr (scast (load_half (rv_mem s) ptr), s))
        else if sz = 1 then Inr (scast (rv_mem s ptr), s)
        else Inr (0, s))"

definition mem_write :: "riscv_state \<Rightarrow> u32 \<Rightarrow> u32 \<Rightarrow> u32 \<Rightarrow> sim_halt + riscv_state" where
  "mem_write s sz address value =
     (if address = IRQ_VECTOR then Inr (s\<lparr>rv_vector := value\<rparr>)
      else if address = IRQ_MASK then Inr (s\<lparr>rv_mask := value\<rparr>)
      else if address = IRQ_STATUS then
        (if value = 0 then Inr (s\<lparr>rv_status := 0, rv_status_dly := (rv_status_dly s)(0 := 0, 1 := 0, 2 := 0, 3 := 0)\<rparr>)
         else Inr (s\<lparr>rv_status_dly := (rv_status_dly s)(3 := value)\<rparr>))
      else if address = IRQ_EPC then Inr (s\<lparr>rv_epc := value\<rparr>)
      else if address = GPIOCAUSE then Inr (s\<lparr>rv_gpiocause := value AND 0xffff\<rparr>)
      else if address = GPIOCAUSEINV then Inr (s\<lparr>rv_gpiocause_inv := value AND 0xffff\<rparr>)
      else if address = GPIOMASK then Inr (s\<lparr>rv_gpiomask := value AND 0xffff\<rparr>)
      else if address = PADDR then Inr (s\<lparr>rv_paddr := value AND 0xffff\<rparr>)
      else if address = PAOUT then Inr (s\<lparr>rv_paout := value AND 0xffff\<rparr>)
      else if address = PAININV then Inr (s\<lparr>rv_pain_inv := value AND 0xffff\<rparr>)
      else if address = PAINMASK then Inr (s\<lparr>rv_pain_mask := value AND 0xffff\<rparr>)
      else if address = TIMERCAUSE_INV then Inr (s\<lparr>rv_timercause_inv := value AND 0xff\<rparr>)
      else if address = TIMERMASK then Inr (s\<lparr>rv_timermask := value AND 0xff\<rparr>)
      else if address = TIMER0 then Inr s
      else if address = TIMER1 then Inr (s\<lparr>rv_timer1 := value AND 0xffff\<rparr>)
      else if address = TIMER1_PRE then Inr (s\<lparr>rv_timer1_pre := value AND 0xffff\<rparr>)
      else if address = TIMER1_CTC then Inr (s\<lparr>rv_timer1_ctc := value AND 0xffff\<rparr>)
      else if address = TIMER1_OCR then Inr (s\<lparr>rv_timer1_ocr := value AND 0xffff\<rparr>)
      else if address = UARTCAUSE_INV then Inr (s\<lparr>rv_uartcause_inv := value AND 0xff\<rparr>)
      else if address = UARTMASK then Inr (s\<lparr>rv_uartmask := value AND 0xff\<rparr>)
      else if address = EXIT_TRAP then Inl (Exit_Trap (rv_r s 10))
      else if address = DEBUG_ADDR then
        Inr (case rv_log s of None \<Rightarrow> s | Some l \<Rightarrow> s\<lparr>rv_log := Some (l @ [ucast value])\<rparr>)
      else if address = UART0 then Inr (s\<lparr>rv_out := rv_out s @ [ucast value]\<rparr>)
      else if address = UART0_DIV then Inr s
      else if address \<ge> EXIT_TRAP then Inr s
      else let ptr = address mod MEM_SIZE in
        if sz = 4 then
          (if address AND 3 \<noteq> 0 then Inl (Unaligned address)
           else Inr (s\<lparr>rv_mem := store_word (rv_mem s) ptr value\<rparr>))
        else if sz = 2 then
          (if address AND 1 \<noteq> 0 then Inl (Unaligned address)
           else Inr (s\<lparr>rv_mem := store_half (rv_mem s) ptr (ucast value)\<rparr>))
        else if sz = 1 then Inr (s\<lparr>rv_mem := (rv_mem s)(ptr := ucast value)\<rparr>)
        else Inr s)"

subsection \<open>Interrupts\<close>

text \<open>The start of \<open>cycle\<close>: an enabled interrupt or a pending exception redirects the fetch.\<close>

definition take_interrupt :: "riscv_state \<Rightarrow> riscv_state" where
  "take_interrupt s =
     (if (rv_status s \<noteq> 0 \<and> rv_cause s AND rv_mask s \<noteq> 0) \<or> rv_exception s \<noteq> 0 then
        s\<lparr>rv_epc := rv_pc_next s, rv_pc := rv_vector s, rv_pc_next := rv_vector s + 4,
          rv_status := 0, rv_exception := 0,
          rv_status_dly := (rv_status_dly s)(0 := 0, 1 := 0, 2 := 0, 3 := 0)\<rparr>
      else s)"

subsection \<open>Decoding\<close>

definition i_opcode :: "u32 \<Rightarrow> u32" where "i_opcode inst = inst AND 0x7f"
definition i_rd :: "u32 \<Rightarrow> u32" where "i_rd inst = drop_bit 7 inst AND 0x1f"
definition i_rs1 :: "u32 \<Rightarrow> u32" where "i_rs1 inst = drop_bit 15 inst AND 0x1f"
definition i_rs2 :: "u32 \<Rightarrow> u32" where "i_rs2 inst = drop_bit 20 inst AND 0x1f"
definition i_funct3 :: "u32 \<Rightarrow> u32" where "i_funct3 inst = drop_bit 12 inst AND 0x7"
definition i_funct7 :: "u32 \<Rightarrow> u32" where "i_funct7 inst = drop_bit 25 inst AND 0x7f"

definition imm_i :: "u32 \<Rightarrow> u32" where
  "imm_i inst = (let i = drop_bit 20 (inst AND 0xfff00000)
     in if inst AND 0x80000000 \<noteq> 0 then i OR 0xfffff000 else i)"

definition imm_s :: "u32 \<Rightarrow> u32" where
  "imm_s inst = (let i = drop_bit 7 (inst AND 0xf80) OR drop_bit 20 (inst AND 0xfe000000)
     in if inst AND 0x80000000 \<noteq> 0 then i OR 0xfffff000 else i)"

definition imm_sb :: "u32 \<Rightarrow> u32" where
  "imm_sb inst = (let i = drop_bit 7 (inst AND 0xf00) OR drop_bit 20 (inst AND 0x7e000000)
       OR push_bit 4 (inst AND 0x80) OR drop_bit 19 (inst AND 0x80000000)
     in if inst AND 0x80000000 \<noteq> 0 then i OR 0xffffe000 else i)"

definition imm_u :: "u32 \<Rightarrow> u32" where
  "imm_u inst = inst AND 0xfffff000"

definition imm_uj :: "u32 \<Rightarrow> u32" where
  "imm_uj inst = (let i = drop_bit 20 (inst AND 0x7fe00000) OR drop_bit 9 (inst AND 0x100000)
       OR (inst AND 0xff000) OR drop_bit 11 (inst AND 0x80000000)
     in if inst AND 0x80000000 \<noteq> 0 then i OR 0xffe00000 else i)"

subsection \<open>Execution\<close>

abbreviation set_r :: "riscv_state \<Rightarrow> u32 \<Rightarrow> u32 \<Rightarrow> riscv_state" where
  "set_r s rd v \<equiv> s\<lparr>rv_r := (rv_r s)(rd := v)\<rparr>"

text \<open>One definition per group of opcodes of the switch in \<open>cycle\<close>.\<close>

definition exec_branch :: "riscv_state \<Rightarrow> u32 \<Rightarrow> sim_halt + riscv_state" where
  "exec_branch s inst =
     (let a = rv_r s (i_rs1 inst); b = rv_r s (i_rs2 inst); f = i_funct3 inst;
          taken = s\<lparr>rv_pc_next := rv_pc s + imm_sb inst\<rparr>
      in if f = 0 then Inr (if a = b then taken else s)
         else if f = 1 then Inr (if a \<noteq> b then taken else s)
         else if f = 4 then Inr (if a <s b then taken else s)
         else if f = 5 then Inr (if b \<le>s a then taken else s)
         else if f = 6 then Inr (if a < b then taken else s)
         else if f = 7 then Inr (if b \<le> a then taken else s)
         else Inl (Invalid_Opcode inst))"

definition exec_load :: "riscv_state \<Rightarrow> u32 \<Rightarrow> u32 \<Rightarrow> sim_halt + riscv_state" where
  "exec_load s inst ptr_l =
     (let rd = i_rd inst; f = i_funct3 inst;
          finish = (\<lambda>size convert. case mem_read s size ptr_l of
                     Inl h \<Rightarrow> Inl h
                   | Inr (v, s') \<Rightarrow> Inr (set_r s' rd (convert v)))
      in if f = 0 then finish 1 (\<lambda>v. scast (ucast v :: u8))
         else if f = 1 then finish 2 (\<lambda>v. scast (ucast v :: u16))
         else if f = 2 then finish 4 (\<lambda>v. v)
         else if f = 4 then finish 1 (\<lambda>v. ucast (ucast v :: u8))
         else if f = 5 then finish 2 (\<lambda>v. ucast (ucast v :: u16))
         else Inl (Invalid_Opcode inst))"

definition exec_store :: "riscv_state \<Rightarrow> u32 \<Rightarrow> u32 \<Rightarrow> sim_halt + riscv_state" where
  "exec_store s inst ptr_s =
     (let b = rv_r s (i_rs2 inst); f = i_funct3 inst
      in if f = 0 then mem_write s 1 ptr_s b
         else if f = 1 then mem_write s 2 ptr_s b
         else if f = 2 then mem_write s 4 ptr_s b
         else Inl (Invalid_Opcode inst))"

definition exec_imm :: "riscv_state \<Rightarrow> u32 \<Rightarrow> sim_halt + riscv_state" where
  "exec_imm s inst =
     (let a = rv_r s (i_rs1 inst); rd = i_rd inst; i = imm_i inst; f = i_funct3 inst;
          shamt = unat (i_rs2 inst AND 0x3f)
      in if f = 0 then Inr (set_r s rd (a + i))
         else if f = 2 then Inr (set_r s rd (c_bool (a <s i)))
         else if f = 3 then Inr (set_r s rd (c_bool (a < i)))
         else if f = 4 then Inr (set_r s rd (a XOR i))
         else if f = 6 then Inr (set_r s rd (a OR i))
         else if f = 7 then Inr (set_r s rd (a AND i))
         else if f = 1 then Inr (set_r s rd (push_bit shamt a))
         else if f = 5 then
           (if i_funct7 inst = 0 then Inr (set_r s rd (drop_bit shamt a))
            else if i_funct7 inst = 0x20 then Inr (set_r s rd (signed_drop_bit shamt a))
            else Inl (Invalid_Opcode inst))
         else Inl (Invalid_Opcode inst))"

text \<open>
  The multiplications are 64-bit products; in \<open>MULHSU\<close> the signed factor is converted to unsigned.
  The least number divided by -1 has no defined quotient or remainder in C.
\<close>

definition exec_muldiv :: "riscv_state \<Rightarrow> u32 \<Rightarrow> sim_halt + riscv_state" where
  "exec_muldiv s inst =
     (let a = rv_r s (i_rs1 inst); b = rv_r s (i_rs2 inst); rd = i_rd inst; f = i_funct3 inst;
          sa = (scast a :: u64); sb = (scast b :: u64); ua = (ucast a :: u64); ub = (ucast b :: u64)
      in if f = 0 then Inr (set_r s rd (ucast (sa * sb AND 0xffffffff)))
         else if f = 1 then Inr (set_r s rd (ucast (signed_drop_bit 32 (sa * sb) AND 0xffffffff)))
         else if f = 2 then Inr (set_r s rd (ucast (drop_bit 32 (sa * ub) AND 0xffffffff)))
         else if f = 3 then Inr (set_r s rd (ucast (drop_bit 32 (ua * ub) AND 0xffffffff)))
         else if f = 4 then
           (if b \<noteq> 0 then
              (if a = 0x80000000 \<and> b = - 1 then Inl Undefined_Division
               else Inr (set_r s rd (word_of_int (sint a sdiv sint b))))
            else Inr (set_r s rd 0))
         else if f = 5 then Inr (set_r s rd (if b \<noteq> 0 then a div b else 0))
         else if f = 6 then
           (if b \<noteq> 0 then
              (if a = 0x80000000 \<and> b = - 1 then Inl Undefined_Division
               else Inr (set_r s rd (word_of_int (sint a smod sint b))))
            else Inr (set_r s rd 0))
         else if f = 7 then Inr (set_r s rd (if b \<noteq> 0 then a mod b else 0))
         else Inl (Invalid_Opcode inst))"

definition shift_result :: "riscv_state \<Rightarrow> u32 \<Rightarrow> u32 option \<Rightarrow> sim_halt + riscv_state" where
  "shift_result s rd v = (case v of None \<Rightarrow> Inl Undefined_Shift | Some w \<Rightarrow> Inr (set_r s rd w))"

definition exec_reg :: "riscv_state \<Rightarrow> u32 \<Rightarrow> sim_halt + riscv_state" where
  "exec_reg s inst =
     (if i_funct7 inst = 1 then exec_muldiv s inst
      else let a = rv_r s (i_rs1 inst); b = rv_r s (i_rs2 inst); rd = i_rd inst; f = i_funct3 inst in
        if f = 0 then
          (if i_funct7 inst = 0 then Inr (set_r s rd (a + b))
           else if i_funct7 inst = 0x20 then Inr (set_r s rd (a - b))
           else Inl (Invalid_Opcode inst))
        else if f = 1 then shift_result s rd (c_shl32 a b)
        else if f = 2 then Inr (set_r s rd (c_bool (a <s b)))
        else if f = 3 then Inr (set_r s rd (c_bool (a < b)))
        else if f = 4 then Inr (set_r s rd (a XOR b))
        else if f = 5 then
          (if i_funct7 inst = 0 then shift_result s rd (c_shr32 a b)
           else if i_funct7 inst = 0x20 then shift_result s rd (c_sar32 a b)
           else Inl (Invalid_Opcode inst))
        else if f = 6 then Inr (set_r s rd (a OR b))
        else if f = 7 then Inr (set_r s rd (a AND b))
        else Inl (Invalid_Opcode inst))"

text \<open>\<open>SBREAK\<close> prints the registers and waits for a key.\<close>

definition exec_system :: "riscv_state \<Rightarrow> u32 \<Rightarrow> sim_halt + riscv_state" where
  "exec_system s inst =
     (if i_funct3 inst = 0 then
        (if imm_i inst = 0 then Inr (s\<lparr>rv_exception := 1\<rparr>)
         else if imm_i inst = 1 then Inr (snd (getchar s))
         else Inl (Invalid_Opcode inst))
      else Inr (s\<lparr>rv_exception := 1\<rparr>))"

text \<open>
  The switch over the opcode. The addresses of loads and stores are computed before \<open>r[0]\<close> is
  cleared, everything else after.
\<close>

definition execute :: "riscv_state \<Rightarrow> u32 \<Rightarrow> sim_halt + riscv_state" where
  "execute s inst =
     (let ptr_l = rv_r s (i_rs1 inst) + imm_i inst;
          ptr_s = rv_r s (i_rs1 inst) + imm_s inst;
          s = set_r s 0 0; rd = i_rd inst; op = i_opcode inst
      in if op = 0x37 then Inr (set_r s rd (imm_u inst))
         else if op = 0x17 then Inr (set_r s rd (rv_pc s + imm_u inst))
         else if op = 0x6f then
           Inr ((set_r s rd (rv_pc_next s))\<lparr>rv_pc_next := rv_pc s + imm_uj inst\<rparr>)
         else if op = 0x67 then
           (let s = set_r s rd (rv_pc_next s)
            in Inr (s\<lparr>rv_pc_next := (rv_r s (i_rs1 inst) + imm_i inst) AND 0xfffffffe\<rparr>))
         else if op = 0x63 then exec_branch s inst
         else if op = 0x3 then exec_load s inst ptr_l
         else if op = 0x23 then exec_store s inst ptr_s
         else if op = 0x13 then exec_imm s inst
         else if op = 0x33 then exec_reg s inst
         else if op = 0x73 then exec_system s inst
         else Inl (Invalid_Opcode inst))"

subsection \<open>Devices\<close>

text \<open>The end of \<open>cycle\<close>: the program counter, the delayed interrupt status, timers and causes.\<close>

definition advance_pc :: "riscv_state \<Rightarrow> riscv_state" where
  "advance_pc s = s\<lparr>rv_pc := rv_pc_next s, rv_pc_next := rv_pc_next s + 4,
     rv_status := rv_status_dly s 0,
     rv_status_dly := (let d = rv_status_dly s in d(0 := d 1, 1 := d 2, 2 := d 3))\<rparr>"

definition timer_causes :: "riscv_state \<Rightarrow> riscv_state" where
  "timer_causes s =
     (let s = s\<lparr>rv_gpiocause := if (rv_pain s XOR rv_pain_inv s) AND rv_pain_mask s \<noteq> 0 then 1 else 0\<rparr>;
          s = s\<lparr>rv_timercause := if rv_timer0 s AND 0x10000 \<noteq> 0
                then rv_timercause s OR 0x01 else rv_timercause s AND 0xfe\<rparr>;
          s = s\<lparr>rv_timercause := if rv_timer0 s AND 0x40000 \<noteq> 0
                then rv_timercause s OR 0x02 else rv_timercause s AND 0xfd\<rparr>;
          s = (if rv_timer1 s = rv_timer1_ctc s
               then s\<lparr>rv_timer1 := 0, rv_timercause := rv_timercause s XOR 0x4\<rparr> else s);
          s = s\<lparr>rv_timercause := if rv_timer1 s < rv_timer1_ocr s
                then rv_timercause s OR 0x8 else rv_timercause s AND 0xf7\<rparr>;
          s = s\<lparr>rv_s0cause := if (rv_gpiocause s XOR rv_gpiocause_inv s) AND rv_gpiomask s \<noteq> 0
                then 0x02 else 0\<rparr>;
          s = s\<lparr>rv_s0cause := rv_s0cause s OR
                (if (rv_timercause s XOR rv_timercause_inv s) AND rv_timermask s \<noteq> 0
                 then 0x04 else 0)\<rparr>
      in s\<lparr>rv_cause := if rv_s0cause s \<noteq> 0 then 1 else 0\<rparr>)"

definition timer1_tick :: "u32 \<Rightarrow> u32 \<Rightarrow> bool" where
  "timer1_tick pre timer0 =
     (if pre = 1 then timer0 AND 3 = 0
      else if pre = 2 then timer0 AND 15 = 0
      else if pre = 3 then timer0 AND 63 = 0
      else if pre = 4 then timer0 AND 255 = 0
      else if pre = 5 then timer0 AND 1023 = 0
      else if pre = 6 then timer0 AND 4095 = 0
      else if pre = 7 then timer0 AND 16383 = 0
      else True)"

definition timer_count :: "riscv_state \<Rightarrow> riscv_state" where
  "timer_count s =
     (let s = s\<lparr>rv_cycles := rv_cycles s + 1, rv_timer0 := rv_timer0 s + 1\<rparr>;
          s = (if timer1_tick (rv_timer1_pre s) (rv_timer0 s) then s\<lparr>rv_timer1 := rv_timer1 s + 1\<rparr> else s)
      in s\<lparr>rv_timer1 := rv_timer1 s AND 0xffff\<rparr>)"

definition cycle :: "riscv_state \<Rightarrow> sim_halt + riscv_state" where
  "cycle s =
     (let s = take_interrupt s
      in case mem_fetch s (rv_pc s) of
           Inl h \<Rightarrow> Inl h
         | Inr inst \<Rightarrow>
             (case execute s inst of
                Inl h \<Rightarrow> Inl h
              | Inr s \<Rightarrow> Inr (timer_count (timer_causes (advance_pc s)))))"

subsection \<open>The program\<close>

text \<open>
  \<open>main\<close> clears the array \<open>sram\<close>'s first \<open>sizeof(MEM_SIZE)\<close> = 4 bytes to 0xff, reads the image over it
  and starts the loop; an image without a byte is an error (\<open>None\<close>). A log file is open when the
  second argument names one.
\<close>

definition boot_memory :: "u8 list \<Rightarrow> byte_mem" where
  "boot_memory img a =
     (if unat a < length img \<and> a < MEM_SIZE then img ! unat a
      else if a < 4 then 0xff else 0)"

definition riscv_main :: "u8 list \<Rightarrow> u8 list \<Rightarrow> bool \<Rightarrow> riscv_state option" where
  "riscv_main img input logging =
     (if img = [] then None
      else Some \<lparr>rv_r = (\<lambda>_. 0)(2 := MEM_SIZE - 4), rv_pc = SRAM_BASE, rv_pc_next = SRAM_BASE + 4,
        rv_mem = boot_memory img, rv_vector = 0, rv_cause = 0, rv_mask = 0, rv_status = 0,
        rv_status_dly = (\<lambda>_. 0), rv_epc = 0, rv_exception = 0, rv_s0cause = 0,
        rv_gpiocause = 0, rv_gpiocause_inv = 0, rv_gpiomask = 0, rv_paddr = 0, rv_paout = 0,
        rv_pain = 0, rv_pain_inv = 0, rv_pain_mask = 0, rv_timercause = 0, rv_timercause_inv = 0,
        rv_timermask = 0, rv_timer0 = 0, rv_timer1 = 0, rv_timer1_pre = 0, rv_timer1_ctc = 0,
        rv_timer1_ocr = 0, rv_uartcause = 0, rv_uartcause_inv = 0, rv_uartmask = 0, rv_cycles = 0,
        rv_in = input, rv_out = [], rv_log = (if logging then Some [] else None)\<rparr>)"

definition main_step :: "riscv_state \<Rightarrow> sim_halt + riscv_state" where
  "main_step s =
     cycle (s\<lparr>rv_pain := if rv_timer0 s AND 0x80000 \<noteq> 0 then rv_pain s OR 0x8
                        else rv_pain s AND NOT 0x8\<rparr>)"

text \<open>The first n rounds of the loop that never returns.\<close>

fun riscv_run :: "nat \<Rightarrow> riscv_state \<Rightarrow> sim_halt + riscv_state" where
  "riscv_run 0 s = Inr s"
| "riscv_run (Suc n) s = (case main_step s of Inl h \<Rightarrow> Inl h | Inr t \<Rightarrow> riscv_run n t)"

subsection \<open>Memory lemmas\<close>

lemma load_word_store_word: "load_word (store_word m a v) a = v"
  by (rule bit_word_eqI) (auto simp: c_layout bit_simps nat_add_diff_cases split: if_splits)

lemma load_half_store_half: "load_half (store_half m a v) a = v"
  by (rule bit_word_eqI) (auto simp: c_layout bit_simps)

text \<open>The host's byte order.\<close>

interpretation le: byte_order load_word store_word load_half store_half
proof
  show "store_word m a v b = m b" if "4 \<le> b - a" for m a v b
    using that by (auto simp: c_layout) (simp_all add: word_le_nat_alt)
  show "store_half m a h b = m b" if "2 \<le> b - a" for m a h b
    using that by (auto simp: c_layout) (simp_all add: word_le_nat_alt)
  show "load_word m a = load_word m' a" if "\<And>k. k < 4 \<Longrightarrow> m (a + k) = m' (a + k)" for m m' a
    using that[of 0] that[of 1] that[of 2] that[of 3] by (simp add: load_word_def)
qed (rule load_word_store_word load_half_store_half)+

lemma not_device:
  "address < EXIT_TRAP \<Longrightarrow> EXIT_TRAP \<le> d \<Longrightarrow> address \<noteq> (d :: u32)"
  by auto

lemma mem_read_ram:
  "address < EXIT_TRAP \<Longrightarrow> mem_read s sz address =
     (let ptr = address mod MEM_SIZE in
        if sz = 4 then
          (if address AND 3 \<noteq> 0 then Inl (Unaligned address) else Inr (load_word (rv_mem s) ptr, s))
        else if sz = 2 then
          (if address AND 1 \<noteq> 0 then Inl (Unaligned address)
           else Inr (scast (load_half (rv_mem s) ptr), s))
        else if sz = 1 then Inr (scast (rv_mem s ptr), s)
        else Inr (0, s))"
  by (simp add: mem_read_def not_device)

lemma mem_write_ram:
  "address < EXIT_TRAP \<Longrightarrow> mem_write s sz address value =
     (let ptr = address mod MEM_SIZE in
        if sz = 4 then
          (if address AND 3 \<noteq> 0 then Inl (Unaligned address)
           else Inr (s\<lparr>rv_mem := store_word (rv_mem s) ptr value\<rparr>))
        else if sz = 2 then
          (if address AND 1 \<noteq> 0 then Inl (Unaligned address)
           else Inr (s\<lparr>rv_mem := store_half (rv_mem s) ptr (ucast value)\<rparr>))
        else if sz = 1 then Inr (s\<lparr>rv_mem := (rv_mem s)(ptr := ucast value)\<rparr>)
        else Inr s)"
  by (simp add: mem_write_def not_device)

end
