(* ===== verification/Riscv_Props.thy ===== *)
theory Riscv_Props
  imports Riscv_Sim
begin

text \<open>
  Invariants of the HF-RISCV simulator: what every reachable machine state satisfies, the
  memory round trip, the cycle counter and the delayed enabling of interrupts.
\<close>

unbundle bit_operations_syntax

subsection \<open>Device registers\<close>

text \<open>Widths of the device registers: the masks of the stores and of the timer logic.\<close>

definition dev_inv :: "riscv_state \<Rightarrow> bool" where
  "dev_inv s \<longleftrightarrow>
     rv_gpiocause_inv s < 0x10000 \<and> rv_gpiomask s < 0x10000 \<and> rv_paddr s < 0x10000 \<and>
     rv_paout s < 0x10000 \<and> rv_pain_inv s < 0x10000 \<and> rv_pain_mask s < 0x10000 \<and>
     rv_timercause s < 0x100 \<and> rv_timercause_inv s < 0x100 \<and> rv_timermask s < 0x100 \<and>
     rv_timer1 s < 0x10000 \<and> rv_timer1_pre s < 0x10000 \<and> rv_timer1_ctc s < 0x10000 \<and>
     rv_timer1_ocr s < 0x10000 \<and> rv_uartcause_inv s < 0x100 \<and> rv_uartmask s < 0x100"

lemma mem_write_dev_inv: "dev_inv s \<Longrightarrow> when_running dev_inv (mem_write s sz a v)"
  unfolding mem_write_def Let_def
  by (simp add: dev_inv_def and_mask_less split: option.split)

subsection \<open>Executing an instruction\<close>

lemma getchar_fst_snd: "snd (getchar s) = s\<lparr>rv_in := tl (rv_in s)\<rparr>"
  by (cases "rv_in s") (simp_all add: getchar_def)

lemma mem_read_state_when:
  "when_running (\<lambda>(v, t). t = s \<or> t = s\<lparr>rv_in := tl (rv_in s)\<rparr>) (mem_read s sz a)"
proof -
  let ?Q = "\<lambda>(v, t). t = s \<or> t = s\<lparr>rv_in := tl (rv_in s)\<rparr>"
  have "?Q (getchar s)" by (simp add: getchar_def split: list.split)
  moreover have "?Q (v, s)" for v by simp
  ultimately show ?thesis
    unfolding mem_read_def Let_def by (intro when_running_ifI) (simp_all only: when_running_simps)
qed

lemma mem_read_state:
  "mem_read s sz a = Inr (v, t) \<Longrightarrow> t = s \<or> t = s\<lparr>rv_in := tl (rv_in s)\<rparr>"
  using when_runningD[OF mem_read_state_when] by fastforce

text \<open>
  A predicate that survives the few kinds of update an instruction makes survives every
  instruction: the rule behind all the invariants below.
\<close>

definition step_closed :: "(riscv_state \<Rightarrow> bool) \<Rightarrow> bool" where
  "step_closed P \<longleftrightarrow>
     (\<forall>s rd v. P s \<longrightarrow> P (set_r s rd v)) \<and> (\<forall>s v. P s \<longrightarrow> P (s\<lparr>rv_pc_next := v\<rparr>)) \<and>
     (\<forall>s. P s \<longrightarrow> P (s\<lparr>rv_exception := 1\<rparr>)) \<and> (\<forall>s v. P s \<longrightarrow> P (s\<lparr>rv_in := v\<rparr>)) \<and>
     (\<forall>s sz a v. P s \<longrightarrow> when_running P (mem_write s sz a v))"

lemma step_closedD:
  assumes "step_closed P" "P s"
  shows "P (set_r s rd v)" "P (s\<lparr>rv_pc_next := w\<rparr>)" "P (s\<lparr>rv_exception := 1\<rparr>)"
    "P (s\<lparr>rv_in := cs\<rparr>)" "when_running P (mem_write s sz a v)"
  using assms unfolding step_closed_def by blast+

lemma exec_load_closed: "step_closed P \<Longrightarrow> P s \<Longrightarrow> when_running P (exec_load s inst a)"
proof -
  assume c: "step_closed P" and s: "P s"
  have fin: "when_running P (case mem_read s sz a of Inl h \<Rightarrow> Inl h
      | Inr (v, s') \<Rightarrow> Inr (set_r s' rd (f v)))" for sz rd f
  proof (cases "mem_read s sz a")
    case (Inr q)
    then obtain v t where q: "mem_read s sz a = Inr (v, t)" by (cases q) auto
    then have "P t" using mem_read_state[OF q] s step_closedD(4)[OF c s] by auto
    then show ?thesis by (simp add: q step_closedD(1)[OF c])
  qed simp
  show ?thesis by (simp add: exec_load_def Let_def fin)
qed

lemma exec_reg_closed: "step_closed P \<Longrightarrow> P s \<Longrightarrow> when_running P (exec_reg s inst)"
  by (simp add: exec_reg_def exec_muldiv_def shift_result_def Let_def step_closedD(1) c_ops)

lemma execute_closed: "step_closed P \<Longrightarrow> P s \<Longrightarrow> when_running P (execute s inst)"
proof -
  assume c: "step_closed P" and s: "P s"
  note cl = step_closedD[OF c]
  let ?s = "set_r s 0 0"
  have s0: "P ?s" using cl(1)[OF s] .
  have "when_running P (exec_branch ?s inst)"
    using cl(2)[OF s0] s0 by (simp add: exec_branch_def Let_def)
  moreover have "when_running P (exec_store ?s inst a)" for a
    using cl(5)[OF s0] by (simp add: exec_store_def Let_def)
  moreover have "when_running P (exec_imm ?s inst)"
    using cl(1)[OF s0] by (simp add: exec_imm_def Let_def)
  moreover have "when_running P (exec_system ?s inst)"
    using cl(3,4)[OF s0] by (simp add: exec_system_def getchar_fst_snd)
  ultimately show ?thesis
    unfolding execute_def Let_def
    using exec_load_closed[OF c s0] exec_reg_closed[OF c s0] cl(1)[OF s0] cl(2)[OF cl(1)[OF s0]]
    by simp
qed

lemma step_closed_dev_inv: "step_closed dev_inv"
  unfolding step_closed_def using mem_write_dev_inv by (simp add: dev_inv_def)

subsection \<open>One cycle\<close>

text \<open>What holds at the head of the loop of \<open>main\<close>.\<close>

definition riscv_inv :: "riscv_state \<Rightarrow> bool" where
  "riscv_inv s \<longleftrightarrow> dev_inv s \<and> rv_pc_next s = rv_pc s + 4 \<and> rv_gpiocause s \<le> 1 \<and>
     (rv_s0cause s = 0 \<or> rv_s0cause s = 2 \<or> rv_s0cause s = 4 \<or> rv_s0cause s = 6) \<and>
     rv_cause s = (if rv_s0cause s \<noteq> 0 then 1 else 0) \<and> rv_exception s \<le> 1 \<and>
     (rv_pain s = 0 \<or> rv_pain s = 8)"

lemma timercause_bits:
  fixes c :: u32
  assumes "c < 0x100"
  shows "c OR 1 < 0x100" "c OR 2 < 0x100" "c OR 8 < 0x100" "c XOR 4 < 0x100"
    "c AND k < 0x100"
proof -
  note bits = less_256_iff
  have c: "\<forall>n\<ge>8. \<not> bit c n" using assms bits by blast
  have small: "\<not> bit (1::u32) n" "\<not> bit (2::u32) n" "\<not> bit (8::u32) n" "\<not> bit (4::u32) n"
    if "8 \<le> n" for n
    using that bits[of 1] bits[of 2] bits[of 8] bits[of 4] by simp_all
  show "c OR 1 < 0x100" "c OR 2 < 0x100" "c OR 8 < 0x100" "c XOR 4 < 0x100" "c AND k < 0x100"
    unfolding bits using c small by (auto simp: bit_or_iff bit_xor_iff bit_and_iff)
qed

lemma timer_causes_inv:
  assumes "dev_inv s"
  shows "dev_inv (timer_causes s)" "rv_gpiocause (timer_causes s) \<le> 1"
    "rv_s0cause (timer_causes s) = 0 \<or> rv_s0cause (timer_causes s) = 2 \<or>
     rv_s0cause (timer_causes s) = 4 \<or> rv_s0cause (timer_causes s) = 6"
    "rv_cause (timer_causes s) = (if rv_s0cause (timer_causes s) \<noteq> 0 then 1 else 0)"
  using assms by (simp_all add: timer_causes_def Let_def dev_inv_def timercause_bits)

lemma timer_causes_frame:
  "rv_pc (timer_causes s) = rv_pc s" "rv_pc_next (timer_causes s) = rv_pc_next s"
  "rv_exception (timer_causes s) = rv_exception s" "rv_pain (timer_causes s) = rv_pain s"
  "rv_cycles (timer_causes s) = rv_cycles s" "rv_timer0 (timer_causes s) = rv_timer0 s"
  "rv_status (timer_causes s) = rv_status s" "rv_status_dly (timer_causes s) = rv_status_dly s"
  "rv_r (timer_causes s) = rv_r s" "rv_mem (timer_causes s) = rv_mem s"
  by (simp_all add: timer_causes_def Let_def)

lemma timer_count_frame:
  "rv_pc (timer_count s) = rv_pc s" "rv_pc_next (timer_count s) = rv_pc_next s"
  "rv_exception (timer_count s) = rv_exception s" "rv_pain (timer_count s) = rv_pain s"
  "rv_cycles (timer_count s) = rv_cycles s + 1" "rv_timer0 (timer_count s) = rv_timer0 s + 1"
  "rv_status (timer_count s) = rv_status s" "rv_status_dly (timer_count s) = rv_status_dly s"
  "rv_gpiocause (timer_count s) = rv_gpiocause s" "rv_s0cause (timer_count s) = rv_s0cause s"
  "rv_cause (timer_count s) = rv_cause s" "rv_r (timer_count s) = rv_r s" "rv_mem (timer_count s) = rv_mem s"
  by (simp_all add: timer_count_def Let_def)

lemma timer_count_dev_inv: "dev_inv s \<Longrightarrow> dev_inv (timer_count s)"
  by (simp add: timer_count_def Let_def dev_inv_def and_mask_less)

lemma cycle_InrE:
  assumes "cycle s = Inr t"
  obtains inst u where "mem_fetch (take_interrupt s) (rv_pc (take_interrupt s)) = Inr inst"
    "execute (take_interrupt s) inst = Inr u"
    "t = timer_count (timer_causes (advance_pc u))"
  using assms unfolding cycle_def Let_def by (auto split: sum.splits)

lemma cycle_closed:
  assumes "step_closed P" "P (take_interrupt s)" "cycle s = Inr t"
  obtains u where "P u" "t = timer_count (timer_causes (advance_pc u))"
  using assms(3) by (rule cycle_InrE) (metis that execute_closed[OF assms(1,2)] when_runningD)

definition core_inv :: "riscv_state \<Rightarrow> bool" where
  "core_inv s \<longleftrightarrow> dev_inv s \<and> rv_exception s \<le> 1 \<and> (rv_pain s = 0 \<or> rv_pain s = 8)"

lemma mem_write_frame:
  "when_running (\<lambda>t. rv_exception t = rv_exception s \<and> rv_pain t = rv_pain s \<and>
     rv_cycles t = rv_cycles s \<and> rv_timer0 t = rv_timer0 s) (mem_write s sz a v)"
  unfolding mem_write_def Let_def
  by (intro when_running_ifI) (simp_all split: option.split)

lemma step_closed_core_inv: "step_closed core_inv"
  unfolding step_closed_def
proof (intro conjI allI impI)
  fix s sz a v assume s: "core_inv s"
  then have "dev_inv s" by (simp add: core_inv_def)
  from when_running_conj[OF mem_write_dev_inv[OF this] mem_write_frame]
  show "when_running core_inv (mem_write s sz a v)"
    by (rule when_running_mono) (use s in \<open>auto simp: core_inv_def\<close>)
qed (simp_all add: core_inv_def dev_inv_def)

lemma step_closed_counters: "step_closed (\<lambda>s :: riscv_state. rv_cycles s = c \<and> rv_timer0 s = t)"
  unfolding step_closed_def
proof (intro conjI allI impI)
  fix s :: riscv_state and sz a v assume "rv_cycles s = c \<and> rv_timer0 s = t"
  then show "when_running (\<lambda>s. rv_cycles s = c \<and> rv_timer0 s = t) (mem_write s sz a v)"
    by (intro when_running_mono[OF mem_write_frame]) simp
qed simp_all

lemma take_interrupt_core_inv: "core_inv s \<Longrightarrow> core_inv (take_interrupt s)"
  by (simp add: take_interrupt_def core_inv_def dev_inv_def)

lemma cycle_inv:
  assumes "core_inv s" "cycle s = Inr t"
  shows "riscv_inv t"
proof -
  obtain u where u: "core_inv u" and t: "t = timer_count (timer_causes (advance_pc u))"
    using cycle_closed[OF step_closed_core_inv take_interrupt_core_inv[OF assms(1)] assms(2)] .
  let ?v = "advance_pc u"
  have v: "dev_inv ?v" "rv_exception ?v \<le> 1" "rv_pain ?v = 0 \<or> rv_pain ?v = 8"
    "rv_pc_next ?v = rv_pc ?v + 4"
    using u by (simp_all add: advance_pc_def core_inv_def dev_inv_def)
  show ?thesis
    unfolding riscv_inv_def t timer_count_frame
    using v timer_causes_inv[OF v(1)] timer_count_dev_inv
    by (simp add: timer_causes_frame)
qed

lemma main_step_pain_inv:
  "riscv_inv s \<Longrightarrow> core_inv (s\<lparr>rv_pain := if rv_timer0 s AND 0x80000 \<noteq> 0 then rv_pain s OR 0x8
                        else rv_pain s AND NOT 0x8\<rparr>)"
  by (auto simp: riscv_inv_def core_inv_def dev_inv_def)

lemma main_step_inv: "riscv_inv s \<Longrightarrow> main_step s = Inr t \<Longrightarrow> riscv_inv t"
  unfolding main_step_def by (rule cycle_inv[OF main_step_pain_inv])

lemma riscv_run_inv: "riscv_inv s \<Longrightarrow> riscv_run n s = Inr t \<Longrightarrow> riscv_inv t"
  by (induction n arbitrary: s) (auto intro: main_step_inv split: sum.splits)

lemma riscv_main_inv: "riscv_main img input logging = Some s \<Longrightarrow> riscv_inv s"
  by (auto simp: riscv_main_def riscv_inv_def dev_inv_def split: if_splits)

lemma cycle_counters:
  assumes "cycle s = Inr t"
  shows "rv_cycles t = rv_cycles s + 1 \<and> rv_timer0 t = rv_timer0 s + 1"
proof -
  have "rv_cycles (take_interrupt s) = rv_cycles s \<and> rv_timer0 (take_interrupt s) = rv_timer0 s"
    by (simp add: take_interrupt_def)
  from cycle_closed[OF step_closed_counters this assms] obtain u
    where "rv_cycles u = rv_cycles s \<and> rv_timer0 u = rv_timer0 s"
      "t = timer_count (timer_causes (advance_pc u))" by blast
  then show ?thesis
    by (simp add: timer_count_frame timer_causes_frame) (simp add: advance_pc_def)
qed

subsection \<open>Interrupt status\<close>

text \<open>Only a store reaches the interrupt status; every other instruction leaves the delay line.\<close>

definition status_line :: "riscv_state \<Rightarrow> u32 list" where
  "status_line s = [rv_status s, rv_status_dly s 0, rv_status_dly s 1, rv_status_dly s 2, rv_status_dly s 3]"

lemma exec_load_status: "when_running (\<lambda>t. status_line t = status_line s) (exec_load s inst a)"
proof -
  have fin: "when_running (\<lambda>t. status_line t = status_line s) (case mem_read s sz a of Inl h \<Rightarrow> Inl h
      | Inr (v, s') \<Rightarrow> Inr (set_r s' rd (f v)))" for sz rd f
  proof (cases "mem_read s sz a")
    case (Inr q)
    then obtain v t where q: "mem_read s sz a = Inr (v, t)" by (cases q) auto
    then show ?thesis using mem_read_state[OF q] by (auto simp: status_line_def)
  qed simp
  show ?thesis by (simp add: exec_load_def Let_def fin)
qed

lemma execute_status:
  assumes "i_opcode inst \<noteq> 0x23"
  shows "when_running (\<lambda>t. status_line t = status_line s) (execute s inst)"
proof -
  let ?s = "set_r s 0 0" and ?P = "\<lambda>t. status_line t = status_line s"
  have load: "when_running ?P (exec_load ?s inst a)" for a
    by (rule when_running_mono[OF exec_load_status]) (simp add: status_line_def)
  have "when_running ?P (exec_branch ?s inst)" "when_running ?P (exec_imm ?s inst)"
    "when_running ?P (exec_reg ?s inst)" "when_running ?P (exec_system ?s inst)"
    by (simp_all add: exec_branch_def exec_imm_def exec_reg_def exec_muldiv_def exec_system_def
        shift_result_def c_ops getchar_fst_snd Let_def status_line_def)
  with load show ?thesis
    unfolding execute_def Let_def using assms by (simp add: status_line_def)
qed

subsection \<open>Runs\<close>

lemma main_step_counters:
  "main_step s = Inr t \<Longrightarrow> rv_cycles t = rv_cycles s + 1 \<and> rv_timer0 t = rv_timer0 s + 1"
  unfolding main_step_def by (drule cycle_counters) simp

lemma riscv_run_counters:
  "riscv_run n s = Inr t \<Longrightarrow> rv_cycles t = rv_cycles s + of_nat n \<and> rv_timer0 t = rv_timer0 s + of_nat n"
proof (induction n arbitrary: s)
  case (Suc n)
  then obtain u where "main_step s = Inr u" "riscv_run n u = Inr t"
    by (auto split: sum.splits)
  then show ?case using main_step_counters[of s u] Suc.IH[of u] by (simp add: ac_simps)
qed simp

text \<open>C2: From the boot of any image, whatever the input, every state the loop of \<open>main\<close> reaches
  satisfies the machine invariant: the next pc is pc + 4, the device registers stay within their
  widths, the cause registers are consistent with each other and the button pin is driven; and the
  cycle and timer counters count the rounds.\<close>

theorem riscv_reachable:
  assumes "riscv_main img input logging = Some s" "riscv_run n s = Inr t"
  shows "riscv_inv t \<and> rv_cycles t = of_nat n \<and> rv_timer0 t = of_nat n"
proof -
  have "rv_cycles s = 0" "rv_timer0 s = 0"
    using assms(1) by (auto simp: riscv_main_def split: if_splits)
  then show ?thesis
    using riscv_run_inv[OF riscv_main_inv[OF assms(1)] assms(2)] riscv_run_counters[OF assms(2)] by simp
qed

text \<open>A boot image of four no-operations.\<close>

definition nop_boot :: riscv_state where
  "nop_boot = the (riscv_main (concat (replicate 4 [0x13, 0, 0, 0])) [] False)"

theorem riscv_reachable_witness:
  "riscv_inv (projr (riscv_run 2 nop_boot)) \<and> rv_cycles (projr (riscv_run 2 nop_boot)) = 2 \<and>
   rv_timer0 (projr (riscv_run 2 nop_boot)) = 2"
proof -
  have "\<not> isl (riscv_run 2 nop_boot)" by code_simp
  then have "riscv_run 2 nop_boot = Inr (projr (riscv_run 2 nop_boot))" by (cases "riscv_run 2 nop_boot") simp_all
  from riscv_reachable[OF _ this, of "concat (replicate 4 [0x13, 0, 0, 0])" "[]" False] show ?thesis
    by (simp add: nop_boot_def riscv_main_def)
qed

subsection \<open>Memory\<close>

text \<open>What a read of a size gives back of a stored value: sign extended, and nothing for other sizes.\<close>

definition read_back :: "u32 \<Rightarrow> u32 \<Rightarrow> u32" where
  "read_back sz v =
     (if sz = 4 then v else if sz = 2 then scast (ucast v :: u16)
      else if sz = 1 then scast (ucast v :: u8) else 0)"

text \<open>C3: RAM keeps what is stored: below the device addresses, a store of one, two or four bytes
  either stops at an unaligned address or makes the same read return the stored value, sign
  extended, and leaves every byte outside the stored ones as it was.\<close>

theorem ram_round_trip:
  "a < EXIT_TRAP \<Longrightarrow>
   (case mem_write s sz a v of
      Inl h \<Rightarrow> h = Unaligned a \<and> mem_read s sz a = Inl h \<and> (sz = 4 \<and> a AND 3 \<noteq> 0 \<or> sz = 2 \<and> a AND 1 \<noteq> 0)
    | Inr t \<Rightarrow> mem_read t sz a = Inr (read_back sz v, t) \<and>
        (\<forall>b < EXIT_TRAP. sz \<le> b mod MEM_SIZE - a mod MEM_SIZE \<longrightarrow>
           map_sum id fst (mem_read t 1 b) = map_sum id fst (mem_read s 1 b)))"
proof -
  have byte: "(m(p := w)) q = m q" if "1 \<le> q - p" for m :: byte_mem and w and p q :: u32
    using that by auto
  assume "a < EXIT_TRAP"
  then show ?thesis
    by (simp add: mem_write_ram mem_read_ram Let_def read_back_def le.load_store_w le.load_store_h
        le.store_w_frame le.store_h_frame byte fun_upd_same del: fun_upd_apply) 
qed

subsection \<open>Interrupts\<close>

lemma status_line_cycle:
  assumes "take_interrupt s = s" "mem_fetch s (rv_pc s) = Inr inst" "i_opcode inst \<noteq> 0x23"
    and "cycle s = Inr t" and "status_line s = [a, b, c, d, e]"
  shows "status_line t = [b, c, d, e, e]"
proof -
  obtain u where u: "execute s inst = Inr u" and t: "t = timer_count (timer_causes (advance_pc u))"
    using assms(4) by (rule cycle_InrE) (use assms(1,2) in auto)
  have "status_line u = [a, b, c, d, e]" using when_runningD[OF execute_status[OF assms(3)] u] assms(5) by simp
  then show ?thesis
    by (simp add: t status_line_def timer_count_frame timer_causes_frame) (simp add: advance_pc_def)
qed

text \<open>A round of the machine that fetches something else than a store, with no exception pending.\<close>

definition quiet :: "riscv_state \<Rightarrow> bool" where
  "quiet s = (rv_exception s = 0 \<and> (case mem_fetch s (rv_pc s) of Inl _ \<Rightarrow> False | Inr inst \<Rightarrow> i_opcode inst \<noteq> 0x23))"

lemma quiet_cycle:
  assumes "quiet s" "cycle s = Inr t" "status_line s = [0, b, c, d, e]"
  shows "status_line t = [b, c, d, e, e]"
proof -
  have "take_interrupt s = s" using assms(1,3) by (simp add: take_interrupt_def quiet_def status_line_def)
  moreover obtain inst where "mem_fetch s (rv_pc s) = Inr inst" "i_opcode inst \<noteq> 0x23"
    using assms(1) by (auto simp: quiet_def split: sum.splits)
  ultimately show ?thesis using status_line_cycle assms(2,3) by blast
qed

text \<open>Interrupts are enabled with a delay: a store of a nonzero word to the interrupt status, with the
  line clear, takes effect at the end of the third round after the store's own, and in the rounds
  between, if they store nothing and raise no exception, the status still reads zero.\<close>

theorem interrupt_enable_delay:
  assumes "status_line s = [0, 0, 0, 0, 0]" "v \<noteq> 0" "mem_write s sz IRQ_STATUS v = Inr u"
    and "t1 = timer_count (timer_causes (advance_pc u))"
    and "quiet t1" "cycle t1 = Inr t2" "quiet t2" "cycle t2 = Inr t3" "quiet t3" "cycle t3 = Inr t4"
  shows "rv_status t1 = 0 \<and> rv_status t2 = 0 \<and> rv_status t3 = 0 \<and> rv_status t4 = v"
proof -
  have "status_line u = [0, 0, 0, 0, v]"
    using assms(1-3) by (auto simp: mem_write_def status_line_def)
  then have 1: "status_line t1 = [0, 0, 0, v, v]"
    by (simp add: assms(4) status_line_def timer_count_frame timer_causes_frame) (simp add: advance_pc_def)
  note 2 = quiet_cycle[OF assms(5,6) 1]
  note 3 = quiet_cycle[OF assms(7,8) 2]
  note 4 = quiet_cycle[OF assms(9,10) 3]
  from 1 2 3 4 show ?thesis by (simp add: status_line_def)
qed

theorem ram_round_trip_witness:
  "(case mem_write nop_boot 2 0x40000010 0x12348765 of
      Inl h \<Rightarrow> h = Unaligned 0x40000010 \<and> mem_read nop_boot 2 0x40000010 = Inl h \<and>
        ((2 :: u32) = 4 \<and> (0x40000010 :: u32) AND 3 \<noteq> 0 \<or> (2 :: u32) = 2 \<and> (0x40000010 :: u32) AND 1 \<noteq> 0)
    | Inr t \<Rightarrow> mem_read t 2 0x40000010 = Inr (read_back 2 0x12348765, t) \<and>
        (\<forall>b < EXIT_TRAP. 2 \<le> b mod MEM_SIZE - 0x40000010 mod MEM_SIZE \<longrightarrow>
           map_sum id fst (mem_read t 1 b) = map_sum id fst (mem_read nop_boot 1 b)))"
  by (rule ram_round_trip) simp

text \<open>The states of the four rounds after the boot code stores 1 to the interrupt status.\<close>

fun irq_boot :: "nat \<Rightarrow> riscv_state" where
  "irq_boot 0 = timer_count (timer_causes (advance_pc (projr (mem_write nop_boot 4 IRQ_STATUS 1))))"
| "irq_boot (Suc n) = projr (cycle (irq_boot n))"

theorem interrupt_enable_delay_witness:
  "rv_status (irq_boot 0) = 0 \<and> rv_status (irq_boot 1) = 0 \<and> rv_status (irq_boot 2) = 0 \<and>
   rv_status (irq_boot 3) = 1"
proof -
  have "\<not> isl (cycle (irq_boot 0))" "\<not> isl (cycle (irq_boot 1))" "\<not> isl (cycle (irq_boot 2))" by code_simp+
  then have "cycle (irq_boot 0) = Inr (irq_boot 1)" "cycle (irq_boot 1) = Inr (irq_boot 2)"
    "cycle (irq_boot 2) = Inr (irq_boot 3)"
    by (simp_all add: numeral_2_eq_2 numeral_3_eq_3 sum.collapse(2))
  moreover have "quiet (irq_boot 0)" "quiet (irq_boot 1)" "quiet (irq_boot 2)" by code_simp+
  moreover have "mem_write nop_boot 4 IRQ_STATUS 1 = Inr (projr (mem_write nop_boot 4 IRQ_STATUS 1))"
    by (simp add: mem_write_def)
  moreover have "status_line nop_boot = [0, 0, 0, 0, 0]" by code_simp
  ultimately show ?thesis
    using interrupt_enable_delay[of nop_boot 1 4 _ "irq_boot 0" "irq_boot 1" "irq_boot 2" "irq_boot 3"]
    by simp
qed

end
