(* ===== verification/Riscv_Isa.thy ===== *)
theory Riscv_Isa
  imports Riscv_Props
begin

text \<open>
  The instruction set the HF-RISCV simulator implements, stated independently of it: RV32I with
  the M extension as an abstract syntax and its binary encoding by the six instruction formats,
  with the lemmas that the simulator's decoder reads back every field and immediate.
\<close>

unbundle bit_operations_syntax

subsection \<open>Abstract syntax\<close>

type_synonym reg = "5 word"

datatype cmp = EQ | NE | LT | GE | LTU | GEU
datatype load_kind = LB | LH | LW | LBU | LHU
datatype store_kind = SB | SH | SW
datatype imm_op = ADDI | SLTI | SLTIU | XORI | ORI | ANDI
datatype shift_op = SLL | SRL | SRA
datatype reg_op = ADD | SUB | SLT | SLTU | XORR | ORR | ANDR
datatype mul_op = MUL | MULH | MULHSU | MULHU | DIV | DIVU | REM | REMU

datatype rv_instr =
    Lui reg "20 word"
  | Auipc reg "20 word"
  | Jal reg "20 word"
  | Jalr reg reg "12 word"
  | Branch cmp reg reg "12 word"
  | Load load_kind reg reg "12 word"
  | Store store_kind reg reg "12 word"
  | Op_Imm imm_op reg reg "12 word"
  | Shift_Imm shift_op reg reg "5 word"
  | Op reg_op reg reg reg
  | Shift shift_op reg reg reg
  | Mul_Div mul_op reg reg reg
  | Ecall

subsection \<open>Encoding\<close>

definition enc_r :: "7 word \<Rightarrow> reg \<Rightarrow> reg \<Rightarrow> 3 word \<Rightarrow> reg \<Rightarrow> 7 word \<Rightarrow> u32" where
  "enc_r f7 rs2 rs1 f3 rd op = push_bit 25 (ucast f7) OR push_bit 20 (ucast rs2)
     OR push_bit 15 (ucast rs1) OR push_bit 12 (ucast f3) OR push_bit 7 (ucast rd) OR ucast op"

definition enc_i :: "12 word \<Rightarrow> reg \<Rightarrow> 3 word \<Rightarrow> reg \<Rightarrow> 7 word \<Rightarrow> u32" where
  "enc_i imm rs1 f3 rd op = enc_r (ucast (drop_bit 5 imm)) (ucast imm) rs1 f3 rd op"

definition enc_s :: "12 word \<Rightarrow> reg \<Rightarrow> reg \<Rightarrow> 3 word \<Rightarrow> 7 word \<Rightarrow> u32" where
  "enc_s imm rs2 rs1 f3 op = enc_r (ucast (drop_bit 5 imm)) rs2 rs1 f3 (ucast imm) op"

text \<open>Branch offsets are even: the immediate holds bits 12 to 1.\<close>

definition enc_b :: "12 word \<Rightarrow> reg \<Rightarrow> reg \<Rightarrow> 3 word \<Rightarrow> 7 word \<Rightarrow> u32" where
  "enc_b imm rs2 rs1 f3 op =
     enc_r (word_cat (ucast (drop_bit 11 imm) :: 1 word) (ucast (drop_bit 4 imm) :: 6 word)) rs2 rs1 f3
       (word_cat (ucast imm :: 4 word) (ucast (drop_bit 10 imm) :: 1 word)) op"

definition enc_u :: "20 word \<Rightarrow> reg \<Rightarrow> 7 word \<Rightarrow> u32" where
  "enc_u imm rd op = push_bit 12 (ucast imm) OR push_bit 7 (ucast rd) OR ucast op"

text \<open>Jump offsets are even: the immediate holds bits 20 to 1.\<close>

definition enc_j :: "20 word \<Rightarrow> reg \<Rightarrow> 7 word \<Rightarrow> u32" where
  "enc_j imm rd op =
     enc_u (word_cat (ucast (drop_bit 19 imm) :: 1 word)
              (word_cat (ucast imm :: 10 word)
                 (word_cat (ucast (drop_bit 10 imm) :: 1 word) (ucast (drop_bit 11 imm) :: 8 word) :: 9 word)
               :: 19 word)) rd op"

fun cmp_code :: "cmp \<Rightarrow> 3 word" where
  "cmp_code EQ = 0" | "cmp_code NE = 1" | "cmp_code LT = 4" | "cmp_code GE = 5"
| "cmp_code LTU = 6" | "cmp_code GEU = 7"

fun load_code :: "load_kind \<Rightarrow> 3 word" where
  "load_code LB = 0" | "load_code LH = 1" | "load_code LW = 2" | "load_code LBU = 4"
| "load_code LHU = 5"

fun store_code :: "store_kind \<Rightarrow> 3 word" where
  "store_code SB = 0" | "store_code SH = 1" | "store_code SW = 2"

fun imm_code :: "imm_op \<Rightarrow> 3 word" where
  "imm_code ADDI = 0" | "imm_code SLTI = 2" | "imm_code SLTIU = 3" | "imm_code XORI = 4"
| "imm_code ORI = 6" | "imm_code ANDI = 7"

fun shift_code :: "shift_op \<Rightarrow> 7 word \<times> 3 word" where
  "shift_code SLL = (0, 1)" | "shift_code SRL = (0, 5)" | "shift_code SRA = (0x20, 5)"

fun reg_code :: "reg_op \<Rightarrow> 7 word \<times> 3 word" where
  "reg_code ADD = (0, 0)" | "reg_code SUB = (0x20, 0)" | "reg_code SLT = (0, 2)"
| "reg_code SLTU = (0, 3)" | "reg_code XORR = (0, 4)" | "reg_code ORR = (0, 6)" | "reg_code ANDR = (0, 7)"

fun mul_code :: "mul_op \<Rightarrow> 3 word" where
  "mul_code MUL = 0" | "mul_code MULH = 1" | "mul_code MULHSU = 2" | "mul_code MULHU = 3"
| "mul_code DIV = 4" | "mul_code DIVU = 5" | "mul_code REM = 6" | "mul_code REMU = 7"

fun encode :: "rv_instr \<Rightarrow> u32" where
  "encode (Lui rd imm) = enc_u imm rd 0x37"
| "encode (Auipc rd imm) = enc_u imm rd 0x17"
| "encode (Jal rd imm) = enc_j imm rd 0x6f"
| "encode (Jalr rd rs1 imm) = enc_i imm rs1 0 rd 0x67"
| "encode (Branch c rs1 rs2 imm) = enc_b imm rs2 rs1 (cmp_code c) 0x63"
| "encode (Load k rd rs1 imm) = enc_i imm rs1 (load_code k) rd 0x3"
| "encode (Store k rs1 rs2 imm) = enc_s imm rs2 rs1 (store_code k) 0x23"
| "encode (Op_Imm f rd rs1 imm) = enc_i imm rs1 (imm_code f) rd 0x13"
| "encode (Shift_Imm f rd rs1 sh) =
     enc_r (fst (shift_code f)) sh rs1 (snd (shift_code f)) rd 0x13"
| "encode (Op f rd rs1 rs2) = enc_r (fst (reg_code f)) rs2 rs1 (snd (reg_code f)) rd 0x33"
| "encode (Shift f rd rs1 rs2) = enc_r (fst (shift_code f)) rs2 rs1 (snd (shift_code f)) rd 0x33"
| "encode (Mul_Div f rd rs1 rs2) = enc_r 1 rs2 rs1 (mul_code f) rd 0x33"
| "encode Ecall = 0x73"

subsection \<open>The decoder inverts the encoding\<close>

named_theorems decode \<open>fields and immediates of encoded instructions\<close>

lemma field_masks:
  "(0x7f :: u32) = mask 7" "(0x1f :: u32) = mask 5" "(0x7 :: u32) = mask 3"
  "(0xfff00000 :: u32) = push_bit 20 (mask 12)" "(0xfffff000 :: u32) = push_bit 12 (mask 20)"
  "(0xf80 :: u32) = push_bit 7 (mask 5)" "(0xfe000000 :: u32) = push_bit 25 (mask 7)"
  "(0xf00 :: u32) = push_bit 8 (mask 4)" "(0x7e000000 :: u32) = push_bit 25 (mask 6)"
  "(0x80 :: u32) = push_bit 7 (mask 1)" "(0xffffe000 :: u32) = push_bit 13 (mask 19)"
  "(0x7fe00000 :: u32) = push_bit 21 (mask 10)" "(0x100000 :: u32) = push_bit 20 (mask 1)"
  "(0xff000 :: u32) = push_bit 12 (mask 8)" "(0xffe00000 :: u32) = push_bit 21 (mask 11)"
  "(0x80000000 :: u32) = push_bit 31 (mask 1)"
  by (simp_all add: mask_eq_exp_minus_1)

lemma bit_field:
  "bit (push_bit k (ucast (w :: 'a::len word)) :: u32) n \<longleftrightarrow> k \<le> n \<and> n < 32 \<and> bit w (n - k)"
  by (auto simp: bit_push_bit_iff bit_ucast_iff)

lemma bit_beyond:
  "7 \<le> n \<Longrightarrow> \<not> bit (a :: 7 word) n" "5 \<le> n \<Longrightarrow> \<not> bit (b :: 5 word) n" "3 \<le> n \<Longrightarrow> \<not> bit (c :: 3 word) n"
  "12 \<le> n \<Longrightarrow> \<not> bit (d :: 12 word) n" "20 \<le> n \<Longrightarrow> \<not> bit (e :: 20 word) n"
  by (auto dest: bit_imp_le_length)

lemma bit_enc_r:
  assumes "n < 32"
  shows "bit (enc_r f7 rs2 rs1 f3 rd op) n =
     (if n < 7 then bit op n else if n < 12 then bit rd (n - 7) else if n < 15 then bit f3 (n - 12)
      else if n < 20 then bit rs1 (n - 15) else if n < 25 then bit rs2 (n - 20) else bit f7 (n - 25))"
proof -
  consider "n < 7" | "7 \<le> n" "n < 12" | "12 \<le> n" "n < 15" | "15 \<le> n" "n < 20" | "20 \<le> n" "n < 25" | "25 \<le> n"
    by linarith
  then show ?thesis
    by cases (simp_all add: assms enc_r_def bit_or_iff bit_field bit_ucast_iff bit_beyond)
qed

lemma bit_enc_u:
  assumes "n < 32"
  shows "bit (enc_u imm rd op) n =
     (if n < 7 then bit op n else if n < 12 then bit rd (n - 7) else bit imm (n - 12))"
proof -
  consider "n < 7" | "7 \<le> n" "n < 12" | "12 \<le> n" by linarith
  then show ?thesis
    by cases (simp_all add: assms enc_u_def bit_or_iff bit_field bit_ucast_iff bit_beyond)
qed

lemma bit_inst_field:
  "bit (drop_bit k inst AND mask w :: u32) n \<longleftrightarrow> n < w \<and> n + k < 32 \<and> bit inst (n + k)"
  by (auto simp: bit_and_iff bit_drop_bit_eq bit_mask_iff add.commute dest: bit_imp_le_length)

text \<open>A field of w bits at position k is the word of that width it holds.\<close>

lemma field_eqI:
  fixes w :: "'a::len word"
  assumes "LENGTH('a) + k \<le> 32" "\<And>n. n < LENGTH('a) \<Longrightarrow> bit inst (n + k) = bit w n"
  shows "drop_bit k inst AND mask LENGTH('a) = (ucast w :: u32)"
proof (rule bit_word_eqI)
  fix n assume n: "n < LENGTH(32)"
  show "bit (drop_bit k inst AND mask LENGTH('a)) n = bit (ucast w :: u32) n"
  proof (cases "n < LENGTH('a)")
    case True
    then show ?thesis using assms by (simp only: bit_inst_field bit_ucast_iff) simp
  next
    case False
    then show ?thesis
      by (simp only: bit_inst_field bit_ucast_iff) (auto dest: bit_imp_le_length)
  qed
qed

lemma enc_r_fields [decode]:
  "i_opcode (enc_r f7 rs2 rs1 f3 rd op) = ucast op"
  "i_rd (enc_r f7 rs2 rs1 f3 rd op) = ucast rd"
  "i_rs1 (enc_r f7 rs2 rs1 f3 rd op) = ucast rs1"
  "i_rs2 (enc_r f7 rs2 rs1 f3 rd op) = ucast rs2"
  "i_funct3 (enc_r f7 rs2 rs1 f3 rd op) = ucast f3"
  "i_funct7 (enc_r f7 rs2 rs1 f3 rd op) = ucast f7"
  unfolding i_opcode_def i_rd_def i_rs1_def i_rs2_def i_funct3_def i_funct7_def field_masks
  using field_eqI[of 0 "enc_r f7 rs2 rs1 f3 rd op" op] field_eqI[of 7 "enc_r f7 rs2 rs1 f3 rd op" rd]
    field_eqI[of 15 "enc_r f7 rs2 rs1 f3 rd op" rs1] field_eqI[of 20 "enc_r f7 rs2 rs1 f3 rd op" rs2]
    field_eqI[of 12 "enc_r f7 rs2 rs1 f3 rd op" f3] field_eqI[of 25 "enc_r f7 rs2 rs1 f3 rd op" f7]
  by (simp_all add: bit_enc_r)

lemma enc_u_fields [decode]:
  "i_opcode (enc_u imm rd op) = ucast op"
  "i_rd (enc_u imm rd op) = ucast rd"
  unfolding i_opcode_def i_rd_def field_masks
  using field_eqI[of 0 "enc_u imm rd op" op] field_eqI[of 7 "enc_u imm rd op" rd]
  by (simp_all add: bit_enc_u)

lemma imm_u_enc [decode]: "imm_u (enc_u imm rd op) = push_bit 12 (ucast imm)"
  unfolding imm_u_def field_masks
  by (rule bit_word_eqI)
     (auto simp: bit_and_iff bit_enc_u bit_push_bit_iff bit_mask_iff bit_ucast_iff)

lemma inst_sign: "inst AND 0x80000000 \<noteq> 0 \<longleftrightarrow> bit (inst :: u32) 31"
  using and_power_eq_0[of inst 31] by simp

text \<open>
  The sign extension every immediate ends with: the collected bits, or those with the high mask
  when the sign bit of the instruction is set, are the signed value of the immediate, shifted.
\<close>

lemma sign_extend_imm:
  fixes w :: "'a::len word" and i hi :: u32
  assumes low: "\<And>n. n < 32 \<Longrightarrow> bit i n \<longleftrightarrow> k \<le> n \<and> n < k + LENGTH('a) \<and> bit w (n - k)"
    and high: "\<And>n. n < 32 \<Longrightarrow> bit hi n \<longleftrightarrow> k + LENGTH('a) \<le> n"
    and sign: "neg \<longleftrightarrow> bit w (LENGTH('a) - 1)"
  shows "(if neg then i OR hi else i) = push_bit k (scast w)"
proof (rule bit_word_eqI)
  fix n assume n: "n < LENGTH(32)"
  have rhs: "bit (push_bit k (scast w :: u32)) n \<longleftrightarrow>
      k \<le> n \<and> bit w (if n - k < LENGTH('a) then n - k else LENGTH('a) - 1)"
  proof -
    have "min (LENGTH('a) - 1) (n - k) = (if n - k < LENGTH('a) then n - k else LENGTH('a) - 1)"
      by (auto simp: min_def)
    then show ?thesis using n by (auto simp: bit_push_bit_iff bit_signed_iff)
  qed
  show "bit (if neg then i OR hi else i) n = bit (push_bit k (scast w :: u32)) n"
    using n low[of n] high[of n] sign unfolding rhs
    by (cases "k \<le> n"; cases "n < k + LENGTH('a)") (auto simp: bit_or_iff)
qed

lemma bit_const_mask: "bit (push_bit k (mask w) :: u32) n \<longleftrightarrow> k \<le> n \<and> n < k + w \<and> n < 32"
  by (auto simp: bit_push_bit_iff bit_mask_iff)

text \<open>The bits of the masks the decoder uses.\<close>

lemma bit_consts:
  "bit (0xfff00000 :: u32) n \<longleftrightarrow> 20 \<le> n \<and> n < 32" "bit (0xfffff000 :: u32) n \<longleftrightarrow> 12 \<le> n \<and> n < 32"
  "bit (0xf80 :: u32) n \<longleftrightarrow> 7 \<le> n \<and> n < 12" "bit (0xfe000000 :: u32) n \<longleftrightarrow> 25 \<le> n \<and> n < 32"
  "bit (0xf00 :: u32) n \<longleftrightarrow> 8 \<le> n \<and> n < 12" "bit (0x7e000000 :: u32) n \<longleftrightarrow> 25 \<le> n \<and> n < 31"
  "bit (0x80 :: u32) n \<longleftrightarrow> n = 7" "bit (0xffffe000 :: u32) n \<longleftrightarrow> 13 \<le> n \<and> n < 32"
  "bit (0x7fe00000 :: u32) n \<longleftrightarrow> 21 \<le> n \<and> n < 31" "bit (0x100000 :: u32) n \<longleftrightarrow> n = 20"
  "bit (0xff000 :: u32) n \<longleftrightarrow> 12 \<le> n \<and> n < 20" "bit (0xffe00000 :: u32) n \<longleftrightarrow> 21 \<le> n \<and> n < 32"
  "bit (0x80000000 :: u32) n \<longleftrightarrow> n = 31"
  unfolding field_masks bit_const_mask by linarith+

lemma imm_i_enc [decode]: "imm_i (enc_i imm rs1 f3 rd op) = scast imm"
proof -
  define e where "e = enc_i imm rs1 f3 rd op"
  have e: "bit e n = bit imm (n - 20)" if "20 \<le> n" "n < 32" for n
    using that by (auto simp add: e_def enc_i_def bit_enc_r bit_ucast_iff bit_drop_bit_eq)
  define i where "i = drop_bit 20 (e AND 0xfff00000)"
  have "(if e AND 0x80000000 \<noteq> 0 then i OR 0xfffff000 else i) = push_bit 0 (scast imm)"
  proof (rule sign_extend_imm)
    show "bit i n \<longleftrightarrow> 0 \<le> n \<and> n < 0 + LENGTH(12) \<and> bit imm (n - 0)" if "n < 32" for n
      by (auto simp: i_def bit_drop_bit_eq bit_and_iff bit_consts e simp del: drop_bit_and bit_numeral_word_iff)
  qed (auto simp: bit_consts inst_sign e simp del: bit_numeral_word_iff)
  then show ?thesis
    unfolding i_def imm_i_def Let_def e_def[symmetric] by (simp only: push_bit_0_id id_apply)
qed

lemma imm_s_enc [decode]: "imm_s (enc_s imm rs2 rs1 f3 op) = scast imm"
proof -
  define e where "e = enc_s imm rs2 rs1 f3 op"
  have e: "bit e n = bit imm (n - 20)" if "25 \<le> n" "n < 32" for n
    using that by (auto simp add: e_def enc_s_def bit_enc_r bit_ucast_iff bit_drop_bit_eq)
  have e': "bit e n = bit imm (n - 7)" if "7 \<le> n" "n < 12" for n
    using that by (auto simp add: e_def enc_s_def bit_enc_r bit_ucast_iff bit_drop_bit_eq)
  define i where "i = drop_bit 7 (e AND 0xf80) OR drop_bit 20 (e AND 0xfe000000)"
  have "(if e AND 0x80000000 \<noteq> 0 then i OR 0xfffff000 else i) = push_bit 0 (scast imm)"
  proof (rule sign_extend_imm)
    show "bit i n \<longleftrightarrow> 0 \<le> n \<and> n < 0 + LENGTH(12) \<and> bit imm (n - 0)" if "n < 32" for n
      by (cases "n < 5")
         (auto simp: i_def bit_or_iff bit_drop_bit_eq bit_and_iff bit_consts e e' simp del: drop_bit_and bit_numeral_word_iff)
  qed (auto simp: bit_consts inst_sign e simp del: bit_numeral_word_iff)
  then show ?thesis
    unfolding i_def imm_s_def Let_def e_def[symmetric] by (simp only: push_bit_0_id id_apply)
qed

lemma imm_sb_enc [decode]: "imm_sb (enc_b imm rs2 rs1 f3 op) = push_bit 1 (scast imm)"
proof -
  define e where "e = enc_b imm rs2 rs1 f3 op"
  have e31: "bit e 31 = bit imm 11"
    by (simp add: e_def enc_b_def bit_enc_r bit_word_cat_iff bit_ucast_iff bit_drop_bit_eq)
  have e25: "bit e n = bit imm (n - 21)" if "25 \<le> n" "n < 31" for n
    using that by (auto simp add: e_def enc_b_def bit_enc_r bit_word_cat_iff bit_ucast_iff bit_drop_bit_eq)
  have e8: "bit e n = bit imm (n - 8)" if "8 \<le> n" "n < 12" for n
    using that by (auto simp add: e_def enc_b_def bit_enc_r bit_word_cat_iff bit_ucast_iff bit_drop_bit_eq)
  have e7: "bit e 7 = bit imm 10"
    by (simp add: e_def enc_b_def bit_enc_r bit_word_cat_iff bit_ucast_iff bit_drop_bit_eq)
  define i where "i = drop_bit 7 (e AND 0xf00) OR drop_bit 20 (e AND 0x7e000000)
       OR push_bit 4 (e AND 0x80) OR drop_bit 19 (e AND 0x80000000)"
  have "(if e AND 0x80000000 \<noteq> 0 then i OR 0xffffe000 else i) = push_bit 1 (scast imm)"
  proof (rule sign_extend_imm)
    show "bit i n \<longleftrightarrow> 1 \<le> n \<and> n < 1 + LENGTH(12) \<and> bit imm (n - 1)" if "n < 32" for n
    proof -
      consider "n = 0" | "1 \<le> n" "n < 5" | "5 \<le> n" "n < 11" | "n = 11" | "n = 12" | "13 \<le> n" by linarith
      then show ?thesis
        by cases (use that in \<open>auto simp: i_def bit_or_iff bit_drop_bit_eq bit_and_iff
          bit_push_bit_iff bit_consts e31 e25 e8 e7 simp del: drop_bit_and push_bit_and bit_numeral_word_iff\<close>)
    qed
  qed (auto simp: bit_consts inst_sign e31 simp del: bit_numeral_word_iff)
  then show ?thesis
    unfolding i_def imm_sb_def Let_def e_def[symmetric] .
qed

lemma imm_uj_enc [decode]: "imm_uj (enc_j imm rd op) = push_bit 1 (scast imm)"
proof -
  define e where "e = enc_j imm rd op"
  note simps = e_def enc_j_def bit_enc_u bit_word_cat_iff bit_ucast_iff bit_drop_bit_eq
  have e31: "bit e 31 = bit imm 19" by (simp add: simps)
  have e21: "bit e n = bit imm (n - 21)" if "21 \<le> n" "n < 31" for n using that by (auto simp add: simps)
  have e20: "bit e 20 = bit imm 10" by (simp add: simps)
  have e12: "bit e n = bit imm (n - 1)" if "12 \<le> n" "n < 20" for n using that by (auto simp add: simps)
  define i where "i = drop_bit 20 (e AND 0x7fe00000) OR drop_bit 9 (e AND 0x100000)
       OR (e AND 0xff000) OR drop_bit 11 (e AND 0x80000000)"
  have "(if e AND 0x80000000 \<noteq> 0 then i OR 0xffe00000 else i) = push_bit 1 (scast imm)"
  proof (rule sign_extend_imm)
    show "bit i n \<longleftrightarrow> 1 \<le> n \<and> n < 1 + LENGTH(20) \<and> bit imm (n - 1)" if "n < 32" for n
    proof -
      consider "n = 0" | "1 \<le> n" "n < 11" | "n = 11" | "12 \<le> n" "n < 20" | "n = 20" | "21 \<le> n" by linarith
      then show ?thesis
        by cases (use that in \<open>auto simp: i_def bit_or_iff bit_drop_bit_eq bit_and_iff
          bit_push_bit_iff bit_consts e31 e21 e20 e12 simp del: drop_bit_and push_bit_and bit_numeral_word_iff\<close>)
    qed
  qed (auto simp: bit_consts inst_sign e31 simp del: bit_numeral_word_iff)
  then show ?thesis
    unfolding i_def imm_uj_def Let_def e_def[symmetric] .
qed

lemma enc_i_fields [decode]:
  "i_opcode (enc_i imm rs1 f3 rd op) = ucast op"
  "i_rd (enc_i imm rs1 f3 rd op) = ucast rd"
  "i_rs1 (enc_i imm rs1 f3 rd op) = ucast rs1"
  "i_funct3 (enc_i imm rs1 f3 rd op) = ucast f3"
  by (simp_all add: enc_i_def decode)

lemma enc_s_fields [decode]:
  "i_opcode (enc_s imm rs2 rs1 f3 op) = ucast op"
  "i_rs1 (enc_s imm rs2 rs1 f3 op) = ucast rs1"
  "i_rs2 (enc_s imm rs2 rs1 f3 op) = ucast rs2"
  "i_funct3 (enc_s imm rs2 rs1 f3 op) = ucast f3"
  by (simp_all add: enc_s_def decode)

lemma enc_b_fields [decode]:
  "i_opcode (enc_b imm rs2 rs1 f3 op) = ucast op"
  "i_rs1 (enc_b imm rs2 rs1 f3 op) = ucast rs1"
  "i_rs2 (enc_b imm rs2 rs1 f3 op) = ucast rs2"
  "i_funct3 (enc_b imm rs2 rs1 f3 op) = ucast f3"
  by (simp_all add: enc_b_def decode)

lemma enc_j_fields [decode]:
  "i_opcode (enc_j imm rd op) = ucast op"
  "i_rd (enc_j imm rd op) = ucast rd"
  by (simp_all add: enc_j_def decode)

end
