(* ===== verification/Riscv_Refine.thy ===== *)
theory Riscv_Refine
  imports Riscv_Isa
begin

text \<open>
  The effect of the instructions of \<open>Riscv_Isa\<close>, stated over the 32 registers of the architecture
  and over integers, and the proof that the simulator's \<open>execute\<close> refines it outside the cases \<open>isa_agrees\<close>
  excludes. \<open>sim_step\<close> is the effect of every instruction in the simulator, \<open>isa_exact\<close> the condition under
  which it is the specified one.
\<close>

unbundle bit_operations_syntax

subsection \<open>Semantics\<close>

text \<open>The 32 registers of the architecture: register 0 reads as zero and ignores writes.\<close>

type_synonym reg_file = "reg \<Rightarrow> u32"

definition reg_write :: "reg_file \<Rightarrow> reg \<Rightarrow> u32 \<Rightarrow> reg_file" where
  "reg_write x rd v = (if rd = 0 then x else x(rd := v))"

fun cmp_holds :: "cmp \<Rightarrow> u32 \<Rightarrow> u32 \<Rightarrow> bool" where
  "cmp_holds EQ a b = (a = b)"
| "cmp_holds NE a b = (a \<noteq> b)"
| "cmp_holds LT a b = (sint a < sint b)"
| "cmp_holds GE a b = (sint a \<ge> sint b)"
| "cmp_holds LTU a b = (uint a < uint b)"
| "cmp_holds GEU a b = (uint a \<ge> uint b)"

fun load_size :: "load_kind \<Rightarrow> u32" where
  "load_size LB = 1" | "load_size LH = 2" | "load_size LW = 4" | "load_size LBU = 1" | "load_size LHU = 2"

fun load_value :: "load_kind \<Rightarrow> u32 \<Rightarrow> u32" where
  "load_value LB v = word_of_int (sint (ucast v :: u8))"
| "load_value LH v = word_of_int (sint (ucast v :: u16))"
| "load_value LW v = v"
| "load_value LBU v = word_of_int (uint v mod 2 ^ 8)"
| "load_value LHU v = word_of_int (uint v mod 2 ^ 16)"

fun store_size :: "store_kind \<Rightarrow> u32" where
  "store_size SB = 1" | "store_size SH = 2" | "store_size SW = 4"

fun imm_result :: "imm_op \<Rightarrow> u32 \<Rightarrow> 12 word \<Rightarrow> u32" where
  "imm_result ADDI a i = word_of_int (sint a + sint i)"
| "imm_result SLTI a i = (if sint a < sint i then 1 else 0)"
| "imm_result SLTIU a i = (if uint a < sint i mod 2 ^ 32 then 1 else 0)"
| "imm_result XORI a i = a XOR word_of_int (sint i)"
| "imm_result ORI a i = a OR word_of_int (sint i)"
| "imm_result ANDI a i = a AND word_of_int (sint i)"

fun reg_result :: "reg_op \<Rightarrow> u32 \<Rightarrow> u32 \<Rightarrow> u32" where
  "reg_result ADD a b = word_of_int (sint a + sint b)"
| "reg_result SUB a b = word_of_int (sint a - sint b)"
| "reg_result SLT a b = (if sint a < sint b then 1 else 0)"
| "reg_result SLTU a b = (if uint a < uint b then 1 else 0)"
| "reg_result XORR a b = a XOR b"
| "reg_result ORR a b = a OR b"
| "reg_result ANDR a b = a AND b"

fun shift_value :: "shift_op \<Rightarrow> u32 \<Rightarrow> nat \<Rightarrow> u32" where
  "shift_value SLL a n = word_of_int (uint a * 2 ^ n)"
| "shift_value SRL a n = word_of_int (uint a div 2 ^ n)"
| "shift_value SRA a n = word_of_int (sint a div 2 ^ n)"

fun mul_result :: "mul_op \<Rightarrow> u32 \<Rightarrow> u32 \<Rightarrow> u32" where
  "mul_result MUL a b = word_of_int (sint a * sint b)"
| "mul_result MULH a b = word_of_int (sint a * sint b div 2 ^ 32)"
| "mul_result MULHSU a b = word_of_int (sint a * uint b div 2 ^ 32)"
| "mul_result MULHU a b = word_of_int (uint a * uint b div 2 ^ 32)"
| "mul_result DIV a b = (if b = 0 then - 1 else word_of_int (sint a sdiv sint b))"
| "mul_result DIVU a b = (if b = 0 then - 1 else word_of_int (uint a div uint b))"
| "mul_result REM a b = (if b = 0 then a else word_of_int (sint a smod sint b))"
| "mul_result REMU a b = (if b = 0 then a else word_of_int (uint a mod uint b))"

text \<open>What an instruction asks for: a new register file and pc, a bus access, or a trap.\<close>

datatype isa_effect =
    Continue reg_file u32
  | Bus_Read load_kind u32 reg
  | Bus_Write store_kind u32 u32
  | Trap

fun isa_step :: "rv_instr \<Rightarrow> reg_file \<Rightarrow> u32 \<Rightarrow> isa_effect" where
  "isa_step (Lui rd imm) x pc = Continue (reg_write x rd (word_of_int (uint imm * 2 ^ 12))) (pc + 4)"
| "isa_step (Auipc rd imm) x pc =
     Continue (reg_write x rd (pc + word_of_int (uint imm * 2 ^ 12))) (pc + 4)"
| "isa_step (Jal rd imm) x pc = Continue (reg_write x rd (pc + 4)) (pc + word_of_int (2 * sint imm))"
| "isa_step (Jalr rd rs1 imm) x pc =
     Continue (reg_write x rd (pc + 4)) ((x rs1 + word_of_int (sint imm)) AND NOT 1)"
| "isa_step (Branch c rs1 rs2 imm) x pc =
     Continue x (if cmp_holds c (x rs1) (x rs2) then pc + word_of_int (2 * sint imm) else pc + 4)"
| "isa_step (Load k rd rs1 imm) x pc = Bus_Read k (x rs1 + word_of_int (sint imm)) rd"
| "isa_step (Store k rs1 rs2 imm) x pc = Bus_Write k (x rs1 + word_of_int (sint imm)) (x rs2)"
| "isa_step (Op_Imm f rd rs1 imm) x pc = Continue (reg_write x rd (imm_result f (x rs1) imm)) (pc + 4)"
| "isa_step (Shift_Imm f rd rs1 sh) x pc =
     Continue (reg_write x rd (shift_value f (x rs1) (unat sh))) (pc + 4)"
| "isa_step (Op f rd rs1 rs2) x pc = Continue (reg_write x rd (reg_result f (x rs1) (x rs2))) (pc + 4)"
| "isa_step (Shift f rd rs1 rs2) x pc =
     Continue (reg_write x rd (shift_value f (x rs1) (unat (x rs2) mod 32))) (pc + 4)"
| "isa_step (Mul_Div f rd rs1 rs2) x pc =
     Continue (reg_write x rd (mul_result f (x rs1) (x rs2))) (pc + 4)"
| "isa_step Ecall x pc = Trap"

text \<open>
  The effect carried out on a machine: the bus is the simulator's, the trap is its exception flag.
  Two machines look the same when their 32 registers read the same and all else is equal.
\<close>

definition xregs :: "riscv_state \<Rightarrow> reg_file" where
  "xregs s i = (if i = 0 then 0 else rv_r s (ucast i))"

definition with_regs :: "riscv_state \<Rightarrow> reg_file \<Rightarrow> riscv_state" where
  "with_regs s x = s\<lparr>rv_r := (\<lambda>n. x (ucast n))\<rparr>"

definition visible :: "riscv_state \<Rightarrow> reg_file \<times> riscv_state" where
  "visible s = (xregs s, s\<lparr>rv_r := (\<lambda>_. 0)\<rparr>)"

fun perform :: "isa_effect \<Rightarrow> riscv_state \<Rightarrow> sim_halt + riscv_state" where
  "perform (Continue x pc) s = Inr ((with_regs s x)\<lparr>rv_pc_next := pc\<rparr>)"
| "perform (Bus_Read k a rd) s =
     (case mem_read s (load_size k) a of Inl h \<Rightarrow> Inl h
      | Inr (v, t) \<Rightarrow> Inr (with_regs t (reg_write (xregs s) rd (load_value k v))))"
| "perform (Bus_Write k a v) s = mem_write s (store_size k) a v"
| "perform Trap s = Inr (s\<lparr>rv_exception := 1\<rparr>)"

text \<open>Where the simulator does what the specification says.\<close>

fun isa_agrees :: "rv_instr \<Rightarrow> riscv_state \<Rightarrow> bool" where
  "isa_agrees (Jalr rd rs1 imm) s = (rd \<noteq> rs1)"
| "isa_agrees (Load k rd rs1 imm) s = (rs1 = 0 \<longrightarrow> rv_r s 0 = 0)"
| "isa_agrees (Store k rs1 rs2 imm) s = (rs1 = 0 \<longrightarrow> rv_r s 0 = 0)"
| "isa_agrees (Shift f rd rs1 rs2) s = (xregs s rs2 < 32)"
| "isa_agrees (Mul_Div f rd rs1 rs2) s =
     (f \<in> {MUL, MULH, MULHSU, MULHU} \<or> xregs s rs2 \<noteq> 0 \<and>
      (f \<in> {DIV, REM} \<longrightarrow> xregs s rs1 \<noteq> 0x80000000 \<or> xregs s rs2 \<noteq> - 1))"
| "isa_agrees i s = True"

subsection \<open>Refinement\<close>

lemma reg_index [simp]:
  "(ucast (a :: reg) :: u32) = ucast b \<longleftrightarrow> a = b"
  "(ucast (a :: reg) :: u32) = 0 \<longleftrightarrow> a = 0"
  "(0 :: u32) = ucast (a :: reg) \<longleftrightarrow> a = 0"
  "(ucast (ucast (a :: reg) :: u32) :: reg) = a"
proof -
  show rt: "(ucast (ucast a :: u32) :: reg) = a" for a :: reg
    by (rule bit_word_eqI) (simp add: bit_ucast_iff)
  show "(ucast (a :: reg) :: u32) = ucast b \<longleftrightarrow> a = b" for b by (metis rt)
  show "(ucast (a :: reg) :: u32) = 0 \<longleftrightarrow> a = 0" by (metis rt unsigned_0)
  then show "(0 :: u32) = ucast (a :: reg) \<longleftrightarrow> a = 0" by metis
qed

text \<open>A step of the simulator that writes one register, as the specification sees it.\<close>

lemma visible_write:
  "visible (s\<lparr>rv_r := (rv_r s)(0 := 0, ucast rd := v), rv_pc_next := pc\<rparr>) =
   visible ((with_regs s (reg_write (xregs s) rd v))\<lparr>rv_pc_next := pc\<rparr>)"
  "rv_pc_next s = pc \<Longrightarrow> visible (s\<lparr>rv_r := (rv_r s)(0 := 0, ucast rd := v)\<rparr>) =
   visible ((with_regs s (reg_write (xregs s) rd v))\<lparr>rv_pc_next := pc\<rparr>)"
  "visible (s\<lparr>rv_r := (rv_r s)(0 := 0), rv_pc_next := pc\<rparr>) =
   visible ((with_regs s (xregs s))\<lparr>rv_pc_next := pc\<rparr>)"
  "rv_pc_next s = pc \<Longrightarrow>
   visible (s\<lparr>rv_r := (rv_r s)(0 := 0)\<rparr>) = visible ((with_regs s (xregs s))\<lparr>rv_pc_next := pc\<rparr>)"
  by (auto simp: visible_def xregs_def with_regs_def reg_write_def fun_eq_iff)

lemma xregs_cleared: "((rv_r s)(0 := 0)) (ucast i) = xregs s i"
  by (simp add: xregs_def)

lemma mem_read_regs:
  "mem_read (s\<lparr>rv_r := f\<rparr>) sz a = map_sum id (map_prod id (\<lambda>t. t\<lparr>rv_r := f\<rparr>)) (mem_read s sz a)"
  unfolding mem_read_def Let_def by (simp add: getchar_def split: list.split)

lemma mem_write_regs:
  "f 10 = rv_r s 10 \<Longrightarrow>
   mem_write (s\<lparr>rv_r := f\<rparr>) sz a v = map_sum id (\<lambda>t. t\<lparr>rv_r := f\<rparr>) (mem_write s sz a v)"
  unfolding mem_write_def Let_def by (simp split: option.split)

lemma imm_results:
  "imm_result ADDI a i = a + scast i" "imm_result SLTI a i = c_bool (a <s scast i)"
  "imm_result SLTIU a i = c_bool (a < scast i)" "imm_result XORI a i = a XOR scast i"
  "imm_result ORI a i = a OR scast i" "imm_result ANDI a i = a AND scast i"
proof -
  have w: "word_of_int (sint i) = (scast i :: u32)" by simp
  have s: "sint (scast i :: u32) = sint i" by (rule sint_up_scast) (simp add: is_up)
  have u: "uint (scast i :: u32) = sint i mod 2 ^ 32" 
    using uint_word_of_int[of "sint i", where 'a = 32] by (simp add: w)
  show "imm_result ADDI a i = a + scast i" by (simp add: wi_hom_add[symmetric] word_of_int_of_sint)
  show "imm_result SLTI a i = c_bool (a <s scast i)" by (simp add: c_ops word_sless_alt s)
  show "imm_result SLTIU a i = c_bool (a < scast i)" by (simp add: c_ops word_less_def u)
qed (simp_all)

lemma reg_results:
  "reg_result ADD a b = a + b" "reg_result SUB a b = a - b"
  "reg_result SLT a b = c_bool (a <s b)" "reg_result SLTU a b = c_bool (a < b)"
  by (simp_all add: wi_hom_add[symmetric] wi_hom_sub[symmetric] word_of_int_of_sint c_ops word_sless_alt word_less_def)

lemma shift_values:
  "push_bit n (a :: u32) = shift_value SLL a n" "drop_bit n a = shift_value SRL a n"
  "signed_drop_bit n a = shift_value SRA a n"
proof -
  show "push_bit n a = shift_value SLL a n"
    by (simp add: push_bit_eq_mult wi_hom_mult[symmetric])
  show "drop_bit n a = shift_value SRL a n"
  proof -
    have "uint (drop_bit n a) = uint a div 2 ^ n"
      by (simp only: uint_nat unat_shr zdiv_int of_nat_power of_nat_numeral)
    then show ?thesis by (simp only: shift_value.simps) (metis word_of_int_uint)
  qed
  show "signed_drop_bit n a = shift_value SRA a n"
  proof -
    have "sint (signed_drop_bit n a) = sint a div 2 ^ n"
      by (simp only: sint_signed_drop_bit_eq drop_bit_eq_div)
    then show ?thesis by (simp only: shift_value.simps) (metis word_of_int_of_sint)
  qed
qed


text \<open>The halves of a 64-bit product, whichever way its factors were extended.\<close>

lemma low_half: "(ucast ((word_of_int k :: u64) AND 0xffffffff) :: u32) = word_of_int k"
proof -
  have m: "(0xffffffff :: u64) = mask 32" by (simp add: mask_eq_exp_minus_1)
  show ?thesis
    unfolding m by (rule bit_word_eqI) (simp add: bit_ucast_iff bit_and_iff bit_word_of_int_iff bit_mask_iff)
qed

lemma high_half:
  "(ucast (drop_bit 32 (word_of_int k :: u64) AND 0xffffffff) :: u32) = word_of_int (k div 2 ^ 32)"
  "(ucast (signed_drop_bit 32 (word_of_int k :: u64) AND 0xffffffff) :: u32) = word_of_int (k div 2 ^ 32)"
proof -
  have m: "(0xffffffff :: u64) = mask 32" by (simp add: mask_eq_exp_minus_1)
  note bits = bit_ucast_iff bit_and_iff bit_word_of_int_iff bit_mask_iff bit_drop_bit_eq
  show "(ucast (drop_bit 32 (word_of_int k :: u64) AND 0xffffffff) :: u32) = word_of_int (k div 2 ^ 32)"
    unfolding m drop_bit_eq_div[symmetric] by (rule bit_word_eqI) (simp add: bits)
  show "(ucast (signed_drop_bit 32 (word_of_int k :: u64) AND 0xffffffff) :: u32) = word_of_int (k div 2 ^ 32)"
    unfolding m drop_bit_eq_div[symmetric]
    by (rule bit_word_eqI) (simp add: bits bit_signed_drop_bit_iff)
qed

lemma mul_results:
  fixes a b :: u32
  shows "ucast ((scast a :: u64) * scast b AND 0xffffffff) = mul_result MUL a b"
    "ucast (signed_drop_bit 32 ((scast a :: u64) * scast b) AND 0xffffffff) = mul_result MULH a b"
    "ucast (drop_bit 32 ((scast a :: u64) * ucast b) AND 0xffffffff) = mul_result MULHSU a b"
    "ucast (drop_bit 32 ((ucast a :: u64) * ucast b) AND 0xffffffff) = mul_result MULHU a b"
proof -
  have c: "(scast a :: u64) = word_of_int (sint a)" "(scast b :: u64) = word_of_int (sint b)"
    "(ucast a :: u64) = word_of_int (uint a)" "(ucast b :: u64) = word_of_int (uint b)"
    by simp_all
  show "ucast ((scast a :: u64) * scast b AND 0xffffffff) = mul_result MUL a b"
    "ucast (signed_drop_bit 32 ((scast a :: u64) * scast b) AND 0xffffffff) = mul_result MULH a b"
    "ucast (drop_bit 32 ((scast a :: u64) * ucast b) AND 0xffffffff) = mul_result MULHSU a b"
    "ucast (drop_bit 32 ((ucast a :: u64) * ucast b) AND 0xffffffff) = mul_result MULHU a b"
    unfolding c wi_hom_mult mul_result.simps by (rule low_half high_half)+
qed

lemma unsigned_results:
  fixes a b :: u32
  assumes "b \<noteq> 0"
  shows "a div b = mul_result DIVU a b" "a mod b = mul_result REMU a b"
  using assms by (simp_all add: word_div_def word_mod_def)


definition view :: "sim_halt + riscv_state \<Rightarrow> sim_halt + reg_file \<times> riscv_state" where
  "view = map_sum id visible"

lemma view_simps [simp]: "view (Inl h) = Inl h" "view (Inr t) = Inr (visible t)"
  by (simp_all add: view_def)

text \<open>One lemma per opcode; the instruction fields come from \<open>decode\<close>.\<close>

lemma imm_words:
  "word_of_int (uint (u :: 20 word) * 2 ^ 12) = (push_bit 12 (ucast u) :: u32)"
  "word_of_int (2 * sint (j :: 20 word)) = (push_bit 1 (scast j) :: u32)"
  "word_of_int (2 * sint (i :: 12 word)) = (push_bit 1 (scast i) :: u32)"
  "word_of_int (sint i) = (scast i :: u32)"
  by (simp_all add: push_bit_eq_mult wi_hom_mult[symmetric])

lemma offset_commute:
  "scast (j :: 20 word) * (2 :: u32) = 2 * scast j" "scast (i :: 12 word) * (2 :: u32) = 2 * scast i"
  by simp_all

lemmas refine_simps = execute_def decode Let_def xregs_cleared visible_write offset_commute

lemma refine_upper:
  assumes "rv_pc_next s = rv_pc s + 4"
  shows "view (execute s (encode (Lui rd u))) = view (perform (isa_step (Lui rd u) (xregs s) (rv_pc s)) s)"
    "view (execute s (encode (Auipc rd u))) = view (perform (isa_step (Auipc rd u) (xregs s) (rv_pc s)) s)"
    "view (execute s (encode (Jal rd u))) = view (perform (isa_step (Jal rd u) (xregs s) (rv_pc s)) s)"
  by (simp_all add: refine_simps assms push_bit_eq_mult del: fun_upd_apply)

lemma refine_jalr:
  assumes "rv_pc_next s = rv_pc s + 4" "rd \<noteq> rs1"
  shows "view (execute s (encode (Jalr rd rs1 i))) =
    view (perform (isa_step (Jalr rd rs1 i) (xregs s) (rv_pc s)) s)"
proof -
  have "((rv_r s)(0 := 0, ucast rd := v)) (ucast rs1) = xregs s rs1" for v
    using assms(2) by (simp add: xregs_def)
  moreover have "(x :: u32) AND 0xfffffffe = x AND NOT 1" for x
  proof -
    have "(0xfffffffe :: u32) = NOT 1" by simp
    then show ?thesis by (simp only:)
  qed
  ultimately show ?thesis
    by (simp add: refine_simps assms(1) del: fun_upd_apply bit.compl_one)
qed

lemma refine_branch:
  assumes "rv_pc_next s = rv_pc s + 4"
  shows "view (execute s (encode (Branch c rs1 rs2 i))) =
    view (perform (isa_step (Branch c rs1 rs2 i) (xregs s) (rv_pc s)) s)"
  by (cases c)
     (simp_all add: refine_simps exec_branch_def assms
       word_sless_alt word_sle_eq word_less_def word_le_def del: fun_upd_apply)

lemma refine_imm:
  assumes "rv_pc_next s = rv_pc s + 4"
  shows "view (execute s (encode (Op_Imm f rd rs1 i))) =
    view (perform (isa_step (Op_Imm f rd rs1 i) (xregs s) (rv_pc s)) s)"
  by (cases f; simp only: isa_step.simps imm_results)
     (simp_all add: refine_simps exec_imm_def assms del: fun_upd_apply)

lemma refine_reg:
  assumes "rv_pc_next s = rv_pc s + 4"
  shows "view (execute s (encode (Op f rd rs1 rs2))) =
    view (perform (isa_step (Op f rd rs1 rs2) (xregs s) (rv_pc s)) s)"
  by (cases f; simp only: isa_step.simps reg_results)
     (simp_all add: refine_simps exec_reg_def assms del: fun_upd_apply)

lemma refine_shift_imm:
  assumes "rv_pc_next s = rv_pc s + 4"
  shows "view (execute s (encode (Shift_Imm f rd rs1 n))) =
    view (perform (isa_step (Shift_Imm f rd rs1 n) (xregs s) (rv_pc s)) s)"
proof -
  have m: "(0x3f :: u32) = mask 6" by (simp add: mask_eq_exp_minus_1)
  have "(ucast n :: u32) AND 0x3f = ucast n"
    unfolding m by (rule bit_word_eqI) (auto simp: bit_and_iff bit_mask_iff bit_ucast_iff dest: bit_imp_le_length)
  moreover have "unat (ucast n :: u32) = unat n"
    using unat_bound[of n] by (simp add: unsigned_ucast_eq take_bit_nat_eq_self)
  ultimately show ?thesis
    by (cases f; simp only: isa_step.simps shift_values[symmetric])
       (simp_all add: refine_simps exec_imm_def assms del: fun_upd_apply)
qed

lemma refine_shift:
  assumes "rv_pc_next s = rv_pc s + 4" "xregs s rs2 < 32"
  shows "view (execute s (encode (Shift f rd rs1 rs2))) =
    view (perform (isa_step (Shift f rd rs1 rs2) (xregs s) (rv_pc s)) s)"
proof -
  have "unat (xregs s rs2) mod 32 = unat (xregs s rs2)" using assms(2) by (simp add: word_less_nat_alt)
  then show ?thesis
  by (cases f; simp only: isa_step.simps shift_values[symmetric])
     (simp_all add: refine_simps exec_reg_def shift_result_def c_ops assms del: fun_upd_apply)
qed

lemma refine_muldiv:
  assumes "rv_pc_next s = rv_pc s + 4" "isa_agrees (Mul_Div f rd rs1 rs2) s"
  shows "view (execute s (encode (Mul_Div f rd rs1 rs2))) =
    view (perform (isa_step (Mul_Div f rd rs1 rs2) (xregs s) (rv_pc s)) s)"
  using assms(2)
  by (cases f; simp only: isa_step.simps mul_results[symmetric])
     (auto simp add: refine_simps exec_reg_def exec_muldiv_def assms(1) 
       word_div_def word_mod_def simp del: fun_upd_apply)


lemma refine_ecall:
  assumes "rv_pc_next s = rv_pc s + 4"
  shows "view (execute s (encode Ecall)) = view (perform (isa_step Ecall (xregs s) (rv_pc s)) s)"
  by (simp add: execute_def exec_system_def i_opcode_def i_funct3_def imm_i_def visible_def xregs_def fun_eq_iff)

lemma zero_extend:
  "(ucast (ucast (v :: u32) :: u8) :: u32) = word_of_int (uint v mod 256)"
  "(ucast (ucast (v :: u32) :: u16) :: u32) = word_of_int (uint v mod 65536)"
proof -
  have "(ucast (ucast v :: u8) :: u32) = word_of_int (take_bit 8 (uint v))"
    by (rule bit_word_eqI) (auto simp: bit_ucast_iff bit_word_of_int_iff bit_take_bit_iff bit_uint_iff)
  then show "(ucast (ucast v :: u8) :: u32) = word_of_int (uint v mod 256)" by (simp add: take_bit_eq_mod)
  have "(ucast (ucast v :: u16) :: u32) = word_of_int (take_bit 16 (uint v))"
    by (rule bit_word_eqI) (auto simp: bit_ucast_iff bit_word_of_int_iff bit_take_bit_iff bit_uint_iff)
  then show "(ucast (ucast v :: u16) :: u32) = word_of_int (uint v mod 65536)" by (simp add: take_bit_eq_mod)
qed

lemma execute_load_base:
  "view (execute s (encode (Load k rd rs1 i))) =
    view (perform (Bus_Read k (rv_r s (ucast rs1) + word_of_int (sint i)) rd) s)"
proof -
  have p: "visible (t\<lparr>rv_r := (rv_r s)(0 := 0, ucast rd := v)\<rparr>) = visible (with_regs t (reg_write (xregs s) rd v))" 
    for v t
    by (auto simp: visible_def with_regs_def xregs_def reg_write_def fun_eq_iff)
  show ?thesis
    by (cases k; cases "mem_read s (load_size k) (rv_r s (ucast rs1) + scast i)")
       (simp_all add: refine_simps exec_load_def mem_read_regs p zero_extend split_beta del: fun_upd_apply)
qed

lemma mem_write_keeps_regs: "when_running (\<lambda>t. rv_r t = rv_r s) (mem_write s sz a v)"
  unfolding mem_write_def Let_def
  by (intro when_running_ifI) (simp_all split: option.split)

lemma execute_store_base:
  "view (execute s (encode (Store k rs1 rs2 i))) =
    view (perform (Bus_Write k (rv_r s (ucast rs1) + word_of_int (sint i)) (xregs s rs2)) s)"
proof -
  have wr: "view (mem_write (s\<lparr>rv_r := (rv_r s)(0 := 0)\<rparr>) sz a b) = view (mem_write s sz a b)" for sz a b
  proof (cases "mem_write s sz a b")
    case (Inr t)
    then have "rv_r t = rv_r s" using when_runningD[OF mem_write_keeps_regs] by blast
    then show ?thesis
      by (simp add: mem_write_regs[where f = "(rv_r s)(0 := 0)"] Inr)
         (auto simp: visible_def xregs_def fun_eq_iff)
  qed (simp add: mem_write_regs[where f = "(rv_r s)(0 := 0)"])
  show ?thesis
    by (cases k) (simp_all add: refine_simps exec_store_def wr del: fun_upd_apply)
qed

subsection \<open>What the simulator does, instruction by instruction\<close>

text \<open>
  The effect of an instruction in the simulator. It is the one of the specification but for the base of a jump that
  overwrites it with the link, the base x0 of loads and stores, which is \<open>r[0]\<close> as the instruction before left it,
  register shifts by the whole register, and the results of a division by zero and of the overflowing one.
\<close>

fun overflows :: "mul_op \<Rightarrow> u32 \<Rightarrow> u32 \<Rightarrow> bool" where
  "overflows f a b = (f \<in> {DIV, REM} \<and> a = 0x80000000 \<and> b = - 1)"

fun sim_step :: "rv_instr \<Rightarrow> riscv_state \<Rightarrow> sim_halt + isa_effect" where
  "sim_step (Jalr rd rs1 imm) s = Inr (Continue (reg_write (xregs s) rd (rv_pc s + 4))
     (((if rd = rs1 then rv_pc s + 4 else xregs s rs1) + word_of_int (sint imm)) AND NOT 1))"
| "sim_step (Load k rd rs1 imm) s =
     Inr (Bus_Read k ((if rs1 = 0 then rv_r s 0 else xregs s rs1) + word_of_int (sint imm)) rd)"
| "sim_step (Store k rs1 rs2 imm) s =
     Inr (Bus_Write k ((if rs1 = 0 then rv_r s 0 else xregs s rs1) + word_of_int (sint imm)) (xregs s rs2))"
| "sim_step (Shift f rd rs1 rs2) s =
     (if xregs s rs2 < 32
      then Inr (Continue (reg_write (xregs s) rd (shift_value f (xregs s rs1) (unat (xregs s rs2)))) (rv_pc s + 4))
      else Inl Undefined_Shift)"
| "sim_step (Mul_Div f rd rs1 rs2) s =
     (if f \<in> {DIV, DIVU, REM, REMU} \<and> xregs s rs2 = 0
      then Inr (Continue (reg_write (xregs s) rd 0) (rv_pc s + 4))
      else if overflows f (xregs s rs1) (xregs s rs2) then Inl Undefined_Division
      else Inr (Continue (reg_write (xregs s) rd (mul_result f (xregs s rs1) (xregs s rs2))) (rv_pc s + 4)))"
| "sim_step i s = Inr (isa_step i (xregs s) (rv_pc s))"

text \<open>Exactly where it is the effect of the specification.\<close>

fun isa_exact :: "rv_instr \<Rightarrow> riscv_state \<Rightarrow> bool" where
  "isa_exact (Jalr rd rs1 imm) s = (rd \<noteq> rs1 \<or>
     (rv_pc s + 4 + word_of_int (sint imm)) AND NOT 1 = (xregs s rs1 + word_of_int (sint imm)) AND NOT 1)"
| "isa_exact (Load k rd rs1 imm) s = (rs1 = 0 \<longrightarrow> rv_r s 0 = 0)"
| "isa_exact (Store k rs1 rs2 imm) s = (rs1 = 0 \<longrightarrow> rv_r s 0 = 0)"
| "isa_exact (Shift f rd rs1 rs2) s = (xregs s rs2 < 32)"
| "isa_exact (Mul_Div f rd rs1 rs2) s =
     (f \<in> {MUL, MULH, MULHSU, MULHU} \<or>
      (if xregs s rs2 = 0 then rd = 0 \<or> f \<in> {REM, REMU} \<and> xregs s rs1 = 0
       else \<not> overflows f (xregs s rs1) (xregs s rs2)))"
| "isa_exact i s = True"

lemma reg_write_inject: "reg_write x rd v = reg_write x rd w \<longleftrightarrow> rd = 0 \<or> v = w"
  by (auto simp: reg_write_def fun_eq_iff)

lemma shift_amount: "(n :: u32) < 32 \<Longrightarrow> unat n mod 32 = unat n"
  by (simp add: word_less_nat_alt)

lemma sim_step_isa: "sim_step i s = Inr (isa_step i (xregs s) (rv_pc s)) \<longleftrightarrow> isa_exact i s"
proof (cases i)
  case (Load k rd rs1 imm)
  then show ?thesis by (simp add: xregs_def)
next
  case (Store k rs1 rs2 imm)
  then show ?thesis by (simp add: xregs_def)
next
  case (Shift f rd rs1 rs2)
  then show ?thesis by (simp add: shift_amount)
next
  case (Mul_Div f rd rs1 rs2)
  then show ?thesis by (cases f) (auto simp: reg_write_inject)
qed (auto simp: reg_write_inject)

lemma execute_jalr:
  assumes "rv_pc_next s = rv_pc s + 4"
  shows "view (execute s (encode (Jalr rd rd i))) =
    view (perform (Continue (reg_write (xregs s) rd (rv_pc s + 4)) ((rv_pc s + 4 + word_of_int (sint i)) AND NOT 1)) s)"
proof -
  have "(x :: u32) AND 0xfffffffe = x AND NOT 1" for x
  proof -
    have "(0xfffffffe :: u32) = NOT 1" by simp
    then show ?thesis by (simp only:)
  qed
  moreover have "((rv_r s)(0 := 0, ucast rd := v)) (ucast rd) = v" for v by simp
  ultimately show ?thesis
    by (simp add: refine_simps assms(1) del: fun_upd_apply bit.compl_one)
qed

lemma base_reg: "rv_r s (ucast rs1) = (if rs1 = 0 then rv_r s 0 else xregs s rs1)"
  by (simp add: xregs_def)

lemma execute_shift:
  assumes "rv_pc_next s = rv_pc s + 4"
  shows "view (execute s (encode (Shift f rd rs1 rs2))) = (case sim_step (Shift f rd rs1 rs2) s of
     Inl h \<Rightarrow> Inl h | Inr e \<Rightarrow> view (perform e s))"
proof (cases "xregs s rs2 < 32")
  case True
  then show ?thesis using refine_shift[OF assms, of rs2 f rd rs1] by (simp add: shift_amount)
next
  case False
  then show ?thesis by (cases f) (simp_all add: refine_simps exec_reg_def shift_result_def c_ops del: fun_upd_apply)
qed

lemma execute_muldiv:
  assumes "rv_pc_next s = rv_pc s + 4"
  shows "view (execute s (encode (Mul_Div f rd rs1 rs2))) = (case sim_step (Mul_Div f rd rs1 rs2) s of
     Inl h \<Rightarrow> Inl h | Inr e \<Rightarrow> view (perform e s))"
proof (cases "isa_agrees (Mul_Div f rd rs1 rs2) s")
  case True
  then show ?thesis using refine_muldiv[OF assms True] by (cases f) auto
next
  case False
  then show ?thesis using assms
    by (cases f) (auto simp add: refine_simps exec_reg_def exec_muldiv_def simp del: fun_upd_apply)
qed

lemma execute_sim_step:
  assumes "rv_pc_next s = rv_pc s + 4"
  shows "view (execute s (encode i)) = (case sim_step i s of Inl h \<Rightarrow> Inl h | Inr e \<Rightarrow> view (perform e s))"
proof (cases i)
  case (Jalr rd rs1 imm)
  then show ?thesis
    using refine_jalr[OF assms, of rd rs1 imm] execute_jalr[OF assms, of rs1 imm] by (cases "rd = rs1") simp_all
next
  case (Load k rd rs1 imm)
  then show ?thesis by (simp only: execute_load_base base_reg sim_step.simps sum.case)
next
  case (Store k rs1 rs2 imm)
  then show ?thesis by (simp only: execute_store_base base_reg sim_step.simps sum.case)
qed (simp_all only: sim_step.simps(6-) sum.case refine_upper[OF assms] refine_branch[OF assms] refine_imm[OF assms]
  refine_shift_imm[OF assms] refine_reg[OF assms] refine_ecall[OF assms] execute_shift[OF assms] execute_muldiv[OF assms])

lemma isa_agrees_exact: "isa_agrees i s \<Longrightarrow> isa_exact i s"
  by (cases i) auto

text \<open>C1: The simulator refines the instruction set on the encoding of every instruction of the syntax \<open>rv_instr\<close> (RV32I
  with the M extension, without FENCE, EBREAK and the CSR instructions), at a state whose next pc is pc + 4: executing
  it has the effect the specification gives (register file, program counter, bus access, trap), as seen through the 32
  registers with x0 reading zero and the rest of the machine. Excluded by \<open>isa_agrees\<close> are JALR with equal source and
  destination, a load or store with base x0 while \<open>r[0]\<close> is not zero, a register shift by 32 or more, division by zero
  and the overflowing signed division.\<close>

theorem execute_refines_isa:
  assumes "rv_pc_next s = rv_pc s + 4" "isa_agrees i s"
  shows "view (execute s (encode i)) = view (perform (isa_step i (xregs s) (rv_pc s)) s)"
  using execute_sim_step[OF assms(1), of i] isa_agrees_exact[OF assms(2)] by (simp flip: sim_step_isa)

theorem execute_refines_isa_witness:
  "view (execute (the (riscv_main [0] [] False)) (encode (Load LW 1 2 4))) =
   view (perform (isa_step (Load LW 1 2 4) (xregs (the (riscv_main [0] [] False))) 0x40000000)
           (the (riscv_main [0] [] False)))"
  using execute_refines_isa[of "the (riscv_main [0] [] False)" "Load LW 1 2 4"]
  by (simp add: riscv_main_def)

text \<open>C4: The simulator and the instruction set compared in full, at a state whose next pc is pc + 4. On the
  encoding of every instruction of the syntax, executing it has the effect \<open>sim_step\<close> gives, and that effect is the
  one of the specification exactly when \<open>isa_exact\<close> holds: it departs for JALR with equal source and destination (its
  base is the link), a load or store with base x0 while \<open>r[0]\<close> is not zero, a register shift by 32 or more (no
  result), a division by zero (zero instead of all ones or the dividend, unless the result is not seen or the same) and
  the overflowing signed division and remainder (no result). A jump that links to x0 leaves the link in \<open>r[0]\<close>. Of
  the instructions outside the syntax, every FENCE is an invalid opcode, every CSR instruction raises the exception
  flag, and EBREAK waits for a character of the input and goes on.\<close>

theorem isa_deviations:
  assumes "rv_pc_next s = rv_pc s + 4"
  shows "(\<forall>i. view (execute s (encode i)) = (case sim_step i s of Inl h \<Rightarrow> Inl h | Inr e \<Rightarrow> view (perform e s)) \<and>
      (sim_step i s = Inr (isa_step i (xregs s) (rv_pc s)) \<longleftrightarrow> isa_exact i s)) \<and>
    (\<forall>j. \<exists>t. execute s (encode (Jal 0 j)) = Inr t \<and> rv_r t 0 = rv_pc s + 4) \<and>
    (\<forall>inst. i_opcode inst = 0x0f \<longrightarrow> execute s inst = Inl (Invalid_Opcode inst)) \<and>
    (\<forall>inst. i_opcode inst = 0x73 \<and> i_funct3 inst \<noteq> 0 \<longrightarrow> execute s inst = Inr (set_r s 0 0\<lparr>rv_exception := 1\<rparr>)) \<and>
    execute s 0x00100073 = Inr (snd (getchar (set_r s 0 0)))"
proof (intro conjI allI impI)
  show "\<exists>t. execute s (encode (Jal 0 j)) = Inr t \<and> rv_r t 0 = rv_pc s + 4" for j
    by (simp add: execute_def decode Let_def assms)
  show "execute s 0x00100073 = Inr (snd (getchar (set_r s 0 0)))"
    by (simp add: execute_def exec_system_def i_opcode_def i_funct3_def imm_i_def)
qed (simp_all only: execute_sim_step[OF assms] sim_step_isa, simp_all add: execute_def exec_system_def)

theorem isa_deviations_witness:
  "let s = the (riscv_main [0] [] False); i = Mul_Div DIV 1 2 0
   in view (execute s (encode i)) = view (perform (Continue (reg_write (xregs s) 1 0) (rv_pc s + 4)) s) \<and>
     sim_step i s \<noteq> Inr (isa_step i (xregs s) (rv_pc s))"
proof -
  let ?s = "the (riscv_main [0] [] False)" and ?i = "Mul_Div DIV 1 2 0"
  have "rv_pc_next ?s = rv_pc ?s + 4" by (simp add: riscv_main_def)
  note isa_deviations[OF this, THEN conjunct1, THEN spec, of ?i]
  moreover have "sim_step ?i ?s = Inr (Continue (reg_write (xregs ?s) 1 0) (rv_pc ?s + 4))" "\<not> isa_exact ?i ?s"
    by (simp_all add: xregs_def)
  ultimately show ?thesis unfolding Let_def by simp
qed

end
