(* ===== verification/Cache_Sim.thy ===== *)
theory Cache_Sim
  imports Prelude "HOL-Library.Monad_Syntax"
begin

text \<open>
  The cache model of the simulators, tools/sim/hf_riscv_sim/cache.c: configuration masks, reads and
  writes under the three policies, the statistics. Only way 0 of a set is used. An access that
  would index outside the allocated sets, shift by the width of a word or divide by a zero block
  size is \<open>None\<close>.

  The reference is a direct mapped cache on block numbers: a map from set indices to the block
  last allocated there. The masks of \<open>cache_init\<close> split an address so that every access is a hit
  or a miss exactly as it is there.
\<close>

unbundle bit_operations_syntax

subsection \<open>Data\<close>

text \<open>The fields the code reads; \<open>counter\<close>, \<open>level\<close> and \<open>replacement_policy\<close> are never used.\<close>

record cache_way =
  cw_valid :: u8
  cw_dirty :: u8
  cw_tag :: u32
  cw_block :: u32

record cache_set =
  cs_ways :: "cache_way list"
  cs_last_way :: u32

record cache =
  ca_policy :: string
  ca_sets :: u32
  ca_block_size :: u32
  ca_setup_time :: u32
  ca_burst_time :: u32
  ca_tag_mask :: u32
  ca_tag_shift :: u32
  ca_set_mask :: u32
  ca_set_shift :: u32
  ca_block_mask :: u32
  ca_hits :: u64
  ca_misses :: u64
  ca_reads :: u64
  ca_writes :: u64
  ca_cache_sets :: "cache_set list"

subsection \<open>Initialisation\<close>

text \<open>The loops \<open>while (bit >>= 1)\<close>, which run floor(log2 bit) times.\<close>

function mask_loop :: "u32 \<Rightarrow> u32 \<Rightarrow> u32" where
  "mask_loop b m = (if drop_bit 1 b \<noteq> 0 then mask_loop (drop_bit 1 b) (push_bit 1 m OR 1) else m)"
  by auto
termination by (relation "measure (\<lambda>(b, m). unat b)") (auto intro!: unat_drop_bit_less simp flip: One_nat_def)

function count_loop :: "u32 \<Rightarrow> u32 \<Rightarrow> u32" where
  "count_loop b n = (if drop_bit 1 b \<noteq> 0 then count_loop (drop_bit 1 b) (n + 1) else n)"
  by auto
termination by (relation "measure (\<lambda>(b, n). unat b)") (auto intro!: unat_drop_bit_less simp flip: One_nat_def)

function shrink_loop :: "u32 \<Rightarrow> u32 \<Rightarrow> u32" where
  "shrink_loop b m = (if drop_bit 1 b \<noteq> 0 then shrink_loop (drop_bit 1 b) (drop_bit 1 m) else m)"
  by auto
termination by (relation "measure (\<lambda>(b, m). unat b)") (auto intro!: unat_drop_bit_less simp flip: One_nat_def)

declare mask_loop.simps [simp del] count_loop.simps [simp del] shrink_loop.simps [simp del]

definition empty_way :: cache_way where
  "empty_way = \<lparr>cw_valid = 0, cw_dirty = 0, cw_tag = 0, cw_block = 0\<rparr>"

definition cache_init :: "string \<Rightarrow> u32 \<Rightarrow> u32 \<Rightarrow> u32 \<Rightarrow> u32 \<Rightarrow> u32 \<Rightarrow> cache" where
  "cache_init policy sets block_size ways miss_setup miss_burst =
     \<lparr>ca_policy = policy, ca_sets = sets, ca_block_size = block_size,
      ca_setup_time = miss_setup, ca_burst_time = miss_burst,
      ca_tag_mask = shrink_loop sets (shrink_loop block_size 0xffffffff),
      ca_tag_shift = count_loop sets 0 + count_loop block_size 0,
      ca_set_mask = mask_loop sets 0, ca_set_shift = count_loop block_size 0,
      ca_block_mask = mask_loop block_size 0,
      ca_hits = 0, ca_misses = 0, ca_reads = 0, ca_writes = 0,
      ca_cache_sets = replicate (unat sets)
        \<lparr>cs_ways = replicate (unat ways) empty_way, cs_last_way = 0\<rparr>\<rparr>"

subsection \<open>Accesses\<close>

text \<open>The set and the tag of an address.\<close>

definition locate :: "cache \<Rightarrow> u32 \<Rightarrow> (u32 \<times> u32) option" where
  "locate c address = do {
     x \<leftarrow> c_shr32 address (ca_set_shift c);
     y \<leftarrow> c_shr32 address (ca_tag_shift c);
     Some (drop_bit 2 x AND ca_set_mask c, drop_bit 2 y AND ca_tag_mask c) }"

text \<open>\<open>cache_sets[set].ways[0]\<close>, read and written.\<close>

definition way0 :: "cache \<Rightarrow> u32 \<Rightarrow> cache_way option" where
  "way0 c idx =
     (if unat idx < length (ca_cache_sets c) then
        (case cs_ways (ca_cache_sets c ! unat idx) of [] \<Rightarrow> None | w # _ \<Rightarrow> Some w)
      else None)"

definition put_way0 :: "cache \<Rightarrow> u32 \<Rightarrow> cache_way \<Rightarrow> cache" where
  "put_way0 c idx w = (let cs = ca_cache_sets c ! unat idx in
     c\<lparr>ca_cache_sets := (ca_cache_sets c)[unat idx := cs\<lparr>cs_ways := (cs_ways cs)[0 := w]\<rparr>]\<rparr>)"

definition hit_way :: "cache_way \<Rightarrow> u32 \<Rightarrow> bool" where
  "hit_way w tag = (cw_valid w \<noteq> 0 \<and> cw_tag w = tag)"

text \<open>Reading or writing a whole block, and writing one word.\<close>

definition block_time :: "cache \<Rightarrow> u32" where
  "block_time c = ca_setup_time c + ca_burst_time c"

definition word_time :: "cache \<Rightarrow> u32 option" where
  "word_time c = (if ca_block_size c = 0 then None
     else Some (ca_setup_time c + ca_burst_time c div ca_block_size c))"

definition cache_read :: "cache \<Rightarrow> u32 \<Rightarrow> (u32 \<times> cache) option" where
  "cache_read c address = do {
     (idx, tag) \<leftarrow> locate c address;
     w \<leftarrow> way0 c idx;
     if ca_policy c = ''wb'' then
       if hit_way w tag then Some (0, c\<lparr>ca_hits := ca_hits c + 1, ca_reads := ca_reads c + 1\<rparr>)
       else Some ((if cw_dirty w \<noteq> 0 then block_time c else 0) + block_time c,
         (put_way0 c idx (w\<lparr>cw_valid := 1, cw_dirty := 0, cw_tag := tag\<rparr>))
           \<lparr>ca_misses := ca_misses c + 1, ca_reads := ca_reads c + 1\<rparr>)
     else
       if hit_way w tag then Some (0, c\<lparr>ca_hits := ca_hits c + 1, ca_reads := ca_reads c + 1\<rparr>)
       else Some (block_time c,
         (put_way0 c idx (w\<lparr>cw_valid := 1, cw_tag := tag\<rparr>))
           \<lparr>ca_misses := ca_misses c + 1, ca_reads := ca_reads c + 1\<rparr>) }"

definition cache_write :: "cache \<Rightarrow> u32 \<Rightarrow> (u32 \<times> cache) option" where
  "cache_write c address = do {
     (idx, tag) \<leftarrow> locate c address;
     if ca_policy c = ''wt'' then do {
       t \<leftarrow> word_time c;
       Some (t, c\<lparr>ca_writes := ca_writes c + 1\<rparr>) }
     else do {
       w \<leftarrow> way0 c idx;
       if ca_policy c = ''wa'' then do {
         t \<leftarrow> word_time c;
         if hit_way w tag then Some (t, c\<lparr>ca_hits := ca_hits c + 1, ca_writes := ca_writes c + 1\<rparr>)
         else Some (t + block_time c,
           (put_way0 c idx (w\<lparr>cw_valid := 1, cw_tag := tag\<rparr>))
             \<lparr>ca_misses := ca_misses c + 1, ca_writes := ca_writes c + 1\<rparr>) }
       else
         if hit_way w tag then
           Some (0, (put_way0 c idx (w\<lparr>cw_dirty := 1\<rparr>))
             \<lparr>ca_hits := ca_hits c + 1, ca_writes := ca_writes c + 1\<rparr>)
         else do {
           t \<leftarrow> word_time c;
           Some (t + block_time c,
             (put_way0 c idx (w\<lparr>cw_valid := 1, cw_dirty := 0, cw_tag := tag\<rparr>))
               \<lparr>ca_misses := ca_misses c + 1, ca_writes := ca_writes c + 1\<rparr>) } } }"

text \<open>The hit ratio \<open>cache_finish\<close> prints; without an access it divides by zero.\<close>

definition hit_ratio :: "cache \<Rightarrow> u64 option" where
  "hit_ratio c = (if ca_hits c + ca_misses c = 0 then None
     else Some (ca_hits c * 100 div (ca_hits c + ca_misses c)))"

text \<open>A sequence of accesses, with the sum of their penalties.\<close>

datatype cache_access = Read u32 | Write u32

fun access :: "cache \<Rightarrow> cache_access \<Rightarrow> (u32 \<times> cache) option" where
  "access c (Read a) = cache_read c a"
| "access c (Write a) = cache_write c a"

fun cache_run :: "cache \<Rightarrow> cache_access list \<Rightarrow> (u32 \<times> cache) option" where
  "cache_run c [] = Some (0, c)"
| "cache_run c (x # xs) = do { (p, c1) \<leftarrow> access c x; (q, c2) \<leftarrow> cache_run c1 xs; Some (p + q, c2) }"

subsection \<open>The configuration of a power of two\<close>

lemma half_power: "drop_bit 1 ((2::u32) ^ Suc k) = (if Suc k < 32 then 2 ^ k else 0)"
  by (rule bit_word_eqI) (auto simp: bit_drop_bit_eq bit_exp_iff simp del: One_nat_def power_Suc)

lemma half_one: "drop_bit 1 (1::u32) = 0"
  by simp

lemma power_nonzero: "k < 32 \<Longrightarrow> (2::u32) ^ k \<noteq> 0"
  by simp

lemma mask_loop_power: "k < 32 \<Longrightarrow> mask_loop (2 ^ k) m = push_bit k m OR mask k"
proof (induction k arbitrary: m)
  case 0
  then show ?case by (subst mask_loop.simps) (simp add: half_one)
next
  case (Suc k)
  have "mask_loop (2 ^ Suc k) m = mask_loop (2 ^ k) (push_bit 1 m OR 1)"
    using Suc.prems by (subst mask_loop.simps) (simp only: half_power power_nonzero if_True simp_thms Suc_lessD)
  also have "\<dots> = push_bit k (push_bit 1 m OR 1) OR mask k" using Suc by simp
  also have "\<dots> = push_bit (Suc k) m OR mask (Suc k)"
    by (rule bit_word_eqI, unfold bit_or_iff bit_push_bit_iff bit_mask_iff bit_1_iff) auto
  finally show ?case .
qed

lemma count_loop_power: "k < 32 \<Longrightarrow> count_loop (2 ^ k) n = n + of_nat k"
proof (induction k arbitrary: n)
  case 0
  then show ?case by (subst count_loop.simps) (simp add: half_one)
next
  case (Suc k)
  have "count_loop (2 ^ Suc k) n = count_loop (2 ^ k) (n + 1)"
    using Suc.prems by (subst count_loop.simps) (simp only: half_power power_nonzero if_True simp_thms Suc_lessD)
  then show ?case using Suc by (simp add: ac_simps)
qed

lemma shrink_loop_power: "k < 32 \<Longrightarrow> shrink_loop (2 ^ k) m = drop_bit k m"
proof (induction k arbitrary: m)
  case 0
  then show ?case by (subst shrink_loop.simps) (simp add: half_one)
next
  case (Suc k)
  have "shrink_loop (2 ^ Suc k) m = shrink_loop (2 ^ k) (drop_bit 1 m)"
    using Suc.prems by (subst shrink_loop.simps) (simp only: half_power power_nonzero if_True simp_thms Suc_lessD)
  then show ?case using Suc by (simp add: drop_bit_drop_bit)
qed


subsection \<open>The reference cache\<close>

text \<open>The block number of an address, for blocks of \<open>2 ^ b\<close> words.\<close>

definition block_no :: "nat \<Rightarrow> u32 \<Rightarrow> nat" where
  "block_no b a = unat a div 2 ^ (b + 2)"

text \<open>What each set holds, and the outcome of an access: a hit, a miss, or no lookup.\<close>

type_synonym contents = "nat \<Rightarrow> nat option"

definition dm_lookup :: "nat \<Rightarrow> contents \<Rightarrow> nat \<Rightarrow> bool option \<times> contents" where
  "dm_lookup n m k = (Some (m (k mod n) = Some k), m(k mod n \<mapsto> k))"

fun dm_access :: "bool \<Rightarrow> nat \<Rightarrow> nat \<Rightarrow> contents \<Rightarrow> cache_access \<Rightarrow> bool option \<times> contents" where
  "dm_access alloc b n m (Read a) = dm_lookup n m (block_no b a)"
| "dm_access alloc b n m (Write a) = (if alloc then dm_lookup n m (block_no b a) else (None, m))"

fun dm_run :: "bool \<Rightarrow> nat \<Rightarrow> nat \<Rightarrow> contents \<Rightarrow> cache_access list \<Rightarrow> bool option list" where
  "dm_run alloc b n m [] = []"
| "dm_run alloc b n m (x # xs) =
     (case dm_access alloc b n m x of (r, m1) \<Rightarrow> r # dm_run alloc b n m1 xs)"

definition is_read :: "cache_access \<Rightarrow> bool" where
  "is_read x = (case x of Read _ \<Rightarrow> True | Write _ \<Rightarrow> False)"

text \<open>A cache set up for \<open>2 ^ s\<close> sets of \<open>2 ^ b\<close> words, and what it holds.\<close>

definition cache_wf :: "nat \<Rightarrow> nat \<Rightarrow> cache \<Rightarrow> bool" where
  "cache_wf b s c \<longleftrightarrow> b + s \<le> 30 \<and> ca_block_size c = 2 ^ b \<and> ca_set_shift c = of_nat b \<and>
     ca_tag_shift c = of_nat (b + s) \<and> ca_set_mask c = mask s \<and> ca_tag_mask c = mask (32 - b - s) \<and>
     length (ca_cache_sets c) = 2 ^ s \<and> (\<forall>x \<in> set (ca_cache_sets c). cs_ways x \<noteq> [])"

definition holds :: "nat \<Rightarrow> cache \<Rightarrow> contents" where
  "holds s c i = (if i < length (ca_cache_sets c) then
     (let w = hd (cs_ways (ca_cache_sets c ! i)) in
        if cw_valid w \<noteq> 0 then Some (unat (cw_tag w) * 2 ^ s + i) else None) else None)"

lemma locate_wf:
  assumes "cache_wf b s c"
  obtains idx tag where "locate c a = Some (idx, tag)" "unat idx = block_no b a mod 2 ^ s"
    "unat tag = block_no b a div 2 ^ s"
proof
  let ?i = "drop_bit 2 (drop_bit b a) AND mask s" and ?t = "drop_bit 2 (drop_bit (b + s) a) AND mask (32 - b - s)"
  have bs: "b + s \<le> 30" using assms by (simp add: cache_wf_def)
  then have "b < 2 ^ 32" "b + s < 2 ^ 32" by simp_all
  then have u: "unat (of_nat b :: u32) = b" "unat (of_nat (b + s) :: u32) = b + s"
    by (blast intro: unat_of_nat_small)+
  have l: "(of_nat b :: u32) < 32" "(of_nat (b + s) :: u32) < 32"
    using bs u by (simp_all only: word_less_nat_alt) simp_all
  show "locate c a = Some (?i, ?t)"
    using assms l unfolding locate_def cache_wf_def c_shr32_def by (simp only: u if_True bind.simps)
  have e: "unat a div 2 ^ b div 4 = block_no b a" "unat a div 2 ^ (b + s) div 4 = block_no b a div 2 ^ s"
    by (simp_all add: block_no_def power_add div_mult2_eq[symmetric] ac_simps)
  show "unat ?i = block_no b a mod 2 ^ s"
    using e by (simp only: unat_and_mask unat_shr) simp
  have "unat a < 2 ^ 32" using unat_bound[of a] by simp
  also have "(2::nat) ^ 32 = 2 ^ (32 - b - s) * 2 ^ (b + s)" using bs by (simp flip: power_add)
  finally have "unat a div 2 ^ (b + s) < 2 ^ (32 - b - s)" by (simp add: less_mult_imp_div_less)
  then have "block_no b a div 2 ^ s < 2 ^ (32 - b - s)" using e(2) by (metis div_le_dividend le_less_trans)
  then show "unat ?t = block_no b a div 2 ^ s"
    using e by (simp only: unat_and_mask unat_shr power2_eq_square) simp
qed

lemma way0_wf:
  assumes "cache_wf b s c" "unat idx < 2 ^ s"
  shows "way0 c idx = Some (hd (cs_ways (ca_cache_sets c ! unat idx)))"
proof -
  have "cs_ways (ca_cache_sets c ! unat idx) \<noteq> []"
    using assms by (auto simp: cache_wf_def)
  then show ?thesis using assms by (auto simp: way0_def cache_wf_def split: list.split)
qed

lemma put_way0_wf: "cache_wf b s c \<Longrightarrow> unat idx < 2 ^ s \<Longrightarrow> cache_wf b s (put_way0 c idx w)"
  by (auto simp: cache_wf_def put_way0_def Let_def dest!: set_update_subset_insert[THEN subsetD])

lemma holds_put:
  assumes "cache_wf b s c" "unat idx < 2 ^ s" "cw_valid w \<noteq> 0"
  shows "holds s (put_way0 c idx w) = (holds s c)(unat idx \<mapsto> unat (cw_tag w) * 2 ^ s + unat idx)"
proof -
  have "cs_ways (ca_cache_sets c ! unat idx) \<noteq> []" using assms by (auto simp: cache_wf_def)
  then show ?thesis
    using assms by (auto simp: holds_def put_way0_def Let_def cache_wf_def fun_eq_iff nth_list_update
      hd_conv_nth)
qed

text \<open>A lookup hits in the model exactly when the block is the one the set holds.\<close>

lemma hit_way_iff:
  assumes "cache_wf b s c" "unat idx = k mod 2 ^ s" "unat tag = k div 2 ^ s"
  shows "hit_way (hd (cs_ways (ca_cache_sets c ! unat idx))) tag \<longleftrightarrow> holds s c (k mod 2 ^ s) = Some k"
proof -
  let ?w = "hd (cs_ways (ca_cache_sets c ! unat idx))"
  have "cw_tag ?w = tag \<longleftrightarrow> unat (cw_tag ?w) * 2 ^ s + k mod 2 ^ s = k"
  proof
    assume "unat (cw_tag ?w) * 2 ^ s + k mod 2 ^ s = k"
    then have "unat (cw_tag ?w) = k div 2 ^ s"
      by (metis add_diff_cancel_right' minus_mod_eq_mult_div nonzero_mult_div_cancel_right mult.commute
          power_not_zero zero_neq_numeral)
    then show "cw_tag ?w = tag" using assms(3) by (simp add: word_unat_eq_iff)
  qed (metis assms(3) div_mult_mod_eq)
  then show ?thesis using assms(1,2) by (auto simp: hit_way_def holds_def cache_wf_def Let_def)
qed


lemma cache_wf_counters [simp]:
  "cache_wf b s (c\<lparr>ca_hits := h, ca_reads := r\<rparr>) = cache_wf b s c"
  "cache_wf b s (c\<lparr>ca_misses := h, ca_reads := r\<rparr>) = cache_wf b s c"
  "cache_wf b s (c\<lparr>ca_hits := h, ca_writes := r\<rparr>) = cache_wf b s c"
  "cache_wf b s (c\<lparr>ca_misses := h, ca_writes := r\<rparr>) = cache_wf b s c"
  "cache_wf b s (c\<lparr>ca_writes := r\<rparr>) = cache_wf b s c"
  "cache_wf b s (c\<lparr>ca_hits := r\<rparr>) = cache_wf b s c"
  "cache_wf b s (c\<lparr>ca_misses := r\<rparr>) = cache_wf b s c"
  by (simp_all add: cache_wf_def)

lemma holds_counters [simp]:
  "holds s (c\<lparr>ca_hits := h, ca_reads := r\<rparr>) = holds s c"
  "holds s (c\<lparr>ca_misses := h, ca_reads := r\<rparr>) = holds s c"
  "holds s (c\<lparr>ca_hits := h, ca_writes := r\<rparr>) = holds s c"
  "holds s (c\<lparr>ca_misses := h, ca_writes := r\<rparr>) = holds s c"
  "holds s (c\<lparr>ca_writes := r\<rparr>) = holds s c"
  "holds s (c\<lparr>ca_hits := r\<rparr>) = holds s c"
  "holds s (c\<lparr>ca_misses := r\<rparr>) = holds s c"
  by (simp_all add: holds_def fun_eq_iff)

lemma put_way0_frame [simp]:
  "ca_policy (put_way0 c i w) = ca_policy c" "ca_hits (put_way0 c i w) = ca_hits c"
  "ca_misses (put_way0 c i w) = ca_misses c" "ca_reads (put_way0 c i w) = ca_reads c"
  "ca_writes (put_way0 c i w) = ca_writes c" "ca_setup_time (put_way0 c i w) = ca_setup_time c"
  "ca_burst_time (put_way0 c i w) = ca_burst_time c"
  by (simp_all add: put_way0_def Let_def)

text \<open>One access: the outcome, the new contents and the statistics.\<close>

definition count_access :: "bool option \<Rightarrow> cache_access \<Rightarrow> cache \<Rightarrow> cache \<Rightarrow> bool" where
  "count_access r x c c' \<longleftrightarrow> ca_policy c' = ca_policy c \<and>
     ca_hits c' = ca_hits c + (if r = Some True then 1 else 0) \<and>
     ca_misses c' = ca_misses c + (if r = Some False then 1 else 0) \<and>
     ca_reads c' = ca_reads c + (if is_read x then 1 else 0) \<and>
     ca_writes c' = ca_writes c + (if is_read x then 0 else 1)"

lemma access_refines:
  assumes wf: "cache_wf b s c"
  obtains r p c' where "access c x = Some (p, c')" "cache_wf b s c'"
    "dm_access (ca_policy c \<noteq> ''wt'') b (2 ^ s) (holds s c) x = (r, holds s c')" "count_access r x c c'"
proof -
  obtain a where x: "x = Read a \<or> x = Write a" by (cases x) auto
  let ?k = "block_no b a"
  obtain idx tag where loc: "locate c a = Some (idx, tag)" and i: "unat idx = ?k mod 2 ^ s"
    and t: "unat tag = ?k div 2 ^ s"
    using locate_wf[OF wf] by blast
  have lt: "unat idx < 2 ^ s" using i by simp
  let ?w = "hd (cs_ways (ca_cache_sets c ! unat idx))"
  note w = way0_wf[OF wf lt]
  note hit = hit_way_iff[OF wf i t]
  have blk: "unat tag * 2 ^ s + unat idx = ?k" using i t by (simp add: div_mult_mod_eq)
  obtain u where wt: "word_time c = Some u"
    using wf by (auto simp: word_time_def cache_wf_def)
  have put: "cache_wf b s (put_way0 c idx v)" for v by (rule put_way0_wf[OF wf lt])
  have new: "holds s (put_way0 c idx v) = (holds s c)(?k mod 2 ^ s \<mapsto> ?k)"
    if "cw_valid v \<noteq> 0" "cw_tag v = tag" for v
    using holds_put[OF wf lt that(1)] that(2) blk i by simp
  have same: "holds s c = (holds s c)(?k mod 2 ^ s \<mapsto> ?k)" if "hit_way ?w tag"
    using that hit by (simp add: fun_eq_iff)
  have "\<exists>r p c'. access c x = Some (p, c') \<and> cache_wf b s c' \<and>
      dm_access (ca_policy c \<noteq> ''wt'') b (2 ^ s) (holds s c) x = (r, holds s c') \<and> count_access r x c c'"
  proof (cases "hit_way ?w tag")
    case True
    then have v: "cw_valid ?w \<noteq> 0" "cw_tag ?w = tag" by (simp_all add: hit_way_def)
    show ?thesis
      using wf x wt True hit same new[of "?w\<lparr>cw_dirty := 1\<rparr>"] v put
      by (elim disjE) (simp_all add: cache_read_def cache_write_def loc w count_access_def is_read_def dm_lookup_def
          split: option.split)
  next
    case False
    show ?thesis
      using wf x wt False hit put
      by (elim disjE) (auto simp: cache_read_def cache_write_def loc w count_access_def is_read_def dm_lookup_def
          new)
  qed
  then show ?thesis using that by blast
qed


lemma cache_run_refines:
  assumes "cache_wf b s c"
  shows "\<exists>p c'. cache_run c xs = Some (p, c') \<and> cache_wf b s c' \<and>
    (let out = dm_run (ca_policy c \<noteq> ''wt'') b (2 ^ s) (holds s c) xs in
    ca_hits c' = ca_hits c + of_nat (count_list out (Some True)) \<and>
    ca_misses c' = ca_misses c + of_nat (count_list out (Some False))) \<and>
    ca_reads c' = ca_reads c + of_nat (length (filter is_read xs)) \<and>
    ca_writes c' = ca_writes c + of_nat (length (filter (\<lambda>x. \<not> is_read x) xs))"
  using assms unfolding Let_def
proof (induction xs arbitrary: c)
  case (Cons x xs)
  obtain r p c1 where 1: "access c x = Some (p, c1)" "cache_wf b s c1"
    "dm_access (ca_policy c \<noteq> ''wt'') b (2 ^ s) (holds s c) x = (r, holds s c1)" "count_access r x c c1"
    using access_refines[OF Cons.prems] .
  obtain q c2 where 2: "cache_run c1 xs = Some (q, c2)" and c2: "cache_wf b s c2"
    "ca_hits c2 = ca_hits c1 + of_nat (count_list (dm_run (ca_policy c1 \<noteq> ''wt'') b (2 ^ s) (holds s c1) xs) (Some True))"
    "ca_misses c2 = ca_misses c1 + of_nat (count_list (dm_run (ca_policy c1 \<noteq> ''wt'') b (2 ^ s) (holds s c1) xs) (Some False))"
    "ca_reads c2 = ca_reads c1 + of_nat (length (filter is_read xs))"
    "ca_writes c2 = ca_writes c1 + of_nat (length (filter (\<lambda>x. \<not> is_read x) xs))"
    using Cons.IH[OF 1(2)] by (auto simp: Let_def)
  have "cache_run c (x # xs) = Some (p + q, c2)" using 1(1) 2 by simp
  then show ?case
    using c2 1(3,4) by (auto simp: count_access_def)
qed simp

lemma mask_shift: "n \<le> 32 \<Longrightarrow> drop_bit k (mask n :: u32) = mask (n - k)"
  by (rule bit_word_eqI) (auto simp: bit_drop_bit_eq bit_mask_iff)

lemma cache_init_wf:
  assumes "b + s \<le> 30" "ways \<noteq> 0"
  shows "cache_wf b s (cache_init policy (2 ^ s) (2 ^ b) ways ms mb)"
    "holds s (cache_init policy (2 ^ s) (2 ^ b) ways ms mb) = (\<lambda>_. None)"
proof -
  have l: "b < 32" "s < 32" using assms by simp_all
  have "(2::nat) ^ s < 2 ^ 32" using l by (intro power_strict_increasing) simp_all
  from unat_of_nat_small[OF this] have u: "unat ((2 :: u32) ^ s) = 2 ^ s" by simp
  have m: "(0xffffffff :: u32) = mask 32" by (simp add: mask_eq_exp_minus_1)
  have t: "shrink_loop (2 ^ s) (shrink_loop (2 ^ b) 0xffffffff) = mask (32 - b - s)"
    unfolding m shrink_loop_power[OF l(1)] shrink_loop_power[OF l(2)] mask_shift[OF order.refl]
    by (rule mask_shift) simp
  have w: "unat ways \<noteq> 0" using assms by (simp add: unat_eq_zero)
  show "cache_wf b s (cache_init policy (2 ^ s) (2 ^ b) ways ms mb)"
    unfolding cache_wf_def cache_init_def
    using l assms t u w by (simp add: count_loop_power mask_loop_power)
  show "holds s (cache_init policy (2 ^ s) (2 ^ b) ways ms mb) = (\<lambda>_. None)"
    using w by (auto simp: holds_def cache_init_def fun_eq_iff empty_way_def Let_def hd_replicate)
qed

text \<open>C5: The cache counts what a direct mapped cache does: set up for powers of two, under any policy
  and for any sequence of reads and writes, every access succeeds and the hits, misses, reads and
  writes reported are those of the reference, which keeps one block number per set (a write is not
  looked up under write-through without allocation).\<close>

theorem cache_counts_direct_mapped:
  assumes "b + s \<le> 30" "ways \<noteq> 0"
  shows "\<exists>p c. cache_run (cache_init policy (2 ^ s) (2 ^ b) ways ms mb) xs = Some (p, c) \<and>
    (let out = dm_run (policy \<noteq> ''wt'') b (2 ^ s) (\<lambda>_. None) xs in
    ca_hits c = of_nat (count_list out (Some True)) \<and> ca_misses c = of_nat (count_list out (Some False))) \<and>
    ca_reads c = of_nat (length (filter is_read xs)) \<and>
    ca_writes c = of_nat (length (filter (\<lambda>x. \<not> is_read x) xs))"
proof -
  note init = cache_init_wf[OF assms(1,2), of policy ms mb]
  have "ca_policy (cache_init policy (2 ^ s) (2 ^ b) ways ms mb) = policy"
    "ca_hits (cache_init policy (2 ^ s) (2 ^ b) ways ms mb) = 0"
    "ca_misses (cache_init policy (2 ^ s) (2 ^ b) ways ms mb) = 0"
    "ca_reads (cache_init policy (2 ^ s) (2 ^ b) ways ms mb) = 0"
    "ca_writes (cache_init policy (2 ^ s) (2 ^ b) ways ms mb) = 0"
    by (simp_all add: cache_init_def)
  then show ?thesis using cache_run_refines[OF init(1), of xs] unfolding init(2) by (auto simp: Let_def)
qed

theorem cache_counts_direct_mapped_witness:
  "\<exists>p c. cache_run (cache_init ''wb'' (2 ^ 1) (2 ^ 0) 1 5 2) [Read 0x40, Write 0x40, Read 0x48, Read 0x44] = Some (p, c) \<and>
    ca_hits c = 1 \<and> ca_misses c = 3 \<and> ca_reads c = 3 \<and> ca_writes c = 1"
  using cache_counts_direct_mapped[of 0 1 1 "''wb''" 5 2 "[Read 0x40, Write 0x40, Read 0x48, Read 0x44]"]
  by (simp add: is_read_def dm_lookup_def block_no_def)

text \<open>Under write-back a write miss loses the dirty state: it allocates the block with the written word
  but leaves it clean and charges nothing for a dirty victim, so the next conflicting access to the
  set costs one block fetch, as if the block had never been written.\<close>

theorem write_back_miss_clean:
  assumes "ca_policy c = ''wb''" "locate c a = Some (idx, tag)" "way0 c idx = Some w" "\<not> hit_way w tag"
    and "cache_write c a = Some (p, c')" "locate c a2 = Some (idx, tag2)" "tag2 \<noteq> tag"
  shows "p = ca_setup_time c + ca_burst_time c div ca_block_size c + block_time c \<and>
    (\<exists>c2. cache_read c' a2 = Some (block_time c, c2))"
proof -
  have len: "unat idx < length (ca_cache_sets c)" "cs_ways (ca_cache_sets c ! unat idx) \<noteq> []"
    using assms(3) by (auto simp: way0_def split: if_splits list.splits)
  let ?w = "w\<lparr>cw_valid := 1, cw_dirty := 0, cw_tag := tag\<rparr>"
  have p: "p = ca_setup_time c + ca_burst_time c div ca_block_size c + block_time c"
    and c': "c' = (put_way0 c idx ?w)\<lparr>ca_misses := ca_misses c + 1, ca_writes := ca_writes c + 1\<rparr>"
    using assms by (auto simp: cache_write_def word_time_def split: if_splits)
  have "way0 c' idx = Some ?w" "locate c' a2 = Some (idx, tag2)" "ca_policy c' = ''wb''" "block_time c' = block_time c"
    using len assms(1,6) unfolding c'
    by (auto simp: way0_def put_way0_def Let_def locate_def block_time_def neq_Nil_conv split: list.split)
  then have "\<exists>c2. cache_read c' a2 = Some (block_time c, c2)"
    using assms(7) by (auto simp: cache_read_def hit_way_def)
  with p show ?thesis by simp
qed

text \<open>Two sets of one word, and accesses to two blocks of set 0.\<close>

abbreviation small_cache :: cache where
  "small_cache \<equiv> cache_init ''wb'' 2 1 1 5 2"

theorem write_back_miss_clean_witness:
  "fst (the (cache_write small_cache 0x40)) = 5 + 2 div 1 + 7 \<and>
   (\<exists>c2. cache_read (snd (the (cache_write small_cache 0x40))) 0x48 = Some (7, c2))"
proof -
  have "locate small_cache 0x40 = Some (0, 8)" "locate small_cache 0x48 = Some (0, 9)" by code_simp+
  moreover have "way0 small_cache 0 = Some empty_way" by code_simp
  moreover have "\<not> hit_way empty_way 8" by code_simp
  moreover have "cache_write small_cache 0x40 \<noteq> None" by code_simp
  moreover have "ca_policy small_cache = ''wb''" "ca_setup_time small_cache = 5" "ca_burst_time small_cache = 2"
    "ca_block_size small_cache = 1" "block_time small_cache = 7"
    by (simp_all add: cache_init_def block_time_def)
  ultimately show ?thesis
    using write_back_miss_clean[of small_cache "0x40" 0 8 empty_way
        "fst (the (cache_write small_cache 0x40))" "snd (the (cache_write small_cache 0x40))" "0x48" 9]
    by simp
qed

end
