(* ===== verification/Riscv_Cache_Sim.thy ===== *)
theory Riscv_Cache_Sim
  imports Riscv_Props Cache_Sim
begin

text \<open>
  The simulator with caches, tools/sim/hf_riscv_sim/hf_riscv_sim_cache.c. The state is the machine
  of \<open>Riscv_Sim\<close> (whose exception and GPIO fields this program does not have and never touches
  here) with one or two caches: a unified cache is one object behind both pointers. The cases of
  \<open>cycle\<close> whose text is the same in both programs are the definitions of \<open>Riscv_Sim\<close>.
\<close>

unbundle bit_operations_syntax

subsection \<open>State\<close>

record cached =
  cd_core :: riscv_state
  cd_icache :: cache
  cd_dcache :: cache
  cd_unified :: bool

text \<open>
  How a run ends: as in the other simulator, by an operation on the cache without a defined result,
  or through the trap address, with the hit ratios printed (none: a division by zero) and status 0.
\<close>

datatype cached_halt = Halt sim_halt | Cache_Undefined | Finished "u64 option list"

definition the_dcache :: "cached \<Rightarrow> cache" where
  "the_dcache s = (if cd_unified s then cd_icache s else cd_dcache s)"

definition put_dcache :: "cached \<Rightarrow> cache \<Rightarrow> cached" where
  "put_dcache s c = (if cd_unified s then s\<lparr>cd_icache := c\<rparr> else s\<lparr>cd_dcache := c\<rparr>)"

definition spend :: "u32 \<Rightarrow> u32 \<Rightarrow> riscv_state \<Rightarrow> riscv_state" where
  "spend p t k = k\<lparr>rv_cycles := rv_cycles k + ucast p, rv_timer0 := rv_timer0 k + t\<rparr>"

abbreviation on_core :: "cached \<Rightarrow> sim_halt + riscv_state \<Rightarrow> cached_halt + cached" where
  "on_core s r \<equiv> map_sum Halt (\<lambda>k. s\<lparr>cd_core := k\<rparr>) r"

subsection \<open>Memory\<close>

definition cached_fetch :: "cached \<Rightarrow> u32 \<Rightarrow> cached_halt + (u32 \<times> cached)" where
  "cached_fetch s address =
     (case cache_read (cd_icache s) address of
        None \<Rightarrow> Inl Cache_Undefined
      | Some (p, c) \<Rightarrow>
          (let s = s\<lparr>cd_icache := c, cd_core := spend p p (cd_core s)\<rparr>
           in if MEM_SIZE < address mod MEM_SIZE + 4 then Inl (Halt (Fetch_Out_Of_Bounds address))
              else Inr (load_word (rv_mem (cd_core s)) (address mod MEM_SIZE), s)))"

definition ram_read :: "riscv_state \<Rightarrow> u32 \<Rightarrow> u32 \<Rightarrow> sim_halt + u32" where
  "ram_read k sz address =
     (let ptr = address mod MEM_SIZE in
        if sz = 4 then
          (if address AND 3 \<noteq> 0 then Inl (Unaligned address) else Inr (load_word (rv_mem k) ptr))
        else if sz = 2 then
          (if address AND 1 \<noteq> 0 then Inl (Unaligned address) else Inr (scast (load_half (rv_mem k) ptr)))
        else if sz = 1 then Inr (scast (rv_mem k ptr))
        else Inr 0)"

definition ram_write :: "riscv_state \<Rightarrow> u32 \<Rightarrow> u32 \<Rightarrow> u32 \<Rightarrow> sim_halt + riscv_state" where
  "ram_write k sz address value =
     (let ptr = address mod MEM_SIZE in
        if sz = 4 then
          (if address AND 3 \<noteq> 0 then Inl (Unaligned address)
           else Inr (k\<lparr>rv_mem := store_word (rv_mem k) ptr value\<rparr>))
        else if sz = 2 then
          (if address AND 1 \<noteq> 0 then Inl (Unaligned address)
           else Inr (k\<lparr>rv_mem := store_half (rv_mem k) ptr (ucast value)\<rparr>))
        else if sz = 1 then Inr (k\<lparr>rv_mem := (rv_mem k)(ptr := ucast value)\<rparr>)
        else Inr k)"

definition cached_read :: "cached \<Rightarrow> u32 \<Rightarrow> u32 \<Rightarrow> cached_halt + (u32 \<times> cached)" where
  "cached_read s sz address =
     (let k = cd_core s in
      if address = IRQ_VECTOR then Inr (rv_vector k, s)
      else if address = IRQ_CAUSE then Inr (rv_cause k, s)
      else if address = IRQ_MASK then Inr (rv_mask k, s)
      else if address = IRQ_STATUS then Inr (rv_status k, s)
      else if address = IRQ_EPC then Inr (rv_epc k, s)
      else if address = S0CAUSE then Inr (rv_s0cause k, s)
      else if address = TIMERCAUSE then Inr (rv_timercause k, s)
      else if address = TIMERCAUSE_INV then Inr (rv_timercause_inv k, s)
      else if address = TIMERMASK then Inr (rv_timermask k, s)
      else if address = TIMER0 then Inr (rv_timer0 k, s)
      else if address = TIMER1 then Inr (rv_timer1 k, s)
      else if address = TIMER1_PRE then Inr (rv_timer1_pre k, s)
      else if address = TIMER1_CTC then Inr (rv_timer1_ctc k, s)
      else if address = TIMER1_OCR then Inr (rv_timer1_ocr k, s)
      else if address = UARTCAUSE then Inr (rv_uartcause k, s)
      else if address = UARTCAUSE_INV then Inr (rv_uartcause_inv k, s)
      else if address = UARTMASK then Inr (rv_uartmask k, s)
      else if address = UART0 then
        (case getchar k of (v, k') \<Rightarrow> Inr (v, s\<lparr>cd_core := k'\<rparr>))
      else if address = UART0_DIV then Inr (0, s)
      else if address \<ge> EXIT_TRAP then Inr (0, s)
      else case cache_read (the_dcache s) address of
          None \<Rightarrow> Inl Cache_Undefined
        | Some (p, c) \<Rightarrow>
            (let s = (put_dcache s c)\<lparr>cd_core := spend p p k\<rparr>
             in map_sum Halt (\<lambda>v. (v, s)) (ram_read (cd_core s) sz address)))"

text \<open>A store adds its penalty to the timer twice. \<open>cache_finish\<close> runs on both caches when they are two.\<close>

definition cached_write :: "cached \<Rightarrow> u32 \<Rightarrow> u32 \<Rightarrow> u32 \<Rightarrow> cached_halt + cached" where
  "cached_write s sz address value =
     (let k = cd_core s; ok = (\<lambda>k. Inr (s\<lparr>cd_core := k\<rparr>)) in
      if address = IRQ_VECTOR then ok (k\<lparr>rv_vector := value\<rparr>)
      else if address = IRQ_MASK then ok (k\<lparr>rv_mask := value\<rparr>)
      else if address = IRQ_STATUS then
        (if value = 0 then ok (k\<lparr>rv_status := 0, rv_status_dly := (rv_status_dly k)(0 := 0, 1 := 0, 2 := 0, 3 := 0)\<rparr>)
         else ok (k\<lparr>rv_status_dly := (rv_status_dly k)(3 := value)\<rparr>))
      else if address = IRQ_EPC then ok (k\<lparr>rv_epc := value\<rparr>)
      else if address = TIMERCAUSE_INV then ok (k\<lparr>rv_timercause_inv := value AND 0xff\<rparr>)
      else if address = TIMERMASK then ok (k\<lparr>rv_timermask := value AND 0xff\<rparr>)
      else if address = TIMER0 then Inr s
      else if address = TIMER1 then ok (k\<lparr>rv_timer1 := value AND 0xffff\<rparr>)
      else if address = TIMER1_PRE then ok (k\<lparr>rv_timer1_pre := value AND 0xffff\<rparr>)
      else if address = TIMER1_CTC then ok (k\<lparr>rv_timer1_ctc := value AND 0xffff\<rparr>)
      else if address = TIMER1_OCR then ok (k\<lparr>rv_timer1_ocr := value AND 0xffff\<rparr>)
      else if address = UARTCAUSE_INV then ok (k\<lparr>rv_uartcause_inv := value AND 0xff\<rparr>)
      else if address = UARTMASK then ok (k\<lparr>rv_uartmask := value AND 0xff\<rparr>)
      else if address = EXIT_TRAP then
        Inl (Finished (hit_ratio (cd_icache s) # (if cd_unified s then [] else [hit_ratio (cd_dcache s)])))
      else if address = DEBUG_ADDR then
        ok (case rv_log k of None \<Rightarrow> k | Some l \<Rightarrow> k\<lparr>rv_log := Some (l @ [ucast value])\<rparr>)
      else if address = UART0 then ok (k\<lparr>rv_out := rv_out k @ [ucast value]\<rparr>)
      else if address = UART0_DIV then Inr s
      else if address \<ge> EXIT_TRAP then Inr s
      else case cache_write (the_dcache s) address of
          None \<Rightarrow> Inl Cache_Undefined
        | Some (p, c) \<Rightarrow>
            (let s = (put_dcache s c)\<lparr>cd_core := spend p (p + p) k\<rparr>
             in on_core s (ram_write (cd_core s) sz address value)))"

subsection \<open>Execution\<close>

definition cached_load :: "cached \<Rightarrow> u32 \<Rightarrow> u32 \<Rightarrow> cached_halt + cached" where
  "cached_load s inst ptr_l =
     (let rd = i_rd inst; f = i_funct3 inst;
          finish = (\<lambda>size convert. case cached_read s size ptr_l of
                     Inl h \<Rightarrow> Inl h
                   | Inr (v, s') \<Rightarrow> Inr (s'\<lparr>cd_core := set_r (cd_core s') rd (convert v)\<rparr>))
      in if f = 0 then finish 1 (\<lambda>v. scast (ucast v :: u8))
         else if f = 1 then finish 2 (\<lambda>v. scast (ucast v :: u16))
         else if f = 2 then finish 4 (\<lambda>v. v)
         else if f = 4 then finish 1 (\<lambda>v. ucast (ucast v :: u8))
         else if f = 5 then finish 2 (\<lambda>v. ucast (ucast v :: u16))
         else Inl (Halt (Invalid_Opcode inst)))"

definition cached_store :: "cached \<Rightarrow> u32 \<Rightarrow> u32 \<Rightarrow> cached_halt + cached" where
  "cached_store s inst ptr_s =
     (let b = rv_r (cd_core s) (i_rs2 inst); f = i_funct3 inst
      in if f = 0 then cached_write s 1 ptr_s b
         else if f = 1 then cached_write s 2 ptr_s b
         else if f = 2 then cached_write s 4 ptr_s b
         else Inl (Halt (Invalid_Opcode inst)))"

text \<open>The system calls have no effect; the counter reads compare the sign-extended immediate.\<close>

definition cached_system :: "cached \<Rightarrow> u32 \<Rightarrow> cached_halt + cached" where
  "cached_system s inst =
     (if i_funct3 inst = 0 then Inr s
      else if i_funct3 inst = 2 then
        (if imm_i inst = 0xc00 \<or> imm_i inst = 0xc80 \<or> imm_i inst = 0xc01 \<or> imm_i inst = 0xc81 \<or>
            imm_i inst = 0xc02 \<or> imm_i inst = 0xc82
         then Inr s else Inl (Halt (Invalid_Opcode inst)))
      else Inl (Halt (Invalid_Opcode inst)))"

definition cached_execute :: "cached \<Rightarrow> u32 \<Rightarrow> cached_halt + cached" where
  "cached_execute s inst =
     (let k = cd_core s;
          ptr_l = rv_r k (i_rs1 inst) + imm_i inst;
          ptr_s = rv_r k (i_rs1 inst) + imm_s inst;
          k = set_r k 0 0; s = s\<lparr>cd_core := k\<rparr>; rd = i_rd inst; op = i_opcode inst
      in if op = 0x37 then Inr (s\<lparr>cd_core := set_r k rd (imm_u inst)\<rparr>)
         else if op = 0x17 then Inr (s\<lparr>cd_core := set_r k rd (rv_pc k + imm_u inst)\<rparr>)
         else if op = 0x6f then
           Inr (s\<lparr>cd_core := (set_r k rd (rv_pc_next k))\<lparr>rv_pc_next := rv_pc k + imm_uj inst\<rparr>\<rparr>)
         else if op = 0x67 then
           (let k = set_r k rd (rv_pc_next k)
            in Inr (s\<lparr>cd_core := k\<lparr>rv_pc_next := (rv_r k (i_rs1 inst) + imm_i inst) AND 0xfffffffe\<rparr>\<rparr>))
         else if op = 0x63 then on_core s (exec_branch k inst)
         else if op = 0x3 then cached_load s inst ptr_l
         else if op = 0x23 then cached_store s inst ptr_s
         else if op = 0x13 then on_core s (exec_imm k inst)
         else if op = 0x33 then on_core s (exec_reg k inst)
         else if op = 0x73 then cached_system s inst
         else Inl (Halt (Invalid_Opcode inst)))"

subsection \<open>One cycle and the program\<close>

definition cached_interrupt :: "riscv_state \<Rightarrow> riscv_state" where
  "cached_interrupt k =
     (if rv_status k \<noteq> 0 \<and> rv_cause k AND rv_mask k \<noteq> 0 then
        k\<lparr>rv_epc := rv_pc_next k, rv_pc := rv_vector k, rv_pc_next := rv_vector k + 4,
          rv_status := 0, rv_status_dly := (rv_status_dly k)(0 := 0, 1 := 0, 2 := 0, 3 := 0)\<rparr>
      else k)"

definition cached_causes :: "riscv_state \<Rightarrow> riscv_state" where
  "cached_causes s =
     (let s = s\<lparr>rv_timercause := if rv_timer0 s AND 0x10000 \<noteq> 0
                then rv_timercause s OR 0x01 else rv_timercause s AND 0xfe\<rparr>;
          s = s\<lparr>rv_timercause := if rv_timer0 s AND 0x40000 \<noteq> 0
                then rv_timercause s OR 0x02 else rv_timercause s AND 0xfd\<rparr>;
          s = (if rv_timer1 s = rv_timer1_ctc s
               then s\<lparr>rv_timer1 := 0, rv_timercause := rv_timercause s XOR 0x4\<rparr> else s);
          s = s\<lparr>rv_timercause := if rv_timer1 s < rv_timer1_ocr s
                then rv_timercause s OR 0x8 else rv_timercause s AND 0xf7\<rparr>;
          s = s\<lparr>rv_s0cause := if (rv_timercause s XOR rv_timercause_inv s) AND rv_timermask s \<noteq> 0
                then 0x04 else 0\<rparr>
      in s\<lparr>rv_cause := if rv_s0cause s \<noteq> 0 then 1 else 0\<rparr>)"

definition cached_cycle :: "cached \<Rightarrow> cached_halt + cached" where
  "cached_cycle s =
     (let s = s\<lparr>cd_core := cached_interrupt (cd_core s)\<rparr>
      in case cached_fetch s (rv_pc (cd_core s)) of
           Inl h \<Rightarrow> Inl h
         | Inr (inst, s) \<Rightarrow>
             (case cached_execute s inst of
                Inl h \<Rightarrow> Inl h
              | Inr s \<Rightarrow> Inr (s\<lparr>cd_core := timer_count (cached_causes (advance_pc (cd_core s)))\<rparr>)))"

definition ispowerof2 :: "u32 \<Rightarrow> bool" where
  "ispowerof2 x = (x \<noteq> 0 \<and> x AND (x - 1) = 0)"

text \<open>
  The arguments are the cache arrangement, the policy and the numbers \<open>atoi\<close> read; the core starts
  as in \<open>main\<close> of the other simulator, but without a stack pointer.
\<close>

definition cached_main ::
    "u8 list \<Rightarrow> u8 list \<Rightarrow> bool \<Rightarrow> string \<Rightarrow> string \<Rightarrow> u32 \<Rightarrow> u32 \<Rightarrow> u32 \<Rightarrow> u32 \<Rightarrow> cached option" where
  "cached_main img input logging arrangement policy sets block_size miss_setup miss_burst =
     (if arrangement \<noteq> ''u'' \<and> arrangement \<noteq> ''s'' then None
      else if policy \<noteq> ''wt'' \<and> policy \<noteq> ''wa'' \<and> policy \<noteq> ''wb'' then None
      else if \<not> ispowerof2 sets then None
      else if \<not> ispowerof2 block_size then None
      else case riscv_main img input logging of
          None \<Rightarrow> None
        | Some k \<Rightarrow>
            (let c = cache_init policy sets block_size 1 miss_setup miss_burst
             in Some \<lparr>cd_core = set_r k 2 0, cd_icache = c, cd_dcache = c, cd_unified = (arrangement = ''u'')\<rparr>))"

fun cached_run :: "nat \<Rightarrow> cached \<Rightarrow> cached_halt + cached" where
  "cached_run 0 s = Inr s"
| "cached_run (Suc n) s = (case cached_cycle s of Inl h \<Rightarrow> Inl h | Inr t \<Rightarrow> cached_run n t)"

subsection \<open>Caches change the time, not the machine\<close>

definition untimed :: "riscv_state \<Rightarrow> riscv_state" where
  "untimed k = k\<lparr>rv_cycles := 0, rv_timer0 := 0\<rparr>"

lemma untimed_spend [simp]:
  "untimed (spend p t k) = untimed k"
  "untimed ((spend p t k)\<lparr>rv_r := f\<rparr>) = untimed (k\<lparr>rv_r := f\<rparr>)"
  by (simp_all add: untimed_def spend_def)

lemma spend_frame [simp]: "rv_mem (spend p t k) = rv_mem k" "rv_r (spend p t k) = rv_r k" "rv_pc (spend p t k) = rv_pc k"
  by (simp_all add: spend_def)

lemma ram_read_plain:
  "a < EXIT_TRAP \<Longrightarrow> mem_read k sz a = map_sum id (\<lambda>v. (v, k)) (ram_read k sz a)"
  by (simp add: mem_read_ram ram_read_def Let_def)

lemma ram_write_plain: "a < EXIT_TRAP \<Longrightarrow> mem_write k sz a v = ram_write k sz a v"
  by (simp add: mem_write_ram ram_write_def Let_def)

lemma ram_spend:
  "ram_read (spend p t k) sz a = ram_read k sz a"
  "ram_write (spend p t k) sz a v = map_sum id (spend p t) (ram_write k sz a v)"
  by (simp_all add: ram_read_def ram_write_def Let_def) (simp add: spend_def)

lemma cached_read_ram:
  assumes "a < EXIT_TRAP"
  shows "cached_read s sz a = (case cache_read (the_dcache s) a of None \<Rightarrow> Inl Cache_Undefined
    | Some (p, c) \<Rightarrow> map_sum Halt (\<lambda>v. (v, (put_dcache s c)\<lparr>cd_core := spend p p (cd_core s)\<rparr>))
        (ram_read (cd_core s) sz a))"
proof -
  have "\<not> EXIT_TRAP \<le> a" using assms by simp
  then show ?thesis using assms by (simp add: cached_read_def not_device) (simp add: Let_def ram_spend split: option.split)
qed

lemma cached_write_ram:
  assumes "a < EXIT_TRAP"
  shows "cached_write s sz a v = (case cache_write (the_dcache s) a of None \<Rightarrow> Inl Cache_Undefined
    | Some (p, c) \<Rightarrow> map_sum Halt (\<lambda>k. (put_dcache s c)\<lparr>cd_core := spend p (p + p) k\<rparr>)
        (ram_write (cd_core s) sz a v))"
proof -
  have "cached_write s sz a v = (case cache_write (the_dcache s) a of None \<Rightarrow> Inl Cache_Undefined
    | Some (p, c) \<Rightarrow> on_core ((put_dcache s c)\<lparr>cd_core := spend p (p + p) (cd_core s)\<rparr>)
        (ram_write (spend p (p + p) (cd_core s)) sz a v))"
  proof -
    have "\<not> EXIT_TRAP \<le> a" using assms by simp
    then show ?thesis
      using assms by (simp add: cached_write_def not_device) (simp add: Let_def split: option.split)
  qed
  also have "\<dots> = (case cache_write (the_dcache s) a of None \<Rightarrow> Inl Cache_Undefined
    | Some (p, c) \<Rightarrow> map_sum Halt (\<lambda>k. (put_dcache s c)\<lparr>cd_core := spend p (p + p) k\<rparr>)
        (ram_write (cd_core s) sz a v))"
    by (cases "ram_write (cd_core s) sz a v") (simp_all add: ram_spend split: option.split)
  finally show ?thesis .
qed

text \<open>A machine with a unified write-back cache of two sets of one word, about to load from RAM.\<close>

definition cached_boot :: cached where
  "cached_boot = the (cached_main [0x13, 0, 0, 0] [] False ''u'' ''wb'' 2 1 5 2)"

subsection \<open>The time of a store and the counter instructions\<close>

lemma imm_i_range: "imm_i inst < 0x800 \<or> 0xfffff000 \<le> imm_i inst"
proof (cases "inst AND 0x80000000 = 0")
  case True
  have "inst AND 0xfff00000 \<le> inst" by (rule word_and_le2)
  then have "unat (inst AND 0xfff00000) < 2 ^ 31"
    using True by (auto simp: sign_bit_clear_iff word_le_nat_alt)
  then have "unat (drop_bit 20 (inst AND 0xfff00000)) < 0x800"
    by (simp only: unat_shr) (simp add: less_mult_imp_div_less)
  then show ?thesis using True by (simp add: imm_i_def word_less_nat_alt)
next
  case False
  then show ?thesis by (auto simp: imm_i_def Let_def intro: le_word_or1)
qed

text \<open>Two divergences of the program with caches: a store to RAM that succeeds adds its penalty once to
  the cycle counter but twice to timer 0; and no counter instruction (RDCYCLE, RDTIME, RDINSTRET) is
  ever recognised, because the sign-extended immediate never equals the numbers it is compared with.\<close>

theorem cached_divergences:
  "(a < EXIT_TRAP \<longrightarrow> (case cached_write s sz a v of
       Inl _ \<Rightarrow> True
     | Inr t \<Rightarrow> (\<exists>p c. cache_write (the_dcache s) a = Some (p, c) \<and>
         rv_cycles (cd_core t) = rv_cycles (cd_core s) + ucast p \<and>
         rv_timer0 (cd_core t) = rv_timer0 (cd_core s) + 2 * p))) \<and>
   cached_system s inst = (if i_funct3 inst = 0 then Inr s else Inl (Halt (Invalid_Opcode inst)))"
proof (intro conjI impI)
  assume a: "a < EXIT_TRAP"
  have keep: "rv_cycles k = rv_cycles (cd_core s) \<and> rv_timer0 k = rv_timer0 (cd_core s)"
    if "ram_write (cd_core s) sz a v = Inr k" for k
    using that by (auto simp: ram_write_def Let_def split: if_splits)
  show "case cached_write s sz a v of
       Inl _ \<Rightarrow> True
     | Inr t \<Rightarrow> (\<exists>p c. cache_write (the_dcache s) a = Some (p, c) \<and>
         rv_cycles (cd_core t) = rv_cycles (cd_core s) + ucast p \<and>
         rv_timer0 (cd_core t) = rv_timer0 (cd_core s) + 2 * p)"
    by (cases "ram_write (cd_core s) sz a v")
       (auto simp: cached_write_ram[OF a] spend_def dest: keep split: option.split)
next
  show "cached_system s inst = (if i_funct3 inst = 0 then Inr s else Inl (Halt (Invalid_Opcode inst)))"
    using imm_i_range[of inst] by (auto simp: cached_system_def)
qed


theorem cached_divergences_witness:
  "(case cached_write cached_boot 4 0x40000010 7 of
       Inl _ \<Rightarrow> True
     | Inr t \<Rightarrow> (\<exists>p c. cache_write (the_dcache cached_boot) 0x40000010 = Some (p, c) \<and>
         rv_cycles (cd_core t) = rv_cycles (cd_core cached_boot) + ucast p \<and>
         rv_timer0 (cd_core t) = rv_timer0 (cd_core cached_boot) + 2 * p)) \<and>
   cached_system cached_boot 0xc0002073 = Inl (Halt (Invalid_Opcode 0xc0002073))"
proof -
  have "i_funct3 0xc0002073 \<noteq> 0" by code_simp
  then show ?thesis
    using cached_divergences[of "0x40000010" cached_boot 4 7 "0xc0002073"] by simp
qed

subsection \<open>The cache never fails\<close>

lemma ispowerof2_power: "ispowerof2 x \<longleftrightarrow> (\<exists>k<32. x = 2 ^ k)"
proof
  assume x: "ispowerof2 x"
  then have "1 \<le> unat x" by (simp add: ispowerof2_def Suc_le_eq unat_gt_0)
  then obtain h where h: "2 ^ h \<le> unat x" "unat x < 2 ^ (h + 1)"
    using ex_power_ivl1[of 2 "unat x"] by auto
  have "2 ^ h < (2::nat) ^ 32" using h(1) unat_bound[of x] by simp
  then have h32: "h < 32" by (simp only: power_strict_increasing_iff)
  have odd: "bit w h" if "2 ^ h \<le> unat w" "unat w < 2 ^ (h + 1)" for w :: u32
  proof -
    have "unat w div 2 ^ h = 1" using that by (intro div_nat_eqI) simp_all
    then show ?thesis by (simp flip: bit_unat add: bit_iff_odd)
  qed
  have "unat x = 2 ^ h"
  proof (rule ccontr)
    assume "unat x \<noteq> 2 ^ h"
    then have "2 ^ h \<le> unat (x - 1)" "unat (x - 1) < 2 ^ (h + 1)"
      using h x by (auto simp: unat_minus_one ispowerof2_def)
    then have "bit (x AND (x - 1)) h" using odd h by (simp add: bit_and_iff)
    then show False using x by (simp add: ispowerof2_def)
  qed
  then have "x = of_nat (2 ^ h)" by (metis unat_of_nat_small unat_bound len32 word_unat_eq_iff)
  then show "\<exists>k<32. x = 2 ^ k" using h32 by auto
next
  assume "\<exists>k<32. x = 2 ^ k"
  then obtain k where k: "k < 32" "x = 2 ^ k" by blast
  have "(2::u32) ^ k - 1 = mask k" by (simp add: mask_eq_exp_minus_1)
  then have "x AND (x - 1) = 0"
    using k by (intro bit_word_eqI) (simp add: bit_and_iff bit_mask_iff bit_exp_iff)
  then show "ispowerof2 x" using k by (simp add: ispowerof2_def)
qed

definition cached_ok :: "nat \<Rightarrow> nat \<Rightarrow> cached \<Rightarrow> bool" where
  "cached_ok b s st \<longleftrightarrow> cache_wf b s (cd_icache st) \<and> (cd_unified st \<or> cache_wf b s (cd_dcache st))"

definition cached_safe :: "(cached \<Rightarrow> bool) \<Rightarrow> cached_halt + cached \<Rightarrow> bool" where
  "cached_safe P r = (case r of Inl h \<Rightarrow> h \<noteq> Cache_Undefined | Inr t \<Rightarrow> P t)"

lemma cached_safe_simps [simp]:
  "cached_safe P (Inl h) = (h \<noteq> Cache_Undefined)" "cached_safe P (Inr t) = P t"
  by (simp_all add: cached_safe_def)

lemma cached_ok_core [simp]: "cached_ok b s (st\<lparr>cd_core := k\<rparr>) = cached_ok b s st"
  by (simp add: cached_ok_def)

lemma cached_safe_core: "cached_ok b s st \<Longrightarrow> cached_safe (cached_ok b s) (on_core st r)"
  by (cases r) simp_all

lemma the_dcache_ok: "cached_ok b s st \<Longrightarrow> cache_wf b s (the_dcache st)"
  by (auto simp: cached_ok_def the_dcache_def)

lemma put_dcache_ok: "cached_ok b s st \<Longrightarrow> cache_wf b s c \<Longrightarrow> cached_ok b s (put_dcache st c)"
  by (auto simp: cached_ok_def put_dcache_def)

lemma cache_read_wf:
  assumes "cache_wf b s c"
  obtains p c' where "cache_read c a = Some (p, c')" "cache_wf b s c'"
  using access_refines[OF assms, of "Read a"] by (metis access.simps(1))

lemma cache_write_wf:
  assumes "cache_wf b s c"
  obtains p c' where "cache_write c a = Some (p, c')" "cache_wf b s c'"
  using access_refines[OF assms, of "Write a"] by (metis access.simps(2))

lemma cached_read_ok:
  assumes "cached_ok b s st"
  shows "case cached_read st sz a of Inl h \<Rightarrow> h \<noteq> Cache_Undefined | Inr (v, t) \<Rightarrow> cached_ok b s t"
proof -
  obtain p c where c: "cache_read (the_dcache st) a = Some (p, c)" "cache_wf b s c"
    using cache_read_wf[OF the_dcache_ok[OF assms]] .
  have g: "case map_sum Halt (\<lambda>v. (v, (put_dcache st c)\<lparr>cd_core := k\<rparr>)) r of
      Inl h \<Rightarrow> h \<noteq> Cache_Undefined | Inr (v, t) \<Rightarrow> cached_ok b s t" for k r
    using put_dcache_ok[OF assms c(2)] by (cases r) simp_all
  show ?thesis
    unfolding cached_read_def Let_def by (simp add: assms c(1) g split: prod.split)
qed

lemma cached_write_ok:
  assumes "cached_ok b s st"
  shows "cached_safe (cached_ok b s) (cached_write st sz a v)"
proof -
  obtain p c where c: "cache_write (the_dcache st) a = Some (p, c)" "cache_wf b s c"
    using cache_write_wf[OF the_dcache_ok[OF assms]] .
  have "cached_safe (cached_ok b s) (on_core (put_dcache st c) r)" for r
    using put_dcache_ok[OF assms c(2)] by (rule cached_safe_core)
  then show ?thesis
    unfolding cached_write_def Let_def by (simp add: assms c(1))
qed

lemma cached_execute_ok:
  assumes "cached_ok b s st"
  shows "cached_safe (cached_ok b s) (cached_execute st inst)"
proof -
  have load: "cached_safe (cached_ok b s) (cached_load (st\<lparr>cd_core := k\<rparr>) inst a)" for k a
  proof -
    let ?st = "st\<lparr>cd_core := k\<rparr>"
    have "cached_safe (cached_ok b s) (case cached_read ?st sz a of Inl h \<Rightarrow> Inl h
        | Inr (v, s') \<Rightarrow> Inr (s'\<lparr>cd_core := set_r (cd_core s') rd (f v)\<rparr>))" for sz rd f
      using cached_read_ok[of b s ?st sz a] assms by (auto split: sum.splits)
    then show ?thesis by (simp add: cached_load_def Let_def)
  qed
  have store: "cached_safe (cached_ok b s) (cached_store (st\<lparr>cd_core := k\<rparr>) inst a)" for k a
    using cached_write_ok[of b s "st\<lparr>cd_core := k\<rparr>"] assms by (simp add: cached_store_def Let_def)
  have core: "cached_safe (cached_ok b s) (on_core (st\<lparr>cd_core := k\<rparr>) r)" for k r
    using assms by (intro cached_safe_core) simp
  have "cached_safe (cached_ok b s) (cached_system (st\<lparr>cd_core := k\<rparr>) inst)" for k
    using assms by (simp add: cached_system_def)
  then show ?thesis
    unfolding cached_execute_def Let_def using load store core[simplified] assms by simp
qed

lemma cached_cycle_ok:
  assumes "cached_ok b s st"
  shows "cached_safe (cached_ok b s) (cached_cycle st)"
proof -
  let ?st = "st\<lparr>cd_core := cached_interrupt (cd_core st)\<rparr>" and ?a = "rv_pc (cached_interrupt (cd_core st))"
  have "cache_wf b s (cd_icache st)" using assms by (simp add: cached_ok_def)
  then obtain p c where c: "cache_read (cd_icache st) ?a = Some (p, c)" "cache_wf b s c"
    by (rule cache_read_wf)
  have ok: "cached_ok b s (st\<lparr>cd_icache := c, cd_core := k\<rparr>)" for k
    using assms c(2) by (simp add: cached_ok_def)
  have fetch: "case cached_fetch ?st ?a of Inl h \<Rightarrow> h \<noteq> Cache_Undefined | Inr (v, t) \<Rightarrow> cached_ok b s t"
    using ok c(1) by (simp add: cached_fetch_def Let_def)
  show ?thesis
  proof (cases "cached_fetch ?st ?a")
    case (Inr q)
    then obtain inst t where q: "cached_fetch ?st ?a = Inr (inst, t)" "cached_ok b s t"
      using fetch by (cases q) auto
    then show ?thesis
      using cached_execute_ok[OF q(2), of inst] by (auto simp: cached_cycle_def split: sum.split)
  qed (use fetch in \<open>simp add: cached_cycle_def\<close>)
qed

lemma cached_run_ok: "cached_ok b s st \<Longrightarrow> cached_safe (cached_ok b s) (cached_run n st)"
proof (induction n arbitrary: st)
  case (Suc n)
  then show ?case using cached_cycle_ok[of b s st] by (cases "cached_cycle st") simp_all
qed simp

lemma cached_main_ok:
  assumes "cached_main img input logging arr policy sets block_size ms mb = Some st"
    and "unat sets * unat block_size \<le> 2 ^ 30"
  shows "\<exists>b s. unat block_size = 2 ^ b \<and> unat sets = 2 ^ s \<and> cached_ok b s st"
proof -
  have "ispowerof2 sets" "ispowerof2 block_size"
    using assms(1) by (auto simp: cached_main_def split: if_splits)
  then obtain s b where sb: "s < 32" "sets = 2 ^ s" "b < 32" "block_size = 2 ^ b"
    by (auto simp: ispowerof2_power)
  have p: "unat ((2::u32) ^ k) = 2 ^ k" if "k < 32" for k
  proof -
    have "(2::nat) ^ k < 2 ^ 32" using that by (intro power_strict_increasing) simp_all
    from unat_of_nat_small[OF this] show ?thesis by simp
  qed
  have "(2::nat) ^ (b + s) \<le> 2 ^ 30" using assms(2) sb p by (simp add: power_add mult.commute)
  then have "b + s \<le> 30" by (simp only: power_increasing_iff)
  then have "cache_wf b s (cache_init policy sets block_size 1 ms mb)"
    using cache_init_wf(1)[of b s 1] sb by simp
  then have "cached_ok b s st"
    using assms(1) by (auto simp: cached_main_def cached_ok_def Let_def split: if_splits option.splits)
  then show ?thesis using sb p by blast
qed

lemma cached_boot_ok: "\<exists>b s. unat (1::u32) = 2 ^ b \<and> unat (2::u32) = 2 ^ s \<and> cached_ok b s cached_boot"
proof (rule cached_main_ok)
  have "cached_main [0x13, 0, 0, 0] [] False ''u'' ''wb'' 2 1 5 2 \<noteq> None" by code_simp
  then show "cached_main [0x13, 0, 0, 0] [] False ''u'' ''wb'' 2 1 5 2 = Some cached_boot"
    by (auto simp: cached_boot_def)
qed simp

subsection \<open>An instruction with and without caches\<close>

definition core_view :: "cached_halt + cached \<Rightarrow> cached_halt + riscv_state" where
  "core_view r = map_sum id (\<lambda>t. untimed (cd_core t)) r"

lemma core_view_simps [simp]: "core_view (Inl h) = Inl h" "core_view (Inr t) = Inr (untimed (cd_core t))"
  by (simp_all add: core_view_def)

lemma core_view_on_core: "core_view (on_core s r) = map_sum Halt untimed r"
  by (cases r) simp_all

lemma cached_load_view:
  assumes "cached_ok b n s" "a < EXIT_TRAP"
  shows "core_view (cached_load s inst a) = map_sum Halt untimed (exec_load (cd_core s) inst a)"
proof -
  obtain p c where c: "cache_read (the_dcache s) a = Some (p, c)"
    using cache_read_wf[OF the_dcache_ok[OF assms(1)]] .
  have fin: "core_view (case cached_read s sz a of Inl h \<Rightarrow> Inl h
      | Inr (v, s') \<Rightarrow> Inr (s'\<lparr>cd_core := set_r (cd_core s') rd (f v)\<rparr>)) =
    map_sum Halt untimed (case mem_read (cd_core s) sz a of Inl h \<Rightarrow> Inl h | Inr (v, k) \<Rightarrow> Inr (set_r k rd (f v)))"
    for sz rd f
    by (cases "ram_read (cd_core s) sz a") (simp_all add: cached_read_ram[OF assms(2)] ram_read_plain[OF assms(2)] c)
  show ?thesis unfolding cached_load_def exec_load_def Let_def by (simp add: fin)
qed

lemma cached_store_view:
  assumes "cached_ok b n s" "a < EXIT_TRAP"
  shows "core_view (cached_store s inst a) = map_sum Halt untimed (exec_store (cd_core s) inst a)"
proof -
  obtain p c where c: "cache_write (the_dcache s) a = Some (p, c)"
    using cache_write_wf[OF the_dcache_ok[OF assms(1)]] .
  have fin: "core_view (cached_write s sz a v) = map_sum Halt untimed (mem_write (cd_core s) sz a v)" for sz v
    by (cases "ram_write (cd_core s) sz a v") (simp_all add: cached_write_ram[OF assms(2)] ram_write_plain[OF assms(2)] c)
  show ?thesis unfolding cached_store_def exec_store_def Let_def by (simp add: fin)
qed

text \<open>C6: Caches are transparent: an instruction that is not of the system opcode and whose access, if it is a load or
  a store, is to RAM, below \<open>EXIT_TRAP\<close>, ends in a simulator whose caches fit their size as it ends in the simulator
  without caches: it halts for the same reason, or it does the same to registers, program counter, memory and devices,
  and only the cycle counter and timer 0 may differ. The set-ups the program accepts have such caches in every state
  of every run (C7).\<close>

theorem cached_execute_transparent:
  assumes "cached_ok b n s" "i_opcode inst \<noteq> 0x73"
    and "i_opcode inst = 0x3 \<longrightarrow> rv_r (cd_core s) (i_rs1 inst) + imm_i inst < EXIT_TRAP"
    and "i_opcode inst = 0x23 \<longrightarrow> rv_r (cd_core s) (i_rs1 inst) + imm_s inst < EXIT_TRAP"
  shows "map_sum id (\<lambda>t. untimed (cd_core t)) (cached_execute s inst) =
    map_sum Halt untimed (execute (cd_core s) inst)"
proof -
  let ?s = "s\<lparr>cd_core := set_r (cd_core s) 0 0\<rparr>"
  have ok: "cached_ok b n ?s" using assms(1) by simp
  note view = cached_load_view[OF ok] cached_store_view[OF ok] core_view_on_core
  show ?thesis
    unfolding core_view_def[symmetric] cached_execute_def execute_def Let_def
    using assms(2-4) by (simp add: view)
qed

theorem cached_execute_transparent_witness:
  "map_sum id (\<lambda>t. untimed (cd_core t)) (cached_execute cached_boot 0x00412083) =
     map_sum Halt untimed (execute (cd_core cached_boot) 0x00412083)"
proof -
  obtain b n where "cached_ok b n cached_boot" using cached_boot_ok by blast
  then show ?thesis
  proof (rule cached_execute_transparent)
    show "i_opcode 0x00412083 \<noteq> 0x73" by (simp add: i_opcode_def)
    have "rv_r (cd_core cached_boot) (i_rs1 0x00412083) + imm_i 0x00412083 < EXIT_TRAP" by code_simp
    then show "i_opcode 0x00412083 = 0x3 \<longrightarrow> rv_r (cd_core cached_boot) (i_rs1 0x00412083) + imm_i 0x00412083 < EXIT_TRAP"
      by simp
    show "i_opcode 0x00412083 = 0x23 \<longrightarrow> rv_r (cd_core cached_boot) (i_rs1 0x00412083) + imm_s 0x00412083 < EXIT_TRAP"
      by (simp add: i_opcode_def)
  qed
qed

text \<open>C7: The cache of a run is always defined: with a set-up the program accepts (numbers of sets and of words per
  block that are powers of two) and at most 2 ^ 30 words of cache, no run of any image indexes outside the sets or
  shifts by the width of a word, the undefined operations of \<open>cache_init\<close>, \<open>cache_read\<close> and \<open>cache_write\<close>, and every
  access is served by a cache whose masks and tables fit its size. The hit ratio computed at the end of a run is not
  part of this: it divides by the number of accesses, which can be zero.\<close>

theorem cached_run_defined:
  assumes "cached_main img input logging arr policy sets block_size ms mb = Some st"
    and "unat sets * unat block_size \<le> 2 ^ 30"
  shows "\<exists>b s. unat block_size = 2 ^ b \<and> unat sets = 2 ^ s \<and>
    cached_safe (cached_ok b s) (cached_run n st)"
  using cached_main_ok[OF assms] cached_run_ok by blast

theorem cached_run_defined_witness:
  "\<exists>b s. unat (1::u32) = 2 ^ b \<and> unat (2::u32) = 2 ^ s \<and> cached_safe (cached_ok b s) (cached_run 3 cached_boot)"
proof (rule cached_run_defined)
  have "cached_main [0x13, 0, 0, 0] [] False ''u'' ''wb'' 2 1 5 2 \<noteq> None" by code_simp
  then show "cached_main [0x13, 0, 0, 0] [] False ''u'' ''wb'' 2 1 5 2 = Some cached_boot"
    by (auto simp: cached_boot_def)
qed simp

text \<open>A program that ends on separate caches without an access to RAM: the hit ratio of the data cache divides by zero.\<close>

lemma unused_dcache_ratio:
  "\<not> cd_unified st \<Longrightarrow> ca_hits (cd_dcache st) + ca_misses (cd_dcache st) = 0 \<Longrightarrow>
    cached_write st sz EXIT_TRAP v = Inl (Finished [hit_ratio (cd_icache st), None])"
  "cached_main img input logging ''s'' policy sets block_size ms mb = Some st \<Longrightarrow>
    \<not> cd_unified st \<and> ca_hits (cd_dcache st) + ca_misses (cd_dcache st) = 0"
  by (auto simp: cached_write_def Let_def hit_ratio_def cached_main_def cache_init_def
      split: if_splits option.splits)

end
