(* ===== verification/Mips_Sim.thy ===== *)
theory Mips_Sim
  imports Prelude
begin

text \<open>
  The HF-RISC (MIPS) simulator, tools/sim/hf_risc_sim/hf_risc_sim.c: big-endian memory, device
  registers, branch delay slots, the multiply unit, instruction statistics. Record fields carry the
  prefix \<open>mp_\<close>, otherwise the names of the C struct \<open>state\<close>. An opcode that is not decoded is
  reported on the standard output and skipped; standard output is a list of such reports and of the
  characters of the UART. What ends the process, or has no defined result in C, is a value of
  \<open>mips_halt\<close>.
\<close>

unbundle bit_operations_syntax

subsection \<open>State\<close>

datatype mips_output = Char u8 | Invalid_At u32 u32

record mips_state =
  mp_r :: "u32 \<Rightarrow> u32"
  mp_pc :: u32
  mp_pc_next :: u32
  mp_hi :: u32
  mp_lo :: u32
  mp_mem :: byte_mem
  mp_j :: u8
  mp_nox_bds :: u8
  mp_vector :: u32
  mp_cause :: u32
  mp_mask :: u32
  mp_status :: u32
  mp_status_dly :: "nat \<Rightarrow> u32"
  mp_epc :: u32
  mp_s0cause :: u32
  mp_timercause :: u32
  mp_timercause_inv :: u32
  mp_timermask :: u32
  mp_timer0 :: u32
  mp_timer1 :: u32
  mp_timer1_pre :: u32
  mp_timer1_ctc :: u32
  mp_timer1_ocr :: u32
  mp_uartcause :: u32
  mp_uartcause_inv :: u32
  mp_uartmask :: u32
  mp_ins :: u32
  mp_arith :: u32
  mp_logic :: u32
  mp_shift :: u32
  mp_comp :: u32
  mp_ls :: u32
  mp_bra :: u32
  mp_taken_bra :: u32
  mp_jmp :: u32
  mp_mul :: u32
  mp_div :: u32
  mp_other :: u32
  mp_in :: "u8 list"
  mp_out :: "mips_output list"
  mp_log :: "u8 list option"

datatype mips_halt = Program_End | Misaligned u32 | Shift_Undefined | Division_Undefined

abbreviation "MIPS_MEM_SIZE \<equiv> 0x00100000 :: u32"
abbreviation "MIPS_EXIT_TRAP \<equiv> 0xe0000000 :: u32"

subsection \<open>Memory\<close>

definition ntohl :: "u32 \<Rightarrow> u32" where
  "ntohl a = drop_bit 24 a OR drop_bit 8 (a AND 0xff0000) OR push_bit 8 (a AND 0xff00) OR push_bit 24 a"

definition ntohs :: "u16 \<Rightarrow> u16" where
  "ntohs a = drop_bit 8 a OR push_bit 8 (a AND 0xff)"

text \<open>The words and halves the little-endian host sees at a byte address.\<close>

definition host_word :: "byte_mem \<Rightarrow> u32 \<Rightarrow> u32" where
  "host_word m a = ucast (m a) OR push_bit 8 (ucast (m (a + 1)))
     OR push_bit 16 (ucast (m (a + 2))) OR push_bit 24 (ucast (m (a + 3)))"

definition host_half :: "byte_mem \<Rightarrow> u32 \<Rightarrow> u16" where
  "host_half m a = ucast (m a) OR push_bit 8 (ucast (m (a + 1)))"

definition put_host_word :: "byte_mem \<Rightarrow> u32 \<Rightarrow> u32 \<Rightarrow> byte_mem" where
  "put_host_word m a v = m(a := ucast v, a + 1 := ucast (drop_bit 8 v),
     a + 2 := ucast (drop_bit 16 v), a + 3 := ucast (drop_bit 24 v))"

definition put_host_half :: "byte_mem \<Rightarrow> u32 \<Rightarrow> u16 \<Rightarrow> byte_mem" where
  "put_host_half m a v = m(a := ucast v, a + 1 := ucast (drop_bit 8 v))"

definition be_load_word :: "byte_mem \<Rightarrow> u32 \<Rightarrow> u32" where
  "be_load_word m a = ntohl (host_word m a)"

definition be_store_word :: "byte_mem \<Rightarrow> u32 \<Rightarrow> u32 \<Rightarrow> byte_mem" where
  "be_store_word m a v = put_host_word m a (ntohl v)"

definition be_load_half :: "byte_mem \<Rightarrow> u32 \<Rightarrow> u16" where
  "be_load_half m a = ntohs (host_half m a)"

definition be_store_half :: "byte_mem \<Rightarrow> u32 \<Rightarrow> u16 \<Rightarrow> byte_mem" where
  "be_store_half m a v = put_host_half m a (ntohs v)"

definition mips_getchar :: "mips_state \<Rightarrow> u32 \<times> mips_state" where
  "mips_getchar s = (case mp_in s of [] \<Rightarrow> (- 1, s) | c # cs \<Rightarrow> (ucast c, s\<lparr>mp_in := cs\<rparr>))"

definition mips_read :: "mips_state \<Rightarrow> u32 \<Rightarrow> u32 \<Rightarrow> mips_halt + (u32 \<times> mips_state)" where
  "mips_read s sz address =
     (if address = 0xf0000000 then Inr (mp_vector s, s)
      else if address = 0xf0000010 then Inr (mp_cause s, s)
      else if address = 0xf0000020 then Inr (mp_mask s, s)
      else if address = 0xf0000030 then Inr (mp_status s, s)
      else if address = 0xf0000040 then Inr (mp_epc s, s)
      else if address = 0xe1000400 then Inr (mp_s0cause s, s)
      else if address = 0xe1020400 then Inr (mp_timercause s, s)
      else if address = 0xe1020800 then Inr (mp_timercause_inv s, s)
      else if address = 0xe1020c00 then Inr (mp_timermask s, s)
      else if address = 0xe1024000 then Inr (mp_timer0 s, s)
      else if address = 0xe1024400 then Inr (mp_timer1 s, s)
      else if address = 0xe1024410 then Inr (mp_timer1_pre s, s)
      else if address = 0xe1024420 then Inr (mp_timer1_ctc s, s)
      else if address = 0xe1024430 then Inr (mp_timer1_ocr s, s)
      else if address = 0xe1030400 then Inr (mp_uartcause s, s)
      else if address = 0xe1030800 then Inr (mp_uartcause_inv s, s)
      else if address = 0xe1030c00 then Inr (mp_uartmask s, s)
      else if address = 0xe1034000 then Inr (mips_getchar s)
      else if address = 0xe1034010 then Inr (0, s)
      else if address \<ge> MIPS_EXIT_TRAP then Inr (0, s)
      else let ptr = address mod MIPS_MEM_SIZE in
        if sz = 4 then
          (if address AND 3 \<noteq> 0 then Inl (Misaligned address) else Inr (be_load_word (mp_mem s) ptr, s))
        else if sz = 2 then
          (if address AND 1 \<noteq> 0 then Inl (Misaligned address)
           else Inr (ucast (be_load_half (mp_mem s) ptr), s))
        else if sz = 1 then Inr (ucast (mp_mem s ptr), s)
        else Inr (0, s))"

definition mips_write :: "mips_state \<Rightarrow> u32 \<Rightarrow> u32 \<Rightarrow> u32 \<Rightarrow> mips_halt + mips_state" where
  "mips_write s sz address value =
     (if address = 0xf0000000 then Inr (s\<lparr>mp_vector := value\<rparr>)
      else if address = 0xf0000020 then Inr (s\<lparr>mp_mask := value\<rparr>)
      else if address = 0xf0000030 then
        (if value = 0 then Inr (s\<lparr>mp_status := 0, mp_status_dly := (mp_status_dly s)(0 := 0, 1 := 0, 2 := 0, 3 := 0)\<rparr>)
         else Inr (s\<lparr>mp_status_dly := (mp_status_dly s)(3 := value)\<rparr>))
      else if address = 0xf0000040 then Inr (s\<lparr>mp_epc := value\<rparr>)
      else if address = 0xe1020800 then Inr (s\<lparr>mp_timercause_inv := value AND 0xff\<rparr>)
      else if address = 0xe1020c00 then Inr (s\<lparr>mp_timermask := value AND 0xff\<rparr>)
      else if address = 0xe1024000 then Inr s
      else if address = 0xe1024400 then Inr (s\<lparr>mp_timer1 := value AND 0xffff\<rparr>)
      else if address = 0xe1024410 then Inr (s\<lparr>mp_timer1_pre := value AND 0xffff\<rparr>)
      else if address = 0xe1024420 then Inr (s\<lparr>mp_timer1_ctc := value AND 0xffff\<rparr>)
      else if address = 0xe1024430 then Inr (s\<lparr>mp_timer1_ocr := value AND 0xffff\<rparr>)
      else if address = 0xe1030800 then Inr (s\<lparr>mp_uartcause_inv := value AND 0xff\<rparr>)
      else if address = 0xe1030c00 then Inr (s\<lparr>mp_uartmask := value AND 0xff\<rparr>)
      else if address = MIPS_EXIT_TRAP then Inl Program_End
      else if address = 0xf00000d0 then
        Inr (case mp_log s of None \<Rightarrow> s | Some l \<Rightarrow> s\<lparr>mp_log := Some (l @ [ucast value])\<rparr>)
      else if address = 0xe1034000 then Inr (s\<lparr>mp_out := mp_out s @ [Char (ucast value)]\<rparr>)
      else if address = 0xe1034010 then Inr s
      else if address \<ge> MIPS_EXIT_TRAP then Inr s
      else let ptr = address mod MIPS_MEM_SIZE in
        if sz = 4 then
          (if address AND 3 \<noteq> 0 then Inl (Misaligned address)
           else Inr (s\<lparr>mp_mem := be_store_word (mp_mem s) ptr value\<rparr>))
        else if sz = 2 then
          (if address AND 1 \<noteq> 0 then Inl (Misaligned address)
           else Inr (s\<lparr>mp_mem := be_store_half (mp_mem s) ptr (ucast value)\<rparr>))
        else if sz = 1 then Inr (s\<lparr>mp_mem := (mp_mem s)(ptr := ucast value)\<rparr>)
        else Inr s)"

subsection \<open>The multiply unit\<close>

text \<open>The high and the low half, from four products of 16-bit halves.\<close>

definition mult_unsigned :: "u32 \<Rightarrow> u32 \<Rightarrow> u32 \<times> u32" where
  "mult_unsigned a b =
     (let ahi = drop_bit 16 a; alo = a AND 0xffff; bhi = drop_bit 16 b; blo = b AND 0xffff;
          c0 = alo * blo; c1_a = ahi * blo; c1_b = alo * bhi; c2 = ahi * bhi;
          c2 = c2 + (drop_bit 16 c1_a + drop_bit 16 c1_b);
          c1 = (c1_a AND 0xffff) + (c1_b AND 0xffff) + drop_bit 16 c0;
          c2 = c2 + drop_bit 16 c1;
          c0 = push_bit 16 c1 + (c0 AND 0xffff)
      in (c2, c0))"

definition mult_signed :: "u32 \<Rightarrow> u32 \<Rightarrow> u32 \<times> u32" where
  "mult_signed a b =
     (let ahi = signed_drop_bit 16 a; alo = a AND 0xffff; bhi = signed_drop_bit 16 b; blo = b AND 0xffff;
          c0 = alo * blo; c1_a = ahi * blo; c1_b = alo * bhi; c2 = ahi * bhi;
          c2 = c2 + (signed_drop_bit 16 c1_a + signed_drop_bit 16 c1_b);
          c1 = (c1_a AND 0xffff) + (c1_b AND 0xffff) + drop_bit 16 c0;
          c2 = c2 + drop_bit 16 c1;
          c0 = push_bit 16 c1 + (c0 AND 0xffff)
      in (c2, c0))"

subsection \<open>Decoding\<close>

definition m_op :: "u32 \<Rightarrow> u32" where "m_op opcode = drop_bit 26 opcode AND 0x3f"
definition m_rs :: "u32 \<Rightarrow> u32" where "m_rs opcode = drop_bit 21 opcode AND 0x1f"
definition m_rt :: "u32 \<Rightarrow> u32" where "m_rt opcode = drop_bit 16 opcode AND 0x1f"
definition m_rd :: "u32 \<Rightarrow> u32" where "m_rd opcode = drop_bit 11 opcode AND 0x1f"
definition m_re :: "u32 \<Rightarrow> u32" where "m_re opcode = drop_bit 6 opcode AND 0x1f"
definition m_func :: "u32 \<Rightarrow> u32" where "m_func opcode = opcode AND 0x3f"
definition m_imm :: "u32 \<Rightarrow> u32" where "m_imm opcode = opcode AND 0xffff"

text \<open>\<open>(int16_t)imm\<close>, the branch offset and the jump target.\<close>

definition m_simm :: "u32 \<Rightarrow> u32" where "m_simm opcode = scast (ucast (m_imm opcode) :: u16)"
definition m_imm_shift :: "u32 \<Rightarrow> u32" where "m_imm_shift opcode = push_bit 2 (m_simm opcode) - 4"
definition m_target :: "u32 \<Rightarrow> u32" where "m_target opcode = drop_bit 4 (push_bit 6 opcode)"

subsection \<open>Execution\<close>

abbreviation set_m :: "mips_state \<Rightarrow> u32 \<Rightarrow> u32 \<Rightarrow> mips_state" where
  "set_m s rd v \<equiv> s\<lparr>mp_r := (mp_r s)(rd := v)\<rparr>"

definition invalid_opcode :: "mips_state \<Rightarrow> u32 \<Rightarrow> mips_state" where
  "invalid_opcode s opcode = s\<lparr>mp_out := mp_out s @ [Invalid_At (mp_pc s - 4) opcode]\<rparr>"

definition count_shift :: "mips_state \<Rightarrow> u32 \<Rightarrow> u32 option \<Rightarrow> mips_halt + mips_state" where
  "count_shift s rd v = (case v of None \<Rightarrow> Inl Shift_Undefined
     | Some w \<Rightarrow> Inr ((set_m s rd w)\<lparr>mp_shift := mp_shift s + 1\<rparr>))"

definition exec_addu :: "mips_state \<Rightarrow> u32 \<Rightarrow> mips_state" where
  "exec_addu s opcode =
     (set_m s (m_rd opcode) (mp_r s (m_rs opcode) + mp_r s (m_rt opcode)))\<lparr>mp_arith := mp_arith s + 1\<rparr>"

text \<open>The cases DIV and DIVU fall through when the divisor is zero: into DIVU, and into ADDU.\<close>

definition exec_divu :: "mips_state \<Rightarrow> u32 \<Rightarrow> mips_state" where
  "exec_divu s opcode =
     (let a = mp_r s (m_rs opcode); b = mp_r s (m_rt opcode)
      in if b = 0 then exec_addu (s\<lparr>mp_lo := 0, mp_hi := 0\<rparr>) opcode
         else s\<lparr>mp_lo := a div b, mp_hi := a mod b, mp_div := mp_div s + 1\<rparr>)"

definition exec_div :: "mips_state \<Rightarrow> u32 \<Rightarrow> mips_halt + mips_state" where
  "exec_div s opcode =
     (let a = mp_r s (m_rs opcode); b = mp_r s (m_rt opcode)
      in if b = 0 then Inr (exec_divu (s\<lparr>mp_lo := 0, mp_hi := 0\<rparr>) opcode)
         else if a = 0x80000000 \<and> b = - 1 then Inl Division_Undefined
         else Inr (s\<lparr>mp_lo := word_of_int (sint a sdiv sint b), mp_hi := word_of_int (sint a smod sint b),
                     mp_div := mp_div s + 1\<rparr>))"

definition exec_special :: "mips_state \<Rightarrow> u32 \<Rightarrow> mips_halt + mips_state" where
  "exec_special s opcode =
     (let rs = m_rs opcode; rt = m_rt opcode; rd = m_rd opcode; f = m_func opcode;
          a = mp_r s rs; b = mp_r s rt; re = m_re opcode
      in if f = 0x00 then count_shift s rd (c_shl32 b re)
         else if f = 0x02 then count_shift s rd (c_shr32 b re)
         else if f = 0x03 then count_shift s rd (c_sar32 b re)
         else if f = 0x04 then count_shift s rd (c_shl32 b a)
         else if f = 0x06 then count_shift s rd (c_shr32 b a)
         else if f = 0x07 then count_shift s rd (c_sar32 b a)
         else if f = 0x08 then Inr (s\<lparr>mp_pc_next := a, mp_j := 1, mp_jmp := mp_jmp s + 1\<rparr>)
         else if f = 0x09 then
           (let s = set_m s rd (mp_pc_next s)
            in Inr (s\<lparr>mp_pc_next := mp_r s rs, mp_j := 1, mp_jmp := mp_jmp s + 1\<rparr>))
         else if f = 0x10 then Inr ((set_m s rd (mp_hi s))\<lparr>mp_other := mp_other s + 1\<rparr>)
         else if f = 0x11 then Inr (s\<lparr>mp_hi := a, mp_other := mp_other s + 1\<rparr>)
         else if f = 0x12 then Inr ((set_m s rd (mp_lo s))\<lparr>mp_other := mp_other s + 1\<rparr>)
         else if f = 0x13 then Inr (s\<lparr>mp_lo := a, mp_other := mp_other s + 1\<rparr>)
         else if f = 0x18 then
           Inr (s\<lparr>mp_hi := fst (mult_signed a b), mp_lo := snd (mult_signed a b), mp_mul := mp_mul s + 1\<rparr>)
         else if f = 0x19 then
           Inr (s\<lparr>mp_hi := fst (mult_unsigned a b), mp_lo := snd (mult_unsigned a b), mp_mul := mp_mul s + 1\<rparr>)
         else if f = 0x1a then exec_div s opcode
         else if f = 0x1b then Inr (exec_divu s opcode)
         else if f = 0x21 then Inr (exec_addu s opcode)
         else if f = 0x23 then Inr ((set_m s rd (a - b))\<lparr>mp_arith := mp_arith s + 1\<rparr>)
         else if f = 0x24 then Inr ((set_m s rd (a AND b))\<lparr>mp_logic := mp_logic s + 1\<rparr>)
         else if f = 0x25 then Inr ((set_m s rd (a OR b))\<lparr>mp_logic := mp_logic s + 1\<rparr>)
         else if f = 0x26 then Inr ((set_m s rd (a XOR b))\<lparr>mp_logic := mp_logic s + 1\<rparr>)
         else if f = 0x27 then Inr ((set_m s rd (NOT (a OR b)))\<lparr>mp_logic := mp_logic s + 1\<rparr>)
         else if f = 0x2a then Inr ((set_m s rd (c_bool (a <s b)))\<lparr>mp_comp := mp_comp s + 1\<rparr>)
         else if f = 0x2b then Inr ((set_m s rd (c_bool (a < b)))\<lparr>mp_comp := mp_comp s + 1\<rparr>)
         else Inr (invalid_opcode s opcode))"

text \<open>A conditional branch: whether it is taken, beside the state.\<close>

definition branch_if :: "mips_state \<Rightarrow> bool \<Rightarrow> mips_state \<times> bool" where
  "branch_if s taken = (s\<lparr>mp_j := 1, mp_bra := mp_bra s + 1\<rparr>, taken)"

definition exec_regimm :: "mips_state \<Rightarrow> u32 \<Rightarrow> mips_state \<times> bool" where
  "exec_regimm s opcode =
     (let rs = m_rs opcode; rt = m_rt opcode; l = set_m s 31 (mp_pc_next s)
      in if rt = 0x10 then branch_if l (mp_r l rs <s 0)
         else if rt = 0x00 then branch_if s (mp_r s rs <s 0)
         else if rt = 0x11 then branch_if l (0 \<le>s mp_r l rs)
         else if rt = 0x01 then branch_if s (0 \<le>s mp_r s rs)
         else (invalid_opcode s opcode, False))"

definition exec_jump :: "mips_state \<Rightarrow> u32 \<Rightarrow> mips_state" where
  "exec_jump s opcode = s\<lparr>mp_pc_next := (mp_pc s AND 0xf0000000) OR m_target opcode, mp_j := 1,
     mp_jmp := mp_jmp s + 1\<rparr>"

definition count_load :: "mips_state \<Rightarrow> u32 \<Rightarrow> u32 \<Rightarrow> u32 \<Rightarrow> (u32 \<Rightarrow> u32) \<Rightarrow> mips_halt + mips_state" where
  "count_load s sz ptr rt convert =
     (case mips_read s sz ptr of Inl h \<Rightarrow> Inl h
      | Inr (v, s) \<Rightarrow> Inr ((set_m s rt (convert v))\<lparr>mp_ls := mp_ls s + 1\<rparr>))"

definition count_store :: "mips_state \<Rightarrow> u32 \<Rightarrow> u32 \<Rightarrow> u32 \<Rightarrow> mips_halt + mips_state" where
  "count_store s sz ptr v =
     (case mips_write s sz ptr v of Inl h \<Rightarrow> Inl h | Inr s \<Rightarrow> Inr (s\<lparr>mp_ls := mp_ls s + 1\<rparr>))"

abbreviation no_branch :: "mips_halt + mips_state \<Rightarrow> mips_halt + (mips_state \<times> bool)" where
  "no_branch r \<equiv> map_sum id (\<lambda>s. (s, False)) r"

definition mips_execute :: "mips_state \<Rightarrow> u32 \<Rightarrow> u32 \<Rightarrow> mips_halt + (mips_state \<times> bool)" where
  "mips_execute s opcode ptr =
     (let rs = m_rs opcode; rt = m_rt opcode; imm = m_imm opcode; op = m_op opcode;
          a = mp_r s rs; b = mp_r s rt; simm = m_simm opcode
      in if op = 0x00 then no_branch (exec_special s opcode)
         else if op = 0x01 then Inr (exec_regimm s opcode)
         else if op = 0x03 then Inr (exec_jump (set_m s 31 (mp_pc_next s)) opcode, False)
         else if op = 0x02 then Inr (exec_jump s opcode, False)
         else if op = 0x04 then Inr (branch_if s (a = b))
         else if op = 0x05 then Inr (branch_if s (a \<noteq> b))
         else if op = 0x06 then Inr (branch_if s (a \<le>s 0))
         else if op = 0x07 then Inr (branch_if s (0 <s a))
         else if op = 0x09 then Inr ((set_m s rt (a + simm))\<lparr>mp_arith := mp_arith s + 1\<rparr>, False)
         else if op = 0x0a then Inr ((set_m s rt (c_bool (a <s simm)))\<lparr>mp_comp := mp_comp s + 1\<rparr>, False)
         else if op = 0x0b then Inr ((set_m s rt (c_bool (a < simm)))\<lparr>mp_comp := mp_comp s + 1\<rparr>, False)
         else if op = 0x0c then Inr ((set_m s rt (a AND imm))\<lparr>mp_logic := mp_logic s + 1\<rparr>, False)
         else if op = 0x0d then Inr ((set_m s rt (a OR imm))\<lparr>mp_logic := mp_logic s + 1\<rparr>, False)
         else if op = 0x0e then Inr ((set_m s rt (a XOR imm))\<lparr>mp_logic := mp_logic s + 1\<rparr>, False)
         else if op = 0x0f then Inr ((set_m s rt (push_bit 16 imm))\<lparr>mp_other := mp_other s + 1\<rparr>, False)
         else if op = 0x20 then no_branch (count_load s 1 ptr rt (\<lambda>v. scast (ucast v :: u8)))
         else if op = 0x21 then no_branch (count_load s 2 ptr rt (\<lambda>v. scast (ucast v :: u16)))
         else if op = 0x23 then no_branch (count_load s 4 ptr rt (\<lambda>v. v))
         else if op = 0x24 then no_branch (count_load s 1 ptr rt (\<lambda>v. ucast (ucast v :: u8)))
         else if op = 0x25 then no_branch (count_load s 2 ptr rt (\<lambda>v. ucast (ucast v :: u16)))
         else if op = 0x28 then no_branch (count_store s 1 ptr b)
         else if op = 0x29 then no_branch (count_store s 2 ptr b)
         else if op = 0x2b then no_branch (count_store s 4 ptr b)
         else Inr (invalid_opcode s opcode, False))"

subsection \<open>One cycle\<close>

text \<open>An interrupt is entered outside delay slots; the instruction fetched next is not executed.\<close>

definition mips_irq :: "mips_state \<Rightarrow> bool" where
  "mips_irq s = (mp_status s \<noteq> 0 \<and> mp_cause s AND mp_mask s \<noteq> 0 \<and> mp_j s = 0)"

definition mips_enter_irq :: "mips_state \<Rightarrow> mips_state" where
  "mips_enter_irq s = s\<lparr>mp_epc := mp_pc s + 4, mp_pc_next := mp_vector s, mp_status := 0,
     mp_status_dly := (mp_status_dly s)(0 := 0, 1 := 0, 2 := 0, 3 := 0), mp_nox_bds := 1\<rparr>"

definition mips_advance :: "mips_state \<Rightarrow> mips_state" where
  "mips_advance s = (set_m s 0 0)\<lparr>mp_pc := mp_pc_next s, mp_pc_next := mp_pc_next s + 4,
     mp_status := mp_status_dly s 0,
     mp_status_dly := (let d = mp_status_dly s in d(0 := d 1, 1 := d 2, 2 := d 3)), mp_j := 0\<rparr>"

definition mips_finish :: "mips_state \<Rightarrow> bool \<Rightarrow> u32 \<Rightarrow> mips_state" where
  "mips_finish s branch imm_shift =
     s\<lparr>mp_pc_next := (mp_pc_next s + (if branch then imm_shift else 0)) AND NOT 3,
       mp_ins := mp_ins s + 1, mp_taken_bra := mp_taken_bra s + (if branch then 1 else 0)\<rparr>"

definition mips_causes :: "mips_state \<Rightarrow> mips_state" where
  "mips_causes s =
     (let s = s\<lparr>mp_timercause := if mp_timer0 s AND 0x10000 \<noteq> 0
                then mp_timercause s OR 0x01 else mp_timercause s AND 0xfe\<rparr>;
          s = s\<lparr>mp_timercause := if mp_timer0 s AND 0x40000 \<noteq> 0
                then mp_timercause s OR 0x02 else mp_timercause s AND 0xfd\<rparr>;
          s = (if mp_timer1 s = mp_timer1_ctc s
               then s\<lparr>mp_timer1 := 0, mp_timercause := mp_timercause s XOR 0x4\<rparr> else s);
          s = s\<lparr>mp_timercause := if mp_timer1 s < mp_timer1_ocr s
                then mp_timercause s OR 0x8 else mp_timercause s AND 0xf7\<rparr>;
          s = s\<lparr>mp_s0cause := if (mp_timercause s XOR mp_timercause_inv s) AND mp_timermask s \<noteq> 0
                then 0x04 else 0\<rparr>
      in s\<lparr>mp_cause := if mp_s0cause s \<noteq> 0 then 1 else 0\<rparr>)"

definition mips_tick :: "u32 \<Rightarrow> u32 \<Rightarrow> bool" where
  "mips_tick pre timer0 =
     (if pre = 1 then timer0 AND 3 = 0
      else if pre = 2 then timer0 AND 15 = 0
      else if pre = 3 then timer0 AND 63 = 0
      else if pre = 4 then timer0 AND 255 = 0
      else if pre = 5 then timer0 AND 1023 = 0
      else if pre = 6 then timer0 AND 4095 = 0
      else if pre = 7 then timer0 AND 16383 = 0
      else True)"

definition mips_count :: "mips_state \<Rightarrow> mips_state" where
  "mips_count s =
     (let s = s\<lparr>mp_timer0 := mp_timer0 s + 1\<rparr>;
          s = (if mips_tick (mp_timer1_pre s) (mp_timer0 s) then s\<lparr>mp_timer1 := mp_timer1 s + 1\<rparr> else s)
      in s\<lparr>mp_timer1 := mp_timer1 s AND 0xffff\<rparr>)"

definition mips_cycle :: "mips_state \<Rightarrow> mips_halt + mips_state" where
  "mips_cycle s =
     (if mips_irq s then Inr (mips_enter_irq s)
      else case mips_read s 4 (mp_pc s) of
          Inl h \<Rightarrow> Inl h
        | Inr (opcode, s) \<Rightarrow>
            (let ptr = m_simm opcode + mp_r s (m_rs opcode); s = mips_advance s
             in if mp_nox_bds s \<noteq> 0 then Inr (s\<lparr>mp_nox_bds := 0\<rparr>)
                else case mips_execute s opcode ptr of
                    Inl h \<Rightarrow> Inl h
                  | Inr (s, branch) \<Rightarrow>
                      Inr (mips_count (mips_causes (mips_finish s branch (m_imm_shift opcode))))))"

subsection \<open>The program\<close>

definition mips_boot_memory :: "u8 list \<Rightarrow> byte_mem" where
  "mips_boot_memory img a =
     (if unat a < length img \<and> a < MIPS_MEM_SIZE then img ! unat a
      else if a < 4 then 0xff else 0)"

definition mips_main :: "u8 list \<Rightarrow> u8 list \<Rightarrow> bool \<Rightarrow> mips_state option" where
  "mips_main img input logging =
     (if img = [] then None
      else Some \<lparr>mp_r = (\<lambda>_. 0), mp_pc = 0x40000000, mp_pc_next = 0x40000004, mp_hi = 0, mp_lo = 0,
        mp_mem = mips_boot_memory img, mp_j = 0, mp_nox_bds = 0, mp_vector = 0, mp_cause = 0, mp_mask = 0,
        mp_status = 0, mp_status_dly = (\<lambda>_. 0), mp_epc = 0, mp_s0cause = 0, mp_timercause = 0,
        mp_timercause_inv = 0, mp_timermask = 0, mp_timer0 = 0, mp_timer1 = 0, mp_timer1_pre = 0,
        mp_timer1_ctc = 0, mp_timer1_ocr = 0, mp_uartcause = 0, mp_uartcause_inv = 0, mp_uartmask = 0,
        mp_ins = 0, mp_arith = 0, mp_logic = 0, mp_shift = 0, mp_comp = 0, mp_ls = 0, mp_bra = 0,
        mp_taken_bra = 0, mp_jmp = 0, mp_mul = 0, mp_div = 0, mp_other = 0, mp_in = input, mp_out = [],
        mp_log = (if logging then Some [] else None)\<rparr>)"

fun mips_run :: "nat \<Rightarrow> mips_state \<Rightarrow> mips_halt + mips_state" where
  "mips_run 0 s = Inr s"
| "mips_run (Suc n) s = (case mips_cycle s of Inl h \<Rightarrow> Inl h | Inr t \<Rightarrow> mips_run n t)"

subsection \<open>Big-endian memory\<close>

lemma ntohl_bits:
  assumes "n < 32"
  shows "bit (ntohl a) n \<longleftrightarrow>
    bit a (if n < 8 then n + 24 else if n < 16 then n + 8 else if n < 24 then n - 8 else n - 24)"
proof -
  have m: "(0xff0000 :: u32) = push_bit 16 (mask 8)" "(0xff00 :: u32) = push_bit 8 (mask 8)"
    by (simp_all add: mask_eq_exp_minus_1)
  have b: "bit (push_bit i (mask 8) :: u32) j \<longleftrightarrow> i \<le> j \<and> j < i + 8 \<and> j < 32" for i j
    by (auto simp: bit_push_bit_iff bit_mask_iff)
  have hi: "\<not> bit a j" if "32 \<le> j" for j using that by (auto dest: bit_imp_le_length)
  have sh: "bit (push_bit i w) j \<longleftrightarrow> i \<le> j \<and> j < 32 \<and> bit w (j - i)" for i j and w :: u32
    by (auto simp: bit_push_bit_iff)
  consider "n < 8" | "8 \<le> n" "n < 16" | "16 \<le> n" "n < 24" | "24 \<le> n" by linarith
  then show ?thesis
    unfolding ntohl_def m bit_or_iff bit_drop_bit_eq comp_def bit_and_iff sh[of _ a] sh[of 8 "a AND _"] b
    by cases (use assms hi in \<open>auto simp: add.commute\<close>)
qed

lemma ntohl_ntohl: "ntohl (ntohl a) = a"
  by (rule bit_word_eqI) (auto simp: ntohl_bits)

lemma host_word_put: "host_word (put_host_word m a v) a = v"
  by (rule bit_word_eqI) (auto simp: host_word_def put_host_word_def bit_simps nat_add_diff_cases split: if_splits)

lemma ntohs_bits:
  assumes "n < 16"
  shows "bit (ntohs a) n \<longleftrightarrow> bit a (if n < 8 then n + 8 else n - 8)"
proof -
  have m: "(0xff :: u16) = mask 8" by (simp add: mask_eq_exp_minus_1)
  have hi: "\<not> bit a j" if "16 \<le> j" for j using that by (auto dest: bit_imp_le_length)
  have sh: "bit (push_bit i w) j \<longleftrightarrow> i \<le> j \<and> j < 16 \<and> bit w (j - i)" for i j and w :: u16
    by (auto simp: bit_push_bit_iff)
  show ?thesis
    unfolding ntohs_def m bit_or_iff bit_drop_bit_eq comp_def sh bit_and_iff bit_mask_iff
    using assms hi by (auto simp: add.commute)
qed

lemma ntohs_ntohs: "ntohs (ntohs a) = a"
  by (rule bit_word_eqI) (auto simp: ntohs_bits)

lemma host_half_put: "host_half (put_host_half m a v) a = v"
  by (rule bit_word_eqI) (auto simp: host_half_def put_host_half_def bit_simps)

interpretation be: byte_order be_load_word be_store_word be_load_half be_store_half
proof
  show "be_load_word (be_store_word m a v) a = v" for m a v
    by (simp add: be_load_word_def be_store_word_def host_word_put ntohl_ntohl)
  show "be_load_half (be_store_half m a h) a = h" for m a h
    by (simp add: be_load_half_def be_store_half_def host_half_put ntohs_ntohs)
  show "be_store_word m a v b = m b" if "4 \<le> b - a" for m a v b
    using that by (auto simp: be_store_word_def put_host_word_def) (simp_all add: word_le_nat_alt)
  show "be_store_half m a h b = m b" if "2 \<le> b - a" for m a h b
    using that by (auto simp: be_store_half_def put_host_half_def) (simp_all add: word_le_nat_alt)
  show "be_load_word m a = be_load_word m' a" if "\<And>k. k < 4 \<Longrightarrow> m (a + k) = m' (a + k)" for m m' a
    using that[of 0] that[of 1] that[of 2] that[of 3] by (simp add: be_load_word_def host_word_def)
qed

lemma mips_read_ram:
  "address < MIPS_EXIT_TRAP \<Longrightarrow> mips_read s sz address =
     (let ptr = address mod MIPS_MEM_SIZE in
        if sz = 4 then
          (if address AND 3 \<noteq> 0 then Inl (Misaligned address) else Inr (be_load_word (mp_mem s) ptr, s))
        else if sz = 2 then
          (if address AND 1 \<noteq> 0 then Inl (Misaligned address)
           else Inr (ucast (be_load_half (mp_mem s) ptr), s))
        else if sz = 1 then Inr (ucast (mp_mem s ptr), s)
        else Inr (0, s))"
proof -
  assume a: "address < MIPS_EXIT_TRAP"
  then have "\<not> MIPS_EXIT_TRAP \<le> address" "MIPS_EXIT_TRAP \<le> d \<Longrightarrow> address \<noteq> d" for d by auto
  with a show ?thesis by (simp add: mips_read_def)
qed

lemma mips_write_ram:
  "address < MIPS_EXIT_TRAP \<Longrightarrow> mips_write s sz address value =
     (let ptr = address mod MIPS_MEM_SIZE in
        if sz = 4 then
          (if address AND 3 \<noteq> 0 then Inl (Misaligned address)
           else Inr (s\<lparr>mp_mem := be_store_word (mp_mem s) ptr value\<rparr>))
        else if sz = 2 then
          (if address AND 1 \<noteq> 0 then Inl (Misaligned address)
           else Inr (s\<lparr>mp_mem := be_store_half (mp_mem s) ptr (ucast value)\<rparr>))
        else if sz = 1 then Inr (s\<lparr>mp_mem := (mp_mem s)(ptr := ucast value)\<rparr>)
        else Inr s)"
proof -
  assume a: "address < MIPS_EXIT_TRAP"
  then have "\<not> MIPS_EXIT_TRAP \<le> address" "MIPS_EXIT_TRAP \<le> d \<Longrightarrow> address \<noteq> d" for d by auto
  with a show ?thesis by (simp add: mips_write_def)
qed

end
