(* ===== verification/Mips_Props.thy ===== *)
theory Mips_Props
  imports Mips_Sim
begin

text \<open>
  Properties of the HF-RISC (MIPS) simulator: the multiply unit, big-endian RAM, delay slots, what a
  division by zero does, and the instruction statistics of a whole run.
\<close>

unbundle bit_operations_syntax

subsection \<open>The multiply unit is the 64-bit product\<close>

lemma low16_int: "(word_of_int p :: u32) AND 0xffff = word_of_int (p mod 65536)"
proof -
  have m: "(0xffff :: u32) = mask 16" by (simp add: mask_eq_exp_minus_1)
  have "(word_of_int p :: u32) AND mask 16 = word_of_int (take_bit 16 p)"
    by (rule bit_word_eqI) (auto simp: bit_and_iff bit_word_of_int_iff bit_mask_iff bit_take_bit_iff)
  then show ?thesis unfolding m by (simp add: take_bit_eq_mod)
qed

lemma high16_int:
  "0 \<le> p \<Longrightarrow> p < 2 ^ 32 \<Longrightarrow> drop_bit 16 (word_of_int p :: u32) = word_of_int (p div 65536)"
  "- (2 ^ 31) \<le> p \<Longrightarrow> p < 2 ^ 31 \<Longrightarrow> signed_drop_bit 16 (word_of_int p :: u32) = word_of_int (p div 65536)"
proof -
  assume "0 \<le> p" "p < 2 ^ 32"
  then have "uint (word_of_int p :: u32) = p" by (simp add: uint_word_of_int)
  then have "uint (drop_bit 16 (word_of_int p :: u32)) = p div 65536"
    by (subst uint_shr) simp
  then show "drop_bit 16 (word_of_int p :: u32) = word_of_int (p div 65536)" by (metis word_of_int_uint)
next
  assume "- (2 ^ 31) \<le> p" "p < 2 ^ 31"
  then have "sint (word_of_int p :: u32) = p"
    by (simp add: sint_sbintrunc' signed_take_bit_int_eq_self)
  then have "sint (signed_drop_bit 16 (word_of_int p :: u32)) = p div 65536"
    by (simp add: sint_signed_drop_bit_eq drop_bit_eq_div)
  then show "signed_drop_bit 16 (word_of_int p :: u32) = word_of_int (p div 65536)" by (metis word_of_int_of_sint)
qed

lemma uint_int_small: "0 \<le> k \<Longrightarrow> k < 2 ^ 32 \<Longrightarrow> uint (word_of_int k :: u32) = k"
  by (simp add: uint_word_of_int)

lemma word_cat_int: "(word_cat (h :: u32) (l :: u32) :: u64) = word_of_int (uint h * 2 ^ 32 + uint l)"
  by (simp add: word_cat_eq push_bit_eq_mult wi_hom_mult[symmetric] wi_hom_add[symmetric])

lemma high_mod: "word_of_int (x mod 2 ^ 32 * 2 ^ 32 + l) = (word_of_int (x * 2 ^ 32 + l) :: u64)"
proof -
  have e: "x * 4294967296 + l = (x mod 4294967296 * 4294967296 + l) + x div 4294967296 * 18446744073709551616"
    using div_mult_mod_eq[of x 4294967296] by linarith
  have "(word_of_int (y + k * 18446744073709551616) :: u64) = word_of_int y" for y k :: int
    by (simp only: word_of_int_eq_iff take_bit_eq_mod len64) simp
  then have "(word_of_int (x * 4294967296 + l) :: u64) = word_of_int (x mod 4294967296 * 4294967296 + l)"
    by (subst e)
  then show ?thesis by simp
qed

lemma columns_sum:
  fixes p0 p1 p2 p3 :: int
  assumes "d0 * 65536 + m0 = p0" "d1 * 65536 + m1 = p1" "d2 * 65536 + m2 = p2" "dc * 65536 + mc = m1 + m2 + d0"
  shows "(p3 + (d1 + d2) + dc) * 2 ^ 32 + (mc * 65536 + m0) = p3 * 2 ^ 32 + (p1 + p2) * 65536 + p0"
  using assms by simp

lemma mult_columns:
  fixes p0 p1 p2 p3 :: int
  assumes "0 \<le> p0" "p0 < 2 ^ 32"
  defines "c \<equiv> p1 mod 65536 + p2 mod 65536 + p0 div 65536"
  shows "(word_cat (word_of_int p3 + (word_of_int (p1 div 65536) + word_of_int (p2 div 65536)) + drop_bit 16 (word_of_int c) :: u32)
      (push_bit 16 (word_of_int c) + (word_of_int p0 AND 0xffff) :: u32) :: u64) =
    word_of_int (p3 * 2 ^ 32 + (p1 + p2) * 65536 + p0)"
proof -
  have c: "0 \<le> c" "c < 2 ^ 32" using assms by (simp_all add: c_def)
  let ?h = "p3 + (p1 div 65536 + p2 div 65536) + c div 65536" and ?l = "c mod 65536 * 65536 + p0 mod 65536"
  have hi: "word_of_int p3 + (word_of_int (p1 div 65536) + word_of_int (p2 div 65536)) + drop_bit 16 (word_of_int c) =
      (word_of_int ?h :: u32)"
    by (simp only: high16_int(1)[OF c] wi_hom_add)
  have "c * 65536 + p0 mod 65536 = ?l + c div 65536 * 4294967296"
    using div_mult_mod_eq[of c 65536] by linarith
  then have "(c * 65536 + p0 mod 65536) mod 4294967296 = ?l mod 4294967296"
    by (simp only: mod_mult_self1)
  then have "(word_of_int (c * 65536 + p0 mod 65536) :: u32) = word_of_int ?l"
    by (simp only: word_of_int_eq_iff take_bit_eq_mod len32) simp
  then have lo: "push_bit 16 (word_of_int c) + (word_of_int p0 AND 0xffff) = (word_of_int ?l :: u32)"
    by (simp add: low16_int push_bit_eq_mult wi_hom_mult[symmetric] wi_hom_add[symmetric])
  have ul: "uint (word_of_int ?l :: u32) = ?l"
  proof -
    have "0 \<le> ?l" "?l < 2 ^ 32" by simp_all
    then show ?thesis by (rule uint_int_small)
  qed
  have "(word_cat (word_of_int ?h :: u32) (word_of_int ?l :: u32) :: u64) =
      word_of_int (uint (word_of_int ?h :: u32) * 2 ^ 32 + uint (word_of_int ?l :: u32))"
    by (rule word_cat_int)
  also have "\<dots> = word_of_int (?h mod 2 ^ 32 * 2 ^ 32 + ?l)" unfolding ul by (simp only: uint_word_of_int len32)
  also have "\<dots> = word_of_int (?h * 2 ^ 32 + ?l)" by (rule high_mod)
  also have "?h * 2 ^ 32 + ?l = p3 * 2 ^ 32 + (p1 + p2) * 65536 + p0"
    by (rule columns_sum[OF div_mult_mod_eq div_mult_mod_eq div_mult_mod_eq trans[OF div_mult_mod_eq c_def[THEN meta_eq_to_obj_eq]]])
  finally show ?thesis unfolding hi lo .
qed


lemma half_products:
  fixes x y :: int
  shows "0 \<le> x \<Longrightarrow> x < 65536 \<Longrightarrow> 0 \<le> y \<Longrightarrow> y < 65536 \<Longrightarrow> 0 \<le> x * y \<and> x * y < 2 ^ 32"
    and "- 32768 \<le> x \<Longrightarrow> x < 32768 \<Longrightarrow> 0 \<le> y \<Longrightarrow> y < 65536 \<Longrightarrow> - (2 ^ 31) \<le> x * y \<and> x * y < 2 ^ 31"
proof -
  assume "0 \<le> x" "x < 65536" "0 \<le> y" "y < 65536"
  then show "0 \<le> x * y \<and> x * y < 2 ^ 32"
    using mult_mono[of x 65535 y 65535] by simp
next
  assume a: "- 32768 \<le> x" "x < 32768" "0 \<le> y" "y < 65536"
  then have "x * y \<le> 32767 * 65535" using mult_mono[of x 32767 y 65535] by simp
  moreover have "- 32768 * 65535 \<le> x * y"
    using a mult_mono[of "- x" 32768 y 65535] by simp
  ultimately show "- (2 ^ 31) \<le> x * y \<and> x * y < 2 ^ 31" by simp
qed

lemma halves_int:
  fixes a :: u32
  shows "a AND 0xffff = word_of_int (uint a mod 65536)" "drop_bit 16 a = word_of_int (uint a div 65536)"
    "signed_drop_bit 16 a = word_of_int (sint a div 65536)" "uint a mod 65536 = sint a mod 65536"
    "0 \<le> uint a div 65536" "uint a div 65536 < 65536" "- 32768 \<le> sint a div 65536" "sint a div 65536 < 32768"
proof -
  show "a AND 0xffff = word_of_int (uint a mod 65536)" using low16_int[of "uint a"] by simp
  show "drop_bit 16 a = word_of_int (uint a div 65536)" 
  proof -
    have "uint (drop_bit 16 a) = uint a div 65536" using uint_shr[of 16 a] by simp
    then show ?thesis by (metis word_of_int_uint)
  qed
  have "sint (signed_drop_bit 16 a) = sint a div 65536" by (simp add: sint_signed_drop_bit_eq drop_bit_eq_div)
  then show "signed_drop_bit 16 a = word_of_int (sint a div 65536)" by (metis word_of_int_of_sint)
  have "a AND 0xffff = word_of_int (sint a mod 65536)" using low16_int[of "sint a"] by (simp add: word_of_int_of_sint)
  moreover have "a AND 0xffff = word_of_int (uint a mod 65536)" using low16_int[of "uint a"] by simp
  ultimately have "uint (word_of_int (sint a mod 65536) :: u32) = uint (word_of_int (uint a mod 65536) :: u32)" by simp
  moreover have "uint (word_of_int (k mod 65536) :: u32) = k mod 65536" for k :: int
  proof -
    have "0 \<le> k mod 65536" "k mod 65536 < 2 ^ 32" by (simp_all add: order_less_trans[of _ 65536])
    then show ?thesis by (simp add: uint_word_of_int)
  qed
  ultimately show "uint a mod 65536 = sint a mod 65536" by simp
  show "0 \<le> uint a div 65536" by (simp add: pos_imp_zdiv_nonneg_iff)
  have "uint a < 2 ^ 32" using uint_bounded[of a] by simp
  then show "uint a div 65536 < 65536" by simp
  have "- (2 ^ 31) \<le> sint a" "sint a < 2 ^ 31" using sint_ge[of a] sint_lt[of a] by simp_all
  then show "- 32768 \<le> sint a div 65536" "sint a div 65536 < 32768" by simp_all
qed

text \<open>C8: The multiply unit is exact: the high and low results of the signed and the unsigned
  multiplication, computed from 16-bit halves, together are the 64-bit product of the operands.\<close>

theorem mult_exact:
  "word_cat (fst (mult_unsigned a b)) (snd (mult_unsigned a b)) = (ucast a * ucast b :: u64) \<and>
   word_cat (fst (mult_signed a b)) (snd (mult_signed a b)) = (scast a * scast b :: u64)"
proof
  define a0 b0 where "a0 = uint a mod 65536" and "b0 = uint b mod 65536"
  have low: "0 \<le> a0" "a0 < 65536" "0 \<le> b0" "b0 < 65536" by (simp_all add: a0_def b0_def)
  have lows: "a AND 0xffff = word_of_int a0" "b AND 0xffff = word_of_int b0"
    unfolding a0_def b0_def by (rule halves_int)+
  note p0 = half_products(1)[OF low]
  have sum: "word_of_int (p1 mod 65536) + word_of_int (p2 mod 65536) + word_of_int (p div 65536) =
      (word_of_int (p1 mod 65536 + p2 mod 65536 + p div 65536) :: u32)" for p1 p2 p :: int
    by (simp only: wi_hom_add)
  have expand: "x1 * y1 * 2 ^ 32 + (x1 * y0 + x0 * y1) * 65536 + x0 * y0 = (x1 * 65536 + x0) * (y1 * 65536 + y0)"
    for x0 x1 y0 y1 :: int by (simp add: algebra_simps)
  show "word_cat (fst (mult_unsigned a b)) (snd (mult_unsigned a b)) = (ucast a * ucast b :: u64)"
  proof -
    define a1 b1 where "a1 = uint a div 65536" and "b1 = uint b div 65536"
    have high: "0 \<le> a1" "a1 < 65536" "0 \<le> b1" "b1 < 65536" using halves_int(5,6) by (simp_all add: a1_def b1_def)
    have highs: "drop_bit 16 a = word_of_int a1" "drop_bit 16 b = word_of_int b1"
      unfolding a1_def b1_def by (rule halves_int)+
    note p1 = half_products(1)[OF high(1,2) low(3,4)] and p2 = half_products(1)[OF low(1,2) high(3,4)]
    have "word_cat (fst (mult_unsigned a b)) (snd (mult_unsigned a b)) =
        (word_of_int (a1 * b1 * 2 ^ 32 + (a1 * b0 + a0 * b1) * 65536 + a0 * b0) :: u64)"
      unfolding mult_unsigned_def Let_def lows highs wi_hom_mult fst_conv snd_conv
        low16_int[of "a1 * b0"] low16_int[of "a0 * b1"]
        high16_int(1)[OF conjunct1[OF p0] conjunct2[OF p0]] high16_int(1)[OF conjunct1[OF p1] conjunct2[OF p1]]
        high16_int(1)[OF conjunct1[OF p2] conjunct2[OF p2]] sum
      by (rule mult_columns[OF conjunct1[OF p0] conjunct2[OF p0]])
    also have "\<dots> = word_of_int (uint a * uint b)"
      unfolding expand by (simp add: a0_def b0_def a1_def b1_def)
    finally show ?thesis by (simp add: wi_hom_mult[symmetric])
  qed
  show "word_cat (fst (mult_signed a b)) (snd (mult_signed a b)) = (scast a * scast b :: u64)"
  proof -
    define a1 b1 where "a1 = sint a div 65536" and "b1 = sint b div 65536"
    have high: "- 32768 \<le> a1" "a1 < 32768" "- 32768 \<le> b1" "b1 < 32768"
      using halves_int(7,8) by (simp_all add: a1_def b1_def)
    have highs: "signed_drop_bit 16 a = word_of_int a1" "signed_drop_bit 16 b = word_of_int b1"
      unfolding a1_def b1_def by (rule halves_int)+
    note p1 = half_products(2)[OF high(1,2) low(3,4)]
      and p2 = half_products(2)[OF high(3,4) low(1,2), unfolded mult.commute[of b1]]
    have "word_cat (fst (mult_signed a b)) (snd (mult_signed a b)) =
        (word_of_int (a1 * b1 * 2 ^ 32 + (a1 * b0 + a0 * b1) * 65536 + a0 * b0) :: u64)"
      unfolding mult_signed_def Let_def lows highs wi_hom_mult fst_conv snd_conv
        low16_int[of "a1 * b0"] low16_int[of "a0 * b1"]
        high16_int(1)[OF conjunct1[OF p0] conjunct2[OF p0]] high16_int(2)[OF conjunct1[OF p1] conjunct2[OF p1]]
        high16_int(2)[OF conjunct1[OF p2] conjunct2[OF p2]] sum
      by (rule mult_columns[OF conjunct1[OF p0] conjunct2[OF p0]])
    also have "\<dots> = word_of_int (sint a * sint b)"
      unfolding expand by (simp add: a0_def b0_def a1_def b1_def halves_int(4))
    finally show ?thesis by (simp add: wi_hom_mult[symmetric])
  qed
qed

subsection \<open>RAM\<close>

text \<open>Memory is big endian and keeps what is stored: below the device addresses, an aligned word reads
  back as stored and its first byte is the most significant one, an aligned half reads back zero
  extended, an unaligned store stops the simulator, and an aligned word at another address is
  unchanged.\<close>

theorem mips_ram_round_trip:
  "a < MIPS_EXIT_TRAP \<Longrightarrow>
   (case mips_write s 4 a v of
      Inl h \<Rightarrow> h = Misaligned a \<and> a AND 3 \<noteq> 0
    | Inr t \<Rightarrow> mips_read t 4 a = Inr (v, t) \<and> mips_read t 1 a = Inr (drop_bit 24 v, t) \<and>
        (\<forall>b < MIPS_EXIT_TRAP. b AND 3 = 0 \<longrightarrow> 4 \<le> b mod MIPS_MEM_SIZE - a mod MIPS_MEM_SIZE \<longrightarrow>
           4 \<le> a mod MIPS_MEM_SIZE - b mod MIPS_MEM_SIZE \<longrightarrow>
           map_sum id fst (mips_read t 4 b) = map_sum id fst (mips_read s 4 b))) \<and>
   (case mips_write s 2 a v of
      Inl h \<Rightarrow> h = Misaligned a \<and> a AND 1 \<noteq> 0
    | Inr t \<Rightarrow> mips_read t 2 a = Inr (ucast (ucast v :: u16), t))"
proof -
  assume a: "a < MIPS_EXIT_TRAP"
  have msb: "ucast (be_store_word m p v p) = drop_bit 24 v" for m p
  proof -
    have "be_store_word m p v p = ucast (ntohl v)" by (simp add: be_store_word_def put_host_word_def)
    moreover have "(ucast (ucast (ntohl v) :: u8) :: u32) = drop_bit 24 v"
      by (rule bit_word_eqI) (auto simp: bit_ucast_iff bit_drop_bit_eq ntohl_bits add.commute dest: bit_imp_le_length)
    ultimately show ?thesis by simp
  qed
  show ?thesis
    using a by (simp add: mips_write_ram mips_read_ram Let_def be.load_store_w be.load_store_h msb
        be.load_w_store_w_disjoint)
qed


text \<open>The boot of a program of no-operations.\<close>

definition mips_nops :: mips_state where
  "mips_nops = the (mips_main [0, 0, 0, 0, 0, 0, 0, 0] [] False)"

theorem mips_ram_round_trip_witness:
  "(case mips_write mips_nops 4 0x40000010 0x12345678 of
      Inl h \<Rightarrow> h = Misaligned 0x40000010 \<and> (0x40000010 :: u32) AND 3 \<noteq> 0
    | Inr t \<Rightarrow> mips_read t 4 0x40000010 = Inr (0x12345678, t) \<and> mips_read t 1 0x40000010 = Inr (0x12, t))"
  using mips_ram_round_trip[where a = "0x40000010" and s = mips_nops and v = "0x12345678"]
  by (auto simp: mips_write_ram split: sum.splits)

subsection \<open>Control flow\<close>

lemma mips_causes_frame:
  "mp_pc (mips_causes s) = mp_pc s" "mp_pc_next (mips_causes s) = mp_pc_next s" "mp_j (mips_causes s) = mp_j s"
  "mp_nox_bds (mips_causes s) = mp_nox_bds s" "mp_ins (mips_causes s) = mp_ins s"
  "mp_out (mips_causes s) = mp_out s"
  by (simp_all add: mips_causes_def Let_def)

lemma mips_count_frame:
  "mp_pc (mips_count s) = mp_pc s" "mp_pc_next (mips_count s) = mp_pc_next s" "mp_j (mips_count s) = mp_j s"
  "mp_nox_bds (mips_count s) = mp_nox_bds s" "mp_ins (mips_count s) = mp_ins s"
  "mp_out (mips_count s) = mp_out s"
  by (simp_all add: mips_count_def Let_def)

text \<open>A conditional branch acts after its delay slot: a cycle that fetches BEQ moves on to the old next
  pc, makes the following one the branch target exactly when the registers are equal (register 0
  read as zero), and no interrupt is taken before the delay slot.\<close>

theorem branch_delay_slot:
  assumes "\<not> mips_irq s" "mp_nox_bds s = 0" "mips_read s 4 (mp_pc s) = Inr (opcode, s)" "m_op opcode = 0x04"
  shows "\<exists>t. mips_cycle s = Inr t \<and> mp_pc t = mp_pc_next s \<and>
    mp_pc_next t = (mp_pc_next s + 4 +
      (if ((mp_r s)(0 := 0)) (m_rs opcode) = ((mp_r s)(0 := 0)) (m_rt opcode)
       then push_bit 2 (m_simm opcode) - 4 else 0)) AND NOT 3 \<and>
    \<not> mips_irq t"
proof -
  define u where "u = (mips_advance s)\<lparr>mp_j := 1, mp_bra := mp_bra s + 1\<rparr>"
  define eq where "eq = (((mp_r s)(0 := 0)) (m_rs opcode) = ((mp_r s)(0 := 0)) (m_rt opcode))"
  have "mips_execute (mips_advance s) opcode ptr = Inr (u, eq)" for ptr
    using assms(4) by (simp add: mips_execute_def branch_if_def Let_def u_def eq_def) (simp add: mips_advance_def)
  moreover have "mp_nox_bds (mips_advance s) = 0" using assms(2) by (simp add: mips_advance_def)
  ultimately have "mips_cycle s = Inr (mips_count (mips_causes (mips_finish u eq (m_imm_shift opcode))))"
    using assms(1,3) by (simp add: mips_cycle_def Let_def)
  then show ?thesis
    unfolding eq_def[symmetric]
    by (simp add: mips_count_frame mips_causes_frame mips_irq_def)
       (simp add: mips_finish_def m_imm_shift_def u_def mips_advance_def)
qed

theorem branch_delay_slot_witness:
  "\<exists>t. mips_cycle (the (mips_main [0x10, 0, 0, 3] [] False)) = Inr t \<and> mp_pc t = 0x40000004 \<and>
     mp_pc_next t = 0x40000010 \<and> \<not> mips_irq t"
proof -
  let ?s = "the (mips_main [0x10, 0, 0, 3] [] False)"
  have "be_load_word (mips_boot_memory [0x10, 0, 0, 3]) 0 = 0x10000003" by code_simp
  then have "mips_read ?s 4 (mp_pc ?s) = Inr (0x10000003, ?s)"
    by (simp add: mips_main_def mips_read_ram)
  then show ?thesis
    using branch_delay_slot[of ?s "0x10000003"]
    by (simp add: mips_main_def mips_irq_def m_op_def m_rs_def m_rt_def m_simm_def m_imm_def)
qed

text \<open>Division by zero runs into the next instruction of the switch: DIV and DIVU with a zero divisor
  clear both results and then also write the sum of their operands, the dividend, to the
  destination field, and are counted as an addition.\<close>

theorem division_by_zero_adds:
  assumes "m_op opcode = 0" "m_func opcode = 0x1a \<or> m_func opcode = 0x1b" "mp_r s (m_rt opcode) = 0"
  shows "mips_execute s opcode ptr = Inr (s\<lparr>mp_lo := 0, mp_hi := 0,
    mp_r := (mp_r s)(m_rd opcode := mp_r s (m_rs opcode)), mp_arith := mp_arith s + 1\<rparr>, False)"
  using assms(2)
  by (elim disjE) (simp_all add: mips_execute_def exec_special_def exec_div_def exec_divu_def exec_addu_def
      Let_def assms(1,3))

theorem division_by_zero_adds_witness:
  "mips_execute mips_nops 0x00a6381b 0 = Inr (mips_nops\<lparr>mp_lo := 0, mp_hi := 0,
    mp_r := (mp_r mips_nops)(7 := 0), mp_arith := 1\<rparr>, False)"
  using division_by_zero_adds[of "0x00a6381b" mips_nops 0]
  by (simp add: m_op_def m_func_def m_rt_def m_rd_def m_rs_def mips_nops_def mips_main_def)

subsection \<open>Statistics\<close>

definition is_invalid :: "mips_output \<Rightarrow> bool" where
  "is_invalid x = (case x of Char _ \<Rightarrow> False | Invalid_At _ _ \<Rightarrow> True)"

text \<open>The instruction classes the simulator reports, and the opcodes it could not decode.\<close>

definition class_total :: "mips_state \<Rightarrow> u32" where
  "class_total s = mp_arith s + mp_logic s + mp_shift s + mp_comp s + mp_ls s + mp_bra s + mp_jmp s +
     mp_mul s + mp_div s + mp_other s + of_nat (length (filter is_invalid (mp_out s)))"

lemma class_total_write: "when_running (\<lambda>t. class_total t = class_total s \<and> mp_ins t = mp_ins s) (mips_write s sz a v)"
  unfolding mips_write_def Let_def
  by (simp add: class_total_def is_invalid_def split: option.split)

lemma class_total_read:
  "mips_read s sz a = Inr (v, t) \<Longrightarrow> class_total t = class_total s \<and> mp_ins t = mp_ins s"
proof -
  let ?Q = "\<lambda>(v, t). class_total t = class_total s \<and> mp_ins t = mp_ins s"
  have "?Q (mips_getchar s)" by (simp add: mips_getchar_def class_total_def split: list.split)
  moreover have "?Q (v, s)" for v by simp
  ultimately have "when_running ?Q (mips_read s sz a)"
    unfolding mips_read_def Let_def by (intro when_running_ifI) (simp_all only: when_running_simps)
  then show "mips_read s sz a = Inr (v, t) \<Longrightarrow> class_total t = class_total s \<and> mp_ins t = mp_ins s"
    by simp
qed

definition one_class :: "mips_state \<Rightarrow> mips_state \<Rightarrow> bool" where
  "one_class s t \<longleftrightarrow> class_total t = class_total s + 1 \<and> mp_ins t = mp_ins s"

text \<open>The updates an instruction makes, and what each does to the statistics.\<close>

lemma class_total_updates [simp]:
  "class_total (s\<lparr>mp_r := f\<rparr>) = class_total s" "class_total (s\<lparr>mp_pc_next := w\<rparr>) = class_total s"
  "class_total (s\<lparr>mp_hi := w\<rparr>) = class_total s" "class_total (s\<lparr>mp_lo := w\<rparr>) = class_total s"
  "class_total (s\<lparr>mp_j := c\<rparr>) = class_total s"
  "class_total (s\<lparr>mp_arith := w\<rparr>) = class_total s - mp_arith s + w"
  "class_total (s\<lparr>mp_logic := w\<rparr>) = class_total s - mp_logic s + w"
  "class_total (s\<lparr>mp_shift := w\<rparr>) = class_total s - mp_shift s + w"
  "class_total (s\<lparr>mp_comp := w\<rparr>) = class_total s - mp_comp s + w"
  "class_total (s\<lparr>mp_ls := w\<rparr>) = class_total s - mp_ls s + w"
  "class_total (s\<lparr>mp_bra := w\<rparr>) = class_total s - mp_bra s + w"
  "class_total (s\<lparr>mp_jmp := w\<rparr>) = class_total s - mp_jmp s + w"
  "class_total (s\<lparr>mp_mul := w\<rparr>) = class_total s - mp_mul s + w"
  "class_total (s\<lparr>mp_div := w\<rparr>) = class_total s - mp_div s + w"
  "class_total (s\<lparr>mp_other := w\<rparr>) = class_total s - mp_other s + w"
  by (simp_all add: class_total_def)

lemma one_class_parts:
  "when_running (one_class s) (count_shift s rd v)"
  "one_class s (exec_addu s opcode)" "one_class s (exec_divu s opcode)"
  "when_running (one_class s) (exec_div s opcode)" "one_class s (invalid_opcode s opcode)"
proof -
  show addu: "one_class s (exec_addu s opcode)" for s by (simp add: one_class_def exec_addu_def)
  then have "one_class s (exec_addu (s\<lparr>mp_lo := 0, mp_hi := 0\<rparr>) opcode)" for s
    using addu[of "s\<lparr>mp_lo := 0, mp_hi := 0\<rparr>"] by (simp add: one_class_def)
  then show divu: "one_class s (exec_divu s opcode)" for s
    by (simp add: exec_divu_def Let_def) (simp add: one_class_def)
  then have "one_class s (exec_divu (s\<lparr>mp_lo := 0, mp_hi := 0\<rparr>) opcode)"
    using divu[of "s\<lparr>mp_lo := 0, mp_hi := 0\<rparr>"] by (simp add: one_class_def)
  then show "when_running (one_class s) (exec_div s opcode)"
    by (simp add: exec_div_def Let_def) (simp add: one_class_def)
  show "when_running (one_class s) (count_shift s rd v)"
    by (simp add: count_shift_def one_class_def split: option.split)
  show "one_class s (invalid_opcode s opcode)"
    by (simp add: one_class_def invalid_opcode_def class_total_def is_invalid_def)
qed

lemma one_class_special: "when_running (one_class s) (exec_special s opcode)"
  unfolding exec_special_def Let_def
  by (intro when_running_ifI; simp only: when_running_simps one_class_parts)
     (simp_all add: one_class_def)

lemma one_class_regimm: "one_class s (fst (exec_regimm s opcode))"
  by (simp add: exec_regimm_def branch_if_def invalid_opcode_def one_class_def class_total_def is_invalid_def Let_def)

lemma one_class_load: "when_running (one_class s) (count_load s sz a rt f)"
proof (cases "mips_read s sz a")
  case (Inr q)
  then obtain v t where q: "mips_read s sz a = Inr (v, t)" by (cases q) auto
  then show ?thesis using class_total_read[OF q] by (simp add: count_load_def one_class_def)
qed (simp add: count_load_def)

lemma one_class_store: "when_running (one_class s) (count_store s sz a v)"
  using class_total_write[of s sz a v]
  by (cases "mips_write s sz a v") (simp_all add: count_store_def one_class_def)

lemma no_branch_running: "when_running P r \<Longrightarrow> when_running (\<lambda>q. P (fst q)) (no_branch r)"
  by (cases r) simp_all

lemma one_class_execute: "when_running (\<lambda>q. one_class s (fst q)) (mips_execute s opcode ptr)"
  unfolding mips_execute_def Let_def
  by (intro when_running_ifI no_branch_running one_class_special one_class_load one_class_store;
      simp only: when_running_simps one_class_regimm one_class_parts fst_conv)
     (simp_all add: one_class_def exec_jump_def branch_if_def)

lemma class_total_frame:
  "class_total (mips_causes s) = class_total s" "class_total (mips_count s) = class_total s"
  "class_total (mips_finish s br w) = class_total s" "class_total (mips_advance s) = class_total s"
  "class_total (mips_enter_irq s) = class_total s" "class_total (s\<lparr>mp_nox_bds := c\<rparr>) = class_total s"
  by (simp_all add: class_total_def mips_causes_def mips_count_def mips_finish_def mips_advance_def
      mips_enter_irq_def Let_def)

lemma mips_cycle_statistics:
  assumes "mips_cycle s = Inr t" "class_total s = mp_ins s"
  shows "class_total t = mp_ins t"
proof (cases "mips_irq s")
  case True
  then show ?thesis using assms by (auto simp: mips_cycle_def class_total_frame) (simp add: mips_enter_irq_def)
next
  case False
  then obtain opcode u where r: "mips_read s 4 (mp_pc s) = Inr (opcode, u)"
    using assms(1) by (auto simp: mips_cycle_def split: sum.splits)
  let ?v = "mips_advance u" and ?p = "m_simm opcode + mp_r u (m_rs opcode)"
  have v: "class_total ?v = mp_ins ?v"
    using class_total_read[OF r] assms(2) by (simp add: class_total_frame) (simp add: mips_advance_def)
  show ?thesis
  proof (cases "mp_nox_bds ?v = 0")
    case True
    then obtain w br where w: "mips_execute ?v opcode ?p = Inr (w, br)"
      and t: "t = mips_count (mips_causes (mips_finish w br (m_imm_shift opcode)))"
      using assms(1) False r by (auto simp: mips_cycle_def Let_def split: sum.splits)
    have "one_class ?v w" using when_runningD[OF one_class_execute w] by simp
    then show ?thesis
      using v unfolding t by (simp add: class_total_frame mips_count_frame mips_causes_frame one_class_def)
        (simp add: mips_finish_def)
  next
    case nox: False
    then have "t = ?v\<lparr>mp_nox_bds := 0\<rparr>" using assms(1) False r by (simp add: mips_cycle_def Let_def)
    then show ?thesis using v by (simp add: class_total_frame)
  qed
qed

text \<open>C9: The statistics add up: after any number of cycles from the boot of any image, the instructions
  counted are the sum of the ten reported classes and of the opcodes reported as invalid, as words.\<close>

theorem mips_statistics:
  assumes "mips_main img input logging = Some s" "mips_run n s = Inr t"
  shows "mp_ins t = class_total t"
proof -
  have "class_total s = mp_ins s" using assms(1) by (auto simp: mips_main_def class_total_def split: if_splits)
  then have "class_total t = mp_ins t"
    using assms(2) by (induction n arbitrary: s) (auto split: sum.splits intro: mips_cycle_statistics)
  then show ?thesis by simp
qed

theorem mips_statistics_witness: "mp_ins (projr (mips_run 2 mips_nops)) = class_total (projr (mips_run 2 mips_nops))"
proof (rule mips_statistics)
  show "mips_main [0, 0, 0, 0, 0, 0, 0, 0] [] False = Some mips_nops" by (simp add: mips_nops_def mips_main_def)
  have "\<not> isl (mips_run 2 mips_nops)" by code_simp
  then show "mips_run 2 mips_nops = Inr (projr (mips_run 2 mips_nops))" by (cases "mips_run 2 mips_nops") simp_all
qed

end
