(* ===== verification/Xtea.thy ===== *)
theory Xtea
  imports Mips_Sim Riscv_Sim "HOL-Library.Monad_Syntax"
begin

text \<open>
  The XTEA cipher of app/xtea.c and app/xtea2.c with its CBC mode on byte buffers. The reading and writing of
  words in memory is a parameter, so that the same definitions serve both byte orders of the platform. The local
  array \<open>block\<close> is a byte memory of its own; \<open>copy_bytes\<close> is \<open>memcpy\<close> between two objects.
\<close>

unbundle bit_operations_syntax

type_synonym block = "u32 \<times> u32"

abbreviation (input) delta :: u32 where "delta \<equiv> 0x9E3779B9"

definition mix :: "u32 \<Rightarrow> u32" where
  "mix v = (push_bit 4 v XOR drop_bit 5 v) + v"

subsection \<open>The block cipher\<close>

definition encipher_round :: "u32 list \<Rightarrow> block \<times> u32 \<Rightarrow> block \<times> u32" where
  "encipher_round key = (\<lambda>((v0, v1), sm).
     let v0 = v0 + (mix v1 XOR (sm + key ! unat (sm AND 3)));
         sm = sm + delta;
         v1 = v1 + (mix v0 XOR (sm + key ! unat (drop_bit 11 sm AND 3)))
     in ((v0, v1), sm))"

definition decipher_round :: "u32 list \<Rightarrow> block \<times> u32 \<Rightarrow> block \<times> u32" where
  "decipher_round key = (\<lambda>((v0, v1), sm).
     let v1 = v1 - (mix v0 XOR (sm + key ! unat (drop_bit 11 sm AND 3)));
         sm = sm - delta;
         v0 = v0 - (mix v1 XOR (sm + key ! unat (sm AND 3)))
     in ((v0, v1), sm))"

definition encipher :: "u32 \<Rightarrow> block \<Rightarrow> u32 list \<Rightarrow> block" where
  "encipher num_rounds v key = fst ((encipher_round key ^^ unat num_rounds) (v, 0))"

definition decipher :: "u32 \<Rightarrow> block \<Rightarrow> u32 list \<Rightarrow> block" where
  "decipher num_rounds v key = fst ((decipher_round key ^^ unat num_rounds) (v, delta * num_rounds))"

definition xtea_encrypt :: "block \<Rightarrow> u32 list \<Rightarrow> u32 \<Rightarrow> block" where
  "xtea_encrypt v key num_rounds = fst ((encipher_round key ^^ unat num_rounds) (v, 0))"

definition xtea_decrypt :: "block \<Rightarrow> u32 list \<Rightarrow> u32 \<Rightarrow> block" where
  "xtea_decrypt v key num_rounds = fst ((decipher_round key ^^ unat num_rounds) (v, delta * num_rounds))"

subsection \<open>Cipher block chaining\<close>

definition copy_bytes :: "byte_mem \<Rightarrow> u32 \<Rightarrow> byte_mem \<Rightarrow> u32 \<Rightarrow> u32 \<Rightarrow> byte_mem" where
  "copy_bytes dm d sm s n = (\<lambda>a. if a - d < n then sm (s + (a - d)) else dm a)"

definition fill_bytes :: "byte_mem \<Rightarrow> u32 \<Rightarrow> u8 \<Rightarrow> u32 \<Rightarrow> byte_mem" where
  "fill_bytes dm d c n = (\<lambda>a. if a - d < n then c else dm a)"

definition put_block :: "(byte_mem \<Rightarrow> u32 \<Rightarrow> u32 \<Rightarrow> byte_mem) \<Rightarrow> byte_mem \<Rightarrow> block \<Rightarrow> byte_mem" where
  "put_block st blk b = st (st blk 0 (fst b)) 4 (snd b)"

definition get_block :: "(byte_mem \<Rightarrow> u32 \<Rightarrow> u32) \<Rightarrow> byte_mem \<Rightarrow> block" where
  "get_block ld blk = (ld blk 0, ld blk 4)"

definition xor_block :: "block \<Rightarrow> block \<Rightarrow> block" where
  "xor_block a b = (fst a XOR fst b, snd a XOR snd b)"

text \<open>One round of the loops: the memory, the local block and the chaining value behind it.\<close>

definition cbc_encrypt_block ::
  "(byte_mem \<Rightarrow> u32 \<Rightarrow> u32) \<Rightarrow> (byte_mem \<Rightarrow> u32 \<Rightarrow> u32 \<Rightarrow> byte_mem) \<Rightarrow> u32 list \<Rightarrow> u32 \<Rightarrow> u32
    \<Rightarrow> byte_mem \<times> byte_mem \<times> block \<Rightarrow> byte_mem \<times> byte_mem \<times> block" where
  "cbc_encrypt_block ld st key out inp = (\<lambda>(m, blk, tiv).
     let blk = copy_bytes blk 0 m inp 8;
         b = xtea_encrypt (xor_block (get_block ld blk) tiv) key 32;
         blk = put_block st blk b
     in (copy_bytes m out blk 0 8, blk, b))"

definition cbc_decrypt_block ::
  "(byte_mem \<Rightarrow> u32 \<Rightarrow> u32) \<Rightarrow> (byte_mem \<Rightarrow> u32 \<Rightarrow> u32 \<Rightarrow> byte_mem) \<Rightarrow> u32 list \<Rightarrow> u32 \<Rightarrow> u32
    \<Rightarrow> byte_mem \<times> byte_mem \<times> block \<Rightarrow> byte_mem \<times> byte_mem \<times> block" where
  "cbc_decrypt_block ld st key out inp = (\<lambda>(m, blk, tiv).
     let blk = copy_bytes blk 0 m inp 8;
         block2 = get_block ld blk;
         b = xor_block (xtea_decrypt block2 key 32) tiv;
         blk = put_block st blk b
     in (copy_bytes m out blk 0 8, blk, block2))"

text \<open>\<open>for (i = 0; i < len; i += BLOCKLEN)\<close>; the results are the pointers behind the last block and the state.\<close>

partial_function (option) cbc_loop ::
  "(u32 \<Rightarrow> u32 \<Rightarrow> 'a \<Rightarrow> 'a) \<Rightarrow> u32 \<Rightarrow> u32 \<Rightarrow> u32 \<Rightarrow> u32 \<Rightarrow> 'a \<Rightarrow> (u32 \<times> u32 \<times> 'a) option" where
  [code]: "cbc_loop f i len out inp s =
     (if i < len then cbc_loop f (i + 8) len (out + 8) (inp + 8) (f out inp s) else Some (out, inp, s))"

text \<open>The rest: \<open>BLOCKLEN - rem\<close> bytes are taken and written, as the code has it.\<close>

definition cbc_encrypt_rest ::
  "(byte_mem \<Rightarrow> u32 \<Rightarrow> u32) \<Rightarrow> (byte_mem \<Rightarrow> u32 \<Rightarrow> u32 \<Rightarrow> byte_mem) \<Rightarrow> u32 list \<Rightarrow> u32 \<Rightarrow> u32 \<Rightarrow> u32
    \<Rightarrow> byte_mem \<times> byte_mem \<times> block \<Rightarrow> byte_mem" where
  "cbc_encrypt_rest ld st key rem out inp = (\<lambda>(m, blk, tiv).
     let blk = fill_bytes (copy_bytes blk 0 m inp (8 - rem)) rem 0 (8 - rem);
         b = xtea_encrypt (xor_block (get_block ld blk) tiv) key 32
     in copy_bytes m out (put_block st blk b) 0 (8 - rem))"

definition cbc_decrypt_rest ::
  "(byte_mem \<Rightarrow> u32 \<Rightarrow> u32) \<Rightarrow> (byte_mem \<Rightarrow> u32 \<Rightarrow> u32 \<Rightarrow> byte_mem) \<Rightarrow> u32 list \<Rightarrow> u32 \<Rightarrow> u32 \<Rightarrow> u32
    \<Rightarrow> byte_mem \<times> byte_mem \<times> block \<Rightarrow> byte_mem" where
  "cbc_decrypt_rest ld st key rem out inp = (\<lambda>(m, blk, _).
     let blk = fill_bytes (copy_bytes blk 0 m inp (8 - rem)) rem 0 (8 - rem);
         tiv = get_block ld blk;
         b = xor_block (xtea_decrypt tiv key 32) tiv
     in copy_bytes m out (put_block st blk b) 0 (8 - rem))"

definition xtea_cbc_encrypt ::
  "(byte_mem \<Rightarrow> u32 \<Rightarrow> u32) \<Rightarrow> (byte_mem \<Rightarrow> u32 \<Rightarrow> u32 \<Rightarrow> byte_mem) \<Rightarrow> u32 \<Rightarrow> u32 \<Rightarrow> u32 \<Rightarrow> u32 list \<Rightarrow> block
    \<Rightarrow> byte_mem \<Rightarrow> byte_mem \<Rightarrow> byte_mem option" where
  "xtea_cbc_encrypt ld st out inp len key iv blk m =
     do { let rem = len mod 8;
          (out, inp, m, blk, tiv) \<leftarrow> cbc_loop (cbc_encrypt_block ld st key) 0 len out inp (m, blk, iv);
          Some (if rem \<noteq> 0 then cbc_encrypt_rest ld st key rem out inp (m, blk, tiv) else m) }"

definition xtea_cbc_decrypt ::
  "(byte_mem \<Rightarrow> u32 \<Rightarrow> u32) \<Rightarrow> (byte_mem \<Rightarrow> u32 \<Rightarrow> u32 \<Rightarrow> byte_mem) \<Rightarrow> u32 \<Rightarrow> u32 \<Rightarrow> u32 \<Rightarrow> u32 list \<Rightarrow> block
    \<Rightarrow> byte_mem \<Rightarrow> byte_mem \<Rightarrow> byte_mem option" where
  "xtea_cbc_decrypt ld st out inp len key iv blk m =
     do { let rem = len mod 8;
          (out, inp, m, blk, tiv) \<leftarrow> cbc_loop (cbc_decrypt_block ld st key) 0 len out inp (m, blk, iv);
          Some (if rem \<noteq> 0 then cbc_decrypt_rest ld st key rem out inp (m, blk, tiv) else m) }"

end
