(* ===== verification/Xtea_Props.thy ===== *)
theory Xtea_Props
  imports Xtea
begin

text \<open>
  Decryption undoes encryption: for the block cipher with any number of rounds and key, and for the CBC mode on a
  buffer in place, in both byte orders of the platform.
\<close>

unbundle bit_operations_syntax

subsection \<open>The block cipher\<close>

lemma decipher_encipher_round: "decipher_round key (encipher_round key x) = x"
  by (cases x) (auto simp: encipher_round_def decipher_round_def Let_def)

lemma encipher_decipher_round: "encipher_round key (decipher_round key x) = x"
  by (cases x) (auto simp: encipher_round_def decipher_round_def Let_def)

lemma funpow_inverse:
  fixes f g :: "'a \<Rightarrow> 'a"
  assumes "\<And>x. g (f x) = x"
  shows "(g ^^ n) ((f ^^ n) x) = x"
proof (induction n)
  case (Suc n)
  have "(g ^^ Suc n) ((f ^^ Suc n) x) = (g ^^ n) (g (f ((f ^^ n) x)))" by (simp add: funpow_swap1)
  then show ?case using assms Suc by simp
qed simp

lemma encipher_sum: "snd ((encipher_round key ^^ n) (v, sm)) = sm + delta * of_nat n"
proof (induction n)
  case (Suc n)
  have "snd (encipher_round key x) = snd x + delta" for x by (cases x) (auto simp: encipher_round_def Let_def)
  then show ?case using Suc by (simp add: algebra_simps)
qed simp

lemma decipher_sum: "snd ((decipher_round key ^^ n) (v, sm)) = sm - delta * of_nat n"
proof (induction n)
  case (Suc n)
  have d: "snd (decipher_round key x) = snd x - delta" for x by (cases x) (auto simp: decipher_round_def Let_def)
  show ?case unfolding funpow.simps comp_def d Suc by (simp add: algebra_simps)
qed simp

lemma decrypt_encrypt: "xtea_decrypt (xtea_encrypt v key n) key n = v"
proof -
  have "(encipher_round key ^^ unat n) (v, 0) = (xtea_encrypt v key n, delta * n)"
    using encipher_sum[of "unat n" key v 0] by (simp add: xtea_encrypt_def prod_eq_iff)
  then show ?thesis
    using funpow_inverse[of "decipher_round key" "encipher_round key" "unat n" "(v, 0)", OF decipher_encipher_round]
    by (simp add: xtea_decrypt_def)
qed

lemma encrypt_decrypt: "xtea_encrypt (xtea_decrypt v key n) key n = v"
proof -
  have "(decipher_round key ^^ unat n) (v, delta * n) = (xtea_decrypt v key n, 0)"
    using decipher_sum[of "unat n" key v "delta * n"] by (simp add: xtea_decrypt_def prod_eq_iff)
  then show ?thesis
    using funpow_inverse[of "encipher_round key" "decipher_round key" "unat n" "(v, delta * n)", OF encipher_decipher_round]
    by (simp add: xtea_encrypt_def)
qed

text \<open>The XTEA block cipher is a permutation of the blocks: with the same key and number of rounds,
  \<open>decipher\<close> undoes \<open>encipher\<close> and \<open>encipher\<close> undoes \<open>decipher\<close>, and app/xtea2.c computes the same functions.\<close>

theorem xtea_round_trip:
  "decipher n (encipher n v key) key = v \<and> encipher n (decipher n v key) key = v
   \<and> xtea_encrypt v key n = encipher n v key \<and> xtea_decrypt v key n = decipher n v key"
  using decrypt_encrypt[of v key n] encrypt_decrypt[of v key n]
  by (simp add: xtea_encrypt_def xtea_decrypt_def encipher_def decipher_def)

subsection \<open>The loops\<close>

fun block_steps :: "(u32 \<Rightarrow> u32 \<Rightarrow> 'a \<Rightarrow> 'a) \<Rightarrow> nat \<Rightarrow> u32 \<Rightarrow> u32 \<Rightarrow> 'a \<Rightarrow> 'a" where
  "block_steps f 0 out inp s = s"
| "block_steps f (Suc n) out inp s = block_steps f n (out + 8) (inp + 8) (f out inp s)"

lemma cbc_loop_blocks:
  "unat i + 8 * n = unat len \<Longrightarrow>
   cbc_loop f i len out inp s = Some (out + of_nat (8 * n), inp + of_nat (8 * n), block_steps f n out inp s)"
proof (induction n arbitrary: i out inp s)
  case 0
  then have "\<not> i < len" by (simp add: word_less_nat_alt)
  then show ?case by (subst cbc_loop.simps) simp
next
  case (Suc n)
  then have lt: "i < len" by (simp add: word_less_nat_alt)
  have "unat (i + 8) = unat i + 8" using Suc.prems unat_bound[of len] by (simp add: unat_word_ariths)
  then have "cbc_loop f (i + 8) len (out + 8) (inp + 8) (f out inp s)
      = Some (out + 8 + of_nat (8 * n), inp + 8 + of_nat (8 * n), block_steps f n (out + 8) (inp + 8) (f out inp s))"
    by (intro Suc.IH) (use Suc.prems in simp)
  then show ?case using lt by (subst cbc_loop.simps) (simp add: algebra_simps)
qed

lemma cbc_loop_partial:
  "unat i + 8 * n < unat len \<Longrightarrow> unat len \<le> unat i + 8 * Suc n \<Longrightarrow> unat i + 8 * Suc n < 2 ^ 32 \<Longrightarrow>
   cbc_loop f i len out inp s = Some (out + of_nat (8 * Suc n), inp + of_nat (8 * Suc n), block_steps f (Suc n) out inp s)"
proof (induction n arbitrary: i out inp s)
  case 0
  then have "unat (i + 8) = unat i + 8" by (simp add: unat_word_ariths)
  then have "i < len" "\<not> i + 8 < len" using 0 by (simp_all add: word_less_nat_alt)
  then show ?case by (subst cbc_loop.simps, subst cbc_loop.simps) simp
next
  case (Suc n)
  have i8: "unat (i + 8) = unat i + 8" using Suc.prems by (simp add: unat_word_ariths)
  have "cbc_loop f (i + 8) len (out + 8) (inp + 8) (f out inp s)
      = Some (out + 8 + of_nat (8 * Suc n), inp + 8 + of_nat (8 * Suc n), block_steps f (Suc n) (out + 8) (inp + 8) (f out inp s))"
    by (rule Suc.IH) (use Suc.prems in \<open>simp_all add: i8\<close>)
  moreover have "i < len" using Suc.prems by (simp add: word_less_nat_alt)
  ultimately show ?case by (subst cbc_loop.simps) (simp add: algebra_simps)
qed

subsection \<open>Words that are read and written back\<close>

lemma unat_plus_small: "unat x + unat y < 2 ^ 32 \<Longrightarrow> unat (x + y) = unat x + unat (y :: u32)"
  by (simp add: unat_word_ariths)

locale byte_order_exact = byte_order +
  assumes store_load: "k < 4 \<Longrightarrow> store_w m a (load_w m' a) (a + k) = m' (a + k)"
begin

lemma get_put_block: "get_block load_w (put_block store_w blk b) = b"
proof -
  have "load_w (store_w (store_w blk 0 (fst b)) 4 (snd b)) 0 = load_w (store_w blk 0 (fst b)) 0"
    by (rule load_w_store_w_disjoint) simp_all
  then show ?thesis by (simp add: get_block_def put_block_def load_store_w)
qed

lemma less_8_cases: "k < (8 :: u32) \<Longrightarrow> k < 4 \<or> (\<exists>j < 4. k = 4 + j)"
proof -
  assume "k < 8"
  show ?thesis
  proof (cases "k < 4")
    case False
    then have "k - 4 < 4" using \<open>k < 8\<close> by (simp add: word_less_nat_alt word_le_nat_alt unat_sub)
    then show ?thesis by (intro disjI2 exI[of _ "k - 4"]) simp
  qed simp
qed

lemma put_get_block:
  assumes "k < 8"
  shows "put_block store_w blk (get_block load_w blk') k = blk' k"
proof -
  consider "k < 4" | j where "j < 4" "k = 4 + j" using less_8_cases[OF assms] by blast
  then show ?thesis
  proof cases
    case 1
    then have "4 \<le> k - 4"
    proof -
      have "unat k < 4" using 1 by (simp add: word_less_nat_alt)
      then have "unat (k - 4) = 2 ^ 32 + unat k - 4" by (simp add: unat_sub_if')
      then show ?thesis using \<open>unat k < 4\<close> by (simp add: word_le_nat_alt)
    qed
    then show ?thesis using store_load[of k blk 0 blk'] 1 by (simp add: put_block_def get_block_def store_w_frame)
  next
    case 2
    then show ?thesis using store_load[of j _ 4 blk'] by (simp add: put_block_def get_block_def)
  qed
qed

lemma put_block_bytes: "k < 8 \<Longrightarrow> put_block store_w x b k = put_block store_w y b k"
  using put_get_block[of k x "put_block store_w y b"] by (simp add: get_put_block)

lemma get_block_bytes: "(\<And>k. k < 8 \<Longrightarrow> x k = y k) \<Longrightarrow> get_block load_w x = get_block load_w y"
proof -
  assume a: "\<And>k. k < 8 \<Longrightarrow> x k = y k"
  have b: "4 + k < 8" if "k < 4" for k :: u32 using that by (simp add: word_less_nat_alt unat_word_ariths)
  have "load_w x 0 = load_w y 0" "load_w x 4 = load_w y 4"
    by (rule load_w_local, use a b in \<open>auto simp: word_less_nat_alt\<close>)+
  then show ?thesis by (simp add: get_block_def)
qed

text \<open>A block of the memory.\<close>

definition block_at :: "byte_mem \<Rightarrow> u32 \<Rightarrow> block" where
  "block_at m p = get_block load_w (\<lambda>a. m (p + a))"

definition write_block :: "byte_mem \<Rightarrow> u32 \<Rightarrow> block \<Rightarrow> byte_mem" where
  "write_block m p b = copy_bytes m p (put_block store_w (\<lambda>_. 0) b) 0 8"

lemma write_block_eq: "copy_bytes m p (put_block store_w x b) 0 8 = write_block m p b"
  using put_block_bytes[of _ x b "\<lambda>_. 0"] by (auto simp: write_block_def copy_bytes_def fun_eq_iff)

lemma block_at_copy: "get_block load_w (copy_bytes blk 0 m p 8) = block_at m p"
  unfolding block_at_def by (rule get_block_bytes) (simp add: copy_bytes_def)

lemma block_at_write: "block_at (write_block m p b) p = b"
proof -
  have "block_at (write_block m p b) p = get_block load_w (put_block store_w (\<lambda>_. 0) b)"
    unfolding block_at_def by (rule get_block_bytes) (simp add: write_block_def copy_bytes_def)
  then show ?thesis by (simp add: get_put_block)
qed

lemma write_block_at: "write_block m p (block_at m p) = m"
  by (auto simp: write_block_def copy_bytes_def block_at_def put_get_block fun_eq_iff)

lemma write_write: "write_block (write_block m p b) p c = write_block m p c"
  by (auto simp: write_block_def copy_bytes_def fun_eq_iff)

lemma apart_bytes:
  fixes p q a :: u32
  assumes "8 \<le> unat (q - p)" "unat (q - p) + 8 \<le> 2 ^ 32" "a - q < 8"
  shows "\<not> a - p < 8"
proof -
  have e: "(q - p) + (a - q) = a - p" by simp
  have "unat (a - q) < 8" using assms(3) by (simp add: word_less_nat_alt)
  then have "unat (a - p) = unat (q - p) + unat (a - q)" using assms(2) unat_plus_small[of "q - p" "a - q"] unfolding e by simp
  then show ?thesis using assms(1) by (simp add: word_less_nat_alt)
qed

lemma write_block_apart:
  assumes "8 \<le> unat (q - p)" "unat (q - p) + 8 \<le> 2 ^ 32"
  shows "write_block (write_block m p b) q c = write_block (write_block m q c) p b"
    "block_at (write_block m p b) q = block_at m q" "block_at (write_block m q c) p = block_at m p"
proof -
  have n: "\<not> a - p < 8" if "a - q < 8" for a using apart_bytes[OF assms that] .
  then show "write_block (write_block m p b) q c = write_block (write_block m q c) p b"
    by (auto simp: write_block_def copy_bytes_def fun_eq_iff)
  show "block_at (write_block m p b) q = block_at m q"
    unfolding block_at_def by (rule get_block_bytes) (use n in \<open>auto simp: write_block_def copy_bytes_def\<close>)
  show "block_at (write_block m q c) p = block_at m p"
    unfolding block_at_def by (rule get_block_bytes) (use n in \<open>force simp: write_block_def copy_bytes_def\<close>)
qed

text \<open>The two loops on a buffer in place, as recursions on the number of blocks.\<close>

fun encrypt_blocks :: "u32 list \<Rightarrow> nat \<Rightarrow> u32 \<Rightarrow> block \<Rightarrow> byte_mem \<Rightarrow> byte_mem" where
  "encrypt_blocks key 0 p tiv m = m"
| "encrypt_blocks key (Suc n) p tiv m =
     (let b = xtea_encrypt (xor_block (block_at m p) tiv) key 32 in encrypt_blocks key n (p + 8) b (write_block m p b))"

fun decrypt_blocks :: "u32 list \<Rightarrow> nat \<Rightarrow> u32 \<Rightarrow> block \<Rightarrow> byte_mem \<Rightarrow> byte_mem" where
  "decrypt_blocks key 0 p tiv m = m"
| "decrypt_blocks key (Suc n) p tiv m =
     (let c = block_at m p in decrypt_blocks key n (p + 8) c (write_block m p (xor_block (xtea_decrypt c key 32) tiv)))"

lemma next_block:
  fixes q p :: u32
  assumes "8 \<le> unat (q - p)" "unat (q - p) + 8 * Suc n \<le> 2 ^ 32" "0 < n"
  shows "8 \<le> unat (q + 8 - p)" "unat (q + 8 - p) + 8 * n \<le> 2 ^ 32"
proof -
  have e: "(q - p) + 8 = q + 8 - p" by simp
  have "unat (q + 8 - p) = unat (q - p) + 8" using assms(2,3) unat_plus_small[of "q - p" 8] unfolding e by simp
  then show "8 \<le> unat (q + 8 - p)" "unat (q + 8 - p) + 8 * n \<le> 2 ^ 32" using assms by simp_all
qed

lemma encrypt_blocks_apart:
  assumes "8 \<le> unat (q - p)" "unat (q - p) + 8 * n \<le> 2 ^ 32"
  shows "encrypt_blocks key n q tiv (write_block m p x) = write_block (encrypt_blocks key n q tiv m) p x"
  using assms
proof (induction n arbitrary: q tiv m)
  case (Suc n)
  have a: "8 \<le> unat (q - p)" "unat (q - p) + 8 \<le> 2 ^ 32" using Suc.prems by simp_all
  define b where "b = xtea_encrypt (xor_block (block_at m q) tiv) key 32"
  have "encrypt_blocks key (Suc n) q tiv (write_block m p x) = encrypt_blocks key n (q + 8) b (write_block (write_block m q b) p x)"
    by (simp add: write_block_apart[OF a] b_def Let_def)
  also have "\<dots> = write_block (encrypt_blocks key n (q + 8) b (write_block m q b)) p x"
  proof (cases "n = 0")
    case False
    then show ?thesis using next_block[OF Suc.prems] by (intro Suc.IH) simp_all
  qed simp
  finally show ?case by (simp add: b_def Let_def)
qed simp

lemma block_at_encrypt:
  assumes "8 \<le> unat (q - p)" "unat (q - p) + 8 * n \<le> 2 ^ 32"
  shows "block_at (encrypt_blocks key n q tiv m) p = block_at m p"
  using encrypt_blocks_apart[OF assms, of key tiv m "block_at m p"] block_at_write by (metis write_block_at)

lemma xor_block_cancel: "xor_block (xor_block a b) b = a"
  by (cases a; cases b) (simp add: xor_block_def xor.assoc)

lemma decrypt_encrypt_blocks:
  assumes "8 * n \<le> 2 ^ 32"
  shows "decrypt_blocks key n p tiv (encrypt_blocks key n p tiv m) = m"
  using assms
proof (induction n arbitrary: p tiv m)
  case (Suc n)
  define b where "b = xtea_encrypt (xor_block (block_at m p) tiv) key 32"
  have plain: "xor_block (xtea_decrypt b key 32) tiv = block_at m p"
    by (simp add: b_def decrypt_encrypt xor_block_cancel)
  have e8: "unat (p + 8 - p) = 8" by simp
  have a: "8 \<le> unat (p + 8 - p)" "unat (p + 8 - p) + 8 * n \<le> 2 ^ 32" unfolding e8 using Suc.prems by simp_all
  have at: "block_at (encrypt_blocks key n (p + 8) b (write_block m p b)) p = b"
    using block_at_encrypt[OF a] block_at_write by simp
  have "decrypt_blocks key (Suc n) p tiv (encrypt_blocks key (Suc n) p tiv m)
      = decrypt_blocks key n (p + 8) b (write_block (encrypt_blocks key n (p + 8) b (write_block m p b)) p (block_at m p))"
    by (simp add: Let_def at plain flip: b_def)
  also have "write_block (encrypt_blocks key n (p + 8) b (write_block m p b)) p (block_at m p) = encrypt_blocks key n (p + 8) b m"
    using encrypt_blocks_apart[OF a, of key b "write_block m p b" "block_at m p"] by (simp add: write_write write_block_at)
  also have "decrypt_blocks key n (p + 8) b (encrypt_blocks key n (p + 8) b m) = m" using Suc by simp
  finally show ?case .
qed simp

lemma encrypt_steps:
  "\<exists>blk' tiv'. block_steps (cbc_encrypt_block load_w store_w key) n p p (m, blk, tiv) = (encrypt_blocks key n p tiv m, blk', tiv')"
proof (induction n arbitrary: p m blk tiv)
  case (Suc n)
  let ?b = "xtea_encrypt (xor_block (block_at m p) tiv) key 32"
  have "\<exists>b1. cbc_encrypt_block load_w store_w key p p (m, blk, tiv) = (write_block m p ?b, b1, ?b)"
    by (simp add: cbc_encrypt_block_def Let_def block_at_copy write_block_eq)
  then obtain b1 where "cbc_encrypt_block load_w store_w key p p (m, blk, tiv) = (write_block m p ?b, b1, ?b)" by blast
  then show ?case using Suc.IH[of "p + 8" "write_block m p ?b" b1 ?b] by (simp only: block_steps.simps encrypt_blocks.simps Let_def)
qed simp

lemma decrypt_steps:
  "\<exists>blk' tiv'. block_steps (cbc_decrypt_block load_w store_w key) n p p (m, blk, tiv) = (decrypt_blocks key n p tiv m, blk', tiv')"
proof (induction n arbitrary: p m blk tiv)
  case (Suc n)
  let ?c = "block_at m p"
  have "\<exists>b1. cbc_decrypt_block load_w store_w key p p (m, blk, tiv) = (write_block m p (xor_block (xtea_decrypt ?c key 32) tiv), b1, ?c)"
    by (simp add: cbc_decrypt_block_def Let_def block_at_copy write_block_eq)
  then obtain b1 where "cbc_decrypt_block load_w store_w key p p (m, blk, tiv) = (write_block m p (xor_block (xtea_decrypt ?c key 32) tiv), b1, ?c)"
    by blast
  then show ?case using Suc.IH[of "p + 8" "write_block m p (xor_block (xtea_decrypt ?c key 32) tiv)" b1 ?c]
    by (simp only: block_steps.simps decrypt_blocks.simps Let_def)
qed simp

lemma cbc_round_trip:
  assumes "len mod 8 = 0"
  shows "\<exists>m'. xtea_cbc_encrypt load_w store_w p p len key iv blk m = Some m' \<and> xtea_cbc_decrypt load_w store_w p p len key iv blk' m' = Some m"
proof -
  define n where "n = unat len div 8"
  have "unat len mod 8 = 0" using arg_cong[OF assms, of unat] by (simp add: unat_mod)
  then have n: "unat (0 :: u32) + 8 * n = unat len" using mult_div_mod_eq[of 8 "unat len"] by (simp add: n_def)
  have "8 * n \<le> 2 ^ 32" using n unat_bound[of len] by simp
  then have rt: "decrypt_blocks key n p iv (encrypt_blocks key n p iv m) = m" by (rule decrypt_encrypt_blocks)
  obtain b1 t1 where e: "block_steps (cbc_encrypt_block load_w store_w key) n p p (m, blk, iv) = (encrypt_blocks key n p iv m, b1, t1)"
    using encrypt_steps by blast
  obtain b2 t2 where d: "block_steps (cbc_decrypt_block load_w store_w key) n p p (encrypt_blocks key n p iv m, blk', iv) = (m, b2, t2)"
    using decrypt_steps[of key n p "encrypt_blocks key n p iv m" blk' iv] rt by auto
  show ?thesis
    using assms by (simp add: xtea_cbc_encrypt_def xtea_cbc_decrypt_def cbc_loop_blocks[OF n] e d)
qed

text \<open>A length that is no multiple of the block length.\<close>

lemma cbc_partial:
  fixes k r :: nat
  assumes "0 < r" "r < 8" "8 * k + 16 < 2 ^ 32"
  shows "\<exists>m' m''. xtea_cbc_encrypt load_w store_w p p (of_nat (8 * k + r)) key iv blk m = Some m'
    \<and> xtea_cbc_encrypt load_w store_w p p (of_nat (8 * k + 8)) key iv blk m = Some m''
    \<and> (\<forall>a. a - p < of_nat (8 * k + 8) \<longrightarrow> m' a = m'' a)"
proof -
  have u: "unat (of_nat j :: u32) = j" if "j < 2 ^ 32" for j using that by (simp add: unat_of_nat take_bit_nat_eq_self)
  let ?len = "of_nat (8 * k + r) :: u32" and ?full = "of_nat (8 * k + 8) :: u32"
  have l: "unat ?len = 8 * k + r" "unat ?full = 8 * k + 8" by (rule u, use assms in simp)+
  obtain b1 t1 where e: "block_steps (cbc_encrypt_block load_w store_w key) (Suc k) p p (m, blk, iv) = (encrypt_blocks key (Suc k) p iv m, b1, t1)"
    using encrypt_steps by blast
  let ?m = "encrypt_blocks key (Suc k) p iv m" and ?q = "p + of_nat (8 * Suc k)"
  have full: "xtea_cbc_encrypt load_w store_w p p ?full key iv blk m = Some ?m"
  proof -
    have "unat (?full mod 8) = unat (0 :: u32)" unfolding unat_mod l(2) by simp
    then have "?full mod 8 = 0" by (simp only: word_unat_eq_iff)
    moreover have "cbc_loop (cbc_encrypt_block load_w store_w key) 0 ?full p p (m, blk, iv) = Some (?q, ?q, ?m, b1, t1)"
      using cbc_loop_blocks[of 0 "Suc k" ?full "cbc_encrypt_block load_w store_w key" p p "(m, blk, iv)"] l(2) e by simp
    ultimately show ?thesis by (simp add: xtea_cbc_encrypt_def)
  qed
  have "unat (?len mod 8) = r" using l(1) assms(2) by (simp add: unat_mod)
  then have rem: "?len mod 8 \<noteq> 0" using assms(1) by (metis unat_0 less_irrefl)
  have "cbc_loop (cbc_encrypt_block load_w store_w key) 0 ?len p p (m, blk, iv) = Some (?q, ?q, ?m, b1, t1)"
    using cbc_loop_partial[of 0 k ?len "cbc_encrypt_block load_w store_w key" p p "(m, blk, iv)"] l(1) assms e by simp
  then have part: "xtea_cbc_encrypt load_w store_w p p ?len key iv blk m
      = Some (cbc_encrypt_rest load_w store_w key (?len mod 8) ?q ?q (?m, b1, t1))"
    using rem by (simp add: xtea_cbc_encrypt_def)
  have "cbc_encrypt_rest load_w store_w key (?len mod 8) ?q ?q (?m, b1, t1) a = ?m a" if "a - p < ?full" for a
  proof -
    have ap: "unat (a - p) < 8 * k + 8" using that l(2) by (simp add: word_less_nat_alt)
    have e: "(a - p) - ?full = a - ?q" by (simp add: algebra_simps)
    have "unat ((a - p) - ?full) = 2 ^ 32 + unat (a - p) - (8 * k + 8)" using ap l(2) by (simp add: unat_sub_if')
    then have "8 \<le> unat (a - ?q)" unfolding e using assms(3) by linarith
    moreover have "unat (8 - ?len mod 8) \<le> 8" using \<open>unat (?len mod 8) = r\<close> assms(2) by (simp add: unat_sub_if')
    ultimately have "\<not> a - ?q < 8 - ?len mod 8" by (simp add: word_less_nat_alt)
    then show ?thesis by (simp add: cbc_encrypt_rest_def Let_def copy_bytes_def)
  qed
  then show ?thesis using full part by blast
qed

end

lemma four_cases: "k < (4 :: u32) \<Longrightarrow> k = 0 \<or> k = 1 \<or> k = 2 \<or> k = 3"
proof -
  assume "k < 4"
  then have "unat k < 4" by (simp add: word_less_nat_alt)
  then consider "unat k = 0" | "unat k = 1" | "unat k = 2" | "unat k = 3" by linarith
  then show ?thesis by cases (drule arg_cong[of _ _ "of_nat :: nat \<Rightarrow> u32"]; simp)+
qed

lemma host_word_bytes:
  "ucast (host_word m a) = m a" "ucast (drop_bit 8 (host_word m a)) = m (a + 1)"
  "ucast (drop_bit 16 (host_word m a)) = m (a + 2)" "ucast (drop_bit 24 (host_word m a)) = m (a + 3)"
  by (rule bit_word_eqI, auto simp: host_word_def bit_simps dest: bit_imp_le_length)+

lemma load_host_word: "load_word m a = host_word m a" and store_host_word: "store_word m a v = put_host_word m a v"
  by (simp_all add: load_word_def host_word_def store_word_def put_host_word_def)

lemma put_host_word_host_word: "k < 4 \<Longrightarrow> put_host_word m a (host_word m' a) (a + k) = m' (a + k)"
  using four_cases[of k] by (auto simp: put_host_word_def host_word_bytes)

interpretation le_exact: byte_order_exact load_word store_word load_half store_half
  by unfold_locales (simp add: load_host_word store_host_word put_host_word_host_word)

interpretation be_exact: byte_order_exact be_load_word be_store_word be_load_half be_store_half
  by unfold_locales (simp add: be_load_word_def be_store_word_def ntohl_ntohl put_host_word_host_word)

subsection \<open>The round trip of a buffer\<close>

text \<open>C19: encrypting a buffer in place in CBC mode and decrypting it with the same key and start value gives the
  original memory back, byte for byte, for every length that is a multiple of the block length, in little-endian and in
  big-endian memory; both loops end and nothing outside the buffer is changed.\<close>

theorem xtea_cbc_round_trip:
  assumes "len mod 8 = 0"
  shows "(\<exists>m'. xtea_cbc_encrypt load_word store_word p p len key iv blk m = Some m'
       \<and> xtea_cbc_decrypt load_word store_word p p len key iv blk' m' = Some m)
    \<and> (\<exists>m'. xtea_cbc_encrypt be_load_word be_store_word p p len key iv blk m = Some m'
       \<and> xtea_cbc_decrypt be_load_word be_store_word p p len key iv blk' m' = Some m)"
  by (intro conjI le_exact.cbc_round_trip be_exact.cbc_round_trip assms)

theorem xtea_cbc_round_trip_witness:
  "\<exists>m'. xtea_cbc_encrypt load_word store_word 0x100 0x100 16 [1, 2, 3, 4] (5, 6) (\<lambda>_. 0) (\<lambda>a. ucast a) = Some m'
     \<and> xtea_cbc_decrypt load_word store_word 0x100 0x100 16 [1, 2, 3, 4] (5, 6) (\<lambda>_. 0) m' = Some (\<lambda>a. ucast a)"
  using xtea_cbc_round_trip[where len = 16 and p = "0x100" and key = "[1, 2, 3, 4]" and iv = "(5, 6)"
    and blk = "\<lambda>_. 0" and blk' = "\<lambda>_. 0" and m = "\<lambda>a. ucast a"] by simp

text \<open>With a length that is no multiple of 8, the loop runs one block too far: the buffer is treated as if it
  were filled up to the next multiple, so the bytes behind its end are encrypted too.\<close>

theorem xtea_cbc_overrun:
  assumes "0 < r" "r < 8" "8 * k + 16 < 2 ^ 32"
  shows "\<exists>m' m''. xtea_cbc_encrypt load_word store_word p p (of_nat (8 * k + r)) key iv blk m = Some m'
    \<and> xtea_cbc_encrypt load_word store_word p p (of_nat (8 * k + 8)) key iv blk m = Some m''
    \<and> (\<forall>a. a - p < of_nat (8 * k + 8) \<longrightarrow> m' a = m'' a)"
  by (rule le_exact.cbc_partial[OF assms])

theorem xtea_cbc_overrun_witness:
  "\<exists>m' m''. xtea_cbc_encrypt load_word store_word 0x100 0x100 44 [1, 2, 3, 4] (5, 6) (\<lambda>_. 0) (\<lambda>_. 0) = Some m'
    \<and> xtea_cbc_encrypt load_word store_word 0x100 0x100 48 [1, 2, 3, 4] (5, 6) (\<lambda>_. 0) (\<lambda>_. 0) = Some m'' \<and> m' (0x100 + 47) = m'' (0x100 + 47)"
proof -
  have r: "(0 :: nat) < 4" "(4 :: nat) < 8" "8 * 5 + 16 < (2 :: nat) ^ 32" by simp_all
  have l: "(of_nat (8 * 5 + 4) :: u32) = 44" "(of_nat (8 * 5 + 8) :: u32) = 48" by simp_all
  have a: "(0x100 + 47 :: u32) - 0x100 < 48" by simp
  show ?thesis
    using xtea_cbc_overrun[OF r, of "0x100" "[1, 2, 3, 4]" "(5, 6)" "\<lambda>_. 0" "\<lambda>_. 0", unfolded l] a by blast
qed

end
