(* ===== verification/Crc.thy ===== *)
theory Crc
  imports Prelude
begin

text \<open>
  The cyclic redundancy checks of app/test_crc.c: three bit-serial ones and the table-driven
  CRC-32 of xz, on bytes in memory. The bit-serial reference of the table, the detection of errors in one
  byte by all of them and the values the comments of the source announce.
\<close>

unbundle bit_operations_syntax

subsection \<open>The code\<close>

definition crc16_bit :: "u16 \<Rightarrow> u16" where
  "crc16_bit crc = push_bit 1 crc XOR (if crc AND 0x8000 \<noteq> 0 then 0x1021 else 0)"

fun crc16_loop :: "byte_mem \<Rightarrow> u32 \<Rightarrow> nat \<Rightarrow> u16 \<Rightarrow> u16" where
  "crc16_loop m data 0 crc = crc"
| "crc16_loop m data (Suc n) crc = crc16_loop m (data + 1) n ((crc16_bit ^^ 8) (crc XOR push_bit 8 (ucast (m data))))"

definition crc16 :: "byte_mem \<Rightarrow> u32 \<Rightarrow> u32 \<Rightarrow> u16" where
  "crc16 m data len = crc16_loop m data (unat len) 0xFFFF"

definition crc32_bit :: "u32 \<Rightarrow> u32" where
  "crc32_bit crc = push_bit 1 crc XOR (if crc AND 0x80000000 \<noteq> 0 then 0x04C11DB7 else 0)"

fun crc32_loop :: "byte_mem \<Rightarrow> u32 \<Rightarrow> nat \<Rightarrow> u32 \<Rightarrow> u32" where
  "crc32_loop m data 0 crc = crc"
| "crc32_loop m data (Suc n) crc = crc32_loop m (data + 1) n ((crc32_bit ^^ 8) (crc XOR push_bit 24 (ucast (m data))))"

definition crc32 :: "byte_mem \<Rightarrow> u32 \<Rightarrow> u32 \<Rightarrow> u32" where
  "crc32 m data len = crc32_loop m data (unat len) (NOT 0)"

definition crc64_bit :: "u64 \<Rightarrow> u64" where
  "crc64_bit crc = push_bit 1 crc XOR (if crc AND 0x8000000000000000 \<noteq> 0 then 0x42F0E1EBA9EA3693 else 0)"

fun crc64_loop :: "byte_mem \<Rightarrow> u32 \<Rightarrow> nat \<Rightarrow> u64 \<Rightarrow> u64" where
  "crc64_loop m data 0 crc = crc"
| "crc64_loop m data (Suc n) crc = crc64_loop m (data + 1) n ((crc64_bit ^^ 8) (crc XOR push_bit 56 (ucast (m data))))"

definition crc64 :: "byte_mem \<Rightarrow> u32 \<Rightarrow> u32 \<Rightarrow> u64" where
  "crc64 m data len = crc64_loop m data (unat len) 0"

definition xz_bit :: "u32 \<Rightarrow> u32" where
  "xz_bit r = drop_bit 1 r XOR (0xEDB88320 AND NOT ((r AND 1) - 1))"

definition xz_crc32_init :: "u32 list" where
  "xz_crc32_init = map (\<lambda>i. (xz_bit ^^ 8) (of_nat i)) [0..<256]"

fun xz_crc32_loop :: "u32 list \<Rightarrow> byte_mem \<Rightarrow> u32 \<Rightarrow> nat \<Rightarrow> u32 \<Rightarrow> u32" where
  "xz_crc32_loop table m buf 0 crc = crc"
| "xz_crc32_loop table m buf (Suc n) crc =
     xz_crc32_loop table m (buf + 1) n (table ! unat (ucast (m buf) XOR (crc AND 0xFF)) XOR drop_bit 8 crc)"

definition xz_crc32 :: "u32 list \<Rightarrow> byte_mem \<Rightarrow> u32 \<Rightarrow> u32 \<Rightarrow> u32 \<Rightarrow> u32" where
  "xz_crc32 table m buf sz crc = NOT (xz_crc32_loop table m buf (unat sz) (NOT crc))"

subsection \<open>A table-driven step is eight bit-serial ones\<close>

lemma xz_bit_if: "xz_bit r = drop_bit 1 r XOR (if bit r 0 then 0xEDB88320 else 0)"
proof -
  have "r AND 1 = (if bit r 0 then 1 else 0)" by (rule bit_word_eqI) (auto simp: bit_simps intro: gr0I)
  then show ?thesis by (simp add: xz_bit_def)
qed

lemma xz_bit_xor: "xz_bit (a XOR b) = xz_bit a XOR xz_bit b"
  by (auto simp: xz_bit_if bit_xor_iff drop_bit_xor xor.assoc xor.left_commute)

lemma xz_bits_xor: "(xz_bit ^^ n) (a XOR b) = (xz_bit ^^ n) a XOR (xz_bit ^^ n) b"
  by (induction n) (simp_all add: xz_bit_xor)

lemma xz_bits_high: "(\<And>k. k < n \<Longrightarrow> \<not> bit r k) \<Longrightarrow> (xz_bit ^^ n) r = drop_bit n r"
proof (induction n arbitrary: r)
  case (Suc n)
  have "xz_bit r = drop_bit 1 r" using Suc.prems[of 0] by (simp add: xz_bit_if)
  moreover have "(xz_bit ^^ n) (drop_bit 1 r) = drop_bit n (drop_bit 1 r)"
    by (rule Suc.IH) (use Suc.prems in \<open>simp add: bit_drop_bit_eq\<close>)
  ultimately show ?case by (simp add: funpow_Suc_right drop_bit_drop_bit del: funpow.simps)
qed simp

lemma table_nth: "k < 256 \<Longrightarrow> xz_crc32_init ! k = (xz_bit ^^ 8) (of_nat k)"
  unfolding xz_crc32_init_def by (subst nth_map) (simp_all only: length_upt nth_upt add_0 minus_nat.diff_0)

lemma table_step:
  fixes c :: u8 and crc :: u32
  shows "xz_crc32_init ! unat (ucast c XOR (crc AND 0xFF)) XOR drop_bit 8 crc = (xz_bit ^^ 8) (crc XOR ucast c)"
proof -
  let ?i = "ucast c XOR (crc AND 0xFF) :: u32"
  have m: "(0xFF :: u32) = mask 8" by (simp add: mask_eq_exp_minus_1)
  have "?i = ?i AND mask 8"
    by (rule bit_word_eqI) (auto simp: m bit_simps dest: bit_imp_le_length)
  then have "unat ?i = unat ?i mod 2 ^ 8" by (metis unat_and_mask)
  then have i: "unat ?i < 256" using mod_less_divisor[of 256 "unat ?i"] by simp
  have "xz_crc32_init ! unat ?i = (xz_bit ^^ 8) ?i" by (simp only: table_nth[OF i] of_nat_unat ucast_id)
  moreover have "(xz_bit ^^ 8) (crc AND NOT 0xFF) = drop_bit 8 (crc AND NOT 0xFF)"
    by (rule xz_bits_high) (simp add: m bit_simps)
  moreover have "drop_bit 8 (crc AND NOT 0xFF) = drop_bit 8 crc"
    by (rule bit_word_eqI) (auto simp: m bit_simps dest: bit_imp_le_length)
  moreover have "crc XOR ucast c = ?i XOR (crc AND NOT 0xFF)"
    by (rule bit_word_eqI) (auto simp: m bit_simps)
  ultimately show ?thesis by (simp only: xz_bits_xor)
qed

subsection \<open>The shift registers are injective\<close>

definition shift_register :: "'a::len word \<Rightarrow> 'a word \<Rightarrow> 'a word" where
  "shift_register poly r = push_bit 1 r XOR (if bit r (LENGTH('a) - 1) then poly else 0)"

lemma shift_register_inj:
  fixes poly :: "'a::len word"
  assumes odd: "bit poly 0" and eq: "shift_register poly x = shift_register poly y"
  shows "x = y"
proof -
  have b0: "bit (shift_register poly r) 0 \<longleftrightarrow> bit r (LENGTH('a) - 1)" for r
    unfolding shift_register_def bit_xor_iff bit_push_bit_iff using odd by simp
  then have top: "bit x (LENGTH('a) - 1) \<longleftrightarrow> bit y (LENGTH('a) - 1)" using eq by metis
  then have sh: "push_bit 1 x = push_bit 1 y"
  proof -
    define c where "c = (if bit y (LENGTH('a) - 1) then poly else 0)"
    have "push_bit 1 x XOR c = push_bit 1 y XOR c" using eq top by (simp only: shift_register_def c_def)
    then have "(push_bit 1 x XOR c) XOR c = (push_bit 1 y XOR c) XOR c" by (rule arg_cong)
    then show ?thesis by (simp only: xor.assoc xor_self_eq xor.right_neutral)
  qed
  show "x = y"
  proof (rule bit_word_eqI)
    fix n assume n: "n < LENGTH('a)"
    show "bit x n \<longleftrightarrow> bit y n"
    proof (cases "Suc n < LENGTH('a)")
      case True
      have "bit (push_bit 1 x) (Suc n) \<longleftrightarrow> bit (push_bit 1 y) (Suc n)" using sh by simp
      then show ?thesis using True by (simp only: bit_push_bit_iff possible_bit_word) simp
    next
      case False
      then have "n = LENGTH('a) - 1" using n by simp
      then show ?thesis using top by simp
    qed
  qed
qed

lemma and_push_bit_one:
  fixes r :: "'a::len word"
  assumes "k < LENGTH('a)"
  shows "r AND push_bit k 1 \<noteq> 0 \<longleftrightarrow> bit r k"
proof -
  have "r AND push_bit k 1 = (if bit r k then push_bit k 1 else 0)" by (rule bit_word_eqI) (auto simp: bit_simps)
  moreover have "bit (push_bit k (1 :: 'a word)) k" using assms by (simp add: bit_exp_iff)
  then have "push_bit k (1 :: 'a word) \<noteq> 0" by (metis bit_0_eq bot_apply bot_bool_def)
  ultimately show ?thesis by simp
qed

lemma crc_bits:
  "crc16_bit = shift_register 0x1021" "crc32_bit = shift_register 0x04C11DB7" "crc64_bit = shift_register 0x42F0E1EBA9EA3693"
proof -
  show "crc16_bit = shift_register 0x1021" using and_push_bit_one[of 15, where 'a = 16] by (auto simp: fun_eq_iff crc16_bit_def shift_register_def)
  show "crc32_bit = shift_register 0x04C11DB7" using and_push_bit_one[of 31, where 'a = 32] by (auto simp: fun_eq_iff crc32_bit_def shift_register_def)
  show "crc64_bit = shift_register 0x42F0E1EBA9EA3693" using and_push_bit_one[of 63, where 'a = 64] by (auto simp: fun_eq_iff crc64_bit_def shift_register_def)
qed

subsection \<open>Runs over a message\<close>

definition message :: "byte_mem \<Rightarrow> u32 \<Rightarrow> nat \<Rightarrow> u8 list" where
  "message m p n = map (\<lambda>k. m (p + of_nat k)) [0..<n]"

lemma message_Suc: "message m p (Suc n) = m p # message m (p + 1) n"
  by (simp add: message_def upt_conv_Cons map_Suc_upt[symmetric] comp_def add.assoc del: upt_Suc)

lemma crc_loops:
  "crc16_loop m p n c16 = fold (\<lambda>b crc. (crc16_bit ^^ 8) (crc XOR push_bit 8 (ucast b))) (message m p n) c16"
  "crc32_loop m p n c32 = fold (\<lambda>b crc. (crc32_bit ^^ 8) (crc XOR push_bit 24 (ucast b))) (message m p n) c32"
  "crc64_loop m p n c64 = fold (\<lambda>b crc. (crc64_bit ^^ 8) (crc XOR push_bit 56 (ucast b))) (message m p n) c64"
  "xz_crc32_loop xz_crc32_init m p n c = fold (\<lambda>b crc. (xz_bit ^^ 8) (crc XOR ucast b)) (message m p n) c"
proof -
  show "crc16_loop m p n c16 = fold (\<lambda>b crc. (crc16_bit ^^ 8) (crc XOR push_bit 8 (ucast b))) (message m p n) c16"
    by (induction n arbitrary: p c16) (simp_all only: crc16_loop.simps message_Suc fold.simps comp_def, simp add: message_def)
  show "crc32_loop m p n c32 = fold (\<lambda>b crc. (crc32_bit ^^ 8) (crc XOR push_bit 24 (ucast b))) (message m p n) c32"
    by (induction n arbitrary: p c32) (simp_all only: crc32_loop.simps message_Suc fold.simps comp_def, simp add: message_def)
  show "crc64_loop m p n c64 = fold (\<lambda>b crc. (crc64_bit ^^ 8) (crc XOR push_bit 56 (ucast b))) (message m p n) c64"
    by (induction n arbitrary: p c64) (simp_all only: crc64_loop.simps message_Suc fold.simps comp_def, simp add: message_def)
  show "xz_crc32_loop xz_crc32_init m p n c = fold (\<lambda>b crc. (xz_bit ^^ 8) (crc XOR ucast b)) (message m p n) c"
    by (induction n arbitrary: p c) (simp_all only: xz_crc32_loop.simps message_Suc fold.simps comp_def table_step, simp add: message_def)
qed

lemma message_append: "message m p (i + j) = message m p i @ message m (p + of_nat i) j"
proof (induction i arbitrary: p)
  case (Suc i)
  have e: "p + 1 + of_nat i = p + of_nat (Suc i)" by (simp add: add.assoc)
  show ?case by (simp only: add_Suc message_Suc append_Cons Suc[of "p + 1"] e)
qed (simp add: message_def)

text \<open>C20: the table-driven CRC-32 of xz equals the bit-serial reflected CRC-32 on every message, and it can be
  computed in pieces: the value of the first part is the start value for the second.\<close>

theorem xz_crc32_bitwise:
  "xz_crc32 xz_crc32_init m buf n crc
     = NOT (fold (\<lambda>b r. (xz_bit ^^ 8) (r XOR ucast b)) (message m buf (unat n)) (NOT crc))
   \<and> (unat n + unat k < 2 ^ 32 \<longrightarrow>
       xz_crc32 xz_crc32_init m (buf + n) k (xz_crc32 xz_crc32_init m buf n crc) = xz_crc32 xz_crc32_init m buf (n + k) crc)"
proof -
  have eq: "xz_crc32 xz_crc32_init m buf n crc
     = NOT (fold (\<lambda>b r. (xz_bit ^^ 8) (r XOR ucast b)) (message m buf (unat n)) (NOT crc))" for buf n crc
    by (simp add: xz_crc32_def crc_loops)
  show ?thesis
  proof (intro conjI impI eq)
    assume "unat n + unat k < 2 ^ 32"
    then have "unat (n + k) = unat n + unat k" by (simp add: unat_word_ariths)
    then show "xz_crc32 xz_crc32_init m (buf + n) k (xz_crc32 xz_crc32_init m buf n crc) = xz_crc32 xz_crc32_init m buf (n + k) crc"
      by (simp add: eq message_append)
  qed
qed

subsection \<open>Errors in one byte\<close>

lemma funpow_inj:
  fixes f :: "'a \<Rightarrow> 'a"
  assumes "inj f"
  shows "inj (f ^^ n)"
proof (induction n)
  case (Suc n)
  then show ?case using inj_compose[OF assms Suc] by (simp add: comp_def)
qed simp

lemma xor_cancel_right: "a XOR c = b XOR c \<Longrightarrow> a = (b :: 'a::len word)"
proof -
  assume "a XOR c = b XOR c"
  then have "(a XOR c) XOR c = (b XOR c) XOR c" by (rule arg_cong)
  then show "a = b" by (simp only: xor.assoc xor_self_eq xor.right_neutral)
qed

text \<open>A run of an injective step tells apart messages that differ in one byte.\<close>

lemma fold_detects:
  assumes inj: "\<And>b. inj (step b)" and byte: "\<And>crc. inj (\<lambda>b. step b crc)"
    and len: "k < length xs" and diff: "b \<noteq> xs ! k"
  shows "fold step (xs[k := b]) crc \<noteq> fold step xs crc"
proof -
  have runs: "inj (fold step ys)" for ys
  proof (induction ys)
    case (Cons y ys)
    then show ?case using inj_compose[OF Cons inj[of y]] by (simp add: comp_def)
  qed simp
  let ?s = "fold step (take k xs) crc"
  have "step b ?s \<noteq> step (xs ! k) ?s" using byte diff by (auto dest: injD)
  then have "fold step (drop (Suc k) xs) (step b ?s) \<noteq> fold step (drop (Suc k) xs) (step (xs ! k) ?s)"
    using runs by (auto dest: injD)
  moreover have "fold step (xs[k := b]) crc = fold step (drop (Suc k) xs) (step b ?s)"
    using len by (simp add: upd_conv_take_nth_drop)
  moreover have "fold step xs crc = fold step (drop (Suc k) xs) (step (xs ! k) ?s)"
    by (subst id_take_nth_drop[OF len]) simp
  ultimately show ?thesis by simp
qed

lemma shift8_inj:
  fixes poly :: "'a::len word"
  assumes "bit poly 0"
  shows "inj (shift_register poly ^^ 8)"
  by (intro funpow_inj injI) (rule shift_register_inj[OF assms])

lemma shift_steps_inj:
  fixes poly :: "'a::len word"
  assumes "bit poly 0"
  shows "inj (\<lambda>crc. (shift_register poly ^^ 8) (crc XOR c))"
proof (rule injI)
  fix x y
  assume "(shift_register poly ^^ 8) (x XOR c) = (shift_register poly ^^ 8) (y XOR c)"
  from injD[OF shift8_inj[OF assms] this] show "x = y" by (rule xor_cancel_right)
qed

lemma shift_byte_inj:
  fixes poly :: "'a::len word"
  assumes "bit poly 0" "n + 8 = LENGTH('a)"
  shows "inj (\<lambda>b :: u8. (shift_register poly ^^ 8) (crc XOR push_bit n (ucast b)))"
proof (rule injI)
  fix b c :: u8
  assume "(shift_register poly ^^ 8) (crc XOR push_bit n (ucast b)) = (shift_register poly ^^ 8) (crc XOR push_bit n (ucast c))"
  from injD[OF shift8_inj[OF assms(1)] this] have "crc XOR push_bit n (ucast b) = crc XOR push_bit n (ucast c)" .
  then have "push_bit n (ucast b) XOR crc = push_bit n (ucast c) XOR crc" by (simp only: xor.commute)
  then have e: "push_bit n (ucast b :: 'a word) = push_bit n (ucast c)" by (rule xor_cancel_right)
  show "b = c"
  proof (rule bit_word_eqI)
    fix i assume "i < LENGTH(8)"
    then have i: "i < 8" by simp
    have "bit (push_bit n (ucast b :: 'a word)) (n + i) = bit (push_bit n (ucast c :: 'a word)) (n + i)" using e by simp
    then show "bit b i = bit c i" using i assms(2) by (simp add: bit_push_bit_iff bit_simps)
  qed
qed

lemma xz_bit_inj: "inj xz_bit"
proof (rule injI)
  fix x y assume eq: "xz_bit x = xz_bit y"
  have top: "bit (xz_bit r) 31 \<longleftrightarrow> bit r 0" for r
  proof -
    have "\<not> bit (drop_bit 1 r) 31" using bit_imp_le_length[of r 32] by (auto simp: bit_drop_bit_eq)
    moreover have "bit (0xEDB88320 :: u32) 31" by code_simp
    ultimately show ?thesis unfolding xz_bit_if bit_xor_iff by simp
  qed
  have low: "bit x 0 \<longleftrightarrow> bit y 0" using top[of x] top[of y] eq by simp
  define c :: u32 where "c = (if bit y 0 then 0xEDB88320 else 0)"
  have "drop_bit 1 x XOR c = drop_bit 1 y XOR c" using eq low by (simp only: xz_bit_if c_def)
  then have "drop_bit 1 x = drop_bit 1 y" by (rule xor_cancel_right)
  then have "bit (drop_bit 1 x) n \<longleftrightarrow> bit (drop_bit 1 y) n" for n by simp
  then have "bit x (Suc n) \<longleftrightarrow> bit y (Suc n)" for n by (simp only: bit_drop_bit_eq comp_def) simp
  then have "bit x n \<longleftrightarrow> bit y n" for n using low by (cases n) simp_all
  then show "x = y" by (intro bit_word_eqI) blast
qed

lemma message_update:
  assumes "k < n" "n \<le> 2 ^ 32"
  shows "message (m(p + of_nat k := c)) p n = (message m p n)[k := c]"
proof (rule nth_equalityI)
  fix i assume "i < length (message (m(p + of_nat k := c)) p n)"
  then have i: "i < n" by (simp add: message_def)
  have "p + of_nat i = p + of_nat k \<longleftrightarrow> i = k"
  proof -
    have "unat (of_nat i :: u32) = i" "unat (of_nat k :: u32) = k" using i assms by (simp_all add: unat_of_nat take_bit_nat_eq_self)
    then show ?thesis by (metis add_left_cancel)
  qed
  then show "message (m(p + of_nat k := c)) p n ! i = (message m p n)[k := c] ! i"
    using i assms(1) by (auto simp: message_def nth_list_update)
qed (simp add: message_def)

text \<open>C21: every one of the four checksums detects an error that is confined to one byte: if one byte of the message
  is replaced by another value, the checksum is a different one, for messages of every length.\<close>

theorem crc_detects_byte:
  assumes "k < unat len" "c \<noteq> m (p + of_nat k)"
  shows "crc16 (m(p + of_nat k := c)) p len \<noteq> crc16 m p len \<and> crc32 (m(p + of_nat k := c)) p len \<noteq> crc32 m p len
    \<and> crc64 (m(p + of_nat k := c)) p len \<noteq> crc64 m p len
    \<and> xz_crc32 xz_crc32_init (m(p + of_nat k := c)) p len start \<noteq> xz_crc32 xz_crc32_init m p len start"
proof -
  have upd: "message (m(p + of_nat k := c)) p (unat len) = (message m p (unat len))[k := c]"
    by (rule message_update) (use assms(1) unat_bound[of len] in simp_all)
  have len: "k < length (message m p (unat len))" "c \<noteq> message m p (unat len) ! k" using assms by (simp_all add: message_def)
  have odd: "bit (0x1021 :: u16) 0" "bit (0x04C11DB7 :: u32) 0" "bit (0x42F0E1EBA9EA3693 :: u64) 0" by simp_all
  have xz: "inj (\<lambda>crc. (xz_bit ^^ 8) (crc XOR ucast b))" "inj (\<lambda>b :: u8. (xz_bit ^^ 8) (crc XOR ucast b))" for b :: u8 and crc
  proof -
    note i8 = funpow_inj[OF xz_bit_inj, of 8]
    show "inj (\<lambda>crc. (xz_bit ^^ 8) (crc XOR ucast b))" by (rule injI) (drule injD[OF i8], rule xor_cancel_right)
    show "inj (\<lambda>b :: u8. (xz_bit ^^ 8) (crc XOR ucast b))"
    proof (rule injI)
      fix b c :: u8 assume "(xz_bit ^^ 8) (crc XOR ucast b) = (xz_bit ^^ 8) (crc XOR ucast c)"
      from injD[OF i8 this] have "ucast b XOR crc = ucast c XOR crc" by (simp only: xor.commute)
      then have "(ucast b :: u32) = ucast c" by (rule xor_cancel_right)
      then have e: "bit (ucast b :: u32) i \<longleftrightarrow> bit (ucast c :: u32) i" for i by simp
      show "b = c"
      proof (rule bit_word_eqI)
        fix i assume "i < LENGTH(8)"
        then show "bit b i \<longleftrightarrow> bit c i" using e[of i] by (simp add: bit_ucast_iff)
      qed
    qed
  qed
  show ?thesis
    unfolding crc16_def crc32_def crc64_def xz_crc32_def crc_loops upd crc_bits
    using fold_detects[OF shift_steps_inj[OF odd(1)] shift_byte_inj[OF odd(1), of 8] len]
      fold_detects[OF shift_steps_inj[OF odd(2)] shift_byte_inj[OF odd(2), of 24] len]
      fold_detects[OF shift_steps_inj[OF odd(3)] shift_byte_inj[OF odd(3), of 56] len] fold_detects[OF xz len]
    by simp
qed

text \<open>The check values the comments of the source give, on the digits 1 to 9.\<close>

definition digits_mem :: byte_mem where
  "digits_mem a = (if 1 \<le> a \<and> a \<le> 9 then 0x30 + ucast a else 0)"

lemma unroll: "(f ^^ 8) x = f (f (f (f (f (f (f (f x)))))))" "unat (9 :: u32) = Suc (Suc (Suc (Suc (Suc (Suc (Suc (Suc (Suc 0))))))))"
  by (simp add: eval_nat_numeral, simp)

lemma crc_check_values:
  "crc16 digits_mem 1 9 = 0x29B1" "crc32 digits_mem 1 9 = 0x0376E6E7" "crc64 digits_mem 1 9 = 0x6C40DF5F0B497347"
proof -
  show "crc16 digits_mem 1 9 = 0x29B1"
    unfolding crc16_def unroll crc16_loop.simps by (simp add: digits_mem_def crc16_bit_def)
  show "crc32 digits_mem 1 9 = 0x0376E6E7"
    unfolding crc32_def unroll crc32_loop.simps by (simp add: digits_mem_def crc32_bit_def)
  show "crc64 digits_mem 1 9 = 0x6C40DF5F0B497347"
    unfolding crc64_def unroll crc64_loop.simps by (simp add: digits_mem_def crc64_bit_def)
qed

theorem crc_detects_byte_witness:
  "crc16 (digits_mem(1 + of_nat 3 := 0)) 1 9 \<noteq> 0x29B1 \<and> crc32 (digits_mem(1 + of_nat 3 := 0)) 1 9 \<noteq> 0x0376E6E7
   \<and> crc64 (digits_mem(1 + of_nat 3 := 0)) 1 9 \<noteq> 0x6C40DF5F0B497347"
proof -
  have "3 < unat (9 :: u32)" "0 \<noteq> digits_mem (1 + of_nat 3)" by code_simp+
  from crc_detects_byte[of 3 9 0 digits_mem 1, OF this, of 0] show ?thesis by (simp only: crc_check_values) blast
qed

theorem xz_crc32_bitwise_witness:
  "xz_crc32 xz_crc32_init digits_mem (1 + 4) 5 (xz_crc32 xz_crc32_init digits_mem 1 4 0) = xz_crc32 xz_crc32_init digits_mem 1 (4 + 5) 0"
proof -
  have "unat (4 :: u32) + unat (5 :: u32) < 2 ^ 32" by simp
  then show ?thesis by (rule xz_crc32_bitwise[THEN conjunct2, rule_format])
qed

end
