(* ===== verification/Base64.thy ===== *)
theory Base64
  imports Prelude "HOL-Library.Monad_Syntax"
begin

text \<open>
  Base64 of app/base64.c. The source and the result of a function are lists of bytes; the buffer from \<open>malloc\<close> is
  given by its size, and whether it could be allocated is a parameter. \<open>None\<close> is the null pointer.
\<close>

unbundle bit_operations_syntax

subsection \<open>Encoding\<close>

definition base64_table :: "u8 list" where
  "base64_table = map of_char ''ABCDEFGHIJKLMNOPQRSTUVWXYZabcdefghijklmnopqrstuvwxyz0123456789+/''"

abbreviation (input) digit64 :: "u8 \<Rightarrow> u8" where "digit64 i \<equiv> base64_table ! unat i"

text \<open>The loop over the blocks of three; the results are the rest of the source, \<open>line_len\<close> and the output.\<close>

fun encode_loop :: "u8 list \<Rightarrow> u32 \<Rightarrow> u8 list \<Rightarrow> u8 list \<times> u32 \<times> u8 list" where
  "encode_loop (a # b # c # rest) line_len out =
     (let out = out @ [digit64 (drop_bit 2 a), digit64 (push_bit 4 (a AND 3) OR drop_bit 4 b),
                       digit64 (push_bit 2 (b AND 0xF) OR drop_bit 6 c), digit64 (c AND 0x3F)];
          line_len = line_len + 4
      in if 72 \<le>s line_len then encode_loop rest 0 (out @ [10]) else encode_loop rest line_len out)"
| "encode_loop rest line_len out = (rest, line_len, out)"

definition encode_rest :: "u8 list \<Rightarrow> u8 list" where
  "encode_rest rest =
     (case rest of
        [] \<Rightarrow> []
      | [a] \<Rightarrow> [digit64 (drop_bit 2 a), digit64 (push_bit 4 (a AND 3)), 0x3D, 0x3D]
      | a # b # _ \<Rightarrow> [digit64 (drop_bit 2 a), digit64 (push_bit 4 (a AND 3) OR drop_bit 4 b), digit64 (push_bit 2 (b AND 0xF)), 0x3D])"

definition encode_size :: "u32 \<Rightarrow> u32" where
  "encode_size len = (let olen = len * 4 div 3 + 4; olen = olen + olen div 72 in olen + 1)"

text \<open>The results are the text with its terminator and \<open>*out_len\<close>.\<close>

definition base64_encode :: "(u32 \<Rightarrow> bool) \<Rightarrow> u8 list \<Rightarrow> (u8 list \<times> u32) option" where
  "base64_encode malloc_ok src =
     (let len = of_nat (length src); olen = encode_size len
      in if olen < len then None
         else if \<not> malloc_ok olen then None
         else let (rest, line_len, out) = encode_loop src 0 [];
                  out = out @ encode_rest rest;
                  line_len = (if rest \<noteq> [] then line_len + 4 else line_len);
                  out = (if line_len \<noteq> 0 then out @ [10] else out)
              in Some (out @ [0], of_nat (length out)))"

subsection \<open>Decoding\<close>

definition dtable :: "u8 list" where
  "dtable = (fold (\<lambda>i d. d[unat (base64_table ! i) := of_nat i]) [0..<64] (replicate 256 0x80))[0x3D := 0]"

fun decode_loop :: "u8 list \<Rightarrow> u8 list \<Rightarrow> nat \<Rightarrow> u8 list \<Rightarrow> u8 list option" where
  "decode_loop [] block pad out = Some out"
| "decode_loop (c # cs) block pad out =
     (let tmp = dtable ! unat c
      in if tmp = 0x80 then decode_loop cs block pad out
         else let pad = (if c = 0x3D then pad + 1 else pad); block = block @ [tmp]
              in if length block = 4 then
                   let out = out @ [push_bit 2 (block ! 0) OR drop_bit 4 (block ! 1),
                                    push_bit 4 (block ! 1) OR drop_bit 2 (block ! 2), push_bit 6 (block ! 2) OR block ! 3]
                   in if pad \<noteq> 0 then
                        if pad = 1 then Some (take (length out - 1) out)
                        else if pad = 2 then Some (take (length out - 2) out) else None
                      else decode_loop cs [] pad out
                 else decode_loop cs block pad out)"

definition base64_decode :: "(u32 \<Rightarrow> bool) \<Rightarrow> u8 list \<Rightarrow> u8 list option" where
  "base64_decode malloc_ok src =
     (let count = of_nat (length (filter (\<lambda>c. dtable ! unat c \<noteq> 0x80) src)) :: u32
      in if count = 0 \<or> count mod 4 \<noteq> 0 then None
         else if \<not> malloc_ok (count div 4 * 3) then None
         else decode_loop src [] 0 [])"

subsection \<open>The tables\<close>

lemma dtable_eq: "map (\<lambda>i. dtable ! unat (base64_table ! i)) [0..<64] = map of_nat [0..<64]"
  by code_simp

lemma dtable_digit: "unat i < 64 \<Longrightarrow> dtable ! unat (digit64 i) = i"
proof -
  assume "unat i < 64"
  then have "map (\<lambda>i. dtable ! unat (base64_table ! i)) [0..<64] ! unat i = dtable ! unat (digit64 i)"
    "map of_nat [0..<64] ! unat i = (of_nat (unat i) :: u8)" by (subst nth_map; simp)+
  then show ?thesis unfolding dtable_eq by simp
qed

lemma digit_not_pad: "\<forall>c\<in>set base64_table. c \<noteq> 0x3D \<and> c \<noteq> 10"
  by code_simp

lemma dtable_special: "dtable ! unat (10 :: u8) = 0x80" "dtable ! unat (0x3D :: u8) = 0"
  by code_simp+

lemma base64_table_length: "length base64_table = 64"
  by code_simp

end
