(* ===== verification/Base64_Props.thy ===== *)
theory Base64_Props
  imports Base64
begin

text \<open>Decoding what was encoded gives the source back, and the encoder stays inside its buffer.\<close>

unbundle bit_operations_syntax

subsection \<open>Groups of four characters\<close>

lemma six_bits: "(\<And>n. bit i n \<Longrightarrow> n < 6) \<Longrightarrow> unat (i :: u8) < 64"
proof -
  assume a: "\<And>n. bit i n \<Longrightarrow> n < 6"
  have "i = i AND mask 6" by (rule bit_word_eqI) (auto simp: bit_simps dest: a)
  then have "unat i = unat i mod 2 ^ 6" by (metis unat_and_mask)
  then show ?thesis using mod_less_divisor[of 64 "unat i"] by simp
qed

lemma masks8: "(3 :: u8) = mask 2" "(0xF :: u8) = mask 4" "(0x3F :: u8) = mask 6"
  by (simp_all add: mask_eq_exp_minus_1)

lemma group_digits:
  fixes a b c :: u8
  shows "unat (drop_bit 2 a) < 64" "unat (push_bit 4 (a AND 3) OR drop_bit 4 b) < 64"
    "unat (push_bit 2 (b AND 0xF) OR drop_bit 6 c) < 64" "unat (c AND 0x3F) < 64"
    "unat (push_bit 4 (a AND 3)) < 64" "unat (push_bit 2 (b AND 0xF)) < 64"
  by (rule six_bits, auto simp: masks8 bit_simps dest: bit_imp_le_length)+

lemma bit_index_8: "n < LENGTH(8) \<Longrightarrow> n = 0 \<or> n = 1 \<or> n = 2 \<or> n = 3 \<or> n = 4 \<or> n = 5 \<or> n = 6 \<or> n = 7"
  by auto

lemma group_bytes:
  fixes a b c :: u8
  shows "push_bit 2 (drop_bit 2 a) OR drop_bit 4 (push_bit 4 (a AND 3) OR drop_bit 4 b) = a"
    "push_bit 4 (push_bit 4 (a AND 3) OR drop_bit 4 b) OR drop_bit 2 (push_bit 2 (b AND 0xF) OR drop_bit 6 c) = b"
    "push_bit 6 (push_bit 2 (b AND 0xF) OR drop_bit 6 c) OR (c AND 0x3F) = c"
    "push_bit 2 (drop_bit 2 a) OR drop_bit 4 (push_bit 4 (a AND 3)) = a"
    "push_bit 4 (push_bit 4 (a AND 3) OR drop_bit 4 b) OR drop_bit 2 (push_bit 2 (b AND 0xF)) = b"
  by (rule bit_word_eqI, drule bit_index_8, elim disjE; simp add: masks8 bit_simps)+

lemma digit_facts:
  assumes "unat (i :: u8) < 64"
  shows "dtable ! unat (base64_table ! unat i) = i" "base64_table ! unat i \<noteq> 0x3D" "base64_table ! unat i \<noteq> 10" "i \<noteq> 0x80"
  using dtable_digit[OF assms] digit_not_pad assms base64_table_length by auto

lemma decode_group:
  assumes "unat w < 64" "unat x < 64" "unat y < 64" "unat z < 64"
  shows "decode_loop (base64_table ! unat w # base64_table ! unat x # base64_table ! unat y # base64_table ! unat z # cs) [] 0 out
    = decode_loop cs [] 0 (out @ [push_bit 2 w OR drop_bit 4 x, push_bit 4 x OR drop_bit 2 y, push_bit 6 y OR z])"
  by (simp add: digit_facts[OF assms(1)] digit_facts[OF assms(2)] digit_facts[OF assms(3)] digit_facts[OF assms(4)] Let_def)

lemma decode_newline: "decode_loop (10 # cs) block pad out = decode_loop cs block pad out"
  using dtable_special(1) by simp

declare decode_loop.simps(2) [simp del]

definition valid_chars :: "u8 list \<Rightarrow> nat" where
  "valid_chars xs = length (filter (\<lambda>c. dtable ! unat c \<noteq> 0x80) xs)"

lemma valid_chars_simps [simp]:
  "valid_chars [] = 0" "valid_chars (xs @ ys) = valid_chars xs + valid_chars ys" "valid_chars (10 # xs) = valid_chars xs"
  "valid_chars (0x3D # xs) = Suc (valid_chars xs)" "unat (i :: u8) < 64 \<Longrightarrow> valid_chars (base64_table ! unat i # xs) = Suc (valid_chars xs)"
proof -
  show "valid_chars [] = 0" "valid_chars (xs @ ys) = valid_chars xs + valid_chars ys" "valid_chars (10 # xs) = valid_chars xs"
    "valid_chars (0x3D # xs) = Suc (valid_chars xs)"
    using dtable_special by (auto simp: valid_chars_def)
  assume i: "unat i < 64"
  then have "dtable ! unat (base64_table ! unat i) \<noteq> 0x80" using digit_facts(1)[OF i] digit_facts(4)[OF i] by metis
  then show "valid_chars (base64_table ! unat i # xs) = Suc (valid_chars xs)" by (simp add: valid_chars_def)
qed

subsection \<open>The encoding loop\<close>

lemma line_wrap:
  assumes "j < 18"
  shows "72 \<le>s (of_nat (4 * j) + 4 :: u32) \<longleftrightarrow> j = 17" "(of_nat (4 * j) + 4 :: u32) = of_nat (4 * (j + 1))"
    "(of_nat (4 * j) :: u32) = 0 \<longleftrightarrow> j = 0"
proof -
  have s: "sint (of_nat (4 * i) :: u32) = int (4 * i)" if "i < 20" for i
    using that by (simp only: signed_of_nat) (simp add: signed_take_bit_int_eq_self)
  show e: "(of_nat (4 * j) + 4 :: u32) = of_nat (4 * (j + 1))" by simp
  have "72 \<le>s (of_nat (4 * (j + 1)) :: u32) \<longleftrightarrow> 72 \<le> int (4 * (j + 1))"
    using s[of "j + 1"] assms by (simp only: word_sle_eq) simp
  then show "72 \<le>s (of_nat (4 * j) + 4 :: u32) \<longleftrightarrow> j = 17" unfolding e using assms by auto
  show "(of_nat (4 * j) :: u32) = 0 \<longleftrightarrow> j = 0"
  proof
    assume "(of_nat (4 * j) :: u32) = 0"
    then have "int (4 * j) = 0" using s[of j] assms by simp
    then show "j = 0" by simp
  qed simp
qed

lemma encode_loop_spec:
  assumes "j < 18" "l = of_nat (4 * j)"
  shows "\<exists>t. encode_loop xs l out = (drop (3 * (length xs div 3)) xs, of_nat (4 * ((j + length xs div 3) mod 18)), out @ t)
    \<and> length t = 4 * (length xs div 3) + (j + length xs div 3) div 18 \<and> valid_chars t = 4 * (length xs div 3)
    \<and> (\<forall>tail acc. decode_loop (t @ tail) [] 0 acc = decode_loop tail [] 0 (acc @ take (3 * (length xs div 3)) xs))"
  using assms
proof (induction xs l out arbitrary: j rule: encode_loop.induct)
  case (1 a b c rest l out)
  let ?g = "[base64_table ! unat (drop_bit 2 a), base64_table ! unat (push_bit 4 (a AND 3) OR drop_bit 4 b),
    base64_table ! unat (push_bit 2 (b AND 0xF) OR drop_bit 6 c), base64_table ! unat (c AND 0x3F)]"
  define G where "G = ?g"
  let ?n = "length rest div 3"
  have e3: "3 * Suc ?n = Suc (Suc (Suc (3 * ?n)))" by simp
  have n: "length (a # b # c # rest) div 3 = Suc ?n" by simp
  note d = group_digits(1)[of a] group_digits(2)[of a b] group_digits(3)[of b c] group_digits(4)[of c]
  have g: "decode_loop (G @ tail) [] 0 acc = decode_loop tail [] 0 (acc @ [a, b, c])" for tail acc
    unfolding G_def by (simp only: append_Cons append_Nil decode_group[OF d] group_bytes)
  have v: "valid_chars (G @ xs) = 4 + valid_chars xs" for xs
    unfolding G_def by (simp only: append_Cons append_Nil valid_chars_simps(5)[OF d(1)] valid_chars_simps(5)[OF d(2)]
        valid_chars_simps(5)[OF d(3)] valid_chars_simps(5)[OF d(4)])
  have lG: "length G = 4" "valid_chars G = 4" using v[of "[]"] by (simp_all add: G_def)
  show ?case
  proof (cases "j = 17")
    case True
    then have w: "72 \<le>s l + 4" using line_wrap(1)[of j] 1(4) by simp
    obtain t where t: "encode_loop rest 0 (out @ G @ [10]) = (drop (3 * ?n) rest, of_nat (4 * (?n mod 18)), out @ G @ [10] @ t)"
      "length t = 4 * ?n + ?n div 18" "valid_chars t = 4 * ?n"
      "\<And>tail acc. decode_loop (t @ tail) [] 0 acc = decode_loop tail [] 0 (acc @ take (3 * ?n) rest)"
      using 1(1)[OF refl refl w, of 0] by (auto simp: G_def)
    have "encode_loop (a # b # c # rest) l out = (drop (3 * ?n) rest, of_nat (4 * (?n mod 18)), out @ G @ [10] @ t)"
      using w t(1) by (simp add: Let_def G_def)
    moreover have "(j + Suc ?n) mod 18 = ?n mod 18" "(j + Suc ?n) div 18 = Suc (?n div 18)" using True by simp_all
    ultimately show ?thesis unfolding n e3 using t(2,3,4) lG
      by (intro exI[of _ "G @ [10] @ t"]) (simp add: g decode_newline)
  next
    case False
    then have w: "\<not> 72 \<le>s l + 4" and j: "Suc j < 18" "l + 4 = of_nat (4 * Suc j)" using line_wrap[of j] 1(3,4) by simp_all
    obtain t where t: "encode_loop rest (l + 4) (out @ G) = (drop (3 * ?n) rest, of_nat (4 * ((Suc j + ?n) mod 18)), out @ G @ t)"
      "length t = 4 * ?n + (Suc j + ?n) div 18" "valid_chars t = 4 * ?n"
      "\<And>tail acc. decode_loop (t @ tail) [] 0 acc = decode_loop tail [] 0 (acc @ take (3 * ?n) rest)"
      using 1(2)[OF refl refl w j] by (auto simp: G_def)
    have "encode_loop (a # b # c # rest) l out = (drop (3 * ?n) rest, of_nat (4 * ((Suc j + ?n) mod 18)), out @ G @ t)"
      using w t(1) by (simp add: Let_def G_def)
    then show ?thesis unfolding n e3 using t(2,3,4) lG by (intro exI[of _ "G @ t"]) (simp add: g)
  qed
qed (rule exI[of _ "[]"], simp)+

subsection \<open>The rest and the whole text\<close>

lemma decode_rest:
  assumes "length rest < 3" "nl = [] \<or> nl = [10]"
  shows "decode_loop (encode_rest rest @ nl) [] 0 acc = Some (acc @ rest)"
    "valid_chars (encode_rest rest) = (if rest = [] then 0 else 4)" "length (encode_rest rest) = (if rest = [] then 0 else 4)"
proof -
  consider "rest = []" | a where "rest = [a]" | a b where "rest = [a, b]"
    using assms(1) by (cases rest; cases "tl rest"; cases "tl (tl rest)") auto
  then have "decode_loop (encode_rest rest @ nl) [] 0 acc = Some (acc @ rest)
    \<and> valid_chars (encode_rest rest) = (if rest = [] then 0 else 4) \<and> length (encode_rest rest) = (if rest = [] then 0 else 4)"
  proof cases
    case 1
    then show ?thesis using assms(2) by (auto simp: encode_rest_def decode_newline)
  next
    case (2 a)
    define w x where "w = drop_bit 2 a" and "x = push_bit 4 (a AND 3)"
    have d: "unat w < 64" "unat x < 64" "push_bit 2 w OR drop_bit 4 x = a" unfolding w_def x_def by (rule group_digits group_bytes)+
    have r: "encode_rest rest = [base64_table ! unat w, base64_table ! unat x, 0x3D, 0x3D]" by (simp add: 2 encode_rest_def w_def x_def)
    show ?thesis unfolding r
      using dtable_special by (simp add: 2 decode_loop.simps(2) digit_facts[OF d(1)] digit_facts[OF d(2)] Let_def d)
  next
    case (3 a b)
    define w x y where "w = drop_bit 2 a" and "x = push_bit 4 (a AND 3) OR drop_bit 4 b" and "y = push_bit 2 (b AND 0xF)"
    have d: "unat w < 64" "unat x < 64" "unat y < 64" "push_bit 2 w OR drop_bit 4 x = a" "push_bit 4 x OR drop_bit 2 y = b"
      unfolding w_def x_def y_def by (rule group_digits group_bytes)+
    have r: "encode_rest rest = [base64_table ! unat w, base64_table ! unat x, base64_table ! unat y, 0x3D]"
      by (simp add: 3 encode_rest_def w_def x_def y_def)
    show ?thesis unfolding r
      using dtable_special by (simp add: 3 decode_loop.simps(2) digit_facts[OF d(1)] digit_facts[OF d(2)] digit_facts[OF d(3)] Let_def d)
  qed
  then show "decode_loop (encode_rest rest @ nl) [] 0 acc = Some (acc @ rest)"
    "valid_chars (encode_rest rest) = (if rest = [] then 0 else 4)" "length (encode_rest rest) = (if rest = [] then 0 else 4)" by blast+
qed

lemma u32_of_nat: "n < 2 ^ 32 \<Longrightarrow> unat (of_nat n :: u32) = n"
  by (simp add: unat_of_nat take_bit_nat_eq_self)

lemma u32_div: "a < 2 ^ 32 \<Longrightarrow> b < 2 ^ 32 \<Longrightarrow> (of_nat a div of_nat b :: u32) = of_nat (a div b)"
  by (rule word_unat_eq_iff[THEN iffD2]) (simp add: unat_div u32_of_nat le_less_trans[OF div_le_dividend])

lemma encode_size_wrapped:
  fixes n :: nat
  defines "m \<equiv> 4 * n mod 2 ^ 32 div 3 + 4"
  shows "unat (encode_size (of_nat n)) = m + m div 72 + 1"
proof -
  have m: "m < 1500000000" unfolding m_def by (simp add: less_mult_imp_div_less)
  have "(of_nat n * 4 :: u32) = of_nat (4 * n mod 2 ^ 32)" by (rule word_unat_eq_iff[THEN iffD2]) (simp add: unat_of_nat take_bit_eq_mod unat_word_ariths mod_mult_right_eq mult.commute)
  then have "(of_nat n * 4 div 3 + 4 :: u32) = of_nat m"
    unfolding m_def using u32_div[of "4 * n mod 2 ^ 32" 3] by simp
  then have "encode_size (of_nat n) = of_nat (m + m div 72 + 1)"
    unfolding encode_size_def Let_def using u32_div[of m 72] m by simp
  moreover have "m div 72 \<le> m" by simp
  ultimately show ?thesis using u32_of_nat[of "m + m div 72 + 1"] m by simp
qed

lemma size_check:
  assumes "n < 2 ^ 32" "\<not> encode_size (of_nat n) < (of_nat n :: u32)"
  shows "n < 2 ^ 30"
proof (rule ccontr)
  define r a b where "r = 4 * n mod 2 ^ 32" and "a = r div 3" and "b = (a + 4) div 72"
  assume "\<not> n < 2 ^ 30"
  then have "r + 2 ^ 32 \<le> 4 * n" by (simp add: r_def mod_less_eq_dividend le_div_geq flip: minus_div_mult_eq_mod)
  moreover have "r < 2 ^ 32" "3 * a \<le> r" "72 * b \<le> a + 4" by (simp_all add: r_def a_def b_def)
  ultimately have "a + 4 + b + 1 < n" by simp
  then show False
    using assms(2) u32_of_nat[OF assms(1)] by (simp add: word_less_nat_alt encode_size_wrapped a_def b_def r_def)
qed

lemma base64_encode_text:
  assumes "base64_encode malloc_ok src = Some (out, n)" "length src < 2 ^ 32"
  obtains enc where "out = enc @ [0]" "n = of_nat (length enc)" "length src < 2 ^ 30"
    "length enc < unat (encode_size (of_nat (length src)))"
    "\<And>acc. decode_loop enc [] 0 acc = Some (acc @ src)" "valid_chars enc = 4 * ((length src + 2) div 3)"
proof -
  have n: "length src < 2 ^ 30" using assms size_check by (simp add: base64_encode_def Let_def split: if_splits)
  let ?q = "length src div 3"
  define rest where "rest = drop (3 * ?q) src"
  obtain t where t: "encode_loop src 0 [] = (rest, of_nat (4 * (?q mod 18)), t)" "length t = 4 * ?q + ?q div 18" "valid_chars t = 4 * ?q"
    "\<And>tail acc. decode_loop (t @ tail) [] 0 acc = decode_loop tail [] 0 (acc @ take (3 * ?q) src)"
    using encode_loop_spec[of 0 0 src "[]"] unfolding rest_def by auto
  have r: "length rest = length src mod 3" by (simp add: rest_def minus_mult_div_eq_mod)
  have l: "length rest < 3" unfolding r by simp
  define ll :: u32 where "ll = (if rest \<noteq> [] then of_nat (4 * (?q mod 18)) + 4 else of_nat (4 * (?q mod 18)))"
  define nl :: "u8 list" where "nl = (if ll \<noteq> 0 then [10] else [])"
  define enc where "enc = t @ encode_rest rest @ nl"
  have o: "out = enc @ [0]" "n = of_nat (length enc)"
    using assms(1) by (auto simp: base64_encode_def Let_def t(1) enc_def nl_def ll_def split: if_splits)
  have nl: "nl = [] \<or> nl = [10]" by (simp add: nl_def)
  have d: "decode_loop enc [] 0 acc = Some (acc @ src)" for acc
    unfolding enc_def t(4) decode_rest(1)[OF l nl] by (simp add: rest_def)
  have v: "valid_chars enc = 4 * ((length src + 2) div 3)"
  proof -
    have "(length rest + 2 + ?q * 3) div 3 = ?q + (length rest + 2) div 3" by simp
    then have "(length src + 2) div 3 = ?q + (if rest = [] then 0 else 1)"
      using l mult_div_mod_eq[of 3 "length src"] unfolding r[symmetric] by (cases rest; cases "tl rest") (auto simp: ac_simps)
    then show ?thesis using nl by (auto simp: enc_def t(3) decode_rest(2)[OF l nl])
  qed
  have "?q mod 18 = 0 \<Longrightarrow> rest = [] \<Longrightarrow> nl = []" by (simp add: nl_def ll_def)
  moreover have "4 * ?q + (if rest = [] then 0 else 1) \<le> 4 * length src div 3"
  proof -
    have "4 * length src = 4 * length rest + (4 * ?q) * 3" unfolding r using mult_div_mod_eq[of 3 "length src"] by linarith
    then have "4 * length src div 3 = 4 * ?q + 4 * length rest div 3" by simp
    then show ?thesis by (cases rest) auto
  qed
  moreover have "4 * ?q div 72 \<le> (4 * length src div 3 + 4) div 72" by (rule div_le_mono) simp
  ultimately have "length enc < unat (encode_size (of_nat (length src)))"
    using n r nl unfolding encode_size_wrapped by (auto simp: enc_def t(2) decode_rest(3)[OF l nl])
  then show ?thesis using that o n d v by blast
qed

subsection \<open>Properties\<close>

text \<open>C17: what base64_encode makes of a text that is not empty, base64_decode turns back into that text, whatever the
  length of the text: the decoder accepts the line feeds and the padding, and drops exactly the bytes added.\<close>

theorem base64_round_trip:
  assumes "base64_encode malloc_ok src = Some (text, n)" "src \<noteq> []" "length src < 2 ^ 32"
    and "malloc_ok (of_nat (3 * ((length src + 2) div 3)))"
  shows "base64_decode malloc_ok (take (unat n) text) = Some src"
proof -
  obtain enc where e: "text = enc @ [0]" "n = of_nat (length enc)" "length src < 2 ^ 30"
    "length enc < unat (encode_size (of_nat (length src)))"
    "\<And>acc. decode_loop enc [] 0 acc = Some (acc @ src)" "valid_chars enc = 4 * ((length src + 2) div 3)"
    using base64_encode_text[OF assms(1,3)] by blast
  define q where "q = (length src + 2) div 3"
  have q: "0 < q" "q < 2 ^ 29" using assms(2) e(3) by (auto simp: q_def div_greater_zero_iff less_mult_imp_div_less Suc_le_eq)
  have "length enc < 2 ^ 32" using e(4) unsigned_less[of "encode_size (of_nat (length src))", where 'a = nat] by simp
  then have "take (unat n) text = enc" using e(1,2) u32_of_nat[of "length enc"] by simp
  moreover have "(4 * of_nat q :: u32) = of_nat (4 * q)" "(3 * of_nat q :: u32) = of_nat (q * 3)" by simp_all
  moreover have "unat (of_nat (4 * q) :: u32) = 4 * q" using u32_of_nat[of "4 * q"] q by simp
  moreover have "3 * ((of_nat q * 4 :: u32) div 4) = of_nat q * 3" using u32_div[of "q * 4" 4] q by simp
  ultimately show ?thesis
    using e(5)[of "[]"] assms(4) q
    unfolding base64_decode_def valid_chars_def[symmetric] q_def[symmetric]
    by (simp add: e(6)[folded q_def] Let_def word_unat_eq_iff[of _ "0 :: u32"] unat_mod mult.commute)
qed

lemma base64_round_trip_witness:
  "base64_decode (\<lambda>_. True) (take 9 [0x54, 0x57, 0x46, 0x75, 0x49, 0x51, 0x3D, 0x3D, 10, 0]) = Some [0x4D, 0x61, 0x6E, 0x21]"
proof -
  have "base64_encode (\<lambda>_. True) [0x4D, 0x61, 0x6E, 0x21]
    = Some ([0x54, 0x57, 0x46, 0x75, 0x49, 0x51, 0x3D, 0x3D, 10, 0], 9)" by code_simp
  from base64_round_trip[OF this] show ?thesis by simp
qed

text \<open>C18: the buffer base64_encode asks for always holds the text it writes and the terminator, for every source length a
  size_t can hold: where the computation of the size wraps, the check refuses.\<close>

theorem base64_fits:
  assumes "base64_encode malloc_ok src = Some (text, n)" "length src < 2 ^ 32"
  shows "length text \<le> unat (encode_size (of_nat (length src))) \<and> length text = unat n + 1 \<and> malloc_ok (encode_size (of_nat (length src)))"
proof -
  obtain enc where e: "text = enc @ [0]" "n = of_nat (length enc)" "length enc < unat (encode_size (of_nat (length src)))"
    using base64_encode_text[OF assms] by blast
  then have "length enc < 2 ^ 32" using unsigned_less[of "encode_size (of_nat (length src))", where 'a = nat] by simp
  then have "unat n = length enc" using e(2) u32_of_nat by simp
  then show ?thesis using e assms(1) by (auto simp: base64_encode_def Let_def split: if_splits)
qed

lemma base64_fits_witness:
  "length [0x54, 0x57, 0x46, 0x75, 0x49, 0x51, 0x3D, 0x3D, 10, 0 :: u8] \<le> unat (encode_size 4)"
proof -
  have "base64_encode (\<lambda>_. True) [0x4D, 0x61, 0x6E, 0x21]
    = Some ([0x54, 0x57, 0x46, 0x75, 0x49, 0x51, 0x3D, 0x3D, 10, 0], 9)" by code_simp
  from base64_fits[OF this] show ?thesis by simp
qed

end
