(* ===== verification/Sudoku.thy ===== *)
theory Sudoku
  imports Prelude
begin

text \<open>
  The solver of app/sudoku.c. The puzzle is a function of row and column; every call returns the puzzle as it leaves
  it, with the result. An access outside the nine rows and columns is \<open>None\<close>. The specification: the solver finds
  a completion exactly when there is one, and leaves an unsolvable puzzle as it was.
\<close>

type_synonym puzzle = "nat \<Rightarrow> nat \<Rightarrow> u8"

definition put_cell :: "puzzle \<Rightarrow> nat \<Rightarrow> nat \<Rightarrow> u8 \<Rightarrow> puzzle" where
  "put_cell p row column c = p(row := (p row)(column := c))"

definition is_valid :: "u8 \<Rightarrow> puzzle \<Rightarrow> nat \<Rightarrow> nat \<Rightarrow> bool" where
  "is_valid number p row column =
     (let sector_row = 3 * (row div 3); sector_col = 3 * (column div 3);
          row1 = (row + 2) mod 3; row2 = (row + 4) mod 3; col1 = (column + 2) mod 3; col2 = (column + 4) mod 3
      in if list_ex (\<lambda>i. p i column = number \<or> p row i = number) [0..<9] then False
         else if p (row1 + sector_row) (col1 + sector_col) = number then False
         else if p (row2 + sector_row) (col1 + sector_col) = number then False
         else if p (row1 + sector_row) (col2 + sector_col) = number then False
         else if p (row2 + sector_row) (col2 + sector_col) = number then False
         else True)"

text \<open>\<open>try_from nextn\<close> is the loop over the digits for an empty cell, from \<open>nextn\<close> on.\<close>

function sudoku :: "puzzle \<Rightarrow> nat \<Rightarrow> nat \<Rightarrow> (bool \<times> puzzle) option"
  and try_from :: "nat \<Rightarrow> puzzle \<Rightarrow> nat \<Rightarrow> nat \<Rightarrow> (bool \<times> puzzle) option" where
  "sudoku p row column =
     (if row = 9 then Some (True, p)
      else if 9 < row \<or> 9 \<le> column then None
      else if p row column \<noteq> 0 then (if column = 8 then sudoku p (row + 1) 0 else sudoku p row (column + 1))
      else try_from 1 p row column)"
| "try_from nextn p row column =
     (if 9 \<le> row \<or> 9 \<le> column then None
      else if nextn < 10 then
        if is_valid (of_nat nextn) p row column then
          case (let p = put_cell p row column (of_nat nextn)
                in if column = 8 then sudoku p (row + 1) 0 else sudoku p row (column + 1)) of
            None \<Rightarrow> None
          | Some (True, p) \<Rightarrow> Some (True, p)
          | Some (False, p) \<Rightarrow> try_from (nextn + 1) (put_cell p row column 0) row column
        else try_from (nextn + 1) p row column
      else Some (False, p))"
  by pat_completeness auto
termination
  by (relation "measure (\<lambda>x. case x of Inl (p, row, column) \<Rightarrow> 12 * (90 - (9 * row + column)) + 11
    | Inr (n, p, row, column) \<Rightarrow> 12 * (90 - (9 * row + column)) + (10 - n))") (auto split: if_splits)

declare sudoku.simps [simp del] try_from.simps [simp del]

subsection \<open>Specification\<close>

definition peers :: "nat \<Rightarrow> nat \<Rightarrow> nat \<Rightarrow> nat \<Rightarrow> bool" where
  "peers r c r' c' \<longleftrightarrow> (r \<noteq> r' \<or> c \<noteq> c') \<and> (r = r' \<or> c = c' \<or> r div 3 = r' div 3 \<and> c div 3 = c' div 3)"

definition consistent :: "puzzle \<Rightarrow> bool" where
  "consistent p \<longleftrightarrow> (\<forall>r<9. \<forall>c<9. \<forall>r'<9. \<forall>c'<9. peers r c r' c' \<and> p r c \<noteq> 0 \<longrightarrow> p r c \<noteq> p r' c')"

text \<open>A solution fills every cell with a digit, keeps what was given, and repeats no digit in a row, column or box.\<close>

definition solution :: "puzzle \<Rightarrow> puzzle \<Rightarrow> bool" where
  "solution p s \<longleftrightarrow> consistent s \<and> (\<forall>r<9. \<forall>c<9. 1 \<le> unat (s r c) \<and> unat (s r c) \<le> 9 \<and> (p r c \<noteq> 0 \<longrightarrow> s r c = p r c))"

definition given :: "puzzle \<Rightarrow> bool" where
  "given p \<longleftrightarrow> consistent p \<and> (\<forall>r<9. \<forall>c<9. unat (p r c) \<le> 9)"

definition filled :: "puzzle \<Rightarrow> nat \<Rightarrow> bool" where
  "filled p n \<longleftrightarrow> (\<forall>r<9. \<forall>c<9. 9 * r + c < n \<longrightarrow> p r c \<noteq> 0)"

lemma peers_sym: "peers r c r' c' \<longleftrightarrow> peers r' c' r c"
  by (auto simp: peers_def)

text \<open>The four cells checked besides the row and the column are the rest of the box.\<close>

lemma box_lines:
  fixes r r' :: nat
  assumes "r < 9" "r' < 9"
  shows "r div 3 = r' div 3 \<and> r' \<noteq> r \<longleftrightarrow> r' = (r + 2) mod 3 + 3 * (r div 3) \<or> r' = (r + 4) mod 3 + 3 * (r div 3)"
proof -
  have "k = 0 \<or> k = 1 \<or> k = 2 \<or> k = 3 \<or> k = 4 \<or> k = 5 \<or> k = 6 \<or> k = 7 \<or> k = 8" if "k < 9" for k :: nat using that by linarith
  from this[OF assms(1)] this[OF assms(2)] show ?thesis by (elim disjE) simp_all
qed

lemma box_line_less: "(r + k) mod 3 + 3 * (r div 3) < 9" if "r < (9 :: nat)"
proof -
  have "r div 3 < 3" "(r + k) mod 3 < 3" using that by (simp_all add: less_mult_imp_div_less)
  then show ?thesis by linarith
qed

lemma is_valid_iff:
  assumes "row < 9" "column < 9" "p row column = 0" "n \<noteq> 0"
  shows "is_valid n p row column \<longleftrightarrow> (\<forall>r<9. \<forall>c<9. peers row column r c \<longrightarrow> p r c \<noteq> n)"
proof -
  define r1 r2 c1 c2 where "r1 = (row + 2) mod 3 + 3 * (row div 3)" and "r2 = (row + 4) mod 3 + 3 * (row div 3)"
    and "c1 = (column + 2) mod 3 + 3 * (column div 3)" and "c2 = (column + 4) mod 3 + 3 * (column div 3)"
  note defs = r1_def[symmetric] r2_def[symmetric] c1_def[symmetric] c2_def[symmetric]
  have l: "r1 < 9" "r2 < 9" "c1 < 9" "c2 < 9"
    unfolding r1_def r2_def c1_def c2_def by (rule box_line_less, rule assms)+
  have e: "row div 3 = r div 3 \<and> r \<noteq> row \<longleftrightarrow> r = r1 \<or> r = r2" "column div 3 = r div 3 \<and> r \<noteq> column \<longleftrightarrow> r = c1 \<or> r = c2"
    if "r < 9" for r
    using box_lines[OF assms(1) that] box_lines[OF assms(2) that] unfolding defs by blast+
  let ?box = "\<forall>r<9. \<forall>c<9. row div 3 = r div 3 \<and> r \<noteq> row \<longrightarrow> column div 3 = c div 3 \<and> c \<noteq> column \<longrightarrow> p r c \<noteq> n"
  have box: "?box \<longleftrightarrow> p r1 c1 \<noteq> n \<and> p r2 c1 \<noteq> n \<and> p r1 c2 \<noteq> n \<and> p r2 c2 \<noteq> n"
  proof
    assume b: ?box
    have "row div 3 = r1 div 3 \<and> r1 \<noteq> row" "row div 3 = r2 div 3 \<and> r2 \<noteq> row"
      "column div 3 = c1 div 3 \<and> c1 \<noteq> column" "column div 3 = c2 div 3 \<and> c2 \<noteq> column"
      using e l by simp_all
    then show "p r1 c1 \<noteq> n \<and> p r2 c1 \<noteq> n \<and> p r1 c2 \<noteq> n \<and> p r2 c2 \<noteq> n" using b l by simp
  next
    assume q: "p r1 c1 \<noteq> n \<and> p r2 c1 \<noteq> n \<and> p r1 c2 \<noteq> n \<and> p r2 c2 \<noteq> n"
    show ?box
    proof (intro allI impI)
      fix r c assume "r < 9" "c < 9" "row div 3 = r div 3 \<and> r \<noteq> row" "column div 3 = c div 3 \<and> c \<noteq> column"
      then have "r = r1 \<or> r = r2" "c = c1 \<or> c = c2" using e by blast+
      then show "p r c \<noteq> n" using q by auto
    qed
  qed
  have lines: "\<not> list_ex (\<lambda>i. p i column = n \<or> p row i = n) [0..<9] \<longleftrightarrow> (\<forall>r<9. p r column \<noteq> n) \<and> (\<forall>c<9. p row c \<noteq> n)"
    by (auto simp: list_ex_iff)
  have "(\<forall>r<9. \<forall>c<9. peers row column r c \<longrightarrow> p r c \<noteq> n)
    \<longleftrightarrow> (\<forall>r<9. p r column \<noteq> n) \<and> (\<forall>c<9. p row c \<noteq> n) \<and> ?box"
  proof
    assume *: "\<forall>r<9. \<forall>c<9. peers row column r c \<longrightarrow> p r c \<noteq> n"
    have "p r column \<noteq> n" if "r < 9" for r using * assms that by (cases "r = row") (auto simp: peers_def)
    moreover have "p row c \<noteq> n" if "c < 9" for c using * assms that by (cases "c = column") (auto simp: peers_def)
    moreover have ?box using * unfolding peers_def by metis
    ultimately show "(\<forall>r<9. p r column \<noteq> n) \<and> (\<forall>c<9. p row c \<noteq> n) \<and> ?box" by blast
  next
    assume "(\<forall>r<9. p r column \<noteq> n) \<and> (\<forall>c<9. p row c \<noteq> n) \<and> ?box"
    then show "\<forall>r<9. \<forall>c<9. peers row column r c \<longrightarrow> p r c \<noteq> n" unfolding peers_def by metis
  qed
  moreover define L where "L \<longleftrightarrow> list_ex (\<lambda>i. p i column = n \<or> p row i = n) [0..<9]"
  have "is_valid n p row column \<longleftrightarrow> \<not> L \<and> p r1 c1 \<noteq> n \<and> p r2 c1 \<noteq> n \<and> p r1 c2 \<noteq> n \<and> p r2 c2 \<noteq> n"
    unfolding is_valid_def Let_def defs L_def[symmetric] by auto
  ultimately show ?thesis unfolding box lines[folded L_def] by blast
qed

lemma put_cell_at [simp]: "put_cell p row column n r c = (if r = row \<and> c = column then n else p r c)"
  by (simp add: put_cell_def)

lemma put_cell_restore: "p row column = 0 \<Longrightarrow> put_cell (put_cell p row column n) row column 0 = p"
  by (auto simp: fun_eq_iff)

lemma given_put:
  assumes "given p" "row < 9" "column < 9" "p row column = 0" "n \<noteq> 0" "unat n \<le> 9" "is_valid n p row column"
  shows "given (put_cell p row column n)"
proof -
  have v: "\<forall>r<9. \<forall>c<9. peers row column r c \<longrightarrow> p r c \<noteq> n" using assms(7) is_valid_iff[of row column p n, OF assms(2-5)] by blast
  let ?q = "put_cell p row column n"
  have "?q r c \<noteq> ?q r' c'" if h: "r < 9" "c < 9" "r' < 9" "c' < 9" "peers r c r' c'" "?q r c \<noteq> 0" for r c r' c'
  proof -
    consider "r = row" "c = column" "\<not> (r' = row \<and> c' = column)" | "\<not> (r = row \<and> c = column)" "r' = row" "c' = column"
      | "\<not> (r = row \<and> c = column)" "\<not> (r' = row \<and> c' = column)"
      using h(5) by (auto simp: peers_def)
    then show ?thesis
    proof cases
      case 1
      then show ?thesis using v h by auto
    next
      case 2
      then show ?thesis using v h peers_sym by auto
    next
      case 3
      then show ?thesis using assms(1) h unfolding given_def consistent_def put_cell_at by (simp only: if_False) blast
    qed
  qed
  moreover have "\<forall>r<9. \<forall>c<9. unat (?q r c) \<le> 9" using assms(1,6) by (simp add: given_def)
  ultimately show ?thesis unfolding given_def consistent_def by blast
qed

lemma solution_put:
  assumes "row < 9" "column < 9" "p row column = 0" "n \<noteq> 0"
  shows "solution (put_cell p row column n) s \<longleftrightarrow> solution p s \<and> s row column = n"
proof
  assume s: "solution (put_cell p row column n) s"
  then have n: "s row column = n" using assms by (simp add: solution_def)
  have "p r c \<noteq> 0 \<Longrightarrow> s r c = p r c" if "r < 9" "c < 9" for r c
    using s that assms(3) unfolding solution_def put_cell_at by (metis (full_types))
  then show "solution p s \<and> s row column = n" using s n by (simp add: solution_def)
next
  assume "solution p s \<and> s row column = n"
  then show "solution (put_cell p row column n) s" by (simp add: solution_def)
qed

lemma invalid_no_solution:
  assumes "row < 9" "column < 9" "p row column = 0" "n \<noteq> 0" "\<not> is_valid n p row column" "solution p s"
  shows "s row column \<noteq> n"
proof
  assume n: "s row column = n"
  obtain r c where rc: "r < 9" "c < 9" "peers row column r c" "p r c = n"
    using assms(5) unfolding is_valid_iff[of row column p n, OF assms(1-4)] by blast
  then have "s r c = n" using assms(4,6) by (auto simp: solution_def)
  moreover have "s row column \<noteq> s r c"
    using assms(1,2,4,6) rc(1-3) n unfolding solution_def consistent_def by blast
  ultimately show False using n by simp
qed

subsection \<open>The solver\<close>

definition solves :: "puzzle \<Rightarrow> (puzzle \<Rightarrow> bool) \<Rightarrow> (bool \<times> puzzle) option \<Rightarrow> bool" where
  "solves p allowed res \<longleftrightarrow>
     (\<exists>r q. res = Some (r, q) \<and> (r \<longrightarrow> solution p q) \<and> (\<not> r \<longrightarrow> q = p \<and> (\<forall>s. solution p s \<longrightarrow> \<not> allowed s)))"

lemma solves_weaken: "solves p A r \<Longrightarrow> (\<And>s. solution p s \<Longrightarrow> B s \<Longrightarrow> A s) \<Longrightarrow> solves p B r"
  unfolding solves_def by (metis (full_types))

lemma filled_next: "filled p (9 * row + column) \<Longrightarrow> p row column \<noteq> 0 \<Longrightarrow> column < 9 \<Longrightarrow> filled p (Suc (9 * row + column))"
  unfolding filled_def
proof (intro allI impI)
  fix r c assume a: "\<forall>r<9. \<forall>c<9. 9 * r + c < 9 * row + column \<longrightarrow> p r c \<noteq> 0" "p row column \<noteq> 0" "column < 9" "r < 9" "c < 9"
    "9 * r + c < Suc (9 * row + column)"
  show "p r c \<noteq> 0"
  proof (cases "9 * r + c = 9 * row + column")
    case True
    then have "(9 * r + c) div 9 = (9 * row + column) div 9" by simp
    then have "r = row" using a(3,5) by simp
    then show ?thesis using True a(2) by simp
  qed (use a in simp)
qed

lemma filled_put: "filled p (9 * row + column) \<Longrightarrow> n \<noteq> 0 \<Longrightarrow> filled (put_cell p row column n) (9 * row + column)"
  by (simp add: filled_def)

lemma complete_solution: "given p \<Longrightarrow> filled p 81 \<Longrightarrow> solution p p"
  unfolding given_def filled_def solution_def by (auto simp: Suc_le_eq unat_gt_0)

lemma digit_word: "0 < n \<Longrightarrow> n < 10 \<Longrightarrow> unat (of_nat n :: u8) = n \<and> (of_nat n :: u8) \<noteq> 0"
proof -
  assume n: "0 < n" "n < 10"
  then have u: "unat (of_nat n :: u8) = n" by (simp add: unat_of_nat take_bit_nat_eq_self)
  then show ?thesis using n by (metis nat_neq_iff unat_0)
qed

lemma sudoku_solves:
  "row < 9 \<and> column < 9 \<or> row = 9 \<and> column = 0 \<Longrightarrow> given p \<Longrightarrow> filled p (9 * row + column) \<Longrightarrow>
    solves p (\<lambda>_. True) (sudoku p row column)"
  "row < 9 \<Longrightarrow> column < 9 \<Longrightarrow> given p \<Longrightarrow> filled p (9 * row + column) \<Longrightarrow> p row column = 0 \<Longrightarrow> 0 < n \<Longrightarrow> n \<le> 10 \<Longrightarrow>
    solves p (\<lambda>s. n \<le> unat (s row column)) (try_from n p row column)"
proof (induction p row column and n p row column rule: sudoku_try_from.induct)
  case (1 p row column)
  show ?case
  proof (cases "row = 9")
    case True
    then show ?thesis using 1(4-6) complete_solution by (subst sudoku.simps) (auto simp: solves_def)
  next
    case False
    then have rc: "row < 9" "column < 9" using 1(4) by auto
    show ?thesis
    proof (cases "p row column = 0")
      case True
      have "solves p (\<lambda>s. 1 \<le> unat (s row column)) (try_from 1 p row column)"
        using 1(3) False rc True 1(5,6) by simp
      then have "solves p (\<lambda>_. True) (try_from 1 p row column)" by (rule solves_weaken) (use rc in \<open>simp add: solution_def\<close>)
      then show ?thesis using False rc True by (subst sudoku.simps) simp
    next
      case nz: False
      have "filled p (Suc (9 * row + column))" using 1(6) nz rc(2) by (rule filled_next)
      moreover have "row < 8 \<or> row = 8" using rc by linarith
      ultimately show ?thesis using 1(1,2,5) False nz rc by (subst sudoku.simps) auto
    qed
  qed
next
  case (2 n p row column)
  show ?case
  proof (cases "n < 10")
    case False
    then have "\<And>s. solution p s \<Longrightarrow> \<not> n \<le> unat (s row column)" using "2.prems"(1,2) by (force simp: solution_def)
    then show ?thesis using False "2.prems"(1,2) by (subst try_from.simps) (auto simp: solves_def)
  next
    case n: True
    note d = digit_word[OF "2.prems"(6) n] and rc = "2.prems"(1,2)
    have other: "solves p (\<lambda>s. n \<le> unat (s row column)) r"
      if "solves p (\<lambda>s. n + 1 \<le> unat (s row column)) r" "\<And>s. solution p s \<Longrightarrow> s row column \<noteq> of_nat n" for r
    proof -
      have "n + 1 \<le> unat (s row column)" if "solution p s" "n \<le> unat (s row column)" for s
        using that(2) \<open>\<And>s. solution p s \<Longrightarrow> s row column \<noteq> of_nat n\<close>[OF that(1)]
        by (cases "unat (s row column) = n") auto
      then show ?thesis by (rule solves_weaken[OF that(1)])
    qed
    show ?thesis
    proof (cases "is_valid (of_nat n) p row column")
      case False
      have "try_from n p row column = try_from (n + 1) p row column" using False n rc by (subst try_from.simps) simp
      moreover have "solves p (\<lambda>s. n + 1 \<le> unat (s row column)) (try_from (n + 1) p row column)"
        using "2.IH"(4) False n rc "2.prems" by simp
      ultimately show ?thesis using other invalid_no_solution[of row column p "of_nat n", OF rc "2.prems"(5) conjunct2[OF d] False] by simp
    next
      case True
      have row8: "row < 8 \<or> row = 8" using rc by linarith
      define p' where "p' = put_cell p row column (of_nat n)"
      define res where "res = (if column = 8 then sudoku p' (row + 1) 0 else sudoku p' row (column + 1))"
      have "given p'" unfolding p'_def using given_put[of p row column "of_nat n"] "2.prems" d n True by simp
      moreover have "filled p' (Suc (9 * row + column))"
        unfolding p'_def using filled_put[of p row column "of_nat n"] "2.prems" d by (intro filled_next) auto
      ultimately have "solves p' (\<lambda>_. True) res"
        using "2.IH"(1,2) n rc True row8 unfolding res_def p'_def by (auto simp del: put_cell_at)
      then obtain r q where r: "res = Some (r, q)" "r \<longrightarrow> solution p' q" "\<not> r \<longrightarrow> q = p' \<and> (\<forall>s. \<not> solution p' s)"
        by (auto simp: solves_def)
      have step: "try_from n p row column = (case res of None \<Rightarrow> None | Some (True, p) \<Rightarrow> Some (True, p)
          | Some (False, p) \<Rightarrow> try_from (n + 1) (put_cell p row column 0) row column)"
        using n rc True by (subst try_from.simps) (simp add: Let_def res_def p'_def)
      have sol: "solution p' s \<longleftrightarrow> solution p s \<and> s row column = of_nat n" for s
        unfolding p'_def using solution_put[of row column p "of_nat n" s] rc "2.prems"(5) d by blast
      show ?thesis
      proof (cases r)
        case True
        then have "try_from n p row column = Some (True, q)" "solution p q" using step r(1,2) sol by simp_all
        then show ?thesis by (auto simp: solves_def)
      next
        case False
        then have "put_cell q row column 0 = p" using r(3) put_cell_restore[of p row column] "2.prems"(5) by (simp add: p'_def)
        then have "try_from n p row column = try_from (n + 1) p row column" using step r(1) False by simp
        moreover have "solves p (\<lambda>s. n + 1 \<le> unat (s row column)) (try_from (n + 1) p row column)"
          using "2.IH"(3)[of "(False, q)" False q] \<open>put_cell q row column 0 = p\<close> \<open>is_valid _ _ _ _\<close> r(1) False n rc "2.prems"
          by (simp add: res_def p'_def del: put_cell_at split: if_splits)
        ultimately show ?thesis using other r(3) False sol by simp
      qed
    qed
  qed
qed

text \<open>C36: The solver is sound and complete: for a puzzle whose givens are digits without conflict it returns, says that there is
  a solution exactly when there is one, then leaves a solution that keeps the givens in the array, and otherwise
  leaves the array as it was.\<close>

theorem sudoku_correct:
  assumes "given p"
  shows "\<exists>r q. sudoku p 0 0 = Some (r, q) \<and> (r \<longleftrightarrow> (\<exists>s. solution p s)) \<and> (r \<longrightarrow> solution p q) \<and> (\<not> r \<longrightarrow> q = p)"
proof -
  have "filled p (9 * 0 + 0)" by (simp add: filled_def)
  then have "solves p (\<lambda>_. True) (sudoku p 0 0)" using sudoku_solves(1)[of 0 0 p] assms by simp
  then obtain r q where "sudoku p 0 0 = Some (r, q)" "r \<longrightarrow> solution p q" "\<not> r \<longrightarrow> q = p \<and> (\<forall>s. \<not> solution p s)"
    by (auto simp: solves_def)
  then show ?thesis by (cases r) auto
qed

definition two_fives :: puzzle where
  "two_fives = (\<lambda>r c. if r = 0 \<and> c = 3 \<or> r = 1 \<and> c = 0 then 5 else 0)"

lemma sudoku_correct_witness:
  "\<exists>r q. sudoku two_fives 0 0 = Some (r, q) \<and> (r \<longleftrightarrow> (\<exists>s. solution two_fives s)) \<and> (r \<longrightarrow> solution two_fives q) \<and> (\<not> r \<longrightarrow> q = two_fives)"
proof -
  have "given two_fives" by (auto simp: given_def consistent_def peers_def two_fives_def)
  then show ?thesis by (rule sudoku_correct)
qed

end
