(* ===== verification/Sort_Arrays.thy ===== *)
theory Sort_Arrays
  imports Prelude "HOL-Library.Multiset" "HOL-Library.Monad_Syntax"
begin

text \<open>
  The two sorting routines of app/sort.c on arrays of 32-bit integers. Indices are integers: an array of more than
  \<open>2 ^ 30\<close> of its elements has no room in the address space, so no index computation of the code can overflow. An access
  outside the array is \<open>None\<close>. Both routines return and leave the sorted array.
\<close>

subsection \<open>Arrays\<close>

definition at :: "u32 list \<Rightarrow> int \<Rightarrow> u32 option" where
  "at v i = (if 0 \<le> i \<and> i < int (length v) then Some (v ! nat i) else None)"

definition swap :: "u32 list \<Rightarrow> int \<Rightarrow> int \<Rightarrow> u32 list option" where
  "swap v i j = do { a \<leftarrow> at v i; b \<leftarrow> at v j; Some (v[nat i := b, nat j := a]) }"

subsection \<open>Exchange sort\<close>

function sort_row :: "u32 list \<Rightarrow> int \<Rightarrow> int \<Rightarrow> int \<Rightarrow> u32 list option" where
  "sort_row v e i j =
     (if j < e then
        do { a \<leftarrow> at v i; b \<leftarrow> at v j;
             v \<leftarrow> (if b <s a then swap v i j else Some v);
             sort_row v e i (j + 1) }
      else Some v)"
  by pat_completeness auto
termination by (relation "measure (\<lambda>(v, e, i, j). nat (e - j))") auto

function sort_from :: "u32 list \<Rightarrow> int \<Rightarrow> int \<Rightarrow> u32 list option" where
  "sort_from v e i = (if i < e - 1 then do { v \<leftarrow> sort_row v e i (i + 1); sort_from v e (i + 1) } else Some v)"
  by pat_completeness auto
termination by (relation "measure (\<lambda>(v, e, i). nat (e - i))") auto

definition sort_ints :: "u32 list \<Rightarrow> int \<Rightarrow> u32 list option" where
  "sort_ints v e = sort_from v e 0"

declare sort_row.simps [simp del] sort_from.simps [simp del]

subsection \<open>Quicksort\<close>

function partition_from :: "u32 list \<Rightarrow> int \<Rightarrow> int \<Rightarrow> int \<Rightarrow> int \<Rightarrow> (u32 list \<times> int) option" where
  "partition_from v left right lst i =
     (if i \<le> right then
        do { a \<leftarrow> at v i; b \<leftarrow> at v left;
             (v, lst) \<leftarrow> (if a <s b then do { v \<leftarrow> swap v (lst + 1) i; Some (v, lst + 1) } else Some (v, lst));
             partition_from v left right lst (i + 1) }
      else Some (v, lst))"
  by pat_completeness auto
termination by (relation "measure (\<lambda>(v, left, right, lst, i). nat (right + 1 - i))") auto

declare partition_from.simps [simp del]

partial_function (option) qsort :: "u32 list \<Rightarrow> int \<Rightarrow> int \<Rightarrow> u32 list option" where
  [code]: "qsort v left right =
     (if right \<le> left then Some v
      else do {
        v \<leftarrow> swap v left ((left + right) div 2);
        (v, lst) \<leftarrow> partition_from v left right left (left + 1);
        v \<leftarrow> swap v left lst;
        v \<leftarrow> qsort v left (lst - 1);
        qsort v (lst + 1) right })"

subsection \<open>Both sort\<close>

lemma at_append [simp]: "at (xs @ y # zs) (int (length xs)) = Some y"
  by (simp add: at_def)

lemma swap_append:
  "swap (xs @ a # ys @ b # zs) (int (length xs)) (int (length xs + 1 + length ys)) = Some (xs @ b # ys @ a # zs)"
  "swap (xs @ a # zs) (int (length xs)) (int (length xs)) = Some (xs @ a # zs)"
proof -
  have b: "at (xs @ a # ys @ b # zs) (int (length xs + 1 + length ys)) = Some b"
    using at_append[of "xs @ a # ys" b zs] by simp
  show "swap (xs @ a # ys @ b # zs) (int (length xs)) (int (length xs + 1 + length ys)) = Some (xs @ b # ys @ a # zs)"
    unfolding swap_def at_append b by (simp add: list_update_append nat_add_distrib)
  show "swap (xs @ a # zs) (int (length xs)) (int (length xs)) = Some (xs @ a # zs)"
    unfolding swap_def at_append by simp
qed

lemma not_sless: "\<not> (a :: u32) <s b \<longleftrightarrow> b \<le>s a"
  by (simp add: word_sless_alt word_sle_eq not_less)

lemma sless_imp_sle: "(a :: u32) <s b \<Longrightarrow> a \<le>s b" "a <s b \<Longrightarrow> b \<le>s c \<Longrightarrow> a \<le>s c" "a \<le>s a"
  by (simp_all add: word_sless_alt word_sle_eq)

lemma sort_row_min:
  "\<forall>d\<in>set ds. a \<le>s d \<Longrightarrow> e = int (length xs + 1 + length ds + length ts) \<Longrightarrow>
   \<exists>m ds'. sort_row (xs @ a # ds @ ts) e (int (length xs)) (int (length xs + 1 + length ds)) = Some (xs @ m # ds')
     \<and> mset (m # ds') = mset (a # ds @ ts) \<and> (\<forall>d\<in>set ds'. m \<le>s d)"
proof (induction ts arbitrary: a ds)
  case Nil
  then show ?case by (subst sort_row.simps) auto
next
  case (Cons b ts)
  have at_b: "at (xs @ a # ds @ b # ts) (int (length xs + 1 + length ds)) = Some b"
    using at_append[of "xs @ a # ds" b ts] by simp
  define c d where "c = (if b <s a then b else a)" and "d = (if b <s a then a else b)"
  have "(if b <s a then swap (xs @ a # ds @ b # ts) (int (length xs)) (int (length xs + 1 + length ds)) else Some (xs @ a # ds @ b # ts))
      = Some (xs @ c # (ds @ [d]) @ ts)"
    using swap_append(1)[of xs a ds b ts] by (simp add: c_def d_def)
  then have step: "sort_row (xs @ a # ds @ b # ts) e (int (length xs)) (int (length xs + 1 + length ds))
      = sort_row (xs @ c # (ds @ [d]) @ ts) e (int (length xs)) (int (length xs + 1 + length (ds @ [d])))"
    using Cons.prems(2) at_b by (subst sort_row.simps) (simp add: ac_simps)
  have le: "\<forall>x\<in>set (ds @ [d]). c \<le>s x"
    using Cons.prems(1) by (auto simp: c_def d_def not_sless intro: sless_imp_sle)
  have eq: "mset (c # (ds @ [d]) @ ts) = mset (a # ds @ b # ts)" by (simp add: c_def d_def)
  have "e = int (length xs + 1 + length (ds @ [d]) + length ts)" using Cons.prems(2) by simp
  from Cons.IH[OF le this] obtain m ds' where
    "sort_row (xs @ c # (ds @ [d]) @ ts) e (int (length xs)) (int (length xs + 1 + length (ds @ [d]))) = Some (xs @ m # ds')"
    "mset (m # ds') = mset (c # (ds @ [d]) @ ts)" "\<forall>d\<in>set ds'. m \<le>s d" by blast
  then show ?case unfolding step eq by blast
qed

lemma sort_from_sorts:
  "e = int (length xs + length ys) \<Longrightarrow>
   \<exists>zs. sort_from (xs @ ys) e (int (length xs)) = Some (xs @ zs) \<and> mset zs = mset ys \<and> sorted_wrt (\<le>s) zs"
proof (induction "length ys" arbitrary: xs ys)
  case 0
  then show ?case by (subst sort_from.simps) simp
next
  case (Suc n)
  then obtain a ts where ys: "ys = a # ts" by (cases ys) auto
  show ?case
  proof (cases "ts = []")
    case True
    then show ?thesis using ys Suc.prems by (subst sort_from.simps) simp
  next
    case False
    obtain m ds where m: "sort_row (xs @ a # ts) e (int (length xs)) (int (length xs + 1)) = Some (xs @ m # ds)"
      "mset (m # ds) = mset (a # ts)" "\<forall>d\<in>set ds. m \<le>s d"
      using sort_row_min[of "[]" a e xs ts] Suc.prems ys by auto
    have l: "length ds = length ts" using mset_eq_length[OF m(2)] by simp
    obtain zs where z: "sort_from ((xs @ [m]) @ ds) e (int (length (xs @ [m]))) = Some ((xs @ [m]) @ zs)"
      "mset zs = mset ds" "sorted_wrt (\<le>s) zs"
      using Suc.hyps(1)[of ds "xs @ [m]"] Suc.hyps(2) Suc.prems l ys by auto
    have "sort_from (xs @ ys) e (int (length xs)) = Some (xs @ m # zs)"
      using m(1) z(1) False Suc.prems ys by (subst sort_from.simps) (simp add: ac_simps)
    moreover have "mset (m # zs) = mset ys" using z(2) m(2) ys by simp
    moreover have "sorted_wrt (\<le>s) (m # zs)" using z(2,3) m(3) mset_eq_setD[of zs ds] by simp
    ultimately show ?thesis by blast
  qed
qed

lemma partition_splits:
  assumes "\<forall>s\<in>set small. s <s p" "\<forall>b\<in>set big. p \<le>s b"
  shows "\<exists>small' big'. partition_from (xs @ p # small @ big @ todo @ zs) (int (length xs))
      (int (length xs + length small + length big + length todo)) (int (length xs + length small))
      (int (length xs + 1 + length small + length big)) = Some (xs @ p # small' @ big' @ zs, int (length xs + length small'))
    \<and> mset (small' @ big') = mset (small @ big @ todo) \<and> (\<forall>s\<in>set small'. s <s p) \<and> (\<forall>b\<in>set big'. p \<le>s b)"
  using assms
proof (induction todo arbitrary: small big)
  case Nil
  then show ?case by (subst partition_from.simps) auto
next
  case (Cons a todo)
  let ?v = "xs @ p # small @ big @ (a # todo) @ zs"
  let ?left = "int (length xs)" and ?lst = "int (length xs + length small)" and ?i = "int (length xs + 1 + length small + length big)"
  define right where "right = int (length xs + length small + length big + length (a # todo))"
  have a: "at ?v ?i = Some a" using at_append[of "xs @ p # small @ big" a "todo @ zs"] by (simp add: ac_simps)
  show ?case
  proof (cases "a <s p")
    case True
    obtain small1 big1 where sb: "swap ?v (?lst + 1) ?i = Some (xs @ p # small1 @ big1 @ todo @ zs)"
      "length small1 = length small + 1" "length big1 = length big" "mset (small1 @ big1) = mset (small @ big @ [a])"
      "\<forall>s\<in>set small1. s <s p" "\<forall>b\<in>set big1. p \<le>s b"
    proof (cases big)
      case Nil
      then have "swap ?v (?lst + 1) ?i = Some (xs @ p # (small @ [a]) @ [] @ todo @ zs)"
        using swap_append(2)[of "xs @ p # small" a "todo @ zs"] by (simp add: ac_simps)
      then show thesis using that[of "small @ [a]" "[]"] Nil True Cons.prems by simp
    next
      case (Cons b bs)
      then have "swap ?v (?lst + 1) ?i = Some (xs @ p # (small @ [a]) @ (bs @ [b]) @ todo @ zs)"
        using swap_append(1)[of "xs @ p # small" b bs a "todo @ zs"] by (simp add: ac_simps)
      then show thesis using that[of "small @ [a]" "bs @ [b]"] Cons True Cons.prems by simp
    qed
    have "partition_from ?v ?left right ?lst ?i = partition_from (xs @ p # small1 @ big1 @ todo @ zs) ?left
        (int (length xs + length small1 + length big1 + length todo)) (int (length xs + length small1))
        (int (length xs + 1 + length small1 + length big1))"
      using sb(1-3) a True by (subst partition_from.simps) (simp add: right_def ac_simps)
    moreover have "mset (small @ big @ a # todo) = mset (small1 @ big1 @ todo)"
      using sb(4) by (metis append_assoc append_Cons append_Nil mset_append)
    ultimately show ?thesis using Cons.IH[OF sb(5,6)] unfolding right_def[symmetric] by (simp only:)
  next
    case False
    then have "p \<le>s a" by (simp only: not_sless)
    then have b: "\<forall>b\<in>set (big @ [a]). p \<le>s b" using Cons.prems(2) by auto
    have "partition_from ?v ?left right ?lst ?i = partition_from (xs @ p # small @ (big @ [a]) @ todo @ zs) ?left
        (int (length xs + length small + length (big @ [a]) + length todo)) ?lst (int (length xs + 1 + length small + length (big @ [a])))"
      using a False by (subst partition_from.simps) (simp add: right_def ac_simps)
    moreover have "mset (small @ (big @ [a]) @ todo) = mset (small @ big @ a # todo)" by simp
    ultimately show ?thesis using Cons.IH[OF Cons.prems(1) b] unfolding right_def[symmetric] by (simp only:)
  qed
qed

lemma swap_middle:
  "\<exists>rest. swap (xs @ us @ p # vs @ zs) (int (length xs)) (int (length xs + length us)) = Some (xs @ p # rest @ zs)
    \<and> mset (p # rest) = mset (us @ p # vs) \<and> length rest = length us + length vs"
proof (cases us)
  case Nil
  then show ?thesis using swap_append(2)[of xs p "vs @ zs"] by (intro exI[of _ vs]) simp
next
  case (Cons u us')
  then show ?thesis using swap_append(1)[of xs u us' p "vs @ zs"] by (intro exI[of _ "us' @ u # vs"]) simp
qed

lemma swap_pivot:
  "\<exists>small'. swap (xs @ p # small @ zs) (int (length xs)) (int (length xs + length small)) = Some (xs @ small' @ p # zs) \<and> mset small' = mset small"
proof (cases small rule: rev_cases)
  case Nil
  then show ?thesis using swap_append(2)[of xs p zs] by simp
next
  case (snoc ss s)
  then show ?thesis using swap_append(1)[of xs p ss s zs] by (intro exI[of _ "s # ss"]) simp
qed

lemma sorted_around:
  assumes "sorted_wrt (\<le>s) ss" "sorted_wrt (\<le>s) bs" "\<forall>s\<in>set ss. s <s p" "\<forall>b\<in>set bs. (p :: u32) \<le>s b"
  shows "sorted_wrt (\<le>s) (ss @ p # bs)"
  using assms by (auto simp: sorted_wrt_append word_sless_alt word_sle_eq) (metis less_imp_le order_trans)+

lemma qsort_sorts:
  "\<exists>ws. qsort (xs @ ys @ zs) (int (length xs)) (int (length xs) + int (length ys) - 1) = Some (xs @ ws @ zs)
    \<and> mset ws = mset ys \<and> sorted_wrt (\<le>s) ws"
proof (induction "length ys" arbitrary: xs ys zs rule: less_induct)
  case less
  show ?case
  proof (cases "length ys \<le> 1")
    case True
    then have "sorted_wrt (\<le>s) ys" by (cases ys) auto
    then show ?thesis using True by (subst qsort.simps) auto
  next
    case False
    define right where "right = int (length xs) + int (length ys) - 1"
    define us p vs where "us = take ((length ys - 1) div 2) ys" and "p = ys ! ((length ys - 1) div 2)" and "vs = drop (Suc ((length ys - 1) div 2)) ys"
    have m: "(length ys - 1) div 2 < length ys" using False by simp
    have ys: "ys = us @ p # vs" unfolding us_def p_def vs_def by (rule id_take_nth_drop[OF m])
    have lu: "length us = (length ys - 1) div 2" using m by (simp add: us_def)
    have mid: "(int (length xs) + right) div 2 = int (length xs + length us)"
    proof -
      have "int (length xs) + right = 2 * int (length xs) + int (length ys - 1)" using False by (simp add: right_def of_nat_diff)
      then show ?thesis unfolding lu by (simp add: zdiv_int)
    qed
    obtain rest where r: "swap (xs @ ys @ zs) (int (length xs)) ((int (length xs) + right) div 2) = Some (xs @ p # rest @ zs)"
      "mset (p # rest) = mset ys" "length rest + 1 = length ys"
      using swap_middle[of xs us p vs zs] unfolding mid unfolding ys by auto
    obtain small big where part: "partition_from (xs @ p # rest @ zs) (int (length xs)) right (int (length xs)) (int (length xs) + 1)
        = Some (xs @ p # small @ big @ zs, int (length xs + length small))"
      "mset (small @ big) = mset rest" "\<forall>s\<in>set small. s <s p" "\<forall>b\<in>set big. p \<le>s b"
    proof -
      have "right = int (length xs + length rest)" using r(3) by (simp add: right_def)
      then show thesis using partition_splits[of "[]" p "[]" xs rest zs] that by (auto simp: add.commute)
    qed
    obtain small' where sw: "swap (xs @ p # small @ big @ zs) (int (length xs)) (int (length xs + length small)) = Some (xs @ small' @ p # big @ zs)"
      "mset small' = mset small" using swap_pivot[of xs p small "big @ zs"] by blast
    have len: "length small' = length small" "length small + length big + 1 = length ys"
      using mset_eq_length[OF sw(2)] mset_eq_length[OF part(2)] r(3) by simp_all
    obtain ss where ss: "qsort (xs @ small' @ p # big @ zs) (int (length xs)) (int (length xs + length small) - 1) = Some (xs @ ss @ p # big @ zs)"
      "mset ss = mset small'" "sorted_wrt (\<le>s) ss"
      using less[of small' xs "p # big @ zs"] len by auto
    have lss: "length ss = length small" using mset_eq_length[OF ss(2)] len(1) by simp
    obtain bs where bs: "qsort (xs @ ss @ p # big @ zs) (int (length xs + length small) + 1) right = Some (xs @ (ss @ p # bs) @ zs)"
      "mset bs = mset big" "sorted_wrt (\<le>s) bs"
    proof -
      have "right = int (length big) + (int (length small) + int (length xs))" using len(2) by (simp add: right_def)
      then show thesis using less[of big "xs @ ss @ [p]" zs] len(2) lss that by (auto simp: algebra_simps)
    qed
    have "qsort (xs @ ys @ zs) (int (length xs)) right = Some (xs @ (ss @ p # bs) @ zs)"
      using False r(1) part(1) sw(1) ss(1) bs(1) by (subst qsort.simps) (simp add: right_def)
    moreover have "mset (ss @ p # bs) = mset ys" using r(2) part(2) sw(2) ss(2) bs(2) by (metis mset.simps(2) mset_append union_mset_add_mset_right)
    moreover have "sorted_wrt (\<le>s) (ss @ p # bs)"
      using ss bs sw(2) part(3,4) mset_eq_setD[of ss small'] mset_eq_setD[of small' small] mset_eq_setD[of bs big] by (intro sorted_around) auto
    ultimately show ?thesis unfolding right_def by blast
  qed
qed

text \<open>C37: The exchange sort and the quicksort both end without leaving the array, for every array, and both leave the sorted array.\<close>

theorem sorts_agree:
  "\<exists>w. sort_ints v (int (length v)) = Some w \<and> qsort v 0 (int (length v) - 1) = Some w \<and> map sint w = sort (map sint v)"
proof -
  obtain w where w: "sort_ints v (int (length v)) = Some w" "mset w = mset v" "sorted_wrt (\<le>s) w"
    using sort_from_sorts[of "int (length v)" "[]" v] by (auto simp: sort_ints_def)
  obtain q where q: "qsort v 0 (int (length v) - 1) = Some q" "mset q = mset v" "sorted_wrt (\<le>s) q"
    using qsort_sorts[of "[]" v "[]"] by auto
  have s: "map sint x = sort (map sint v)" if "mset x = mset v" "sorted_wrt (\<le>s) x" for x
  proof (rule properties_for_sort[symmetric])
    show "mset (map sint x) = mset (map sint v)" unfolding mset_map that(1) ..
    show "sorted (map sint x)" unfolding sorted_wrt_map by (rule sorted_wrt_mono_rel[OF _ that(2)]) (simp only: word_sle_eq)
  qed
  have "map sint q = map sint w" using s w q by simp
  then have "q = w" by (rule map_injective) (metis injI word_of_int_of_sint)
  then show ?thesis using w q s by blast
qed

end
