(* ===== verification/Spi_Driver.thy ===== *)
theory Spi_Driver
  imports Stdlib_Text "HOL-Library.State_Monad"
begin

text \<open>
  The bit-banged SPI master of lib/spi.c and the drivers over it, lib/25lcxx.c (serial EEPROM) and lib/mcp23s17.c (port
  expander). The state is the output register of port A and the sequence of the values written to it; the device on
  the bus is a parameter, the value of the input register after these writes. The macro \<open>SPI_MODE\<close> chooses the code
  at compile time and is an argument here.
\<close>

unbundle bit_operations_syntax

subsection \<open>The port\<close>

datatype spi_mode = Mode0 | Mode1 | Mode2 | Mode3

record spi =
  sp_out :: u32
  sp_log :: "u32 list"

type_synonym spi_slave = "u32 list \<Rightarrow> u32"

abbreviation SPI_CS :: u32 where "SPI_CS \<equiv> 0x10"
abbreviation SPI_SCK :: u32 where "SPI_SCK \<equiv> 0x20"
abbreviation SPI_MOSI :: u32 where "SPI_MOSI \<equiv> 0x40"
abbreviation SPI_MISO :: u32 where "SPI_MISO \<equiv> 0x80"

definition write_out :: "u32 \<Rightarrow> (spi, unit) state" where
  "write_out v = State (\<lambda>s. ((), s\<lparr>sp_out := v, sp_log := sp_log s @ [v]\<rparr>))"

definition set_out :: "u32 \<Rightarrow> (spi, unit) state" where
  "set_out b = do { s \<leftarrow> State_Monad.get; write_out (sp_out s OR b) }"

definition clear_out :: "u32 \<Rightarrow> (spi, unit) state" where
  "clear_out b = do { s \<leftarrow> State_Monad.get; write_out (sp_out s AND NOT b) }"

subsection \<open>The master\<close>

definition spi_setup :: "spi_mode \<Rightarrow> (spi, unit) state" where
  "spi_setup mode = do { set_out SPI_CS; if mode = Mode0 \<or> mode = Mode1 then clear_out SPI_SCK else set_out SPI_SCK }"

definition spi_start :: "(spi, unit) state" where
  "spi_start = clear_out SPI_CS"

definition spi_stop :: "(spi, unit) state" where
  "spi_stop = set_out SPI_CS"

definition put_mosi :: "u8 \<Rightarrow> (spi, unit) state" where
  "put_mosi data = (if data AND 0x80 \<noteq> 0 then set_out SPI_MOSI else clear_out SPI_MOSI)"

definition shift_in :: "spi_slave \<Rightarrow> u8 \<Rightarrow> (spi, u8) state" where
  "shift_in sl newdata = do {
     s \<leftarrow> State_Monad.get;
     State_Monad.return (push_bit 1 newdata OR (if sl (sp_log s) AND SPI_MISO \<noteq> 0 then 1 else 0)) }"

text \<open>The body of the loop of \<open>spi_transfer\<close> for each mode, but the shift of \<open>data\<close>.\<close>

fun transfer_bit :: "spi_mode \<Rightarrow> spi_slave \<Rightarrow> u8 \<Rightarrow> u8 \<Rightarrow> (spi, u8) state" where
  "transfer_bit Mode0 sl data newdata =
     do { put_mosi data; set_out SPI_SCK; newdata \<leftarrow> shift_in sl newdata; clear_out SPI_SCK; State_Monad.return newdata }"
| "transfer_bit Mode1 sl data newdata =
     do { set_out SPI_SCK; put_mosi data; clear_out SPI_SCK; shift_in sl newdata }"
| "transfer_bit Mode2 sl data newdata =
     do { put_mosi data; clear_out SPI_SCK; newdata \<leftarrow> shift_in sl newdata; set_out SPI_SCK; State_Monad.return newdata }"
| "transfer_bit Mode3 sl data newdata =
     do { clear_out SPI_SCK; put_mosi data; set_out SPI_SCK; shift_in sl newdata }"

fun transfer_loop :: "spi_mode \<Rightarrow> spi_slave \<Rightarrow> nat \<Rightarrow> u8 \<Rightarrow> u8 \<Rightarrow> (spi, u8) state" where
  "transfer_loop mode sl 0 data newdata = State_Monad.return newdata"
| "transfer_loop mode sl (Suc n) data newdata =
     do { newdata \<leftarrow> transfer_bit mode sl data newdata; transfer_loop mode sl n (push_bit 1 data) newdata }"

definition spi_transfer :: "spi_mode \<Rightarrow> spi_slave \<Rightarrow> u8 \<Rightarrow> (spi, u8) state" where
  "spi_transfer mode sl data = transfer_loop mode sl 8 data 0"

subsection \<open>The EEPROM\<close>

definition spi_eeprom_readbyte :: "spi_mode \<Rightarrow> spi_slave \<Rightarrow> u16 \<Rightarrow> (spi, u8) state" where
  "spi_eeprom_readbyte mode sl addr = do {
     spi_start;
     spi_transfer mode sl 0x03;
     spi_transfer mode sl (ucast (drop_bit 8 addr));
     spi_transfer mode sl (ucast (addr AND 0xFF));
     data \<leftarrow> spi_transfer mode sl 0;
     spi_stop;
     State_Monad.return data }"

fun read_bytes :: "spi_mode \<Rightarrow> spi_slave \<Rightarrow> byte_mem \<Rightarrow> u32 \<Rightarrow> nat \<Rightarrow> (spi, byte_mem) state" where
  "read_bytes mode sl m buf 0 = State_Monad.return m"
| "read_bytes mode sl m buf (Suc n) = do { d \<leftarrow> spi_transfer mode sl 0; read_bytes mode sl (m(buf := d)) (buf + 1) n }"

definition spi_eeprom_read :: "spi_mode \<Rightarrow> spi_slave \<Rightarrow> byte_mem \<Rightarrow> u16 \<Rightarrow> u32 \<Rightarrow> u16 \<Rightarrow> (spi, byte_mem) state" where
  "spi_eeprom_read mode sl m addr buf len = do {
     spi_start;
     spi_transfer mode sl 0x03;
     spi_transfer mode sl (ucast (drop_bit 8 addr));
     spi_transfer mode sl (ucast (addr AND 0xFF));
     m \<leftarrow> read_bytes mode sl m buf (unat len);
     spi_stop;
     State_Monad.return m }"

fun write_bytes :: "spi_mode \<Rightarrow> spi_slave \<Rightarrow> byte_mem \<Rightarrow> u32 \<Rightarrow> nat \<Rightarrow> (spi, unit) state" where
  "write_bytes mode sl m data 0 = State_Monad.return ()"
| "write_bytes mode sl m data (Suc n) = do { spi_transfer mode sl (m data); write_bytes mode sl m (data + 1) n }"

text \<open>The result is that of the delay at the end, over the timer readings \<open>t\<close>.\<close>

definition spi_eeprom_writepage ::
  "spi_mode \<Rightarrow> spi_slave \<Rightarrow> u32 \<Rightarrow> (nat \<Rightarrow> u32) \<Rightarrow> byte_mem \<Rightarrow> u16 \<Rightarrow> u32 \<Rightarrow> (spi, nat option) state" where
  "spi_eeprom_writepage mode sl cpu t m page data = do {
     spi_start;
     spi_transfer mode sl 0x06;
     spi_stop;
     spi_start;
     spi_transfer mode sl 0x02;
     spi_transfer mode sl (ucast (signed_drop_bit 8 (ucast page * 64 :: u32)));
     spi_transfer mode sl (ucast ((ucast page * 64 :: u32) AND 0xFF));
     write_bytes mode sl m data 64;
     spi_stop;
     State_Monad.return (delay_ms cpu 10 t) }"

subsection \<open>The port expander\<close>

definition control_byte :: "u8 \<Rightarrow> u8" where
  "control_byte device = 0x40 OR push_bit 1 (device AND 7)"

definition mcp23s17_dir :: "spi_mode \<Rightarrow> spi_slave \<Rightarrow> u8 \<Rightarrow> u8 \<Rightarrow> u8 \<Rightarrow> (spi, unit) state" where
  "mcp23s17_dir mode sl device bank reg = do {
     spi_start;
     spi_transfer mode sl (control_byte device);
     spi_transfer mode sl (if bank \<noteq> 0 then 0x01 else 0x00);
     spi_transfer mode sl reg;
     spi_stop }"

definition mcp23s17_read :: "spi_mode \<Rightarrow> spi_slave \<Rightarrow> u8 \<Rightarrow> u8 \<Rightarrow> (spi, u8) state" where
  "mcp23s17_read mode sl device bank = do {
     spi_start;
     spi_transfer mode sl (control_byte device OR 0x01);
     spi_transfer mode sl (if bank \<noteq> 0 then 0x13 else 0x12);
     reg \<leftarrow> spi_transfer mode sl 0;
     spi_stop;
     State_Monad.return reg }"

definition mcp23s17_write :: "spi_mode \<Rightarrow> spi_slave \<Rightarrow> u8 \<Rightarrow> u8 \<Rightarrow> u8 \<Rightarrow> (spi, unit) state" where
  "mcp23s17_write mode sl device bank reg = do {
     spi_start;
     spi_transfer mode sl (control_byte device);
     spi_transfer mode sl (if bank \<noteq> 0 then 0x13 else 0x12);
     spi_transfer mode sl reg;
     spi_stop }"

definition mcp23s17_inten :: "spi_mode \<Rightarrow> spi_slave \<Rightarrow> u8 \<Rightarrow> u8 \<Rightarrow> u8 \<Rightarrow> (spi, unit) state" where
  "mcp23s17_inten mode sl device bank reg = do {
     spi_start;
     spi_transfer mode sl (control_byte device);
     spi_transfer mode sl (if bank \<noteq> 0 then 0x05 else 0x04);
     spi_transfer mode sl reg;
     spi_stop }"

definition mcp23s17_init :: "spi_mode \<Rightarrow> spi_slave \<Rightarrow> u8 \<Rightarrow> u8 \<Rightarrow> u8 \<Rightarrow> (spi, unit) state" where
  "mcp23s17_init mode sl device portdir_a portdir_b = do {
     spi_setup mode;
     spi_start;
     spi_transfer mode sl (control_byte device);
     spi_transfer mode sl 0x0A;
     spi_transfer mode sl (push_bit 3 1 OR push_bit 1 1);
     spi_stop;
     mcp23s17_dir mode sl device 0 portdir_a;
     mcp23s17_dir mode sl device 1 portdir_b;
     mcp23s17_write mode sl device 0 0x00;
     mcp23s17_write mode sl device 1 0x00;
     spi_start;
     spi_transfer mode sl (control_byte device);
     spi_transfer mode sl 0x0C;
     spi_transfer mode sl 0xFF;
     spi_transfer mode sl 0xFF;
     spi_stop }"

end
