(* ===== verification/Spi_Props.thy ===== *)
theory Spi_Props
  imports Spi_Driver
begin

text \<open>
  What a device on the SPI bus sees. The wire is the sequence of values of the output port; \<open>wire\<close> decodes it as a
  device does: selection and release by the chip select, and one exchange of two bits at every sampling edge
  of the clock. The master exchanges a byte in each of the four modes; the contract of a bus master is a locale, from
  which the frames of the drivers follow.
\<close>

unbundle bit_operations_syntax

subsection \<open>The wire\<close>

datatype wire_event = Select | Exchange bool bool | Release

definition clock_idle :: "spi_mode \<Rightarrow> bool" where
  "clock_idle mode \<longleftrightarrow> mode = Mode2 \<or> mode = Mode3"

definition sampling_edge :: "spi_mode \<Rightarrow> bool" where
  "sampling_edge mode \<longleftrightarrow> mode = Mode0 \<or> mode = Mode3"

text \<open>A device samples the master's bit (pin 6) when the clock (pin 5) changes to the level of the sampling edge; the bit it
  presents itself is read after that change.\<close>

fun wire :: "spi_mode \<Rightarrow> spi_slave \<Rightarrow> u32 list \<Rightarrow> u32 \<Rightarrow> u32 list \<Rightarrow> wire_event list" where
  "wire mode sl h prev [] = []"
| "wire mode sl h prev (v # vs) =
     (if bit prev 4 \<and> \<not> bit v 4 then [Select]
      else if \<not> bit prev 4 \<and> bit v 4 then [Release]
      else if \<not> bit v 4 \<and> bit prev 5 \<noteq> bit v 5 \<and> bit v 5 = sampling_edge mode then [Exchange (bit v 6) (bit (sl (h @ [v])) 7)]
      else []) @ wire mode sl (h @ [v]) v vs"

text \<open>What is on the wire between two states of the port.\<close>

definition between :: "spi_mode \<Rightarrow> spi_slave \<Rightarrow> spi \<Rightarrow> spi \<Rightarrow> wire_event list \<Rightarrow> bool" where
  "between mode sl s s' evs \<longleftrightarrow>
     (\<exists>w. sp_log s' = sp_log s @ w \<and> sp_out s' = last (sp_out s # w) \<and> wire mode sl (sp_log s) (sp_out s) w = evs)"

definition idle :: "spi_mode \<Rightarrow> spi \<Rightarrow> bool" where
  "idle mode s \<longleftrightarrow> bit (sp_out s) 4 \<and> bit (sp_out s) 5 = clock_idle mode"

definition selected :: "spi_mode \<Rightarrow> spi \<Rightarrow> bool" where
  "selected mode s \<longleftrightarrow> \<not> bit (sp_out s) 4 \<and> bit (sp_out s) 5 = clock_idle mode"

lemma wire_append: "wire mode sl h prev (v @ w) = wire mode sl h prev v @ wire mode sl (h @ v) (last (prev # v)) w"
proof (induction v arbitrary: h prev)
  case (Cons a v)
  have "last (prev # a # v) = last (a # v)" by simp
  then show ?case using Cons[of "h @ [a]" a] by (simp only: append_Cons wire.simps append_assoc append_Nil)
qed simp

lemma between_refl: "between mode sl s s []"
  by (auto simp: between_def intro: exI[of _ "[]"])

lemma between_trans:
  assumes "between mode sl s s' e" "between mode sl s' s'' f"
  shows "between mode sl s s'' (e @ f)"
proof -
  obtain v where v: "sp_log s' = sp_log s @ v" "sp_out s' = last (sp_out s # v)" "wire mode sl (sp_log s) (sp_out s) v = e"
    using assms(1) unfolding between_def by blast
  obtain w where w: "sp_log s'' = sp_log s' @ w" "sp_out s'' = last (sp_out s' # w)" "wire mode sl (sp_log s') (sp_out s') w = f"
    using assms(2) unfolding between_def by blast
  have "last (last (sp_out s # v) # w) = last (sp_out s # v @ w)" by (cases w) simp_all
  then show ?thesis unfolding between_def
    using v w by (intro exI[of _ "v @ w"]) (simp only: wire_append append_assoc simp_thms)
qed

text \<open>The writes as changes of single pins.\<close>

definition pin_written :: "bool \<Rightarrow> nat \<Rightarrow> spi \<Rightarrow> spi" where
  "pin_written b n s = (let v = (if b then set_bit n (sp_out s) else unset_bit n (sp_out s)) in s\<lparr>sp_out := v, sp_log := sp_log s @ [v]\<rparr>)"

lemma masks: "SPI_CS = push_bit 4 1" "SPI_SCK = push_bit 5 1" "SPI_MOSI = push_bit 6 1"
  by (simp_all only: push_bit_eq_mult) simp_all

lemma run_pins [simp]:
  "run_state (set_out SPI_CS) s = ((), pin_written True 4 s)" "run_state (clear_out SPI_CS) s = ((), pin_written False 4 s)"
  "run_state (set_out SPI_SCK) s = ((), pin_written True 5 s)" "run_state (clear_out SPI_SCK) s = ((), pin_written False 5 s)"
  "run_state (put_mosi d) s = ((), pin_written (bit d 7) 6 s)"
proof -
  have w: "run_state (set_out (push_bit n 1)) s = ((), pin_written True n s)" "run_state (clear_out (push_bit n 1)) s = ((), pin_written False n s)" for n
    unfolding set_out_def clear_out_def write_out_def pin_written_def by (simp_all add: set_bit_eq_or unset_bit_eq_and_not Let_def)
  show "run_state (set_out SPI_CS) s = ((), pin_written True 4 s)" "run_state (clear_out SPI_CS) s = ((), pin_written False 4 s)"
    "run_state (set_out SPI_SCK) s = ((), pin_written True 5 s)" "run_state (clear_out SPI_SCK) s = ((), pin_written False 5 s)"
    unfolding masks by (rule w)+
  have "d AND 0x80 \<noteq> 0 \<longleftrightarrow> bit d 7" using and_power_eq_0[of d 7] by simp
  then show "run_state (put_mosi d) s = ((), pin_written (bit d 7) 6 s)" unfolding put_mosi_def masks by (simp only: w split: if_split) simp
qed

lemma pin_written_out [simp]:
  "sp_log (pin_written b n s) = sp_log s @ [sp_out (pin_written b n s)]"
  "n < 32 \<Longrightarrow> bit (sp_out (pin_written b n s)) k \<longleftrightarrow> (if k = n then b else bit (sp_out s) k)"
  by (simp_all add: pin_written_def Let_def bit_set_bit_iff bit_unset_bit_iff)

text \<open>Every write adds one value to the log; what it means depends on the pin.\<close>

lemma pin_between: "between mode sl s (pin_written b n s) (wire mode sl (sp_log s) (sp_out s) [sp_out (pin_written b n s)])"
  unfolding between_def by (rule exI[of _ "[sp_out (pin_written b n s)]"]) simp

lemma start_selects:
  assumes "idle mode s" "run_state spi_start s = (x, s')"
  shows "selected mode s' \<and> between mode sl s s' [Select]"
  using assms pin_between[of mode sl s False 4] unfolding spi_start_def by (auto simp: idle_def selected_def)

lemma stop_releases:
  assumes "selected mode s" "run_state spi_stop s = (x, s')"
  shows "idle mode s' \<and> between mode sl s s' [Release]"
  using assms pin_between[of mode sl s True 4] unfolding spi_stop_def by (auto simp: idle_def selected_def)

lemma shift_in_run: "run_state (shift_in sl new) s = (push_bit 1 new OR (if bit (sl (sp_log s)) 7 then 1 else 0), s)"
  using and_power_eq_0[of "sl (sp_log s)" 7] unfolding shift_in_def by simp

text \<open>Three writes in a row.\<close>

lemma three_writes:


  shows "between mode sl s (pin_written b3 n3 (pin_written b2 n2 (pin_written b1 n1 s)))
    (wire mode sl (sp_log s) (sp_out s)
      [sp_out (pin_written b1 n1 s), sp_out (pin_written b2 n2 (pin_written b1 n1 s)), sp_out (pin_written b3 n3 (pin_written b2 n2 (pin_written b1 n1 s)))])"
  unfolding between_def
  by (rule exI[of _ "[sp_out (pin_written b1 n1 s), sp_out (pin_written b2 n2 (pin_written b1 n1 s)),
    sp_out (pin_written b3 n3 (pin_written b2 n2 (pin_written b1 n1 s)))]"]) simp

text \<open>The two shapes of a bit on the wire: the data before the clock, and the clock before the data.\<close>

lemma wire_data_first:
  assumes "\<not> bit p 4" "\<not> bit v1 4" "\<not> bit v2 4" "\<not> bit v3 4"
    "bit p 5 = (\<not> sampling_edge mode)" "bit v1 5 = (\<not> sampling_edge mode)" "bit v2 5 = sampling_edge mode" "bit v3 5 = (\<not> sampling_edge mode)"
  shows "wire mode sl h p [v1, v2, v3] = [Exchange (bit v2 6) (bit (sl (h @ [v1, v2])) 7)]"
  using assms by simp

lemma wire_clock_first:
  assumes "\<not> bit p 4" "\<not> bit v1 4" "\<not> bit v2 4" "\<not> bit v3 4"
    "bit p 5 = sampling_edge mode" "bit v1 5 = (\<not> sampling_edge mode)" "bit v2 5 = (\<not> sampling_edge mode)" "bit v3 5 = sampling_edge mode"
  shows "wire mode sl h p [v1, v2, v3] = [Exchange (bit v3 6) (bit (sl (h @ [v1, v2, v3])) 7)]"
  using assms by simp

lemma data_first_run:
  assumes "selected mode s" "clock_idle mode = (\<not> e)" "sampling_edge mode = e"
    "s' = pin_written (\<not> e) 5 (pin_written e 5 (pin_written d 6 s))"
    "b = bit (sl (sp_log (pin_written e 5 (pin_written d 6 s)))) 7"
  shows "selected mode s' \<and> between mode sl s s' [Exchange d b]"
proof -
  have "between mode sl s s' (wire mode sl (sp_log s) (sp_out s) [sp_out (pin_written d 6 s), sp_out (pin_written e 5 (pin_written d 6 s)), sp_out s'])"
    unfolding assms(4) by (rule three_writes)
  also have "wire mode sl (sp_log s) (sp_out s) [sp_out (pin_written d 6 s), sp_out (pin_written e 5 (pin_written d 6 s)), sp_out s'] =
      [Exchange (bit (sp_out (pin_written e 5 (pin_written d 6 s))) 6)
        (bit (sl (sp_log s @ [sp_out (pin_written d 6 s), sp_out (pin_written e 5 (pin_written d 6 s))])) 7)]"
    using assms(1-3) unfolding assms(4) by (intro wire_data_first) (simp_all add: selected_def)
  finally show ?thesis using assms(1-3) unfolding assms(4,5) by (simp add: selected_def)
qed

lemma clock_first_run:
  assumes "selected mode s" "clock_idle mode = e" "sampling_edge mode = e"
    "s' = pin_written e 5 (pin_written d 6 (pin_written (\<not> e) 5 s))" "b = bit (sl (sp_log s')) 7"
  shows "selected mode s' \<and> between mode sl s s' [Exchange d b]"
proof -
  have "between mode sl s s' (wire mode sl (sp_log s) (sp_out s)
      [sp_out (pin_written (\<not> e) 5 s), sp_out (pin_written d 6 (pin_written (\<not> e) 5 s)), sp_out s'])"
    unfolding assms(4) by (rule three_writes)
  also have "wire mode sl (sp_log s) (sp_out s) [sp_out (pin_written (\<not> e) 5 s), sp_out (pin_written d 6 (pin_written (\<not> e) 5 s)), sp_out s'] =
      [Exchange (bit (sp_out s') 6) (bit (sl (sp_log s @ [sp_out (pin_written (\<not> e) 5 s), sp_out (pin_written d 6 (pin_written (\<not> e) 5 s)), sp_out s'])) 7)]"
    using assms(1-3) unfolding assms(4) by (intro wire_clock_first) (simp_all add: selected_def)
  finally show ?thesis using assms(1-3) unfolding assms(4,5) by (simp add: selected_def)
qed

text \<open>One bit, in each of the modes.\<close>

definition bit_in :: "u8 \<Rightarrow> bool \<Rightarrow> u8" where
  "bit_in new b = push_bit 1 new OR (if b then 1 else 0)"

lemma transfer_bit_runs:
  "run_state (transfer_bit Mode0 sl d n) s = (let t = pin_written True 5 (pin_written (bit d 7) 6 s) in (bit_in n (bit (sl (sp_log t)) 7), pin_written False 5 t))"
  "run_state (transfer_bit Mode1 sl d n) s = (let t = pin_written False 5 (pin_written (bit d 7) 6 (pin_written True 5 s)) in (bit_in n (bit (sl (sp_log t)) 7), t))"
  "run_state (transfer_bit Mode2 sl d n) s = (let t = pin_written False 5 (pin_written (bit d 7) 6 s) in (bit_in n (bit (sl (sp_log t)) 7), pin_written True 5 t))"
  "run_state (transfer_bit Mode3 sl d n) s = (let t = pin_written True 5 (pin_written (bit d 7) 6 (pin_written False 5 s)) in (bit_in n (bit (sl (sp_log t)) 7), t))"
  unfolding transfer_bit.simps bit_in_def
  by (simp_all only: run_state_bind run_state_return run_pins shift_in_run Let_def split_def fst_conv snd_conv)

lemma transfer_bit_exchanges:
  assumes "selected mode s" "run_state (transfer_bit mode sl data new) s = (new', s')"
  shows "\<exists>b. selected mode s' \<and> between mode sl s s' [Exchange (bit data 7) b] \<and> new' = bit_in new b"
proof (cases mode)
  case Mode0
  show ?thesis using data_first_run[OF assms(1), of True] assms(2) unfolding Mode0 transfer_bit_runs Let_def
    by (simp add: clock_idle_def sampling_edge_def) blast
next
  case Mode1
  show ?thesis using clock_first_run[OF assms(1), of False] assms(2) unfolding Mode1 transfer_bit_runs Let_def
    by (simp add: clock_idle_def sampling_edge_def) blast
next
  case Mode2
  show ?thesis using data_first_run[OF assms(1), of False] assms(2) unfolding Mode2 transfer_bit_runs Let_def
    by (simp add: clock_idle_def sampling_edge_def) blast
next
  case Mode3
  show ?thesis using clock_first_run[OF assms(1), of True] assms(2) unfolding Mode3 transfer_bit_runs Let_def
    by (simp add: clock_idle_def sampling_edge_def) blast
qed

text \<open>Eight bits: the byte of the master is on the wire, the highest bit first, and the result is the byte of the slave.\<close>

definition byte_exchange :: "u8 \<Rightarrow> u8 \<Rightarrow> wire_event list" where
  "byte_exchange d r = map (\<lambda>i. Exchange (bit d (7 - i)) (bit r (7 - i))) [0..<8]"

lemma transfer_loop_exchanges:
  assumes "selected mode s" "run_state (transfer_loop mode sl n data new) s = (r, s')"
  shows "\<exists>bs. length bs = n \<and> selected mode s' \<and> r = foldl bit_in new bs \<and>
    between mode sl s s' (map2 Exchange (map (\<lambda>i. bit (push_bit i data) 7) [0..<n]) bs)"
  using assms
proof (induction n arbitrary: data new s)
  case 0
  then show ?case by (simp add: between_refl)
next
  case (Suc n)
  obtain new1 s1 where one: "run_state (transfer_bit mode sl data new) s = (new1, s1)" by fastforce
  have rest: "run_state (transfer_loop mode sl n (push_bit 1 data) new1) s1 = (r, s')"
    using Suc.prems(2) unfolding transfer_loop.simps run_state_bind one by simp
  obtain b where b: "selected mode s1" "between mode sl s s1 [Exchange (bit data 7) b]" "new1 = bit_in new b"
    using transfer_bit_exchanges[OF Suc.prems(1) one] by blast
  obtain bs where bs: "length bs = n" "selected mode s'" "r = foldl bit_in new1 bs"
    "between mode sl s1 s' (map2 Exchange (map (\<lambda>i. bit (push_bit i (push_bit 1 data)) 7) [0..<n]) bs)"
    using Suc.IH[OF b(1) rest] by blast
  have "map (\<lambda>i. bit (push_bit i data) 7) [0..<Suc n] = bit data 7 # map (\<lambda>i. bit (push_bit i (push_bit 1 data)) 7) [0..<n]"
    by (simp only: upt_conv_Cons[OF zero_less_Suc] list.map map_Suc_upt[symmetric] map_map o_def push_bit_push_bit) simp
  then show ?case
    using bs between_trans[OF b(2) bs(4)] b(3) by (intro exI[of _ "b # bs"]) (simp only: list.map length_Cons foldl_Cons zip_Cons_Cons append_Cons append_Nil prod.case simp_thms)
qed

lemma bit_in_bit: "bit (bit_in n b) i \<longleftrightarrow> i < 8 \<and> (if i = 0 then b else bit n (i - 1))" for n :: u8
proof -
  have "bit (push_bit 1 n) i \<longleftrightarrow> i < 8 \<and> 0 < i \<and> bit n (i - 1)" by (simp only: bit_push_bit_iff) (auto dest: bit_imp_le_length)
  then show ?thesis unfolding bit_in_def bit_or_iff by (cases "i = 0") (simp_all add: bit_1_iff)
qed

lemma foldl_bit_in:
  "i < 8 \<Longrightarrow> bit (foldl bit_in n bs) i \<longleftrightarrow> (if i < length bs then bs ! (length bs - 1 - i) else bit n (i - length bs))"
proof (induction bs arbitrary: i rule: rev_induct)
  case (snoc b bs)
  show ?case using snoc.prems snoc.IH[of "i - 1"] by (cases i) (auto simp add: bit_in_bit nth_append)
qed simp

lemma byte_exchanged:
  assumes "selected mode s" "run_state (spi_transfer mode sl data) s = (r, s')"
  shows "selected mode s' \<and> between mode sl s s' (byte_exchange data r)"
proof -
  obtain bs where bs: "length bs = 8" "selected mode s'" "r = foldl bit_in 0 bs"
    "between mode sl s s' (map2 Exchange (map (\<lambda>i. bit (push_bit i data) 7) [0..<8]) bs)"
    using transfer_loop_exchanges[OF assms(1) assms(2)[unfolded spi_transfer_def]] by blast
  have "map2 Exchange (map (\<lambda>i. bit (push_bit i data) 7) [0..<8]) bs = byte_exchange data r"
    unfolding byte_exchange_def bs(3) by (rule nth_equalityI) (auto simp: bs(1) foldl_bit_in bit_push_bit_iff)
  then show ?thesis using bs(2,4) by simp
qed

text \<open>C38: In every mode, a transfer on a selected bus puts exactly eight exchanges on the wire: the bits of the byte of the caller, the
  highest first, against the bits of the result, each read after the sampling edge; the bus stays selected with an idle clock.\<close>

theorem spi_transfer_exchanges:
  assumes "selected mode s" "run_state (spi_transfer mode sl data) s = (r, s')"
  shows "selected mode s' \<and> between mode sl s s' (byte_exchange data r)"
  using assms by (rule byte_exchanged)

lemma spi_transfer_exchanges_witness:
  "selected Mode3 (snd (run_state (spi_transfer Mode3 (\<lambda>_. 0) 0xA5) \<lparr>sp_out = 0x20, sp_log = []\<rparr>))"
proof -
  have "selected Mode3 \<lparr>sp_out = 0x20, sp_log = []\<rparr>" by (simp add: selected_def clock_idle_def bit_numeral_word_iff)
  then show ?thesis using spi_transfer_exchanges prod.collapse by metis
qed

subsection \<open>The contract of a bus master\<close>

text \<open>Bytes in a row, with the list of the answers.\<close>

fun transfer_all :: "(u8 \<Rightarrow> ('s, u8) state) \<Rightarrow> u8 list \<Rightarrow> ('s, u8 list) state" where
  "transfer_all tr [] = State_Monad.return []"
| "transfer_all tr (d # ds) = do { r \<leftarrow> tr d; rs \<leftarrow> transfer_all tr ds; State_Monad.return (r # rs) }"

lemma transfer_all_append:
  "transfer_all tr (ds @ es) = do { rs \<leftarrow> transfer_all tr ds; qs \<leftarrow> transfer_all tr es; State_Monad.return (rs @ qs) }"
  by (induction ds) simp_all

definition framed :: "('s, unit) state \<Rightarrow> ('s, unit) state \<Rightarrow> (u8 \<Rightarrow> ('s, u8) state) \<Rightarrow> u8 list \<Rightarrow> ('s, u8 list) state" where
  "framed start stop tr ds = do { start; rs \<leftarrow> transfer_all tr ds; stop; State_Monad.return rs }"

fun frames :: "('s, unit) state \<Rightarrow> ('s, unit) state \<Rightarrow> (u8 \<Rightarrow> ('s, u8) state) \<Rightarrow> u8 list list \<Rightarrow> ('s, u8 list list) state" where
  "frames start stop tr [] = State_Monad.return []"
| "frames start stop tr (ds # dss) = do { rs \<leftarrow> framed start stop tr ds; rss \<leftarrow> frames start stop tr dss; State_Monad.return (rs # rss) }"

locale serial_bus =
  fixes start stop :: "('s, unit) state" and tr :: "u8 \<Rightarrow> ('s, u8) state"
    and free taken :: "'s \<Rightarrow> bool" and seen :: "'s \<Rightarrow> 's \<Rightarrow> 'e list \<Rightarrow> bool"
    and sel rel :: 'e and byte :: "u8 \<Rightarrow> u8 \<Rightarrow> 'e list"
  assumes seen_refl: "seen s s []"
    and seen_trans: "seen s s' e \<Longrightarrow> seen s' s'' f \<Longrightarrow> seen s s'' (e @ f)"
    and start_law: "free s \<Longrightarrow> run_state start s = (x, s') \<Longrightarrow> taken s' \<and> seen s s' [sel]"
    and stop_law: "taken s \<Longrightarrow> run_state stop s = (x, s') \<Longrightarrow> free s' \<and> seen s s' [rel]"
    and byte_law: "taken s \<Longrightarrow> run_state (tr d) s = (r, s') \<Longrightarrow> taken s' \<and> seen s s' (byte d r)"
begin

lemma bytes_law:
  assumes "taken s" "run_state (transfer_all tr ds) s = (rs, s')"
  shows "taken s' \<and> length rs = length ds \<and> seen s s' (concat (map2 byte ds rs))"
  using assms
proof (induction ds arbitrary: s rs)
  case Nil
  then show ?case by (simp add: seen_refl)
next
  case (Cons d ds)
  obtain r s1 where one: "run_state (tr d) s = (r, s1)" by fastforce
  obtain qs s2 where more: "run_state (transfer_all tr ds) s1 = (qs, s2)" by fastforce
  have e: "rs = r # qs" "s' = s2" using Cons.prems(2) one more by simp_all
  have 1: "taken s1 \<and> seen s s1 (byte d r)" using byte_law[OF Cons.prems(1) one] .
  have 2: "taken s2 \<and> length qs = length ds \<and> seen s1 s2 (concat (map2 byte ds qs))" using Cons.IH[of s1 qs] 1 more e by simp
  show ?case using 1 2 seen_trans[of s s1 "byte d r" s2] e by simp
qed

lemma frame_law:
  assumes "free s" "run_state (framed start stop tr ds) s = (rs, s')"
  shows "free s' \<and> length rs = length ds \<and> seen s s' (sel # concat (map2 byte ds rs) @ [rel])"
proof -
  obtain x s1 where 1: "run_state start s = (x, s1)" by (cases "run_state start s") auto
  obtain qs s2 where 2: "run_state (transfer_all tr ds) s1 = (qs, s2)" by fastforce
  obtain y s3 where 3: "run_state stop s2 = (y, s3)" by (cases "run_state stop s2") auto
  have e: "rs = qs" "s' = s3" using assms(2) 1 2 3 unfolding framed_def by simp_all
  have a: "taken s1 \<and> seen s s1 [sel]" using start_law[OF assms(1) 1] .
  then have b: "taken s2 \<and> length qs = length ds \<and> seen s1 s2 (concat (map2 byte ds qs))" using bytes_law 2 by blast
  then have c: "free s3 \<and> seen s2 s3 [rel]" using stop_law 3 by blast
  show ?thesis using seen_trans[OF seen_trans[of s s1 "[sel]" s2 "concat (map2 byte ds qs)"], of s3 "[rel]"] a b c e by simp
qed

lemma frames_law:
  assumes "free s" "run_state (frames start stop tr dss) s = (rss, s')"
  shows "free s' \<and> map length rss = map length dss \<and> seen s s' (concat (map2 (\<lambda>ds rs. sel # concat (map2 byte ds rs) @ [rel]) dss rss))"
  using assms
proof (induction dss arbitrary: s rss)
  case Nil
  then show ?case by (simp add: seen_refl)
next
  case (Cons ds dss)
  obtain rs s1 where one: "run_state (framed start stop tr ds) s = (rs, s1)" by fastforce
  obtain qss s2 where more: "run_state (frames start stop tr dss) s1 = (qss, s2)" by fastforce
  have e: "rss = rs # qss" "s' = s2" using Cons.prems(2) one more by simp_all
  have 1: "free s1 \<and> length rs = length ds \<and> seen s s1 (sel # concat (map2 byte ds rs) @ [rel])" using frame_law[OF Cons.prems(1) one] .
  then have 2: "free s2 \<and> map length qss = map length dss \<and> seen s1 s2 (concat (map2 (\<lambda>ds rs. sel # concat (map2 byte ds rs) @ [rel]) dss qss))"
    using Cons.IH[of s1 qss] more e by simp
  show ?case using 1 2 seen_trans[of s s1 "sel # concat (map2 byte ds rs) @ [rel]" s2] e by simp
qed

end

interpretation spi_bus: serial_bus spi_start spi_stop "spi_transfer mode sl" "idle mode" "selected mode" "between mode sl" Select Release byte_exchange
  for mode sl
proof unfold_locales
  fix s s' x assume "selected mode s" "run_state spi_stop s = (x, s')"
  then show "idle mode s' \<and> between mode sl s s' [Release]" by (rule stop_releases)
next
  fix s s' x assume "idle mode s" "run_state spi_start s = (x, s')"
  then show "selected mode s' \<and> between mode sl s s' [Select]" by (rule start_selects)
next
  fix s s' r d assume "selected mode s" "run_state (spi_transfer mode sl d) s = (r, s')"
  then show "selected mode s' \<and> between mode sl s s' (byte_exchange d r)" by (rule byte_exchanged)
qed (auto intro: between_refl between_trans)

abbreviation frame_events :: "u8 list \<Rightarrow> u8 list \<Rightarrow> wire_event list" where
  "frame_events ds rs \<equiv> Select # concat (map2 byte_exchange ds rs) @ [Release]"

abbreviation spi_frame :: "spi_mode \<Rightarrow> spi_slave \<Rightarrow> u8 list \<Rightarrow> (spi, u8 list) state" where
  "spi_frame mode sl \<equiv> framed spi_start spi_stop (spi_transfer mode sl)"

subsection \<open>The EEPROM\<close>

definition addr_bytes :: "u16 \<Rightarrow> u8 list" where
  "addr_bytes a = [ucast (drop_bit 8 a), ucast (a AND 0xFF)]"

lemma read_bytes_all:
  "read_bytes mode sl m buf n = do { rs \<leftarrow> transfer_all (spi_transfer mode sl) (replicate n 0); State_Monad.return (stored m buf rs) }"
  by (induction n arbitrary: m buf) simp_all

lemma write_bytes_all:
  "write_bytes mode sl m p n =
    do { transfer_all (spi_transfer mode sl) (map (\<lambda>i. m (p + of_nat i)) [0..<n]); State_Monad.return () }"
proof (induction n arbitrary: p)
  case (Suc n)
  have e: "map (\<lambda>i. m (p + of_nat i)) [0..<Suc n] = m p # map (\<lambda>i. m (p + 1 + of_nat i)) [0..<n]"
    by (simp only: upt_conv_Cons[OF zero_less_Suc] list.map map_Suc_upt[symmetric] map_map o_def of_nat_Suc add.assoc) simp
  show ?case unfolding e write_bytes.simps transfer_all.simps Suc.IH by simp
qed simp

lemma eeprom_read_frame:
  "spi_eeprom_read mode sl m addr buf len =
    do { rs \<leftarrow> spi_frame mode sl (3 # addr_bytes addr @ replicate (unat len) 0); State_Monad.return (stored m buf (drop 3 rs)) }"
  unfolding spi_eeprom_read_def framed_def addr_bytes_def read_bytes_all by (simp add: numeral_3_eq_3)

lemma eeprom_readbyte_frame:
  "spi_eeprom_readbyte mode sl addr =
    do { rs \<leftarrow> spi_frame mode sl (3 # addr_bytes addr @ [0]); State_Monad.return (rs ! 3) }"
  unfolding spi_eeprom_readbyte_def framed_def addr_bytes_def by (simp add: numeral_3_eq_3)

lemma page_address:
  "ucast (signed_drop_bit 8 (ucast page * 64 :: u32)) = (ucast (drop_bit 8 (page * 64 :: u16)) :: u8)" (is ?hi)
  "ucast ((ucast page * 64 :: u32) AND 0xFF) = (ucast ((page * 64 :: u16) AND 0xFF) :: u8)" (is ?lo)
proof -
  have m: "ucast page * 64 = push_bit 6 (ucast page :: u32)" "page * 64 = push_bit 6 page" by (simp_all add: push_bit_eq_mult)
  have k: "(0xFF :: u32) = mask 8" "(0xFF :: u16) = mask 8" by (simp_all add: mask_eq_exp_minus_1)
  show ?hi unfolding m by (rule bit_word_eqI)
    (auto simp: bit_ucast_iff bit_signed_drop_bit_iff bit_drop_bit_eq bit_push_bit_iff min_def)
  show ?lo unfolding m k by (rule bit_word_eqI) (auto simp: bit_ucast_iff bit_and_iff bit_mask_iff bit_push_bit_iff)
qed

lemma eeprom_writepage_frames:
  "spi_eeprom_writepage mode sl cpu t m page p =
    do { frames spi_start spi_stop (spi_transfer mode sl) [[6], 2 # addr_bytes (page * 64) @ map (\<lambda>i. m (p + of_nat i)) [0..<64]];
         State_Monad.return (delay_ms cpu 10 t) }"
proof -
  show ?thesis unfolding spi_eeprom_writepage_def frames.simps framed_def addr_bytes_def write_bytes_all page_address
    by (simp add: transfer_all_append)
qed

lemma length_addr_bytes [simp]: "length (addr_bytes a) = 2"
  by (simp add: addr_bytes_def)

text \<open>Reading the EEPROM is one frame on the wire, the read command, the address with its high byte first and one zero byte for every
  byte asked for; the bytes the device answers with after the third are stored from the buffer on, in order, and the bus is left idle.\<close>

theorem eeprom_read_stores:
  assumes "idle mode s" "run_state (spi_eeprom_read mode sl m addr buf len) s = (m', s')"
  shows "idle mode s' \<and> (\<exists>h rs. length h = 3 \<and> length rs = unat len \<and> m' = stored m buf rs \<and>
    between mode sl s s' (frame_events (3 # addr_bytes addr @ replicate (unat len) 0) (h @ rs)))"
proof -
  let ?ds = "3 # addr_bytes addr @ replicate (unat len) 0"
  obtain qs s1 where r: "run_state (spi_frame mode sl ?ds) s = (qs, s1)" by fastforce
  have e: "m' = stored m buf (drop 3 qs)" "s' = s1" using assms(2) unfolding eeprom_read_frame run_state_bind r by simp_all
  have "idle mode s1 \<and> length qs = length ?ds \<and> between mode sl s s1 (frame_events ?ds qs)"
    using spi_bus.frame_law[OF assms(1) r] .
  then show ?thesis unfolding e by (intro conjI exI[of _ "take 3 qs"] exI[of _ "drop 3 qs"]) simp_all
qed

lemma eeprom_read_stores_witness:
  "idle Mode0 (snd (run_state (spi_eeprom_read Mode0 (\<lambda>_. 0) (\<lambda>_. 0) 0x1234 16 2) \<lparr>sp_out = 0x10, sp_log = []\<rparr>))"
proof -
  have "idle Mode0 \<lparr>sp_out = 0x10, sp_log = []\<rparr>" by (simp add: idle_def clock_idle_def bit_numeral_word_iff)
  then show ?thesis using eeprom_read_stores prod.collapse by metis
qed

text \<open>Reading one byte is reading a block of one.\<close>

lemma eeprom_readbyte_is_read:
  assumes "idle mode s"
  shows "run_state (spi_eeprom_read mode sl m addr buf 1) s =
    run_state (do { d \<leftarrow> spi_eeprom_readbyte mode sl addr; State_Monad.return (m(buf := d)) }) s"
proof -
  let ?ds = "3 # addr_bytes addr @ [0]"
  obtain qs s1 where r: "run_state (spi_frame mode sl ?ds) s = (qs, s1)" by fastforce
  then have "length qs = 4" using spi_bus.frame_law[OF assms r] by simp
  then have "drop 3 qs = [qs ! 3]" by (simp add: Cons_nth_drop_Suc[symmetric])
  then show ?thesis unfolding eeprom_readbyte_frame eeprom_read_frame run_state_bind
    using r by (simp add: unat_1)
qed

text \<open>Writing a page is two frames, the write enable alone in the first; the second holds the write command, the address of the
  page, sixty-four times its number, and the sixty-four bytes of the buffer in order. The call then waits ten milliseconds.\<close>

theorem eeprom_write_sends:
  assumes "idle mode s" "run_state (spi_eeprom_writepage mode sl cpu t m page p) s = (d, s')"
  shows "idle mode s' \<and> d = delay_ms cpu 10 t \<and> (\<exists>as bs.
    between mode sl s s' (frame_events [6] as @
      frame_events (2 # addr_bytes (page * 64) @ map (\<lambda>i. m (p + of_nat i)) [0..<64]) bs) \<and> length as = 1 \<and> length bs = 67)"
proof -
  let ?dss = "[[6], 2 # addr_bytes (page * 64) @ map (\<lambda>i. m (p + of_nat i)) [0..<64]]"
  obtain qss s1 where r: "run_state (frames spi_start spi_stop (spi_transfer mode sl) ?dss) s = (qss, s1)" by fastforce
  have e: "d = delay_ms cpu 10 t" "s' = s1" using assms(2) unfolding eeprom_writepage_frames run_state_bind r by simp_all
  have f: "idle mode s1 \<and> map length qss = map length ?dss \<and>
      between mode sl s s1 (concat (map2 frame_events ?dss qss))"
    using spi_bus.frames_law[OF assms(1) r] .
  then have "map length qss = [1, 67]" by simp
  then obtain as bs where q: "qss = [as, bs]" "length as = 1" "length bs = 67" by (auto simp: map_eq_Cons_conv)
  show ?thesis using f q unfolding e by (intro conjI exI[of _ as] exI[of _ bs]) simp_all
qed

lemma eeprom_write_sends_witness:
  "idle Mode0 (snd (run_state (spi_eeprom_writepage Mode0 (\<lambda>_. 0) 25000000 (\<lambda>_. 0) (\<lambda>_. 0) 3 16) \<lparr>sp_out = 0x10, sp_log = []\<rparr>))"
proof -
  have "idle Mode0 \<lparr>sp_out = 0x10, sp_log = []\<rparr>" by (simp add: idle_def clock_idle_def bit_numeral_word_iff)
  then show ?thesis using eeprom_write_sends prod.collapse by metis
qed

subsection \<open>The port expander\<close>

lemma expander_frames:
  "mcp23s17_dir mode sl dv bank reg = do { spi_frame mode sl [control_byte dv, if bank \<noteq> 0 then 1 else 0, reg]; State_Monad.return () }"
  "mcp23s17_write mode sl dv bank reg = do { spi_frame mode sl [control_byte dv, if bank \<noteq> 0 then 0x13 else 0x12, reg]; State_Monad.return () }"
  "mcp23s17_inten mode sl dv bank reg = do { spi_frame mode sl [control_byte dv, if bank \<noteq> 0 then 5 else 4, reg]; State_Monad.return () }"
  "mcp23s17_read mode sl dv bank =
    do { rs \<leftarrow> spi_frame mode sl [control_byte dv OR 1, if bank \<noteq> 0 then 0x13 else 0x12, 0]; State_Monad.return (rs ! 2) }"
  unfolding mcp23s17_dir_def mcp23s17_write_def mcp23s17_inten_def mcp23s17_read_def framed_def by (simp_all add: numeral_2_eq_2)

definition init_frames :: "u8 \<Rightarrow> u8 \<Rightarrow> u8 \<Rightarrow> u8 list list" where
  "init_frames dv a b = map ((#) (control_byte dv)) [[0x0A, 0x0A], [0, a], [1, b], [0x12, 0], [0x13, 0], [0x0C, 0xFF, 0xFF]]"

lemma init_is_frames:
  "mcp23s17_init mode sl dv a b =
    do { spi_setup mode; frames spi_start spi_stop (spi_transfer mode sl) (init_frames dv a b); State_Monad.return () }"
proof -
  have c: "(push_bit 3 1 OR push_bit 1 1 :: u8) = 0x0A" by simp
  show ?thesis unfolding mcp23s17_init_def init_frames_def expander_frames list.map frames.simps c by (simp add: framed_def)
qed

lemma setup_idles:
  assumes "bit (sp_out s) 4" "run_state (spi_setup mode) s = (x, s')"
  shows "idle mode s' \<and> between mode sl s s' []"
proof -
  define s1 where "s1 = pin_written True 4 s"
  define s2 where "s2 = pin_written (clock_idle mode) 5 s1"
  have "run_state (spi_setup mode) s = ((), s2)"
    unfolding spi_setup_def s1_def s2_def by (cases mode) (simp_all add: clock_idle_def)
  then have "s' = s2" using assms(2) by simp
  moreover have b: "bit (sp_out s1) 4" "bit (sp_out s2) 4" "bit (sp_out s2) 5 = clock_idle mode" using assms(1) by (simp_all add: s1_def s2_def)
  moreover have "between mode sl s s1 (wire mode sl (sp_log s) (sp_out s) [sp_out s1])" unfolding s1_def by (rule pin_between)
  moreover have "wire mode sl (sp_log s) (sp_out s) [sp_out s1] = []" using assms(1) b by simp
  moreover have "between mode sl s1 s2 (wire mode sl (sp_log s1) (sp_out s1) [sp_out s2])" unfolding s2_def by (rule pin_between)
  moreover have "wire mode sl (sp_log s1) (sp_out s1) [sp_out s2] = []" using b by simp
  ultimately show ?thesis using between_trans[of mode sl s s1 "[]" s2 "[]"] by (simp add: idle_def)
qed

text \<open>With no device selected, the initialisation of the port expander puts exactly six frames on the wire, all under the control byte of
  the device: addressing enabled, the directions of both ports, zero to both ports, and the pull-ups; the bus is idle at the end.\<close>

theorem expander_init_frames:
  assumes "bit (sp_out s) 4" "run_state (mcp23s17_init mode sl dv a b) s = (x, s')"
  shows "idle mode s' \<and> (\<exists>rss. map length rss = [3, 3, 3, 3, 3, 4] \<and>
    between mode sl s s' (concat (map2 frame_events (init_frames dv a b) rss)))"
proof -
  obtain y s1 where 1: "run_state (spi_setup mode) s = (y, s1)" by (cases "run_state (spi_setup mode) s") auto
  obtain rss s2 where 2: "run_state (frames spi_start spi_stop (spi_transfer mode sl) (init_frames dv a b)) s1 = (rss, s2)" by fastforce
  have e: "s' = s2" using assms(2) unfolding init_is_frames run_state_bind 1 by (simp add: 2)
  have i: "idle mode s1 \<and> between mode sl s s1 []" using setup_idles[OF assms(1) 1] .
  then have "idle mode s2 \<and> map length rss = map length (init_frames dv a b) \<and>
      between mode sl s1 s2 (concat (map2 frame_events (init_frames dv a b) rss))"
    using spi_bus.frames_law[OF _ 2] by blast
  moreover have "map length (init_frames dv a b) = [3, 3, 3, 3, 3, 4]" by (simp add: init_frames_def)
  ultimately show ?thesis using i between_trans[of mode sl s s1 "[]" s2] unfolding e by (intro conjI exI[of _ rss]) simp_all
qed

lemma expander_init_frames_witness:
  "idle Mode2 (snd (run_state (mcp23s17_init Mode2 (\<lambda>_. 0) 1 0xFF 0) \<lparr>sp_out = 0x10, sp_log = []\<rparr>))"
proof -
  have "bit (sp_out \<lparr>sp_out = 0x10, sp_log = []\<rparr>) 4" by (simp add: bit_numeral_word_iff)
  then show ?thesis using expander_init_frames prod.collapse by metis
qed

end
