(* ===== verification/Labyrinth.thy ===== *)
theory Labyrinth
  imports Prelude "HOL-Library.Monad_Syntax"
begin

text \<open>
  The maze solver of app/labyrinth.c: cells are numbered outward from the end, and the path goes down the numbers from
  the start. The maze is the array of its cells, line after line; an access outside it is \<open>None\<close>. Numbers and indices are
  integers: none exceeds the size of the array plus one, which has four bytes for each. The specification is the graph of
  the open cells; the solver finds a shortest path exactly when there is a path.
\<close>

subsection \<open>The code\<close>

definition get_pos :: "int list \<Rightarrow> int \<Rightarrow> int \<Rightarrow> int \<Rightarrow> int option" where
  "get_pos m col i j = (let x = i * col + j in if 0 \<le> x \<and> x < int (length m) then Some (m ! nat x) else None)"

definition set_pos :: "int list \<Rightarrow> int \<Rightarrow> int \<Rightarrow> int \<Rightarrow> int \<Rightarrow> int list option" where
  "set_pos m col i j v = (let x = i * col + j in if 0 \<le> x \<and> x < int (length m) then Some (m[nat x := v]) else None)"

text \<open>An empty neighbour gets the next number.\<close>

definition mark_neighbour :: "int list \<Rightarrow> int \<Rightarrow> int \<Rightarrow> int \<Rightarrow> int \<Rightarrow> int list option" where
  "mark_neighbour m col i j k = do { v \<leftarrow> get_pos m col i j; if v = 0 then set_pos m col i j (k + 1) else Some m }"

definition mark_at :: "int list \<Rightarrow> int \<Rightarrow> int \<Rightarrow> int \<Rightarrow> int \<Rightarrow> int \<Rightarrow> int list option" where
  "mark_at m k i j lin col = do {
     v \<leftarrow> get_pos m col i j;
     if v = k then do {
       m \<leftarrow> (if 0 \<le> i - 1 then mark_neighbour m col (i - 1) j k else Some m);
       m \<leftarrow> (if i + 1 < lin then mark_neighbour m col (i + 1) j k else Some m);
       m \<leftarrow> (if 0 \<le> j - 1 then mark_neighbour m col i (j - 1) k else Some m);
       (if j + 1 < col then mark_neighbour m col i (j + 1) k else Some m) }
     else Some m }"

function mark_line :: "int list \<Rightarrow> int \<Rightarrow> int \<Rightarrow> int \<Rightarrow> int \<Rightarrow> int \<Rightarrow> int list option" where
  "mark_line m k i j lin col = (if j < col then do { m \<leftarrow> mark_at m k i j lin col; mark_line m k i (j + 1) lin col } else Some m)"
  by pat_completeness auto
termination by (relation "measure (\<lambda>(m, k, i, j, lin, col). nat (col - j))") auto

function mark_lines :: "int list \<Rightarrow> int \<Rightarrow> int \<Rightarrow> int \<Rightarrow> int \<Rightarrow> int list option" where
  "mark_lines m k i lin col = (if i < lin then do { m \<leftarrow> mark_line m k i 0 lin col; mark_lines m k (i + 1) lin col } else Some m)"
  by pat_completeness auto
termination by (relation "measure (\<lambda>(m, k, i, lin, col). nat (lin - i))") auto

function mark_rounds :: "int list \<Rightarrow> int \<Rightarrow> int \<Rightarrow> int \<Rightarrow> int \<Rightarrow> int list option" where
  "mark_rounds m h k lin col =
     (if h < lin * col then do { m \<leftarrow> mark_lines m k 0 lin col; mark_rounds m (h + 1) (k + 1) lin col } else Some m)"
  by pat_completeness auto
termination by (relation "measure (\<lambda>(m, h, k, lin, col). nat (lin * col - h))") auto

declare mark_line.simps [simp del] mark_lines.simps [simp del] mark_rounds.simps [simp del]

definition mark :: "int list \<Rightarrow> int \<Rightarrow> int \<Rightarrow> int \<Rightarrow> int \<Rightarrow> int list option" where
  "mark m l c lin col = mark_rounds m 0 1 lin col"

definition lower_at :: "int list \<Rightarrow> int \<Rightarrow> bool \<Rightarrow> int \<Rightarrow> int \<Rightarrow> int \<Rightarrow> bool option" where
  "lower_at m col inside i j k = (if inside then do { v \<leftarrow> get_pos m col i j; Some (v < k \<and> 0 < v) } else Some False)"

text \<open>The body of the loop of \<open>search\<close>: the position after it.\<close>

definition step_down :: "int list \<Rightarrow> int \<Rightarrow> int \<Rightarrow> int \<Rightarrow> int \<Rightarrow> int \<Rightarrow> (int \<times> int) option" where
  "step_down m k i j lin col = do {
     b \<leftarrow> lower_at m col (0 \<le> i - 1) (i - 1) j k;
     if b then Some (i - 1, j) else do {
     b \<leftarrow> lower_at m col (i + 1 < lin) (i + 1) j k;
     if b then Some (i + 1, j) else do {
     b \<leftarrow> lower_at m col (0 \<le> j - 1) i (j - 1) k;
     if b then Some (i, j - 1) else do {
     b \<leftarrow> lower_at m col (j + 1 < col) i (j + 1) k;
     Some (if b then (i, j + 1) else (i, j)) } } } }"

text \<open>The result and the positions it prints. A position that is not left while its number is above one loops for ever.\<close>

partial_function (option) search ::
  "int list \<Rightarrow> int \<Rightarrow> int \<Rightarrow> int \<Rightarrow> int \<Rightarrow> int \<Rightarrow> int \<Rightarrow> (bool \<times> (int \<times> int) list) option" where
  [code]: "search m i j ei ej lin col = do {
     k \<leftarrow> get_pos m col i j;
     (i', j') \<leftarrow> step_down m k i j lin col;
     if 1 < k then do { (r, ps) \<leftarrow> search m i' j' ei ej lin col; Some (r, (i, j) # ps) }
     else Some (i' = ei \<and> j' = ej, [(i, j)]) }"

definition solve :: "int list \<Rightarrow> int \<Rightarrow> int \<Rightarrow> int \<Rightarrow> int \<Rightarrow> int \<Rightarrow> int \<Rightarrow> (int list \<times> bool \<times> (int \<times> int) list) option" where
  "solve m lin col si sj ei ej = do {
     m \<leftarrow> set_pos m col ei ej 1;
     m \<leftarrow> mark m ei ej lin col;
     (r, ps) \<leftarrow> search m si sj ei ej lin col;
     Some (m, r, ps) }"

subsection \<open>Specification\<close>

definition grid :: "int \<Rightarrow> int \<Rightarrow> (int \<times> int) set" where
  "grid lin col = {0..<lin} \<times> {0..<col}"

definition beside :: "int \<times> int \<Rightarrow> int \<times> int \<Rightarrow> bool" where
  "beside c d \<longleftrightarrow> (fst c = fst d \<and> (snd c = snd d + 1 \<or> snd c = snd d - 1)) \<or> (snd c = snd d \<and> (fst c = fst d + 1 \<or> fst c = fst d - 1))"

text \<open>A path through open cells.\<close>

fun path :: "(int \<times> int) set \<Rightarrow> (int \<times> int) list \<Rightarrow> bool" where
  "path A [] \<longleftrightarrow> False"
| "path A [c] \<longleftrightarrow> c \<in> A"
| "path A (c # d # ps) \<longleftrightarrow> c \<in> A \<and> beside c d \<and> path A (d # ps)"

definition path_between :: "(int \<times> int) set \<Rightarrow> int \<times> int \<Rightarrow> int \<times> int \<Rightarrow> (int \<times> int) list \<Rightarrow> bool" where
  "path_between A c d ps \<longleftrightarrow> path A ps \<and> hd ps = c \<and> last ps = d"

text \<open>The open cells of a maze: the empty ones and the end.\<close>

definition open_cells :: "int list \<Rightarrow> int \<Rightarrow> int \<Rightarrow> int \<times> int \<Rightarrow> (int \<times> int) set" where
  "open_cells m lin col e = {c \<in> grid lin col. c = e \<or> m ! nat (fst c * col + snd c) = 0}"

text \<open>The cells within a number of steps of the end.\<close>

fun within :: "(int \<times> int) set \<Rightarrow> int \<times> int \<Rightarrow> nat \<Rightarrow> (int \<times> int) set" where
  "within A e 0 = {e}"
| "within A e (Suc n) = within A e n \<union> {c \<in> A. \<exists>d\<in>within A e n. beside c d}"

lemma beside_sym: "beside c d \<longleftrightarrow> beside d c"
  by (auto simp: beside_def)

lemma within_mono: "i \<le> j \<Longrightarrow> within A e i \<subseteq> within A e j"
  by (induction j) (auto simp: le_Suc_eq)

lemma within_open: "e \<in> A \<Longrightarrow> within A e n \<subseteq> A"
  by (induction n) auto

text \<open>A path of \<open>n\<close> steps to the end starts within \<open>n\<close> steps.\<close>

lemma path_within: "path A ps \<Longrightarrow> last ps = e \<Longrightarrow> hd ps \<in> within A e (length ps - 1)"
proof (induction ps)
  case (Cons c ps)
  then show ?case by (cases ps) auto
qed simp

subsection \<open>Numbering\<close>

text \<open>The array as a function of the position, up to the edge of the grid.\<close>

definition shows_maze :: "int list \<Rightarrow> int \<Rightarrow> int \<Rightarrow> (int \<times> int \<Rightarrow> int) \<Rightarrow> bool" where
  "shows_maze m lin col f \<longleftrightarrow> int (length m) = lin * col \<and> (\<forall>i j. (i, j) \<in> grid lin col \<longrightarrow> m ! nat (i * col + j) = f (i, j))"

lemma grid_index:
  assumes "(i, j) \<in> grid lin col"
  shows "0 \<le> i * col + j" "i * col + j < lin * col"
    and "(i', j') \<in> grid lin col \<Longrightarrow> i' * col + j' = i * col + j \<longleftrightarrow> i' = i \<and> j' = j"
proof -
  have g: "0 \<le> i" "i < lin" "0 \<le> j" "j < col" using assms by (auto simp: grid_def)
  then show "0 \<le> i * col + j" by simp
  have "(i + 1) * col \<le> lin * col" using g by (intro mult_right_mono) auto
  then show "i * col + j < lin * col" using g by (simp add: ring_distribs)
  assume "(i', j') \<in> grid lin col"
  then have g': "0 \<le> j'" "j' < col" by (auto simp: grid_def)
  have "(i * col + j) div col = i" "(i * col + j) mod col = j" "(i' * col + j') div col = i'" "(i' * col + j') mod col = j'"
    using g g' by simp_all
  then show "i' * col + j' = i * col + j \<longleftrightarrow> i' = i \<and> j' = j" by metis
qed

lemma get_shown:
  assumes "shows_maze m lin col f" "(i, j) \<in> grid lin col"
  shows "get_pos m col i j = Some (f (i, j))"
  using assms grid_index(1,2)[OF assms(2)] by (simp add: shows_maze_def get_pos_def Let_def)

lemma set_shown:
  assumes "shows_maze m lin col f" "(i, j) \<in> grid lin col"
  shows "\<exists>m'. set_pos m col i j v = Some m' \<and> shows_maze m' lin col (f((i, j) := v))"
proof -
  have x: "0 \<le> i * col + j" "i * col + j < int (length m)" using assms grid_index(1,2)[OF assms(2)] by (simp_all add: shows_maze_def)
  have "m[nat (i * col + j) := v] ! nat (i' * col + j') = (f((i, j) := v)) (i', j')" if "(i', j') \<in> grid lin col" for i' j'
  proof -
    have "nat (i' * col + j') = nat (i * col + j) \<longleftrightarrow> i' * col + j' = i * col + j"
      by (rule eq_nat_nat_iff[OF grid_index(1)[OF that] x(1)])
    then have "nat (i' * col + j') = nat (i * col + j) \<longleftrightarrow> i' = i \<and> j' = j" unfolding grid_index(3)[OF assms(2) that] .
    moreover have "nat (i * col + j) < length m" using x by linarith
    ultimately show ?thesis using assms(1) that unfolding shows_maze_def by (cases "i' = i \<and> j' = j") (simp_all, auto)
  qed
  then show ?thesis using assms(1) x by (simp add: set_pos_def shows_maze_def Let_def)
qed

text \<open>One cell, or a set of cells, gives the next number to the empty cells beside it.\<close>

definition spread :: "int \<Rightarrow> (int \<times> int) set \<Rightarrow> (int \<times> int \<Rightarrow> int) \<Rightarrow> int \<times> int \<Rightarrow> int" where
  "spread k S f c = (if f c = 0 \<and> (\<exists>d\<in>S. f d = k \<and> beside d c) then k + 1 else f c)"

lemma spread_spread: "1 \<le> k \<Longrightarrow> spread k T (spread k S f) = spread k (S \<union> T) f"
proof (rule ext)
  fix c assume k: "1 \<le> k"
  have "spread k S f d = k \<longleftrightarrow> f d = k" for d using k by (simp add: spread_def)
  then have e: "(\<exists>d\<in>T. spread k S f d = k \<and> beside d c) \<longleftrightarrow> (\<exists>d\<in>T. f d = k \<and> beside d c)" by simp
  show "spread k T (spread k S f) c = spread k (S \<union> T) f c"
  proof (cases "f c = 0 \<and> (\<exists>d\<in>S. f d = k \<and> beside d c)")
    case True
    then have "spread k S f c = k + 1" unfolding spread_def by (rule if_P)
    moreover have "spread k (S \<union> T) f c = k + 1" using True unfolding spread_def by (intro if_P) blast
    ultimately show ?thesis using k by (simp add: spread_def[of k T])
  next
    case False
    then have "spread k S f c = f c" unfolding spread_def by (rule if_not_P)
    moreover have "f c = 0 \<and> (\<exists>d\<in>S \<union> T. f d = k \<and> beside d c) \<longleftrightarrow> f c = 0 \<and> (\<exists>d\<in>T. f d = k \<and> beside d c)" using False by blast
    ultimately show ?thesis unfolding spread_def[of k T] spread_def[of k "S \<union> T"] e by (simp only:)
  qed
qed

lemma spread_empty [simp]: "spread k {} f = f"
  by (rule ext) (simp add: spread_def)

lemma shows_maze_cong: "shows_maze m lin col f \<Longrightarrow> (\<And>c. c \<in> grid lin col \<Longrightarrow> f c = g c) \<Longrightarrow> shows_maze m lin col g"
  by (simp add: shows_maze_def)

lemma mark_neighbour_shown:
  assumes "shows_maze m lin col f" "b \<Longrightarrow> (i, j) \<in> grid lin col"
  shows "\<exists>m'. (if b then mark_neighbour m col i j k else Some m) = Some m' \<and>
    shows_maze m' lin col (\<lambda>c. if b \<and> c = (i, j) \<and> f c = 0 then k + 1 else f c)"
proof (cases "b \<and> f (i, j) = 0")
  case True
  have "f((i, j) := k + 1) = (\<lambda>c. if b \<and> c = (i, j) \<and> f c = 0 then k + 1 else f c)" using True by auto
  then show ?thesis using True set_shown[OF assms(1), of i j "k + 1"] assms(2) get_shown[OF assms(1), of i j] by (simp add: mark_neighbour_def)
next
  case False
  have "(\<lambda>c. if b \<and> c = (i, j) \<and> f c = 0 then k + 1 else f c) = f" using False by auto
  then show ?thesis using False assms get_shown[OF assms(1), of i j] by (simp add: mark_neighbour_def)
qed

lemma mark_at_shown:
  assumes "shows_maze m lin col f" "(i, j) \<in> grid lin col" "1 \<le> k"
  shows "\<exists>m'. mark_at m k i j lin col = Some m' \<and> shows_maze m' lin col (spread k {(i, j)} f)"
proof (cases "f (i, j) = k")
  case True
  define f1 where "f1 = (\<lambda>c. if 0 \<le> i - 1 \<and> c = (i - 1, j) \<and> f c = 0 then k + 1 else f c)"
  define f2 where "f2 = (\<lambda>c. if i + 1 < lin \<and> c = (i + 1, j) \<and> f1 c = 0 then k + 1 else f1 c)"
  define f3 where "f3 = (\<lambda>c. if 0 \<le> j - 1 \<and> c = (i, j - 1) \<and> f2 c = 0 then k + 1 else f2 c)"
  define f4 where "f4 = (\<lambda>c. if j + 1 < col \<and> c = (i, j + 1) \<and> f3 c = 0 then k + 1 else f3 c)"
  obtain m1 where 1: "(if 0 \<le> i - 1 then mark_neighbour m col (i - 1) j k else Some m) = Some m1" "shows_maze m1 lin col f1"
    using mark_neighbour_shown[OF assms(1), of "0 \<le> i - 1" "i - 1" j k] assms(2) unfolding f1_def by (auto simp: grid_def)
  obtain m2 where 2: "(if i + 1 < lin then mark_neighbour m1 col (i + 1) j k else Some m1) = Some m2" "shows_maze m2 lin col f2"
    using mark_neighbour_shown[OF 1(2), of "i + 1 < lin" "i + 1" j k] assms(2) unfolding f2_def by (auto simp: grid_def)
  obtain m3 where 3: "(if 0 \<le> j - 1 then mark_neighbour m2 col i (j - 1) k else Some m2) = Some m3" "shows_maze m3 lin col f3"
    using mark_neighbour_shown[OF 2(2), of "0 \<le> j - 1" i "j - 1" k] assms(2) unfolding f3_def by (auto simp: grid_def)
  obtain m4 where 4: "(if j + 1 < col then mark_neighbour m3 col i (j + 1) k else Some m3) = Some m4" "shows_maze m4 lin col f4"
    using mark_neighbour_shown[OF 3(2), of "j + 1 < col" i "j + 1" k] assms(2) unfolding f4_def by (auto simp: grid_def)
  have "f4 c = spread k {(i, j)} f c" if "c \<in> grid lin col" for c
  proof (cases "f c = 0")
    case empty: True
    let ?C = "0 \<le> i - 1 \<and> c = (i - 1, j) \<or> i + 1 < lin \<and> c = (i + 1, j) \<or> 0 \<le> j - 1 \<and> c = (i, j - 1) \<or> j + 1 < col \<and> c = (i, j + 1)"
    have "k + 1 \<noteq> 0" using assms(3) by linarith
    then have "f4 c = (if ?C then k + 1 else 0)" unfolding f4_def f3_def f2_def f1_def empty by (simp only: simp_thms split: if_split) blast
    moreover have "?C \<longleftrightarrow> beside (i, j) c" using that assms(2) by (cases c) (auto simp: grid_def beside_def)
    ultimately show ?thesis using True empty by (simp add: spread_def)
  next
    case False
    then have "f1 c = f c" by (simp add: f1_def)
    moreover from this False have "f2 c = f c" by (simp add: f2_def)
    moreover from this False have "f3 c = f c" by (simp add: f3_def)
    ultimately show ?thesis using False by (simp add: f4_def spread_def)
  qed
  then have "shows_maze m4 lin col (spread k {(i, j)} f)" using shows_maze_cong[OF 4(2)] by blast
  moreover have "mark_at m k i j lin col = Some m4"
    unfolding mark_at_def get_shown[OF assms(1,2)] using True by (simp only: Option.bind_lunit simp_thms if_True 1 2 3 4)
  ultimately show ?thesis by blast
next
  case False
  then have "spread k {(i, j)} f = f" by (auto simp: spread_def)
  then show ?thesis using False assms get_shown[OF assms(1,2)] by (simp add: mark_at_def)
qed

lemma mark_line_shown:
  assumes "shows_maze m lin col f" "0 \<le> i" "i < lin" "0 \<le> j" "1 \<le> k"
  shows "\<exists>m'. mark_line m k i j lin col = Some m' \<and> shows_maze m' lin col (spread k ({i} \<times> {j..<col}) f)"
  using assms
proof (induction m k i j lin col arbitrary: f rule: mark_line.induct)
  case (1 m k i j lin col)
  show ?case
  proof (cases "j < col")
    case True
    obtain m1 where m1: "mark_at m k i j lin col = Some m1" "shows_maze m1 lin col (spread k {(i, j)} f)"
      using mark_at_shown[OF "1.prems"(1), of i j k] "1.prems" True by (auto simp: grid_def)
    then obtain m2 where m2: "mark_line m1 k i (j + 1) lin col = Some m2"
      "shows_maze m2 lin col (spread k ({i} \<times> {j + 1..<col}) (spread k {(i, j)} f))"
      using "1.IH"[OF True m1(1) m1(2)] "1.prems" by auto
    have "{(i, j)} \<union> {i} \<times> {j + 1..<col} = {i} \<times> {j..<col}" using True by auto
    then show ?thesis using m1 m2 True "1.prems"(5) by (subst mark_line.simps) (simp add: spread_spread)
  next
    case False
    then show ?thesis using "1.prems" by (subst mark_line.simps) simp
  qed
qed

lemma mark_lines_shown:
  assumes "shows_maze m lin col f" "0 \<le> i" "1 \<le> k"
  shows "\<exists>m'. mark_lines m k i lin col = Some m' \<and> shows_maze m' lin col (spread k ({i..<lin} \<times> {0..<col}) f)"
  using assms
proof (induction m k i lin col arbitrary: f rule: mark_lines.induct)
  case (1 m k i lin col)
  show ?case
  proof (cases "i < lin")
    case True
    obtain m1 where m1: "mark_line m k i 0 lin col = Some m1" "shows_maze m1 lin col (spread k ({i} \<times> {0..<col}) f)"
      using mark_line_shown[OF "1.prems"(1), of i 0 k] "1.prems" True by auto
    then obtain m2 where m2: "mark_lines m1 k (i + 1) lin col = Some m2"
      "shows_maze m2 lin col (spread k ({i + 1..<lin} \<times> {0..<col}) (spread k ({i} \<times> {0..<col}) f))"
      using "1.IH"[OF True m1(1) m1(2)] "1.prems" by auto
    have "{i} \<times> {0..<col} \<union> {i + 1..<lin} \<times> {0..<col} = {i..<lin} \<times> {0..<col}" using True by auto
    then show ?thesis using m1 m2 True "1.prems"(3) by (subst mark_lines.simps) (simp add: spread_spread)
  next
    case False
    then show ?thesis using "1.prems" by (subst mark_lines.simps) simp
  qed
qed

subsection \<open>Rounds and distances\<close>

definition reached :: "(int \<times> int) set \<Rightarrow> int \<times> int \<Rightarrow> (int \<times> int) set" where
  "reached A e = (\<Union>n. within A e n)"

definition steps_to :: "(int \<times> int) set \<Rightarrow> int \<times> int \<Rightarrow> int \<times> int \<Rightarrow> nat" where
  "steps_to A e c = (LEAST n. c \<in> within A e n)"

lemma steps_within: "c \<in> within A e n \<longleftrightarrow> c \<in> reached A e \<and> steps_to A e c \<le> n"
proof
  assume "c \<in> within A e n"
  then show "c \<in> reached A e \<and> steps_to A e c \<le> n" unfolding reached_def steps_to_def by (blast intro: Least_le)
next
  assume c: "c \<in> reached A e \<and> steps_to A e c \<le> n"
  then obtain k where "c \<in> within A e k" unfolding reached_def by blast
  then have "c \<in> within A e (steps_to A e c)" unfolding steps_to_def by (rule LeastI)
  then show "c \<in> within A e n" using c within_mono by blast
qed

lemma steps_end [simp]: "e \<in> reached A e" "steps_to A e e = 0"
  using steps_within[of e A e 0] by simp_all

lemma steps_0: "c \<in> reached A e \<Longrightarrow> steps_to A e c = 0 \<longleftrightarrow> c = e"
  using steps_within[of c A e 0] by auto

text \<open>The steps of neighbours differ by one at most, and one neighbour is a step nearer.\<close>

lemma steps_beside:
  assumes "c \<in> reached A e" "d \<in> A" "beside d c"
  shows "d \<in> reached A e \<and> steps_to A e d \<le> Suc (steps_to A e c)"
proof -
  have "c \<in> within A e (steps_to A e c)" using assms(1) steps_within by blast
  then have "d \<in> within A e (Suc (steps_to A e c))" using assms(2,3) by auto
  then show ?thesis using steps_within by blast
qed

lemma steps_nearer:
  assumes "c \<in> reached A e" "steps_to A e c = Suc n"
  shows "\<exists>d. d \<in> reached A e \<and> steps_to A e d = n \<and> beside c d \<and> c \<in> A"
proof -
  have "c \<in> within A e (Suc n)" "c \<notin> within A e n" using assms by (simp_all only: steps_within) simp_all
  then obtain d where d: "d \<in> within A e n" "beside c d" "c \<in> A" by auto
  then have "d \<in> reached A e" "steps_to A e d \<le> n" using steps_within by blast+
  moreover have "Suc n \<le> Suc (steps_to A e d)"
    using steps_beside[OF calculation(1) d(3,2)] assms(2) by simp
  ultimately show ?thesis using d by (intro exI[of _ d]) simp
qed

text \<open>No reached cell is further away than there are other cells.\<close>

lemma steps_bound:
  assumes "finite A" "e \<in> A" "c \<in> reached A e"
  shows "steps_to A e c < card A"
proof -
  have all: "n \<le> steps_to A e c \<Longrightarrow> \<exists>d. d \<in> reached A e \<and> steps_to A e d = n" for n
  proof (induction "steps_to A e c - n" arbitrary: n)
    case 0
    then show ?case using assms(3) by (intro exI[of _ c]) simp
  next
    case (Suc k)
    have "k = steps_to A e c - Suc n" "Suc n \<le> steps_to A e c" using Suc.hyps(2) by linarith+
    from Suc.hyps(1)[OF this] show ?case using steps_nearer by blast
  qed
  have "reached A e \<subseteq> A" unfolding reached_def using within_open[OF assms(2)] by blast
  then have "{0..steps_to A e c} \<subseteq> steps_to A e ` A" using all by (auto simp: image_iff) (metis subsetD)
  then have "card {0..steps_to A e c} \<le> card A" using assms(1) by (meson card_image_le card_mono finite_imageI le_trans)
  then show ?thesis by simp
qed

text \<open>The numbers after \<open>n\<close> rounds; \<open>f\<close> has the walls.\<close>

definition numbered :: "(int \<times> int) set \<Rightarrow> int \<times> int \<Rightarrow> (int \<times> int \<Rightarrow> int) \<Rightarrow> nat \<Rightarrow> int \<times> int \<Rightarrow> int" where
  "numbered A e f n c = (if c \<in> within A e n then int (steps_to A e c) + 1 else if c \<in> A then 0 else f c)"

lemma round_numbers:
  assumes "e \<in> A" "A \<subseteq> S" "\<And>c. c \<in> S \<Longrightarrow> c \<notin> A \<Longrightarrow> f c < 0" "c \<in> S"
  shows "spread (int n + 1) S (numbered A e f n) c = numbered A e f (Suc n) c"
proof -
  let ?k = "int n + 1"
  have sub: "within A e n \<subseteq> A" by (rule within_open[OF assms(1)])
  have isk: "numbered A e f n d = ?k \<longleftrightarrow> d \<in> within A e n \<and> steps_to A e d = n" if "d \<in> S" for d
    using assms(3)[OF that] by (auto simp: numbered_def)
  have zero: "numbered A e f n c = 0 \<longleftrightarrow> c \<in> A \<and> c \<notin> within A e n"
    using assms(3)[OF assms(4)] by (auto simp: numbered_def)
  have new: "c \<in> within A e (Suc n) \<longleftrightarrow> (\<exists>d\<in>S. numbered A e f n d = ?k \<and> beside d c)" if "c \<in> A" "c \<notin> within A e n"
  proof
    assume "c \<in> within A e (Suc n)"
    then obtain d where d: "d \<in> within A e n" "beside c d" using \<open>c \<notin> within A e n\<close> unfolding within.simps by blast
    then have r: "d \<in> reached A e" "steps_to A e d \<le> n" using steps_within by blast+
    then have "c \<in> reached A e \<and> steps_to A e c \<le> Suc (steps_to A e d)" using steps_beside that(1) d(2) by blast
    moreover have "\<not> steps_to A e c \<le> n" using that(2) steps_within calculation by blast
    ultimately have "steps_to A e d = n" using r by linarith
    then show "\<exists>d\<in>S. numbered A e f n d = ?k \<and> beside d c" using isk[of d] d sub assms(2) beside_sym by blast
  next
    assume "\<exists>d\<in>S. numbered A e f n d = ?k \<and> beside d c"
    then show "c \<in> within A e (Suc n)" using isk that(1) beside_sym by auto
  qed
  show ?thesis
  proof (cases "c \<in> A \<and> c \<notin> within A e n")
    case True
    show ?thesis
    proof (cases "c \<in> within A e (Suc n)")
      case in_new: True
      then have "steps_to A e c = Suc n" using True steps_within[of c A e n] steps_within[of c A e "Suc n"] by linarith
      moreover have "spread ?k S (numbered A e f n) c = ?k + 1"
        unfolding spread_def by (rule if_P) (use in_new new True zero in blast)
      ultimately show ?thesis using in_new by (simp add: numbered_def del: within.simps)
    next
      case False
      then have "spread ?k S (numbered A e f n) c = numbered A e f n c"
        unfolding spread_def by (intro if_not_P) (use new True in blast)
      then show ?thesis using False True zero by (simp add: numbered_def[of A e f "Suc n"] del: within.simps)
    qed
  next
    case False
    then have "numbered A e f (Suc n) c = numbered A e f n c"
      using sub within_open[OF assms(1), of "Suc n"] within_mono[of n "Suc n" A e] unfolding numbered_def by (auto simp del: within.simps)
    then show ?thesis using zero False by (simp add: spread_def)
  qed
qed

lemma mark_rounds_shown:
  assumes "e \<in> A" "A \<subseteq> grid lin col" "\<And>c. c \<in> grid lin col \<Longrightarrow> c \<notin> A \<Longrightarrow> f c < 0"
    "shows_maze m lin col (numbered A e f n)" "n + d = nat (lin * col)"
  shows "\<exists>m'. mark_rounds m (int n) (int n + 1) lin col = Some m' \<and> shows_maze m' lin col (numbered A e f (n + d))"
  using assms(4,5)
proof (induction d arbitrary: m n)
  case 0
  then show ?case by (subst mark_rounds.simps) simp
next
  case (Suc d)
  obtain m1 where m1: "mark_lines m (int n + 1) 0 lin col = Some m1" "shows_maze m1 lin col (spread (int n + 1) (grid lin col) (numbered A e f n))"
    using mark_lines_shown[OF Suc.prems(1), of 0 "int n + 1"] unfolding grid_def by auto
  have "shows_maze m1 lin col (numbered A e f (Suc n))"
    by (rule shows_maze_cong[OF m1(2)]) (rule round_numbers[OF assms(1-3)])
  then obtain m2 where "mark_rounds m1 (int (Suc n)) (int (Suc n) + 1) lin col = Some m2" "shows_maze m2 lin col (numbered A e f (Suc n + d))"
    using Suc.IH[of m1 "Suc n"] Suc.prems(2) by auto
  moreover have "int n < lin * col" using Suc.prems(2) by linarith
  ultimately show ?case using m1(1) by (subst mark_rounds.simps) (simp add: add.commute)
qed

lemma finite_grid [simp]: "finite (grid lin col)" "0 \<le> lin \<Longrightarrow> 0 \<le> col \<Longrightarrow> card (grid lin col) = nat (lin * col)"
  by (simp_all add: grid_def nat_mult_distrib)

subsection \<open>The way down\<close>

lemma lower_at_shown:
  assumes "shows_maze m lin col f" "b \<Longrightarrow> (i, j) \<in> grid lin col"
  shows "lower_at m col b i j k = Some (b \<and> f (i, j) < k \<and> 0 < f (i, j))"
  using get_shown[OF assms(1)] assms(2) by (simp add: lower_at_def)

lemma step_down_shown:
  assumes "shows_maze m lin col f" "(i, j) \<in> grid lin col"
  shows "\<exists>p. step_down m k i j lin col = Some p \<and>
    (p \<in> grid lin col \<and> beside (i, j) p \<and> f p < k \<and> 0 < f p \<or> p = (i, j) \<and> (\<forall>q\<in>grid lin col. beside (i, j) q \<longrightarrow> \<not> (f q < k \<and> 0 < f q)))"
proof -
  have g: "0 \<le> i" "i < lin" "0 \<le> j" "j < col" using assms(2) by (auto simp: grid_def)
  define L where "L = (\<lambda>b q. b \<and> f q < k \<and> 0 < f q)"
  have l: "lower_at m col (0 \<le> i - 1) (i - 1) j k = Some (L (0 \<le> i - 1) (i - 1, j))" "lower_at m col (i + 1 < lin) (i + 1) j k = Some (L (i + 1 < lin) (i + 1, j))"
    "lower_at m col (0 \<le> j - 1) i (j - 1) k = Some (L (0 \<le> j - 1) (i, j - 1))" "lower_at m col (j + 1 < col) i (j + 1) k = Some (L (j + 1 < col) (i, j + 1))"
    unfolding L_def using g by (intro lower_at_shown[OF assms(1)]; simp add: grid_def)+
  have q: "q \<in> grid lin col \<and> beside (i, j) q \<longleftrightarrow> 0 \<le> i - 1 \<and> q = (i - 1, j) \<or> i + 1 < lin \<and> q = (i + 1, j) \<or> 0 \<le> j - 1 \<and> q = (i, j - 1) \<or> j + 1 < col \<and> q = (i, j + 1)" for q
    using g by (cases q) (auto simp: grid_def beside_def)
  define p where "p = (if L (0 \<le> i - 1) (i - 1, j) then (i - 1, j) else if L (i + 1 < lin) (i + 1, j) then (i + 1, j)
    else if L (0 \<le> j - 1) (i, j - 1) then (i, j - 1) else if L (j + 1 < col) (i, j + 1) then (i, j + 1) else (i, j))"
  have "step_down m k i j lin col = Some p" unfolding step_down_def l p_def by simp
  moreover have "p \<in> grid lin col \<and> beside (i, j) p \<and> f p < k \<and> 0 < f p \<or> p = (i, j) \<and> (\<forall>q\<in>grid lin col. beside (i, j) q \<longrightarrow> \<not> (f q < k \<and> 0 < f q))"
  proof (cases "L (0 \<le> i - 1) (i - 1, j) \<or> L (i + 1 < lin) (i + 1, j) \<or> L (0 \<le> j - 1) (i, j - 1) \<or> L (j + 1 < col) (i, j + 1)")
    case True
    then have "(0 \<le> i - 1 \<and> p = (i - 1, j) \<or> i + 1 < lin \<and> p = (i + 1, j) \<or> 0 \<le> j - 1 \<and> p = (i, j - 1) \<or> j + 1 < col \<and> p = (i, j + 1)) \<and> f p < k \<and> 0 < f p"
      unfolding p_def L_def by presburger
    then show ?thesis using q[of p] by blast
  next
    case False
    then have "p = (i, j)" unfolding p_def by simp
    moreover have "\<not> (f q < k \<and> 0 < f q)" if "q \<in> grid lin col" "beside (i, j) q" for q
      using that False q[of q] unfolding L_def by blast
    ultimately show ?thesis by blast
  qed
  ultimately show ?thesis by blast
qed

lemma numbered_final:
  assumes "\<And>c. c \<in> reached A e \<Longrightarrow> steps_to A e c \<le> N" "\<And>c. c \<in> G \<Longrightarrow> c \<notin> A \<Longrightarrow> f c < 0" "c \<in> G"
  shows "0 < numbered A e f N c \<longleftrightarrow> c \<in> reached A e" "c \<in> reached A e \<Longrightarrow> numbered A e f N c = int (steps_to A e c) + 1"
  using assms(1)[of c] assms(2)[OF assms(3)] by (auto simp: numbered_def steps_within)

lemma search_reached:
  assumes "shows_maze m lin col (numbered A e f N)" "e \<in> A" "A \<subseteq> grid lin col" "\<And>c. c \<in> grid lin col \<Longrightarrow> c \<notin> A \<Longrightarrow> f c < 0"
    "\<And>c. c \<in> reached A e \<Longrightarrow> steps_to A e c \<le> N" "(i, j) \<in> reached A e" "steps_to A e (i, j) = n"
  shows "\<exists>ps. search m i j (fst e) (snd e) lin col = Some (True, ps) \<and> path_between A (i, j) e ps \<and> length ps = Suc n"
  using assms(6,7)
proof (induction n arbitrary: i j)
  let ?F = "numbered A e f N"
  have in_A: "c \<in> A" if "c \<in> reached A e" for c using that within_open[OF assms(2)] unfolding reached_def by blast
  have final: "0 < ?F c \<longleftrightarrow> c \<in> reached A e" "c \<in> reached A e \<Longrightarrow> ?F c = int (steps_to A e c) + 1" if "c \<in> grid lin col" for c
    using numbered_final[of A e N "grid lin col" f c] assms(4,5) that by blast+
  {
    case 0
    have c: "(i, j) \<in> grid lin col" "?F (i, j) = 1" using in_A[OF "0.prems"(1)] assms(3) final(2)[OF _ "0.prems"(1)] "0.prems"(2) by auto
    obtain p where p: "step_down m 1 i j lin col = Some p" "p = (i, j)" using step_down_shown[OF assms(1) c(1), of 1] by auto
    have "search m i j (fst e) (snd e) lin col = Some ((i, j) = e, [(i, j)])"
      by (subst search.simps) (use get_shown[OF assms(1) c(1)] c(2) p in \<open>auto simp: prod_eq_iff\<close>)
    then show ?case using "0.prems" steps_0 in_A[OF "0.prems"(1)] by (simp add: path_between_def)
  next
    case (Suc n)
    have c: "(i, j) \<in> grid lin col" "?F (i, j) = int n + 2" using in_A[OF Suc.prems(1)] assms(3) final(2)[OF _ Suc.prems(1)] Suc.prems(2) by auto
    obtain q where q: "q \<in> reached A e" "steps_to A e q = n" "beside (i, j) q" using steps_nearer[OF Suc.prems] by blast
    have "q \<in> grid lin col" using in_A[OF q(1)] assms(3) by blast
    then have "?F q = int n + 1" using final(2)[OF _ q(1)] q(2) by simp
    then obtain p where p: "step_down m (int n + 2) i j lin col = Some p" "p \<in> grid lin col" "beside (i, j) p" "?F p < int n + 2" "0 < ?F p"
      using step_down_shown[OF assms(1) c(1), of "int n + 2"] q(3) \<open>q \<in> grid lin col\<close> by auto
    have r: "p \<in> reached A e" using final(1)[of p] p(2,5) by blast
    have "steps_to A e p = n"
    proof -
      have "steps_to A e p \<le> n" using final(2)[OF p(2) r] p(4) by simp
      moreover have "Suc n \<le> Suc (steps_to A e p)" using steps_beside[OF r in_A[OF Suc.prems(1)] p(3)] Suc.prems(2) by simp
      ultimately show ?thesis by simp
    qed
    then obtain ps where ps: "search m (fst p) (snd p) (fst e) (snd e) lin col = Some (True, ps)" "path_between A p e ps" "length ps = Suc n"
      using Suc.IH[of "fst p" "snd p"] r by auto
    have "search m i j (fst e) (snd e) lin col = Some (True, (i, j) # ps)"
      by (subst search.simps) (use get_shown[OF assms(1) c(1)] c(2) p(1) ps(1) in \<open>cases p; simp\<close>)
    moreover have "path_between A (i, j) e ((i, j) # ps)"
      using ps(2,3) p(3) in_A[OF Suc.prems(1)] by (cases ps) (auto simp: path_between_def)
    ultimately show ?case using ps(3) by simp
  }
qed

lemma search_unreached:
  assumes "shows_maze m lin col f" "(i, j) \<in> grid lin col" "f (i, j) \<le> 0" "0 < f e"
  shows "search m i j (fst e) (snd e) lin col = Some (False, [(i, j)])"
proof -
  obtain p where p: "step_down m (f (i, j)) i j lin col = Some p" "p = (i, j)"
    using step_down_shown[OF assms(1,2), of "f (i, j)"] assms(3) by force
  have "(i, j) \<noteq> e" using assms(3,4) by auto
  then show ?thesis by (subst search.simps) (use get_shown[OF assms(1,2)] assms(3) p in \<open>auto simp: prod_eq_iff\<close>)
qed

subsection \<open>The solver\<close>

lemma path_reached:
  assumes "path_between A c e ps"
  shows "c \<in> reached A e" "Suc (steps_to A e c) \<le> length ps"
proof -
  have "c \<in> within A e (length ps - 1)" "ps \<noteq> []" using path_within assms unfolding path_between_def by (blast, fastforce)
  then show "c \<in> reached A e" "Suc (steps_to A e c) \<le> length ps"
    using steps_within[of c A e "length ps - 1"] by (auto simp: Suc_le_eq) (metis One_nat_def Suc_pred le_imp_less_Suc length_greater_0_conv)
qed

text \<open>C32: On a maze of empty cells (0) and walls (below 0), the solver returns, without leaving the array, and answers 1 exactly when open
  cells lead from the start to the end; the positions it prints are then a path, and no path is shorter.\<close>

theorem solve_shortest:
  assumes "int (length m) = lin * col" "\<forall>v\<in>set m. v \<le> 0" "(si, sj) \<in> grid lin col" "(ei, ej) \<in> grid lin col"
  defines "A \<equiv> open_cells m lin col (ei, ej)"
  shows "\<exists>m' r ps. solve m lin col si sj ei ej = Some (m', r, ps) \<and> (r \<longleftrightarrow> (\<exists>qs. path_between A (si, sj) (ei, ej) qs)) \<and>
    (r \<longrightarrow> path_between A (si, sj) (ei, ej) ps \<and> (\<forall>qs. path_between A (si, sj) (ei, ej) qs \<longrightarrow> length ps \<le> length qs))"
proof -
  define e where "e = (ei, ej)"
  define f where "f = (\<lambda>c. m ! nat (fst c * col + snd c))"
  have pos: "0 \<le> lin" "0 \<le> col" using assms(3) by (auto simp: grid_def)
  have A: "e \<in> A" "A \<subseteq> grid lin col" using assms(4) by (auto simp: A_def open_cells_def e_def)
  have w: "f c < 0" if "c \<in> grid lin col" "c \<notin> A" for c
  proof -
    have "nat (fst c * col + snd c) < length m" using grid_index(1,2)[of "fst c" "snd c" lin col] that(1) assms(1) by simp
    then have "f c \<le> 0" using assms(2) by (simp add: f_def)
    then show ?thesis using that by (auto simp: A_def open_cells_def f_def)
  qed
  have "shows_maze m lin col f" using assms(1) by (simp add: shows_maze_def f_def)
  then obtain m1 where m1: "set_pos m col ei ej 1 = Some m1" "shows_maze m1 lin col (f(e := 1))"
    using set_shown assms(4) unfolding e_def by blast
  have "shows_maze m1 lin col (numbered A e f 0)"
    by (rule shows_maze_cong[OF m1(2)]) (auto simp: numbered_def A_def open_cells_def f_def e_def steps_to_def)
  then obtain m2 where m2: "mark m1 ei ej lin col = Some m2" "shows_maze m2 lin col (numbered A e f (nat (lin * col)))"
    using mark_rounds_shown[where n = 0 and d = "nat (lin * col)" and f = f, OF A] w unfolding mark_def by fastforce
  have fin: "finite A" "card A \<le> nat (lin * col)"
    using A(2) finite_subset[OF A(2)] card_mono[OF finite_grid(1) A(2)] pos by (simp_all add: finite_grid(2))
  have N: "steps_to A e c \<le> nat (lin * col)" if "c \<in> reached A e" for c
    using steps_bound[OF fin(1) A(1) that] fin(2) by simp
  show ?thesis
  proof (cases "(si, sj) \<in> reached A e")
    case True
    obtain ps where ps: "search m2 si sj ei ej lin col = Some (True, ps)" "path_between A (si, sj) e ps" "length ps = Suc (steps_to A e (si, sj))"
      using search_reached[OF m2(2) A _ N True refl] w unfolding e_def by auto
    have "solve m lin col si sj ei ej = Some (m2, True, ps)" unfolding solve_def m1(1) Option.bind_lunit m2(1) ps(1) by simp
    then show ?thesis using ps(2,3) path_reached(2) unfolding e_def by fastforce
  next
    case False
    have "numbered A e f (nat (lin * col)) (si, sj) \<le> 0" "0 < numbered A e f (nat (lin * col)) e"
      using numbered_final(1)[of A e "nat (lin * col)" "grid lin col" f] N w False assms(3,4) by (force simp: e_def)+
    then have "search m2 si sj ei ej lin col = Some (False, [(si, sj)])"
      using search_unreached[OF m2(2) assms(3), of e] by (simp add: e_def)
    then have "solve m lin col si sj ei ej = Some (m2, False, [(si, sj)])" unfolding solve_def m1(1) Option.bind_lunit m2(1) by simp
    then show ?thesis using False path_reached(1) unfolding e_def by blast
  qed
qed

lemma solve_shortest_witness:
  "\<exists>m' ps. solve [0, -1, 0, 0, 0, 0] 2 3 0 0 0 2 = Some (m', True, ps) \<and> length ps \<le> 5"
proof -
  let ?A = "open_cells [0, -1, 0, 0, 0, 0] 2 3 (0, 2)" and ?qs = "[(0, 0), (1, 0), (1, 1), (1, 2), (0, 2)]"
  define P where "P = path_between ?A (0, 0) (0, 2)"
  have q: "P ?qs" by (simp add: P_def path_between_def open_cells_def grid_def beside_def)
  have "\<exists>m' r ps. solve [0, -1, 0, 0, 0, 0] 2 3 0 0 0 2 = Some (m', r, ps) \<and> (r \<longleftrightarrow> (\<exists>qs. P qs)) \<and>
    (r \<longrightarrow> P ps \<and> (\<forall>qs. P qs \<longrightarrow> length ps \<le> length qs))"
    unfolding P_def by (rule solve_shortest) (simp_all add: grid_def)
  then obtain m' r ps where s: "solve [0, -1, 0, 0, 0, 0] 2 3 0 0 0 2 = Some (m', r, ps)" "r \<longleftrightarrow> (\<exists>qs. P qs)"
    "r \<longrightarrow> (\<forall>qs. P qs \<longrightarrow> length ps \<le> length qs)" by blast
  have r: r using s(2) q by blast
  then have "length ps \<le> 5" using s(3) q by fastforce
  moreover have "solve [0, -1, 0, 0, 0, 0] 2 3 0 0 0 2 = Some (m', True, ps)" using s(1) r by (simp only: eqTrueI)
  ultimately show ?thesis by blast
qed

end
