(* ===== verification/Fixed_Point.thy ===== *)
theory Fixed_Point
  imports Soft_Double "HOL-Library.Monad_Syntax"
begin

text \<open>
  The fixed point library include/fixed.h in its default configuration: 16 integer and 16 fraction bits, products and quotients by
  32-bit routines (and, beside them, by the 64-bit macros). A value is its bit pattern. The constants \<open>fix_val(V)\<close> are
  computed by the compiler and appear as their values, \<open>V * 65536\<close> rounded to the nearest. A division by zero and a shift by
  more than the width are \<open>None\<close>; the conversions from and to float are those of the library.
\<close>

unbundle bit_operations_syntax

subsection \<open>The format\<close>

type_synonym fixed = u32

abbreviation (input) FIX_FMASK :: fixed where "FIX_FMASK \<equiv> 0xFFFF"
abbreviation (input) FIX_ONE :: fixed where "FIX_ONE \<equiv> 0x10000"
abbreviation (input) FIX_HALF :: fixed where "FIX_HALF \<equiv> 0x8000"
abbreviation (input) FIX_TWO :: fixed where "FIX_TWO \<equiv> 0x20000"
abbreviation (input) FIX_PI :: fixed where "FIX_PI \<equiv> 205887"
abbreviation (input) FIX_TWO_PI :: fixed where "FIX_TWO_PI \<equiv> 411775"
abbreviation (input) FIX_HALF_PI :: fixed where "FIX_HALF_PI \<equiv> 102944"
abbreviation (input) FIX_FOURTH_PI :: fixed where "FIX_FOURTH_PI \<equiv> 51472"
abbreviation (input) FIX_LN2 :: fixed where "FIX_LN2 \<equiv> 45426"
abbreviation (input) FIX_LN2_INV :: fixed where "FIX_LN2_INV \<equiv> 94548"

definition fix_int :: "fixed \<Rightarrow> u32" where "fix_int f = signed_drop_bit 16 f"
definition fix_frac :: "fixed \<Rightarrow> u32" where "fix_frac a = a AND FIX_FMASK"
definition fix_abs :: "fixed \<Rightarrow> fixed" where "fix_abs a = (if a <s 0 then - a else a)"

subsection \<open>Products and quotients\<close>

definition fix_mul :: "fixed \<Rightarrow> fixed \<Rightarrow> fixed" where
  "fix_mul x y =
     (let (x, neg) = (if x <s 0 then (- x, 1) else (x, 0 :: u32));
          (y, neg) = (if y <s 0 then (- y, neg XOR 1) else (y, neg));
          a = signed_drop_bit 16 x; b = x AND FIX_FMASK;
          c = signed_drop_bit 16 y; d = y AND FIX_FMASK;
          res = drop_bit 16 (d * b) + d * a + c * b + push_bit 16 (c * a)
      in if neg \<noteq> 0 then - res else res)"

definition fix_div :: "fixed \<Rightarrow> fixed \<Rightarrow> fixed option" where
  "fix_div x y =
     (let (x, neg) = (if x <s 0 then (- x, 1) else (x, 0 :: u32));
          (y, neg) = (if y <s 0 then (- y, neg XOR 1) else (y, neg))
      in if y = 0 then None
         else let res = fix_mul x (push_bit 1 (0x80000000 div y)) in Some (if neg \<noteq> 0 then - res else res))"

definition fix_mul64 :: "fixed \<Rightarrow> fixed \<Rightarrow> fixed" where
  "fix_mul64 a b = ucast (signed_drop_bit 16 (scast a * scast b :: u64))"

definition fix_div64 :: "fixed \<Rightarrow> fixed \<Rightarrow> fixed option" where
  "fix_div64 a b = (if b = 0 then None else Some (ucast (word_of_int (sint (push_bit 16 (scast a) :: u64) sdiv sint b) :: u64)))"

subsection \<open>Conversions\<close>

text \<open>The 0.5 of \<open>fix_val\<close> is a double, so that the sum is one.\<close>

definition float_to_fix :: "u32 \<Rightarrow> fixed option" where
  "float_to_fix val = do {
     s \<leftarrow> adddf3 (extendsfdf2 (mulsf3 val 0x47800000)) (if 0 \<le>s gesf2 val 0 then 0x3FE0000000000000 else 0xBFE0000000000000);
     Some (fixdfsi s) }"

definition fix_to_float :: "fixed \<Rightarrow> u32 option" where
  "fix_to_float val = do {
     ip \<leftarrow> floatsisf (signed_drop_bit 16 val);
     fp \<leftarrow> floatsisf (val AND FIX_FMASK);
     one \<leftarrow> floatsisf (push_bit 16 1);
     addsf3 ip (divsf3 fp one) }"

text \<open>The digits of the integer part, the last one first, as they go into \<open>tmp\<close>.\<close>

function fixtoa_int :: "u8 list \<Rightarrow> u32 \<Rightarrow> u8 list" where
  "fixtoa_int tmp ip =
     (let tmp = tmp @ [0x30 + ucast (ip mod 10)]; ip = ip div 10 in if ip \<noteq> 0 then fixtoa_int tmp ip else tmp)"
  by auto
termination
proof (relation "measure (\<lambda>(tmp, ip). unat ip)")
  fix tmp x :: "u8 list" and ip xa :: u32
  assume "xa = ip div 10" "xa \<noteq> 0"
  then have "unat xa = unat ip div 10" "0 < unat xa" by (simp add: unat_div) (simp add: \<open>xa \<noteq> 0\<close> unat_gt_0)
  then show "((x, xa), tmp, ip) \<in> measure (\<lambda>(tmp, ip). unat ip)" by simp
qed simp

declare fixtoa_int.simps [simp del]

fun put_reversed :: "byte_mem \<Rightarrow> u32 \<Rightarrow> u8 list \<Rightarrow> nat \<Rightarrow> byte_mem \<times> u32" where
  "put_reversed m p tmp 0 = (m, p)"
| "put_reversed m p tmp (Suc ndec) = put_reversed (m(p := tmp ! ndec)) (p + 1) tmp ndec"

function fixtoa_frac :: "byte_mem \<Rightarrow> u32 \<Rightarrow> u32 \<Rightarrow> u32 \<Rightarrow> u32 \<Rightarrow> byte_mem \<times> u32" where
  "fixtoa_frac m p fr ndec dec =
     (let fr = (fr AND FIX_FMASK) * 10; m = m(p := ucast (0x30 + drop_bit 16 fr mod 10))
      in if ndec + 1 <s dec then fixtoa_frac m (p + 1) fr (ndec + 1) dec else (m, p + 1))"
  by auto
termination
  by (relation "measure (\<lambda>(m, p, fr, ndec, dec). nat (sint dec - sint (ndec + 1)))") (auto dest: sint_inc_less simp: add.assoc)

declare fixtoa_frac.simps [simp del]

definition fixtoa :: "byte_mem \<Rightarrow> fixed \<Rightarrow> u32 \<Rightarrow> u32 \<Rightarrow> byte_mem" where
  "fixtoa m a str dec =
     (let (m, p, a) = (if a <s 0 then (m(str := 0x2D), str + 1, - a) else (m, str, a));
          tmp = fixtoa_int [] (fix_int a);
          (m, p) = put_reversed m p tmp (length tmp);
          (m, p) = fixtoa_frac (m(p := 0x2E)) (p + 1) (fix_frac a) 0 dec
      in m(p := 0))"

subsection \<open>Square root, exponential and logarithm\<close>

function sqrt_rounds :: "fixed \<Rightarrow> u32 \<Rightarrow> u32" where
  "sqrt_rounds s itr = (if 0 <s s then sqrt_rounds (signed_drop_bit 2 s) (itr + 1) else itr)"
  by auto
termination
  by (relation "measure (\<lambda>(s, itr). nat (sint s))") (auto simp: word_sless_alt sint_signed_drop_bit_eq drop_bit_eq_div)

declare sqrt_rounds.simps [simp del]

fun newton_steps :: "nat \<Rightarrow> fixed \<Rightarrow> fixed \<Rightarrow> fixed option" where
  "newton_steps 0 a l = Some l"
| "newton_steps (Suc n) a l = do { q \<leftarrow> fix_div a l; newton_steps n a (signed_drop_bit 1 (l + q)) }"

text \<open>The loop \<open>for (i = 0; i < itr; i++)\<close> runs \<open>itr\<close> times, \<open>itr\<close> being at most 16.\<close>

definition fix_sqrt :: "fixed \<Rightarrow> fixed option" where
  "fix_sqrt a =
     (if a <s 0 then Some (- 1)
      else if a = 0 \<or> a = FIX_ONE then Some a
      else do {
        (inv, a) \<leftarrow> (if a <s FIX_ONE \<and> 6 <s a then do { a \<leftarrow> fix_div FIX_ONE a; Some (1, a) } else Some (0 :: u32, a));
        let itr = (if FIX_ONE <s a then sqrt_rounds a 0 else 16);
        l \<leftarrow> newton_steps (unat itr) a (signed_drop_bit 1 a + 1);
        if inv \<noteq> 0 then fix_div FIX_ONE l else Some l })"

definition fix_exp :: "fixed \<Rightarrow> fixed option" where
  "fix_exp fp =
     (if fp = 0 then Some FIX_ONE
      else do {
        let xabs = fix_abs fp;
        let k = fix_mul xabs FIX_LN2_INV + FIX_HALF;
        let k = k AND NOT FIX_FMASK;
        let k = (if fp <s 0 then - k else k);
        let fp = fp - fix_mul k FIX_LN2;
        let z = fix_mul fp fp;
        let r = FIX_TWO + fix_mul z (10923 + fix_mul z (- 182 + fix_mul z (4 + fix_mul z (0 + fix_mul z 0))));
        q \<leftarrow> fix_div (fix_mul fp FIX_TWO) (r - fp);
        let xp = FIX_ONE + q;
        k \<leftarrow> (if k <s 0 then c_sar32 FIX_ONE (signed_drop_bit 16 (- k)) else c_shl32 FIX_ONE (signed_drop_bit 16 k));
        Some (fix_mul k xp) })"

function ln_halve :: "fixed \<Rightarrow> fixed \<Rightarrow> fixed \<times> fixed" where
  "ln_halve xi log2 = (if FIX_TWO \<le>s xi then ln_halve (signed_drop_bit 1 xi) (log2 + 1) else (xi, log2))"
  by auto
termination
  by (relation "measure (\<lambda>(xi, log2). nat (sint xi))") (auto simp: word_sle_eq sint_signed_drop_bit_eq drop_bit_eq_div)

declare ln_halve.simps [simp del]

definition fix_ln :: "fixed \<Rightarrow> fixed option" where
  "fix_ln fp =
     (if fp <s 0 then Some 0
      else if fp = 0 then Some (- 1)
      else do {
        let (xi, log2) = ln_halve fp 0;
        let f = xi - FIX_ONE;
        s \<leftarrow> fix_div f (FIX_TWO + f);
        let z = fix_mul s s;
        let w = fix_mul z z;
        let r = fix_mul w (26214 + fix_mul w (14564 + fix_mul w 10036))
          + fix_mul z (43691 + fix_mul w (18725 + fix_mul w (11917 + fix_mul w 9698)));
        Some (fix_mul FIX_LN2 (push_bit 16 log2) + f - fix_mul s (f - r)) })"

definition fix_log :: "fixed \<Rightarrow> fixed \<Rightarrow> fixed option" where
  "fix_log fp base = do { a \<leftarrow> fix_ln fp; b \<leftarrow> fix_ln base; fix_div a b }"

definition fix_pow :: "fixed \<Rightarrow> fixed \<Rightarrow> fixed option" where
  "fix_pow fp e =
     (if e = 0 then Some FIX_ONE else if fp <s 0 then Some 0 else do { l \<leftarrow> fix_ln fp; fix_exp (fix_mul l e) })"

subsection \<open>Trigonometric and hyperbolic functions\<close>

definition fix_rad :: "fixed \<Rightarrow> fixed option" where
  "fix_rad deg = fix_div (fix_mul deg FIX_PI) 11796480"

definition fix_sin :: "fixed \<Rightarrow> fixed" where
  "fix_sin rad =
     (let rad = (if rad <s - FIX_PI then rad + FIX_TWO_PI else if FIX_PI <s rad then rad - FIX_TWO_PI else rad);
          sine = (if rad <s 0 then fix_mul 83443 rad + fix_mul (fix_mul 26561 rad) rad
                  else fix_mul 83443 rad - fix_mul (fix_mul 26561 rad) rad)
      in if sine <s 0 then fix_mul 14746 (fix_mul sine (- sine) - sine) + sine
         else fix_mul 14746 (fix_mul sine sine - sine) + sine)"

definition fix_cos :: "fixed \<Rightarrow> fixed" where
  "fix_cos rad = fix_sin (rad + FIX_HALF_PI)"

definition fix_tan :: "fixed \<Rightarrow> fixed option" where
  "fix_tan rad = fix_div (fix_sin rad) (fix_cos rad)"

definition fix_xatan :: "fixed \<Rightarrow> fixed option" where
  "fix_xatan arg = do {
     let argsq = fix_mul arg arg;
     let v = fix_mul (fix_mul (fix_mul (fix_mul 1058645 argsq + 17591532) argsq + 75564932) argsq + 116680708) argsq + 58771766;
     v \<leftarrow> fix_div v
       (fix_mul (fix_mul (fix_mul (fix_mul (argsq + 3863804) argsq + 35144688) argsq + 109234344) argsq + 136271297) argsq + 58771766);
     Some (fix_mul v arg) }"

definition fix_satan :: "fixed \<Rightarrow> fixed option" where
  "fix_satan arg =
     (if arg <s 27146 then fix_xatan arg
      else if 158218 <s arg then do { q \<leftarrow> fix_div FIX_ONE arg; v \<leftarrow> fix_xatan q; Some (FIX_HALF_PI - v) }
      else do { q \<leftarrow> fix_div (arg - FIX_ONE) (arg + FIX_ONE); v \<leftarrow> fix_xatan q; Some (FIX_FOURTH_PI + v) })"

definition fix_atan :: "fixed \<Rightarrow> fixed option" where
  "fix_atan arg = (if 0 <s arg then fix_satan arg else do { v \<leftarrow> fix_satan (- arg); Some (- v) })"

definition fix_atan2 :: "fixed \<Rightarrow> fixed \<Rightarrow> fixed option" where
  "fix_atan2 arg1 arg2 =
     (if arg1 + arg2 = arg1 then Some (if 0 \<le>s arg1 then FIX_HALF_PI else - FIX_HALF_PI)
      else if arg2 <s 0 then
        if 0 \<le>s arg1 then do { q \<leftarrow> fix_div (- arg1) arg2; v \<leftarrow> fix_satan q; Some (FIX_PI - v) }
        else do { q \<leftarrow> fix_div arg1 arg2; v \<leftarrow> fix_satan q; Some (- FIX_PI + v) }
      else if 0 <s arg1 then do { q \<leftarrow> fix_div arg1 arg2; fix_satan q }
      else do { q \<leftarrow> fix_div (- arg1) arg2; v \<leftarrow> fix_satan q; Some (- v) })"

definition fix_asin :: "fixed \<Rightarrow> fixed option" where
  "fix_asin arg =
     (let (arg, sign) = (if arg <s 0 then (- arg, - FIX_ONE) else (arg, FIX_ONE))
      in if FIX_ONE <s arg then Some 0
         else do {
           temp \<leftarrow> fix_sqrt (FIX_ONE - fix_mul arg arg);
           temp \<leftarrow> (if 45875 <s arg then do { q \<leftarrow> fix_div temp arg; v \<leftarrow> fix_atan q; Some (FIX_HALF_PI - v) }
                   else do { q \<leftarrow> fix_div arg temp; fix_atan q });
           Some (fix_mul sign temp) })"

definition fix_acos :: "fixed \<Rightarrow> fixed option" where
  "fix_acos arg = (if FIX_ONE <s arg \<or> arg <s - FIX_ONE then Some 0 else do { v \<leftarrow> fix_asin arg; Some (FIX_HALF_PI - v) })"

definition fix_sinh :: "fixed \<Rightarrow> fixed option" where
  "fix_sinh arg =
     (let (arg, sign) = (if arg <s 0 then (- arg, - FIX_ONE) else (arg, FIX_ONE))
      in if 1376256 <s arg then do {
           e \<leftarrow> fix_exp arg;
           let temp = signed_drop_bit 1 e;
           Some (if 0 <s sign then temp else - temp) }
         else do { a \<leftarrow> fix_exp arg; b \<leftarrow> fix_exp (- arg); Some (signed_drop_bit 1 (fix_mul sign (a - b))) })"

definition fix_cosh :: "fixed \<Rightarrow> fixed option" where
  "fix_cosh arg =
     (let arg = (if arg <s 0 then - arg else arg)
      in if 1376256 <s arg then do { e \<leftarrow> fix_exp arg; Some (signed_drop_bit 1 e) }
         else do { a \<leftarrow> fix_exp arg; b \<leftarrow> fix_exp (- arg); Some (signed_drop_bit 1 (a + b)) })"

definition fix_tanh :: "fixed \<Rightarrow> fixed option" where
  "fix_tanh arg =
     (let (arg, sign) = (if arg <s 0 then (- arg, - FIX_ONE) else (arg, FIX_ONE))
      in if 1376256 <s arg then Some sign
         else do { s \<leftarrow> fix_sinh arg; c \<leftarrow> fix_cosh arg; fix_div (fix_mul sign s) c })"

end
