(* ===== verification/Fixed_Point_Props.thy ===== *)
theory Fixed_Point_Props
  imports Fixed_Point Quotient_Bits Text_Props Complex_Main
begin

text \<open>
  What the fixed point routines compute: the product is the exact one without its lowest bits, the quotient stays below the
  exact one by a bound that grows with the dividend, the text has the digits of the value, and the square root ends near
  the root.
\<close>

unbundle bit_operations_syntax

subsection \<open>Products\<close>

text \<open>Both routines work on magnitudes and put the sign back.\<close>

definition fix_mag :: "u32 \<Rightarrow> u32 \<Rightarrow> u32" where
  "fix_mag x y = drop_bit 16 ((y AND 0xFFFF) * (x AND 0xFFFF)) + (y AND 0xFFFF) * signed_drop_bit 16 x
     + signed_drop_bit 16 y * (x AND 0xFFFF) + push_bit 16 (signed_drop_bit 16 y * signed_drop_bit 16 x)"

lemma fix_mul_mag:
  "fix_mul x y = (if (x <s 0) \<noteq> (y <s 0) then - fix_mag (c_abs x) (c_abs y) else fix_mag (c_abs x) (c_abs y))"
  by (simp add: fix_mul_def fix_mag_def c_abs_def Let_def)

lemma fix_div_mag:
  "y \<noteq> 0 \<Longrightarrow> fix_div x y =
    Some (let r = fix_mul (c_abs x) (push_bit 1 (0x80000000 div c_abs y)) in if (x <s 0) \<noteq> (y <s 0) then - r else r)"
  by (simp add: fix_div_def c_abs_def Let_def)

lemma c_abs_unat:
  assumes "(x :: u32) \<noteq> 0x80000000"
  shows "int (unat (c_abs x)) = \<bar>sint x\<bar>" "unat (c_abs x) < 2 ^ 31"
proof -
  show e: "int (unat (c_abs x)) = \<bar>sint x\<bar>" using uint_c_abs[of x] by simp
  have "sint x \<noteq> - (2 ^ 31)"
  proof
    assume "sint x = - (2 ^ 31)"
    then have "x = word_of_int (- (2 ^ 31))" using word_of_int_of_sint[of x] by simp
    then show False using assms by simp
  qed
  then have "\<bar>sint x\<bar> < 2 ^ 31" using sint_ge[of x] sint_lt[of x] by simp
  then show "unat (c_abs x) < 2 ^ 31" using e by (metis of_nat_less_iff of_nat_numeral of_nat_power)
qed

lemma word_from_unat: "unat (x :: 'a::len word) = n \<Longrightarrow> x = of_nat n"
  by auto

lemma of_nat_of_int: "int n = k \<Longrightarrow> of_nat n = (word_of_int k :: 'a::len word)"
  by auto

lemma nonneg_word: "unat w < 2 ^ 31 \<Longrightarrow> \<not> w <s 0" for w :: u32
  using sle_zero_iff[of 31 w] by (simp add: word_sless_alt word_sle_eq)

lemma split_16: "(of_nat n :: u32) AND 0xFFFF = of_nat (n mod 2 ^ 16)" if "n < 2 ^ 32"
proof -
  have "(0xFFFF :: u32) = mask 16" by (simp add: mask_eq_exp_minus_1)
  then have "unat ((of_nat n :: u32) AND 0xFFFF) = n mod 2 ^ 16"
    using unat_and_mask[of "of_nat n :: u32" 16] that by (simp add: unat_of_nat)
  then show ?thesis by (rule word_from_unat)
qed

lemma product_sdiv:
  "(a * b) sdiv 65536 = (if (a < 0) \<noteq> (b < 0) then - (\<bar>a * b\<bar> div 65536) else \<bar>a * b\<bar> div 65536)" for a b :: int
proof -
  have d: "k sdiv 65536 = (if k < 0 then - (\<bar>k\<bar> div 65536) else \<bar>k\<bar> div 65536)" for k :: int
    by (simp add: signed_divide_int_def sgn_if)
  show ?thesis
  proof (cases "a = 0 \<or> b = 0")
    case False
    then have "a * b < 0 \<longleftrightarrow> (a < 0) \<noteq> (b < 0)" by (auto simp: mult_less_0_iff)
    then show ?thesis unfolding d by simp
  qed (auto simp: d)
qed

lemma fix_mag_value:
  assumes "unat x < 2 ^ 31" "unat y < 2 ^ 31"
  shows "fix_mag x y = of_nat (unat x * unat y div 2 ^ 16)"
proof -
  define a b c d where "a = unat x div 2 ^ 16" and "b = unat x mod 2 ^ 16" and "c = unat y div 2 ^ 16" and "d = unat y mod 2 ^ 16"
  have b: "b < 2 ^ 16" "d < 2 ^ 16" by (simp_all add: b_def d_def)
  have lo: "x AND 0xFFFF = of_nat b" "y AND 0xFFFF = of_nat d"
    using split_16[of "unat x"] split_16[of "unat y"] assms by (simp_all add: b_def d_def)
  have hi: "signed_drop_bit 16 x = of_nat a" "signed_drop_bit 16 y = of_nat c"
    using assms unat_shr[of 16 x] unat_shr[of 16 y] sar_nonneg[of x 16] sar_nonneg[of y 16]
    by (simp_all add: a_def c_def word_from_unat)
  have "d * b \<le> (2 ^ 16 - 1) * (2 ^ 16 - 1)" using b by (intro mult_le_mono) simp_all
  then have "d * b < 2 ^ 32" by (rule le_less_trans) simp
  then have "unat (of_nat (d * b) :: u32) = d * b" by (rule unat_of_nat_small)
  then have "drop_bit 16 (of_nat (d * b) :: u32) = of_nat (d * b div 2 ^ 16)" by (intro word_from_unat) (simp only: unat_shr)
  then have "fix_mag x y = of_nat (d * b div 2 ^ 16 + d * a + c * b + c * a * 2 ^ 16)"
    unfolding fix_mag_def lo hi of_nat_mult[symmetric] by (simp add: push_bit_eq_mult)
  also have "d * b div 2 ^ 16 + d * a + c * b + c * a * 2 ^ 16 = unat x * unat y div 2 ^ 16"
  proof -
    have xy: "unat x = a * 2 ^ 16 + b" "unat y = c * 2 ^ 16 + d" by (simp_all add: a_def b_def c_def d_def)
    have "unat x * unat y = d * b + (d * a + c * b + c * a * 2 ^ 16) * 2 ^ 16" unfolding xy by (simp add: algebra_simps)
    then show ?thesis by (simp only: div_mult_self1 zero_neq_numeral power_not_zero not_False_eq_True)
  qed
  finally show ?thesis .
qed

lemma fix_mul64_value: "fix_mul64 x y = word_of_int ((sint x * sint y) div 65536)"
proof -
  have "\<bar>sint x * sint y\<bar> \<le> 2 ^ 31 * 2 ^ 31" unfolding abs_mult
    using sint_ge[of x] sint_lt[of x] sint_ge[of y] sint_lt[of y] by (intro mult_mono) auto
  moreover have "(2::int) ^ 31 * 2 ^ 31 < 2 ^ 63" by simp
  ultimately have b: "- (2 ^ 63) \<le> sint x * sint y" "sint x * sint y < 2 ^ 63" by linarith+
  have "(scast x * scast y :: u64) = word_of_int (sint x * sint y)"
    by (metis scast_eq wi_hom_mult)
  moreover have "sint (word_of_int k :: u64) = k" if "- (2 ^ 63) \<le> k" "k < 2 ^ 63" for k
    using that by (simp add: sint_sbintrunc' signed_take_bit_int_eq_self)
  ultimately have "sint (scast x * scast y :: u64) = sint x * sint y" using b by metis
  then have s: "sint (signed_drop_bit 16 (scast x * scast y :: u64)) = (sint x * sint y) div 65536"
    by (simp add: sint_signed_drop_bit_eq drop_bit_eq_div)
  have "(ucast w :: u32) = word_of_int (sint w)" for w :: u64
    unfolding scast_eq[symmetric] by (rule bit_word_eqI) (auto simp: bit_ucast_iff bit_word_scast_iff)
  then show ?thesis unfolding fix_mul64_def s[symmetric] .
qed

text \<open>The product is the exact one cut towards zero, modulo \<open>2 ^ 32\<close>; only the least integer, whose magnitude is none, is left
  out. The 64-bit macro cuts downwards instead: negative products differ by the last unit.\<close>

theorem fix_mul_truncates:
  assumes "x \<noteq> 0x80000000" "y \<noteq> 0x80000000"
  shows "fix_mul x y = word_of_int ((sint x * sint y) sdiv 65536) \<and> fix_mul64 x y = word_of_int ((sint x * sint y) div 65536)"
proof
  have "int (unat (c_abs x) * unat (c_abs y) div 2 ^ 16) = \<bar>sint x * sint y\<bar> div 65536"
    using c_abs_unat(1)[OF assms(1)] c_abs_unat(1)[OF assms(2)] by (simp add: zdiv_int abs_mult)
  then have m: "fix_mag (c_abs x) (c_abs y) = word_of_int (\<bar>sint x * sint y\<bar> div 65536)"
    unfolding fix_mag_value[OF c_abs_unat(2)[OF assms(1)] c_abs_unat(2)[OF assms(2)]] by (rule of_nat_of_int)
  have s: "(sint x * sint y) sdiv 65536 =
      (if (sint x < 0) \<noteq> (sint y < 0) then - (\<bar>sint x * sint y\<bar> div 65536) else \<bar>sint x * sint y\<bar> div 65536)"
    by (rule product_sdiv)
  show "fix_mul x y = word_of_int ((sint x * sint y) sdiv 65536)"
    unfolding fix_mul_mag m s slt_zero by (cases "(sint x < 0) \<noteq> (sint y < 0)") (simp_all only: if_True if_False wi_hom_neg simp_thms)
  show "fix_mul64 x y = word_of_int ((sint x * sint y) div 65536)" by (rule fix_mul64_value)
qed

lemma fix_mul_truncates_witness:
  "fix_mul (- 0x18000) 0x10001 = word_of_int ((sint (- 0x18000 :: u32) * sint (0x10001 :: u32)) sdiv 65536)"
  using fix_mul_truncates[of "- 0x18000" "0x10001"] by simp

subsection \<open>Quotients\<close>

text \<open>The reciprocal has 31 bits, of which the lowest is 0; what it lacks is multiplied by the dividend.\<close>

lemma reciprocal_bounds:
  fixes n x :: nat
  assumes "0 < n"
  defines "r \<equiv> 2 * (2 ^ 31 div n)"
  shows "x * r div 2 ^ 16 \<le> x * 2 ^ 16 div n" "x * 2 ^ 16 div n \<le> x * r div 2 ^ 16 + x div 2 ^ 15 + 1"
proof -
  have f: "n * (2 ^ 31 div n) \<le> 2 ^ 31" "2 ^ 31 < n * (2 ^ 31 div n) + n"
    using floor_bounds[OF assms(1)] by simp_all
  define t q where "t = x * r div 2 ^ 16" and "q = x * 2 ^ 16 div n"
  have t: "2 ^ 16 * t \<le> x * r" "x * r < 2 ^ 16 * t + 2 ^ 16" unfolding t_def by (rule floor_bounds; simp)+
  have q: "n * q \<le> x * 2 ^ 16" "x * 2 ^ 16 < n * q + n" unfolding q_def by (rule floor_bounds[OF assms(1)])+
  have "n * (2 ^ 16 * t) \<le> n * (x * r)" using t(1) by (rule mult_le_mono2)
  also have "n * (x * r) = 2 * x * (n * (2 ^ 31 div n))" by (simp add: r_def)
  also have "\<dots> \<le> 2 * x * 2 ^ 31" by (rule mult_le_mono2[OF f(1)])
  finally have "n * t \<le> x * 2 ^ 16" by simp
  then show "t \<le> q" unfolding q_def using assms(1) by (simp add: less_eq_div_iff_mult_less_eq mult.commute)
  define u where "u = x div 2 ^ 15"
  have u: "x < 2 ^ 15 * u + 2 ^ 15" unfolding u_def by (rule floor_bounds) simp
  have "2 * x * 2 ^ 31 \<le> 2 * x * (n * (2 ^ 31 div n) + n)" by (rule mult_le_mono2) (use f(2) in linarith)
  also have "\<dots> = n * (x * r + 2 * x)" by (simp add: r_def algebra_simps)
  also have "\<dots> < n * (2 ^ 16 * (t + u + 2))" by (rule mult_strict_left_mono[OF _ assms(1)]) (use t(2) u in simp)
  finally have "2 ^ 16 * (x * 2 ^ 16) < 2 ^ 16 * (n * (t + u + 2))" by (simp only: mult.left_commute[of n]) simp
  then have "x * 2 ^ 16 < n * (t + u + 2)" by (simp only: nat_mult_less_cancel1 zero_less_power zero_less_numeral)
  then have "q < t + u + 2" unfolding q_def by (simp add: div_less_iff_less_mult assms(1) mult.commute)
  then show "q \<le> t + u + 1" by simp
qed

text \<open>C25: For operands other than the smallest integer and a divisor of three units or more in magnitude the division
  returns, modulo \<open>2 ^ 32\<close> and with the sign of the quotient, a magnitude that is at most the exact quotient cut to units,
  and at least that less one unit and one unit for every half (32768 units) of the dividend.\<close>

theorem fix_div_error:
  assumes "x \<noteq> 0x80000000" "y \<noteq> 0x80000000" "3 \<le> \<bar>sint y\<bar>"
  defines "q \<equiv> \<bar>sint x\<bar> * 65536 div \<bar>sint y\<bar>"
  shows "\<exists>t. t \<le> q \<and> q \<le> t + \<bar>sint x\<bar> div 32768 + 1 \<and> 0 \<le> t \<and>
    fix_div x y = Some (word_of_int (if (sint x < 0) \<noteq> (sint y < 0) then - t else t))"
proof -
  let ?x = "unat (c_abs x)" and ?y = "unat (c_abs y)"
  define r where "r = 2 * (2 ^ 31 div ?y)"
  have x: "int ?x = \<bar>sint x\<bar>" "?x < 2 ^ 31" and y: "int ?y = \<bar>sint y\<bar>" "?y < 2 ^ 31"
    using c_abs_unat[OF assms(1)] c_abs_unat[OF assms(2)] by blast+
  have y3: "3 \<le> ?y" using assms(3) y(1) by linarith
  have "2 ^ 31 div ?y \<le> 2 ^ 31 div 3" using y3 by (rule div_le_mono2[rotated]) simp
  then have r: "r < 2 ^ 31" by (simp add: r_def)
  have "unat (0x80000000 div c_abs y) = 2 ^ 31 div ?y" by (simp add: unat_div)
  then have "unat (push_bit 1 (0x80000000 div c_abs y)) = r"
    using unat_shl[of 1 "0x80000000 div c_abs y"] r by (simp only: r_def len32) simp
  then have w: "push_bit 1 (0x80000000 div c_abs y) = (of_nat r :: u32)" by (rule word_from_unat)
  define t where "t = int (?x * r div 2 ^ 16)"
  have ur: "unat (of_nat r :: u32) = r" using r by (intro unat_of_nat_small) simp
  have nn: "\<not> c_abs x <s 0" "\<not> (of_nat r :: u32) <s 0"
    using x(2) r by (intro nonneg_word; simp only: ur)+
  then have "fix_mul (c_abs x) (of_nat r) = fix_mag (c_abs x) (of_nat r)" by (simp add: fix_mul_mag c_abs_def)
  also have "\<dots> = of_nat (?x * r div 2 ^ 16)" by (rule fix_mag_value[OF x(2), of "of_nat r", unfolded ur, OF r])
  also have "\<dots> = word_of_int t" unfolding t_def by (rule of_nat_of_int[OF refl])
  finally have m: "fix_mul (c_abs x) (of_nat r) = word_of_int t" .
  have "y \<noteq> 0" using assms(3) by auto
  then have d: "fix_div x y = Some (word_of_int (if (sint x < 0) \<noteq> (sint y < 0) then - t else t))"
    unfolding fix_div_mag[OF \<open>y \<noteq> 0\<close>] w m Let_def slt_zero by (cases "(sint x < 0) \<noteq> (sint y < 0)") (simp_all only: if_True if_False wi_hom_neg simp_thms)
  moreover have "q = int (?x * 2 ^ 16 div ?y)" unfolding q_def x(1)[symmetric] y(1)[symmetric] by (simp add: zdiv_int)
  moreover have "\<bar>sint x\<bar> div 32768 = int (?x div 2 ^ 15)" unfolding x(1)[symmetric] by (simp add: zdiv_int)
  moreover have "0 < ?y" using y3 by simp
  note b = reciprocal_bounds[OF this, of ?x, folded r_def]
  ultimately have "t \<le> q \<and> q \<le> t + \<bar>sint x\<bar> div 32768 + 1" unfolding t_def using b by linarith
  moreover have "0 \<le> t" by (simp add: t_def)
  ultimately show ?thesis using d by (intro exI[of _ t]) blast
qed

lemma fix_div_error_witness:
  "\<exists>t. t \<le> 87381 \<and> 87381 \<le> t + 9 \<and> 0 \<le> t \<and> fix_div (- 0x40000) 0x30000 = Some (word_of_int (- t))"
  using fix_div_error[of "- 0x40000" "0x30000"] by simp

subsection \<open>Text\<close>

text \<open>The digits of a fraction of \<open>2 ^ 16\<close>.\<close>

fun fraction_digits :: "nat \<Rightarrow> nat \<Rightarrow> nat list" where
  "fraction_digits f 0 = []"
| "fraction_digits f (Suc n) = (f * 10 div 2 ^ 16) # fraction_digits (f * 10 mod 2 ^ 16) n"

lemma fraction_digits_bound: "f < 2 ^ 16 \<Longrightarrow> d \<in> set (fraction_digits f n) \<Longrightarrow> d < 10"
  by (induction f n rule: fraction_digits.induct) (auto simp: less_mult_imp_div_less)

lemma length_fraction_digits [simp]: "length (fraction_digits f n) = n"
  by (induction f n rule: fraction_digits.induct) auto

lemma fraction_digits_value:
  "f < 2 ^ 16 \<Longrightarrow> foldl (\<lambda>v d. v * 10 + d) a (fraction_digits f n) = a * 10 ^ n + f * 10 ^ n div 2 ^ 16"
proof (induction f n arbitrary: a rule: fraction_digits.induct)
  case (2 f n)
  have "f * 10 ^ Suc n = (f * 10 div 2 ^ 16 * 10 ^ n) * 2 ^ 16 + f * 10 mod 2 ^ 16 * 10 ^ n"
  proof -
    have "f * 10 ^ Suc n = (f * 10 div 2 ^ 16 * 2 ^ 16 + f * 10 mod 2 ^ 16) * 10 ^ n" unfolding div_mult_mod_eq by simp
    then show ?thesis by (simp only: add_mult_distrib add_mult_distrib2 ac_simps)
  qed
  then have "f * 10 ^ Suc n div 2 ^ 16 = f * 10 div 2 ^ 16 * 10 ^ n + f * 10 mod 2 ^ 16 * 10 ^ n div 2 ^ 16"
    by (simp only: div_mult_self3 zero_neq_numeral power_not_zero not_False_eq_True)
  then show ?case unfolding fraction_digits.simps foldl.simps 2(1)[OF mod_less_divisor[OF zero_less_power[OF zero_less_numeral]]]
    by (simp only: power_Suc) (simp add: algebra_simps)
qed simp

lemma digit_char_small: "d < 10 \<Longrightarrow> digit_char d = 0x30 + of_nat d"
proof -
  assume "d < 10"
  then have "d \<in> set [0, 1, 2, 3, 4, 5, 6, 7, 8, 9]" by auto
  then show ?thesis by (auto simp: digit_char_def itoa_chars_list)
qed

lemma ucast_digit:
  fixes w :: u32
  assumes "unat w = d" "d < 10"
  shows "0x30 + ucast w = digit_char d" "ucast (0x30 + w) = digit_char d"
proof -
  have "w = of_nat d" using assms(1) by (rule word_from_unat)
  moreover have "d \<in> set [0, 1, 2, 3, 4, 5, 6, 7, 8, 9]" using assms(2) by auto
  ultimately show "0x30 + ucast w = digit_char d" "ucast (0x30 + w) = digit_char d" by (auto simp: digit_char_small)
qed

lemma fixtoa_int_digits: "fixtoa_int tmp ip = tmp @ rev (map digit_char (digits 10 (unat ip)))"
proof (induction tmp ip rule: fixtoa_int.induct)
  case (1 tmp ip)
  have c: "0x30 + ucast (ip mod 10) = digit_char (unat ip mod 10)" by (rule ucast_digit(1)) (simp_all add: unat_mod_distrib)
  have z: "ip div 10 = 0 \<longleftrightarrow> unat ip < 10" by (simp add: unat_div div_eq_0_iff flip: unat_eq_0)
  show ?case
  proof (cases "ip div 10 = 0")
    case True
    then have "unat ip < 10" using z by blast
    then show ?thesis using True c by (subst fixtoa_int.simps, subst digits.simps) simp
  next
    case False
    then have "\<not> unat ip < 10" using z by blast
    then show ?thesis using False c 1[OF refl refl False] by (subst fixtoa_int.simps, subst digits.simps) (simp add: unat_div)
  qed
qed

lemma put_reversed_stored:
  "n \<le> length tmp \<Longrightarrow> put_reversed m p tmp n = (stored m p (rev (take n tmp)), p + of_nat n)"
  by (induction n arbitrary: m p) (simp_all add: take_Suc_conv_app_nth add.assoc)

lemma sint_Suc: "sint i + 1 < 2 ^ 31 \<Longrightarrow> sint (i + 1) = sint i + 1" for i :: u32
  using sint_ge[of i] by (simp add: sint_word_ariths signed_take_bit_int_eq_self)

lemma fixtoa_frac_stored:
  assumes "sint ndec + 1 < 2 ^ 31"
  shows "fixtoa_frac m p fr ndec dec =
    (let n = max 1 (nat (sint dec - sint ndec))
     in (stored m p (map digit_char (fraction_digits (unat fr mod 2 ^ 16) n)), p + of_nat n))"
  using assms
proof (induction m p fr ndec dec rule: fixtoa_frac.induct)
  case (1 m p fr ndec dec)
  define f where "f = unat fr mod 2 ^ 16"
  define fr' where "fr' = (fr AND 0xFFFF) * 10"
  have f: "f < 2 ^ 16" by (simp add: f_def)
  have "fr AND 0xFFFF = of_nat f" using split_16[of "unat fr"] unat_bound[of fr] by (simp add: f_def)
  then have "fr' = of_nat (f * 10)" by (simp add: fr'_def)
  then have u: "unat fr' = f * 10" using f unat_of_nat_small[of "f * 10"] by simp
  have q: "f * 10 div 2 ^ 16 < 10" using f by (intro less_mult_imp_div_less) simp
  have "unat (drop_bit 16 fr' mod 10) = f * 10 div 2 ^ 16 mod 10" unfolding unat_mod_distrib unat_shr u by simp
  then have "unat (drop_bit 16 fr' mod 10) = f * 10 div 2 ^ 16" using q by simp
  then have c: "ucast (0x30 + drop_bit 16 fr' mod 10) = digit_char (f * 10 div 2 ^ 16)"
    using q by (rule ucast_digit(2))
  have i: "sint (ndec + 1) = sint ndec + 1" by (rule sint_Suc[OF 1(2)])
  show ?case
  proof (cases "ndec + 1 <s dec")
    case True
    then have l: "sint ndec + 1 < sint dec" by (simp add: word_sless_alt i)
    define n where "n = nat (sint dec - sint (ndec + 1))"
    have n: "max 1 (nat (sint dec - sint ndec)) = Suc n" "max 1 n = n" using l by (simp_all add: n_def i)
    have "sint (ndec + 1) + 1 < 2 ^ 31" using l i sint_lt[of dec] by simp
    from 1(1)[OF fr'_def refl True this]
    have "fixtoa_frac (m(p := digit_char (f * 10 div 2 ^ 16))) (p + 1) fr' (ndec + 1) dec =
        (stored (m(p := digit_char (f * 10 div 2 ^ 16))) (p + 1) (map digit_char (fraction_digits (f * 10 mod 2 ^ 16) n)), p + 1 + of_nat n)"
      unfolding n_def[symmetric] Let_def n u c .
    then show ?thesis unfolding Let_def n f_def[symmetric]
      by (subst fixtoa_frac.simps) (simp only: Let_def fr'_def[symmetric] c True if_True fraction_digits.simps list.map stored.simps of_nat_Suc add.assoc)
  next
    case False
    then have "max 1 (nat (sint dec - sint ndec)) = 1" by (simp add: word_sless_alt i)
    then show ?thesis unfolding f_def[symmetric]
      by (subst fixtoa_frac.simps, simp only: Let_def fr'_def[symmetric] c False if_False One_nat_def fraction_digits.simps list.map stored.simps, simp)
  qed
qed

text \<open>The text of a fixed point number is its sign, the decimal digits of its integer part, a point and as many digits as asked for, at
  least one: those of the fraction cut after them. It is stored from the buffer on with a zero behind it, and nothing else is written.\<close>

theorem fixtoa_text:
  fixes a dec :: u32
  assumes "a \<noteq> 0x80000000"
  defines "n \<equiv> max 1 (nat (sint dec))" and "f \<equiv> nat \<bar>sint a\<bar> mod 2 ^ 16"
  shows "\<exists>ds. length ds = n \<and> (\<forall>d\<in>set ds. d < 10) \<and> foldl (\<lambda>v d. v * 10 + d) 0 ds = f * 10 ^ n div 2 ^ 16 \<and>
    fixtoa m a str dec = stored m str
      ((if sint a < 0 then [0x2D] else []) @ map digit_char (digits 10 (nat \<bar>sint a\<bar> div 2 ^ 16)) @ [0x2E] @ map digit_char ds @ [0])"
proof -
  define ds where "ds = fraction_digits f n"
  define b where "b = c_abs a"
  have b: "unat b = nat \<bar>sint a\<bar>" "unat b < 2 ^ 31" using c_abs_unat[OF assms(1)] unfolding b_def by (metis nat_int, blast)
  have i: "unat (fix_int b) = nat \<bar>sint a\<bar> div 2 ^ 16"
    using b sar_nonneg[of b 16] by (simp add: fix_int_def unat_shr)
  have fr: "unat (fix_frac b) mod 2 ^ 16 = f"
  proof -
    have "fix_frac b = of_nat (unat b mod 2 ^ 16)" using split_16[of "unat b"] unat_bound[of b] by (simp add: fix_frac_def)
    moreover have "unat (of_nat (unat b mod 2 ^ 16) :: u32) = unat b mod 2 ^ 16" by (rule unat_of_nat_small) (simp add: less_trans[OF mod_less_divisor])
    ultimately show ?thesis by (simp add: f_def b(1))
  qed
  have "fixtoa_frac m p (fix_frac b) 0 dec = (stored m p (map digit_char ds), p + of_nat n)" for m p
    using fixtoa_frac_stored[of 0 m p "fix_frac b" dec] unfolding fr Let_def by (simp add: ds_def n_def)
  then have frac: "fixtoa_frac m p (fix_frac b) 0 dec = (stored m p (map digit_char ds), p + of_nat n)" for m p .
  define sg :: "u8 list" where "sg = (if sint a < 0 then [0x2D] else [])"
  have sign: "(if a <s 0 then (m(str := 0x2D), str + 1, - a) else (m, str, a)) = (stored m str sg, str + of_nat (length sg), b)"
    by (simp add: sg_def b_def c_abs_def slt_zero)
  define ids where "ids = map digit_char (digits 10 (nat \<bar>sint a\<bar> div 2 ^ 16))"
  have "put_reversed m p (fixtoa_int [] (fix_int b)) (length (fixtoa_int [] (fix_int b))) = (stored m p ids, p + of_nat (length ids))" for m p
    unfolding put_reversed_stored[OF order_refl] fixtoa_int_digits i ids_def by simp
  then have "fixtoa m a str dec = stored m str (sg @ ids @ [0x2E] @ map digit_char ds @ [0])"
    unfolding fixtoa_def sign Let_def prod.case frac by (simp add: stored_append ds_def add.assoc)
  moreover have "f < 2 ^ 16" by (simp add: f_def)
  ultimately show ?thesis using fraction_digits_bound[of f _ n] fraction_digits_value[of f 0 n]
    by (intro exI[of _ ds]) (simp add: ds_def sg_def ids_def)
qed

lemma fixtoa_text_witness:
  "\<exists>ds. length ds = 3 \<and> (\<forall>d\<in>set ds. d < 10) \<and> foldl (\<lambda>v d. v * 10 + d) 0 ds = 500 \<and>
    fixtoa (\<lambda>_. 7) (- 0x28000) 100 3 = stored (\<lambda>_. 7) 100 ([0x2D] @ map digit_char (digits 10 2) @ [0x2E] @ map digit_char ds @ [0])"
  using fixtoa_text[of "- 0x28000" 3 "\<lambda>_. 7" 100] by simp

subsection \<open>Square roots\<close>

lemma newton_below: "s \<le> (l + s ^ 2 / l) / 2" if "0 < l" for l s :: real
proof -
  have "0 \<le> (l - s) ^ 2" by simp
  then have "2 * s * l \<le> l ^ 2 + s ^ 2" by (simp add: power2_eq_square algebra_simps)
  then show ?thesis using that by (simp add: field_simps power2_eq_square)
qed

lemma newton_above:
  fixes l s d :: real
  assumes "0 < s" "0 \<le> d" "256 * d \<le> s" "s - d \<le> l" "l \<le> s + e" "0 \<le> e"
  shows "(l + s ^ 2 / l) / 2 \<le> s + max (e / 2) (d / 500)"
proof -
  have l: "0 < l" using assms by linarith
  have v: "(l + s ^ 2 / l) / 2 = s + (l - s) ^ 2 / (2 * l)" using l by (simp add: field_simps power2_eq_square)
  show ?thesis
  proof (cases "s \<le> l")
    case True
    have "(l - s) * (l - s) \<le> l * e" using True assms(1,5,6) by (intro mult_mono) auto
    then have "(l - s) ^ 2 / (2 * l) \<le> e / 2" using l by (simp add: field_simps power2_eq_square)
    then show ?thesis unfolding v by linarith
  next
    case False
    have "(s - l) * (s - l) \<le> d * d" using False assms(4) by (intro mult_mono) auto
    also have "\<dots> \<le> d * (s / 256)" using assms(2,3) by (intro mult_left_mono) auto
    also have "\<dots> \<le> d * (2 * l / 500)" using assms by (intro mult_left_mono) linarith+
    finally have "(l - s) ^ 2 / (2 * l) \<le> d / 500" using l by (simp add: field_simps power2_eq_square)
    then show ?thesis unfolding v by linarith
  qed
qed

text \<open>One step on words.\<close>

lemma newton_word_step:
  fixes a l :: u32 and s :: real
  assumes "s ^ 2 = real (unat a) * 65536" "unat a < 2 ^ 31" "3 \<le> unat l" "unat l \<le> 2 ^ 30" "s ^ 2 / real (unat l) \<le> 2 ^ 29"
  shows "\<exists>q. fix_div a l = Some q \<and>
    (real (unat l) + s ^ 2 / real (unat l)) / 2 - real (unat a) / 65536 - 3 / 2 \<le> real (unat (signed_drop_bit 1 (l + q))) \<and>
    real (unat (signed_drop_bit 1 (l + q))) \<le> (real (unat l) + s ^ 2 / real (unat l)) / 2"
proof -
  have sa: "sint a = int (unat a)" "sint l = int (unat l)"
    using assms(2,4) nonneg_word[of a] nonneg_word[of l] sint_nonneg[of a] sint_nonneg[of l] by (simp_all add: slt_zero)
  have ne: "a \<noteq> 0x80000000" "l \<noteq> 0x80000000" using assms(2,4) by auto
  define q0 where "q0 = int (unat a) * 65536 div int (unat l)"
  have "3 \<le> \<bar>sint l\<bar>" unfolding sa abs_of_nat using assms(3) by linarith
  from fix_div_error[OF ne this]
  have "\<exists>t. t \<le> q0 \<and> q0 \<le> t + int (unat a) div 32768 + 1 \<and> 0 \<le> t \<and> fix_div a l = Some (word_of_int t)"
    unfolding sa q0_def abs_of_nat by (simp only: of_nat_less_0_iff simp_thms if_False)
  then obtain t where t: "t \<le> q0" "q0 \<le> t + int (unat a) div 32768 + 1" "0 \<le> t" "fix_div a l = Some (word_of_int t)" by (elim exE conjE)
  define L S where "L = real (unat l)" and "S = s ^ 2"
  have "real (unat l) \<le> real (2 ^ 30)" "real 3 \<le> real (unat l)" using assms(3,4) by (simp_all only: of_nat_le_iff)
  then have l: "3 \<le> L" "L \<le> 2 ^ 30" "S / L \<le> 2 ^ 29" unfolding L_def S_def using assms(5) by simp_all
  have "real_of_int q0 \<le> real_of_int (int (unat a) * 65536) / real_of_int (int (unat l))" unfolding q0_def by (rule real_of_int_div4)
  then have q: "real_of_int q0 \<le> S / L" unfolding S_def L_def assms(1) by simp
  have "int (unat a) * 65536 < (q0 + 1) * int (unat l)"
  proof -
    have "0 < int (unat l)" using assms(3) by linarith
    from pos_mod_bound[OF this, of "int (unat a) * 65536"] div_mult_mod_eq[of "int (unat a) * 65536" "int (unat l)"]
    show ?thesis unfolding q0_def[symmetric] distrib_right mult_1 by linarith
  qed
  then have "real_of_int (int (unat a) * 65536) < real_of_int ((q0 + 1) * int (unat l))" by (simp only: of_int_less_iff)
  then have q': "S / L < real_of_int q0 + 1" unfolding S_def L_def assms(1) using l by (simp add: field_simps L_def)
  have "real_of_int (int (unat a) div 32768) \<le> real (unat a) / 32768" using real_of_int_div4[of "int (unat a)" 32768] by simp
  then have tl: "S / L - 2 - real (unat a) / 32768 \<le> real_of_int t" using t(2) q' by linarith
  have tu: "real_of_int t \<le> S / L" using t(1) q by linarith
  define u where "u = (unat l + nat t) div 2"
  have n: "unat l + nat t < 2 ^ 31" "unat (word_of_int t :: u32) = nat t" "unat (l + word_of_int t) = unat l + nat t"
  proof -
    have "real_of_int t \<le> real_of_int (2 ^ 29)" using tu l(3) by simp
    then have "t \<le> 2 ^ 29" by (simp only: of_int_le_iff)
    then have b: "nat t \<le> 2 ^ 29" by simp
    show "unat l + nat t < 2 ^ 31" using b assms(4) by simp
    have w: "word_of_int t = (of_nat (nat t) :: u32)" using t(3) by (simp add: of_nat_of_int[of "nat t" t])
    show "unat (word_of_int t :: u32) = nat t" unfolding w using b by (intro unat_of_nat_small) simp
    have "l + word_of_int t = of_nat (unat l + nat t)" unfolding w by simp
    moreover have "unat (of_nat (unat l + nat t) :: u32) = unat l + nat t" using b assms(4) by (intro unat_of_nat_small) simp
    ultimately show "unat (l + word_of_int t) = unat l + nat t" by simp
  qed
  have "unat (signed_drop_bit 1 (l + word_of_int t)) = u"
  proof -
    have "signed_drop_bit 1 (l + word_of_int t) = drop_bit 1 (l + word_of_int t)" by (rule sar_nonneg) (use n(1,3) in simp)
    then show ?thesis unfolding u_def by (simp only: unat_shr n(3) power_one_right)
  qed
  moreover have "real u \<le> (L + S / L) / 2" "(L + S / L) / 2 - real (unat a) / 65536 - 3 / 2 \<le> real u"
  proof -
    have "2 * u \<le> unat l + nat t" "unat l + nat t \<le> 2 * u + 1" unfolding u_def by linarith+
    then have "real (2 * u) \<le> real (unat l + nat t)" "real (unat l + nat t) \<le> real (2 * u + 1)" by (simp_all only: of_nat_le_iff)
    then have "2 * real u \<le> L + real_of_int t" "L + real_of_int t \<le> 2 * real u + 1" using t(3) by (simp_all add: L_def)
    moreover define D where "D = S / L"
    ultimately show "real u \<le> (L + S / L) / 2" "(L + S / L) / 2 - real (unat a) / 65536 - 3 / 2 \<le> real u"
      using tl tu unfolding D_def[symmetric] by (simp_all add: field_simps)
  qed
  ultimately show ?thesis unfolding L_def[symmetric] S_def[symmetric] using t(4) by (intro exI[of _ "word_of_int t"]) simp
qed

text \<open>What a step can lose is a small part of the root.\<close>

lemma step_error:
  fixes s :: real
  assumes "2 ^ 16 \<le> s" "s \<le> 12000000"
  shows "256 * (s ^ 2 / 2 ^ 32 + 3 / 2) \<le> s"
proof -
  have "s * s \<le> 12000000 * s" using assms by (intro mult_right_mono) auto
  then have "s * s / 2 ^ 24 \<le> 12000000 * s / 2 ^ 24" by (rule divide_right_mono) simp
  moreover have "12000000 * s / 2 ^ 24 + 384 \<le> s" using assms(1) by simp
  moreover have "256 * (s ^ 2 / 2 ^ 32 + 3 / 2) = s * s / 2 ^ 24 + 384" by (simp add: power2_eq_square)
  ultimately show ?thesis by linarith
qed

text \<open>The iteration: from the second value on the error halves, down to the rounding of the steps.\<close>

lemma newton_converges:
  fixes a l :: u32 and s e :: real
  defines "d \<equiv> s ^ 2 / 2 ^ 32 + 3 / 2"
  assumes "s ^ 2 = real (unat a) * 65536" "2 ^ 16 \<le> s" "s \<le> 12000000" "unat a < 2 ^ 31"
    "s - d \<le> real (unat l)" "real (unat l) \<le> s + e" "d / 500 \<le> e" "e \<le> 2 ^ 29"
  shows "\<exists>r. newton_steps n a l = Some r \<and> s - d \<le> real (unat r) \<and> real (unat r) \<le> s + max (e / 2 ^ n) (d / 500)"
  using assms(6-9)
proof (induction n arbitrary: l e)
  case 0
  then show ?case by simp
next
  case (Suc n)
  have d: "0 \<le> d" "256 * d \<le> s" unfolding d_def by (simp, rule step_error[OF assms(3,4)])
  have L: "s / 2 \<le> real (unat l)" "real (unat l) \<le> real (2 ^ 30)" using Suc.prems assms(3,4) d by simp_all
  have "s ^ 2 / real (unat l) \<le> s ^ 2 / (s / 2)" using L assms(3) by (intro divide_left_mono) auto
  also have "\<dots> = 2 * s" using assms(3) by (simp add: power2_eq_square)
  finally have r: "s ^ 2 / real (unat l) \<le> 2 ^ 29" using assms(4) by simp
  have "real 3 \<le> real (unat l)" using L(1) assms(3) by simp
  then have l: "3 \<le> unat l" "unat l \<le> 2 ^ 30" using L(2) by (simp_all only: of_nat_le_iff)
  obtain q where q: "fix_div a l = Some q"
    "(real (unat l) + s ^ 2 / real (unat l)) / 2 - real (unat a) / 65536 - 3 / 2 \<le> real (unat (signed_drop_bit 1 (l + q)))"
    "real (unat (signed_drop_bit 1 (l + q))) \<le> (real (unat l) + s ^ 2 / real (unat l)) / 2"
    using newton_word_step[OF assms(2,5) l r] by blast
  define l' where "l' = signed_drop_bit 1 (l + q)"
  have "s \<le> (real (unat l) + s ^ 2 / real (unat l)) / 2" 
  proof (rule newton_below)
    show "0 < real (unat l)" unfolding of_nat_0_less_iff using l(1) by linarith
  qed
  moreover define X where "X = (real (unat l) + s ^ 2 / real (unat l)) / 2"
  moreover have "d = real (unat a) / 65536 + 3 / 2" by (simp add: d_def assms(2))
  ultimately have lo: "s - d \<le> real (unat l')" using q(2) unfolding l'_def X_def[symmetric] by linarith
  have "0 \<le> e" using Suc.prems(3) d by simp
  then have hi: "real (unat l') \<le> s + max (e / 2) (d / 500)"
    using newton_above[of s d "real (unat l)" e] q(3) d assms(3) Suc.prems(1,2) unfolding l'_def by simp
  have "max (e / 2) (d / 500) \<le> 2 ^ 29" using Suc.prems(3,4) by simp
  from Suc.IH[OF lo hi _ this] obtain r where r: "newton_steps n a l' = Some r" "s - d \<le> real (unat r)"
    "real (unat r) \<le> s + max (max (e / 2) (d / 500) / 2 ^ n) (d / 500)" by auto
  have "max (e / 2) (d / 500) / 2 ^ n \<le> max (e / 2 ^ Suc n) (d / 500)"
  proof -
    have "d / 500 / 2 ^ n \<le> d / 500" using divide_left_mono[of 1 "2 ^ n" "d / 500"] d(1) by simp
    then show ?thesis by (auto simp: max_def field_simps)
  qed
  then have "real (unat r) \<le> s + max (e / 2 ^ Suc n) (d / 500)" using r(3) by simp
  then show ?case using r(1,2) q(1) by (simp add: l'_def)
qed

text \<open>The number of steps: twice as many bits as it takes to write the value.\<close>

lemma sqrt_rounds_bits:
  "0 \<le> sint s \<Longrightarrow> \<exists>k. sqrt_rounds s i = i + of_nat k \<and> sint s < 4 ^ k \<and> (if sint s = 0 then k = 0 else 0 < k \<and> 4 ^ (k - 1) \<le> sint s)"
proof (induction s i rule: sqrt_rounds.induct)
  case (1 s i)
  show ?case
  proof (cases "0 <s s")
    case True
    then have pos: "0 < sint s" by (simp add: word_sless_alt)
    have h: "sint (signed_drop_bit 2 s) = sint s div 4" by (simp add: sint_signed_drop_bit_eq drop_bit_eq_div)
    have "0 \<le> sint (signed_drop_bit 2 s)" using 1(2) h by simp
    from 1(1)[OF True this] obtain k where k: "sqrt_rounds (signed_drop_bit 2 s) (i + 1) = i + 1 + of_nat k" "sint s div 4 < 4 ^ k"
      "if sint s div 4 = 0 then k = 0 else 0 < k \<and> 4 ^ (k - 1) \<le> sint s div 4" unfolding h by blast
    have "4 ^ k \<le> sint s"
    proof (cases "sint s div 4 = 0")
      case True
      then show ?thesis using k(3) pos by simp
    next
      case False
      then have "0 < k" "4 * 4 ^ (k - 1) \<le> 4 * (sint s div 4)" using k(3) by simp_all
      moreover have "(4::int) * 4 ^ (k - 1) = 4 ^ k" using \<open>0 < k\<close> by (simp add: power_eq_if)
      ultimately show ?thesis by linarith
    qed
    moreover have "sint s < 4 ^ Suc k" using k(2) by simp
    moreover have "sqrt_rounds s i = i + of_nat (Suc k)" using True k(1) by (subst sqrt_rounds.simps) simp
    ultimately show ?thesis using pos by (intro exI[of _ "Suc k"]) simp
  next
    case False
    then have "sqrt_rounds s i = i" by (subst sqrt_rounds.simps) simp
    moreover have "sint s = 0" using 1(2) False by (simp add: word_sless_alt)
    ultimately show ?thesis by (intro exI[of _ 0]) simp
  qed
qed

text \<open>The root of a value above one, and the values the iteration starts with.\<close>

lemma root_range:
  fixes a :: u32
  assumes "65536 < sint a"
  defines "s \<equiv> sqrt (real_of_int (sint a) * 65536)"
  shows "2 ^ 16 \<le> s" "s \<le> 12000000" "s ^ 2 = real (unat a) * 65536" "unat a < 2 ^ 31" "65536 < unat a"
proof -
  have ia: "int (unat a) = sint a" using assms by (intro sint_nonneg) simp
  have "int (unat a) < int (2 ^ 31)" using sint_lt[of a] ia by simp
  then show "unat a < 2 ^ 31" by (simp only: of_nat_less_iff)
  show "65536 < unat a" using ia assms by linarith
  have "real_of_int 65536 \<le> real_of_int (sint a)" "real_of_int (sint a) \<le> real_of_int (2 ^ 31)"
    unfolding of_int_le_iff using assms sint_lt[of a] by simp_all
  then have ra: "65536 \<le> real_of_int (sint a)" "real_of_int (sint a) \<le> 2 ^ 31" by simp_all
  have "s ^ 2 = real_of_int (sint a) * 65536" unfolding s_def using ra(1) by (intro real_sqrt_pow2) simp
  moreover have "real (unat a) = real_of_int (sint a)" by (metis ia of_int_of_nat_eq)
  ultimately show "s ^ 2 = real (unat a) * 65536" by simp
  have "sqrt (65536 * 65536) \<le> s" unfolding s_def by (intro real_sqrt_le_mono mult_right_mono ra) simp
  then show "2 ^ 16 \<le> s" by simp
  have "s \<le> sqrt (12000000 ^ 2)" unfolding s_def
  proof (rule real_sqrt_le_mono)
    have "real_of_int (sint a) * 65536 \<le> 2 ^ 31 * 65536" by (rule mult_right_mono[OF ra(2)]) simp
    then show "real_of_int (sint a) * 65536 \<le> 12000000 ^ 2" by (rule order_trans) simp
  qed
  then show "s \<le> 12000000" by simp
qed

lemma half_plus_one:
  fixes a :: u32
  assumes "unat a < 2 ^ 31"
  shows "unat (signed_drop_bit 1 a + 1) = unat a div 2 + 1"
proof -
  have "signed_drop_bit 1 a = drop_bit 1 a" by (rule sar_nonneg) (use assms in simp)
  moreover have "drop_bit 1 a + 1 = of_nat (unat a div 2 + 1)" using unat_drop_bit_1[of a] by (metis of_nat_1 of_nat_add word_from_unat)
  moreover have "unat (of_nat (unat a div 2 + 1) :: u32) = unat a div 2 + 1" using assms by (intro unat_of_nat_small) simp
  ultimately show ?thesis by (simp only:)
qed

lemma start_range:
  fixes a :: u32 and s :: real
  assumes "2 ^ 16 \<le> s" "s ^ 2 = real (unat a) * 65536" "unat a < 2 ^ 31" "65536 < unat a"
  defines "l \<equiv> signed_drop_bit 1 a + 1"
  shows "s / 2 \<le> real (unat l)" "real (unat l) \<le> s / 256 * (s / 256)" "3 \<le> unat l" "unat l \<le> 2 ^ 30"
proof -
  have ul: "unat l = unat a div 2 + 1" unfolding l_def by (rule half_plus_one[OF assms(3)])
  show "3 \<le> unat l" "unat l \<le> 2 ^ 30" unfolding ul using assms(3,4) by simp_all
  have "2 * (unat a div 2) \<le> unat a" "unat a \<le> 2 * (unat a div 2) + 1" by linarith+
  then have "real (2 * (unat a div 2)) \<le> real (unat a)" "real (unat a) \<le> real (2 * (unat a div 2) + 1)" by (simp_all only: of_nat_le_iff)
  then have half: "real (unat a div 2) \<le> real (unat a) / 2" "real (unat a) / 2 - 1 \<le> real (unat a div 2)" by simp_all
  have a_s: "real (unat a) = s ^ 2 / 65536" using assms(2) by simp
  have "65536 * s \<le> s * s" using assms(1) by (intro mult_right_mono) auto
  then have "s / 2 \<le> real (unat a) / 2" unfolding a_s power2_eq_square by simp
  then show "s / 2 \<le> real (unat l)" using half(2) by (simp add: ul)
  have "2 ^ 16 * 2 ^ 16 \<le> s * s" using assms(1) by (intro mult_mono) auto
  then have "s ^ 2 / 131072 + 1 \<le> s / 256 * (s / 256)" by (simp add: power2_eq_square)
  moreover have "real (unat l) \<le> s ^ 2 / 131072 + 1" using half(1) unfolding ul a_s by simp
  ultimately show "real (unat l) \<le> s / 256 * (s / 256)" by linarith
qed

text \<open>Above one, the function is the iteration, with enough steps.\<close>

lemma fix_sqrt_steps:
  assumes "65536 < sint a"
  obtains n where "fix_sqrt a = newton_steps (Suc n) a (signed_drop_bit 1 a + 1)" "sqrt (real_of_int (sint a) * 65536) / 256 < 2 ^ Suc n"
proof -
  obtain k where k: "sqrt_rounds a 0 = of_nat k" "sint a < 4 ^ k" "0 < k" "4 ^ (k - 1) \<le> sint a"
    using sqrt_rounds_bits[of a 0] assms by auto
  have "(4 :: int) ^ (k - 1) < 4 ^ 16" using k(4) sint_lt[of a] by simp
  then have "k \<le> 16" using power_less_imp_less_exp[of "4 :: int" "k - 1" 16] by simp
  then have "unat (of_nat k :: u32) = k" by (intro unat_of_nat_small) simp
  moreover have "\<not> a <s 0" "a \<noteq> 0" "a \<noteq> 0x10000" "\<not> a <s 0x10000" "0x10000 <s a" using assms by (auto simp: word_sless_alt)
  ultimately have "fix_sqrt a = newton_steps k a (signed_drop_bit 1 a + 1)" by (simp add: fix_sqrt_def k(1) Let_def)
  moreover have "sqrt (real_of_int (sint a) * 65536) / 256 < 2 ^ k"
  proof -
    have "real_of_int (sint a) < real_of_int (4 ^ k)" using k(2) by (simp only: of_int_less_iff)
    moreover have "real_of_int (4 ^ k) = (2 ^ k) ^ 2" by (simp add: power_mult_distrib[symmetric] power2_eq_square)
    ultimately have "sqrt (real_of_int (sint a)) < sqrt ((2 ^ k) ^ 2)" by (intro real_sqrt_less_mono) simp
    moreover have "sqrt (real_of_int (sint a) * 65536) / 256 = sqrt (real_of_int (sint a))"
      using real_sqrt_mult[of "real_of_int (sint a)" "256 * 256"] by simp
    ultimately show ?thesis by simp
  qed
  ultimately show thesis using that[of "k - 1"] k(3) by simp
qed

text \<open>The first step brings the value above the root, up to the rounding.\<close>

lemma newton_first:
  fixes a l :: u32 and s :: real
  assumes "2 ^ 16 \<le> s" "s \<le> 12000000" "s ^ 2 = real (unat a) * 65536" "unat a < 2 ^ 31" "s / 2 \<le> real (unat l)" "3 \<le> unat l" "unat l \<le> 2 ^ 30"
  shows "\<exists>q. fix_div a l = Some q \<and> s - (s ^ 2 / 2 ^ 32 + 3 / 2) \<le> real (unat (signed_drop_bit 1 (l + q))) \<and>
    real (unat (signed_drop_bit 1 (l + q))) \<le> s + real (unat l) / 2"
proof -
  have "s ^ 2 / real (unat l) \<le> s ^ 2 / (s / 2)" using assms(1,5) by (intro divide_left_mono) auto
  also have "\<dots> = 2 * s" using assms(1) by (simp add: power2_eq_square)
  finally have r: "s ^ 2 / real (unat l) \<le> 2 * s" .
  then obtain q where q: "fix_div a l = Some q"
    "(real (unat l) + s ^ 2 / real (unat l)) / 2 - real (unat a) / 65536 - 3 / 2 \<le> real (unat (signed_drop_bit 1 (l + q)))"
    "real (unat (signed_drop_bit 1 (l + q))) \<le> (real (unat l) + s ^ 2 / real (unat l)) / 2"
    using newton_word_step[OF assms(3,4,6,7)] assms(2) by force
  define l1 where "l1 = signed_drop_bit 1 (l + q)"
  have "0 < real (unat l)" unfolding of_nat_0_less_iff using assms(6) by linarith
  note X = newton_below[OF this, of s]
  have "s ^ 2 / 2 ^ 32 + 3 / 2 = real (unat a) / 65536 + 3 / 2" by (simp add: assms(3))
  moreover define X where "X = (real (unat l) + s ^ 2 / real (unat l)) / 2"
  ultimately have "s - (s ^ 2 / 2 ^ 32 + 3 / 2) \<le> real (unat l1)" using X q(2) unfolding l1_def X_def[symmetric] by linarith
  moreover have g: "x \<le> s + L / 2" if "x \<le> (L + Y) / 2" "Y \<le> 2 * s" for x L Y :: real using that by (simp add: field_simps)
  ultimately show ?thesis using q(1) g[OF q(3) r] unfolding l1_def by blast
qed

text \<open>C24: The square root of a value above one: the iteration ends, no division fails, and the result is within a 256th of the root.\<close>

theorem fix_sqrt_accurate:
  assumes "65536 < sint a"
  shows "\<exists>r. fix_sqrt a = Some r \<and> 256 * \<bar>real (unat r) - sqrt (real_of_int (sint a) * 65536)\<bar> \<le> sqrt (real_of_int (sint a) * 65536)"
proof -
  define s where "s = sqrt (real_of_int (sint a) * 65536)"
  note rr = root_range[OF assms, folded s_def]
  define l where "l = signed_drop_bit 1 a + 1"
  note sr = start_range[OF rr(1,3,4,5), folded l_def]
  define d where "d = s ^ 2 / 2 ^ 32 + 3 / 2"
  have d: "0 \<le> d" "256 * d \<le> s" unfolding d_def by (simp, rule step_error[OF rr(1,2)])
  obtain n where n: "fix_sqrt a = newton_steps (Suc n) a l" "s / 256 < 2 ^ Suc n"
    using fix_sqrt_steps[OF assms] unfolding s_def l_def by blast
  obtain q where q: "fix_div a l = Some q" "s - d \<le> real (unat (signed_drop_bit 1 (l + q)))"
    "real (unat (signed_drop_bit 1 (l + q))) \<le> s + real (unat l) / 2"
    using newton_first[OF rr(1-4) sr(1,3,4)] unfolding d_def by blast
  define e where "e = max (real (unat l) / 2) (d / 500)"
  have hi: "real (unat (signed_drop_bit 1 (l + q))) \<le> s + e" using q(3) by (simp add: e_def)
  have e_hi: "e \<le> 2 ^ 29"
  proof -
    have "real (unat l) \<le> real (2 ^ 30)" using sr(4) by (simp only: of_nat_le_iff)
    moreover have "d / 500 \<le> 2 ^ 29" using d rr(2) by simp
    ultimately show ?thesis by (simp add: e_def)
  qed
  have "d / 500 \<le> e" by (simp add: e_def)
  then obtain w where w: "newton_steps n a (signed_drop_bit 1 (l + q)) = Some w" "s - d \<le> real (unat w)" "real (unat w) \<le> s + max (e / 2 ^ n) (d / 500)"
    using newton_converges[OF rr(3,1,2,4), of _ e n] q(2) hi e_hi unfolding d_def by blast
  have "e / 2 ^ n \<le> s / 256"
  proof -
    have "real (unat l) \<le> s / 256 * 2 ^ Suc n" by (rule order_trans[OF sr(2)]) (use n(2) rr(1) in \<open>intro mult_left_mono; simp\<close>)
    then have "real (unat l) / 2 / 2 ^ n \<le> s / 256" by (simp add: field_simps)
    moreover have "d / 500 / 2 ^ n \<le> d / 500 / 1" using d(1) by (intro divide_left_mono) auto
    moreover have "d / 500 / 1 \<le> s / 256" using d rr(1) by simp
    ultimately have "real (unat l) / 2 / 2 ^ n \<le> s / 256" "d / 500 / 2 ^ n \<le> s / 256" by (blast intro: order_trans)+
    then show ?thesis unfolding e_def by (cases "real (unat l) / 2 \<le> d / 500") (simp_all only: max_def if_True if_False)
  qed
  moreover have "d / 500 \<le> s / 256" using d rr(1) by simp
  moreover have "256 * max A B \<le> s" if "A \<le> s / 256" "B \<le> s / 256" for A B using that by (simp add: max_def)
  ultimately have "256 * max (e / 2 ^ n) (d / 500) \<le> s" by blast
  moreover have "256 * \<bar>x - s\<bar> \<le> s" if "s - d \<le> x" "x \<le> s + M" "256 * M \<le> s" for x M
    using that d by (cases "x \<le> s") (simp_all add: abs_if)
  moreover have "fix_sqrt a = Some w" unfolding n(1) newton_steps.simps q(1) using w(1) by simp
  ultimately show ?thesis using w(2,3) unfolding s_def[symmetric] by blast
qed

lemma fix_sqrt_accurate_witness:
  "\<exists>r. fix_sqrt 0x40000 = Some r \<and> 256 * \<bar>real (unat r) - 131072\<bar> \<le> 131072"
proof -
  have "sqrt (262144 * 65536) = sqrt (131072 ^ 2)" by simp
  then have "sqrt (262144 * 65536) = 131072" by simp
  then show ?thesis using fix_sqrt_accurate[where a = "0x40000"] by simp
qed

text \<open>Below one the function may divide by zero: the root of one unit.\<close>

lemma fix_sqrt_one_unit: "fix_sqrt 1 = None"
proof -
  have q: "fix_div 1 1 = Some 0" "fix_div 1 0 = None" by code_simp+
  have "newton_steps (Suc (Suc 14)) 1 1 = None" unfolding newton_steps.simps q by (simp add: q(2))
  moreover have "fix_sqrt 1 = newton_steps 16 1 1" by (simp add: fix_sqrt_def Let_def word_sless_alt)
  ultimately show ?thesis by simp
qed

end
