(* ===== verification/Math_Float.thy ===== *)
theory Math_Float
  imports Soft_Double "HOL-Library.Monad_Syntax"
begin

text \<open>
  The single precision mathematical functions of lib/math.c, on bit patterns, with the arithmetic of the library: every
  operator is a call of the routine the compiler makes of it, and a negation flips the sign bit. Constants appear as the
  nearest float. The functions that loop until a comparison fails are partial.
\<close>

unbundle bit_operations_syntax

subsection \<open>Fields and comparisons\<close>

abbreviation (input) F_HALF :: u32 where "F_HALF \<equiv> 0x3F000000"
abbreviation (input) F_ONE :: u32 where "F_ONE \<equiv> 0x3F800000"
abbreviation (input) F_TWO :: u32 where "F_TWO \<equiv> 0x40000000"
abbreviation (input) HUGE :: u32 where "HUGE \<equiv> 0x7EFFFFFF"
abbreviation (input) F_PI :: u32 where "F_PI \<equiv> 0x40490FDB"
abbreviation (input) PI_2 :: u32 where "PI_2 \<equiv> 0x3FC90FDB"
abbreviation (input) PI_4 :: u32 where "PI_4 \<equiv> 0x3F490FDB"
abbreviation (input) TWO_PI :: u32 where "TWO_PI \<equiv> 0x3F22F983"
abbreviation (input) LOG2E :: u32 where "LOG2E \<equiv> 0x3FB8AA3B"
abbreviation (input) SQRT2 :: u32 where "SQRT2 \<equiv> 0x3FB504F3"
abbreviation (input) LN2 :: u32 where "LN2 \<equiv> 0x3F317218"
abbreviation (input) LN10 :: u32 where "LN10 \<equiv> 0x40135D8E"
abbreviation (input) SQRT1_2 :: u32 where "SQRT1_2 \<equiv> 0x3F3504F3"

definition fneg :: "u32 \<Rightarrow> u32" where [c_layout]: "fneg a = a XOR SIGNBIT"
definition flt :: "u32 \<Rightarrow> u32 \<Rightarrow> bool" where "flt a b \<longleftrightarrow> ltsf2 a b <s 0"
definition fle :: "u32 \<Rightarrow> u32 \<Rightarrow> bool" where "fle a b \<longleftrightarrow> lesf2 a b \<le>s 0"
definition fgt :: "u32 \<Rightarrow> u32 \<Rightarrow> bool" where "fgt a b \<longleftrightarrow> 0 <s gtsf2 a b"
definition fge :: "u32 \<Rightarrow> u32 \<Rightarrow> bool" where "fge a b \<longleftrightarrow> 0 \<le>s gesf2 a b"
definition feq :: "u32 \<Rightarrow> u32 \<Rightarrow> bool" where "feq a b \<longleftrightarrow> eqsf2 a b = 0"

text \<open>The bit fields \<open>u_exp\<close>, \<open>u_mant\<close> and \<open>u_sign\<close> of the union.\<close>

definition set_exp :: "u32 \<Rightarrow> u32 \<Rightarrow> u32" where
  [c_layout]: "set_exp a e = (a AND 0x807FFFFF) OR push_bit 23 (e AND 0xFF)"
definition set_mant :: "u32 \<Rightarrow> u32 \<Rightarrow> u32" where
  [c_layout]: "set_mant a m = (a AND 0xFF800000) OR (m AND 0x7FFFFF)"
definition set_sign :: "u32 \<Rightarrow> u32 \<Rightarrow> u32" where
  [c_layout]: "set_sign a b = (a AND 0x7FFFFFFF) OR (b AND SIGNBIT)"

text \<open>A polynomial as the nested products and sums of the source.\<close>

fun horner :: "u32 \<Rightarrow> u32 \<Rightarrow> u32 list \<Rightarrow> u32 option" where
  "horner x acc [] = Some acc"
| "horner x acc (c # cs) = do { s \<leftarrow> addsf3 (mulsf3 acc x) c; horner x s cs }"

subsection \<open>Parts of a number\<close>

definition fabs :: "u32 \<Rightarrow> u32" where
  "fabs n = (if fge n 0 then n else fneg n)"

text \<open>The result and \<open>*eptr\<close>, which keeps its value for infinities and NaNs.\<close>

definition frexp :: "u32 \<Rightarrow> u32 \<Rightarrow> u32 \<times> u32" where
  "frexp v eptr =
     (if nesf2 v 0 \<noteq> 0 then
        (if f_exp v \<noteq> 255 then (set_exp v 126, f_exp v - 126) else (v, eptr))
      else (0, 0))"

text \<open>\<open>0.0\<close> is a double: the operand is converted for the comparison. \<open>signed_zero\<close> is \<open>val < 0.0 ? -0.0 : 0.0\<close>.\<close>

definition is_zero_d :: "u32 \<Rightarrow> bool" where "is_zero_d a \<longleftrightarrow> eqdf2 (extendsfdf2 a) 0 = 0"
definition signed_zero :: "u32 \<Rightarrow> u32" where
  "signed_zero a = (if ltdf2 (extendsfdf2 a) 0 <s 0 then SIGNBIT else 0)"

definition ldexp :: "u32 \<Rightarrow> u32 \<Rightarrow> u32" where
  "ldexp val expon =
     (let oldexp = f_exp val
      in if is_zero_d val \<or> oldexp = 255 then val
         else if oldexp = 0 \<and> expon \<le>s 127 then
           if expon \<le>s - 23 then signed_zero val
           else let u = mulsf3 val (set_exp 0 (expon + 127)) in if is_zero_d u then signed_zero val else u
         else
           let (u, expon, oldexp) =
                 (if oldexp = 0 then let u = mulsf3 val (set_exp 0 (23 + 127)) in (u, expon - 23, f_exp u) else (val, expon, oldexp));
               newexp = oldexp + expon
           in if newexp \<le>s 0 then
                if newexp \<le>s - 23 then signed_zero val
                else let (u, expon) = (if expon \<le>s - 127 then (set_exp u 1, expon + (oldexp - 1)) else (u, expon))
                     in mulsf3 u (set_exp 0 (expon + 127))
              else if 255 \<le>s newexp then set_mant (set_exp u 255) 0
              else set_exp u newexp)"

text \<open>The fraction and \<open>*iptr\<close>.\<close>

definition modf :: "u32 \<Rightarrow> u32 \<Rightarrow> (u32 \<times> u32) option" where
  "modf val iptr =
     (if f_exp val = 255 then Some (val, iptr)
      else if 22 <s f_exp val - 127 then Some (set_sign 0 val, val)
      else if f_exp val <s 127 then Some (val, set_sign 0 val)
      else do {
        frac \<leftarrow> c_shr32 (val AND 0x7FFFFF) (23 - (f_exp val - 127));
        frac \<leftarrow> c_shl32 frac (23 - (f_exp val - 127));
        let v = set_mant val frac;
        u \<leftarrow> subsf3 val v;
        Some (set_sign u v, v) })"

definition floorf :: "u32 \<Rightarrow> u32 option" where
  "floorf d =
     (if flt d 0 then do {
        let d = fneg d;
        (fract, d) \<leftarrow> modf d d;
        d \<leftarrow> (if nesf2 fract 0 \<noteq> 0 then addsf3 d F_ONE else Some d);
        Some (fneg d) }
      else do { (fract, d) \<leftarrow> modf d d; Some d })"

definition ceilf :: "u32 \<Rightarrow> u32 option" where
  "ceilf d = do { r \<leftarrow> floorf (fneg d); Some (fneg r) }"

subsection \<open>Square root, exponential and logarithm\<close>

text \<open>For an infinity or NaN \<open>frexp\<close> leaves \<open>exp\<close> uninitialised: the two functions below that read it are \<open>None\<close> there.\<close>

partial_function (option) up_to_half :: "u32 \<Rightarrow> u32 \<Rightarrow> (u32 \<times> u32) option" where
  [code]: "up_to_half x e = (if flt x F_HALF then up_to_half (mulsf3 x F_TWO) (e - 1) else Some (x, e))"

partial_function (option) scale_up :: "u32 \<Rightarrow> u32 \<Rightarrow> (u32 \<times> u32) option" where
  [code]: "scale_up t e = (if 60 <s e then scale_up (mulsf3 t 0x4E800000) (e - 60) else Some (t, e))"

partial_function (option) scale_down :: "u32 \<Rightarrow> u32 \<Rightarrow> (u32 \<times> u32) option" where
  [code]: "scale_down t e = (if e <s - 60 then scale_down (divsf3 t 0x4E800000) (e + 60) else Some (t, e))"

fun heron :: "nat \<Rightarrow> u32 \<Rightarrow> u32 \<Rightarrow> u32 option" where
  "heron 0 arg t = Some t"
| "heron (Suc n) arg t = do { s \<leftarrow> addsf3 t (divsf3 arg t); heron n arg (mulsf3 F_HALF s) }"

definition sqrtf :: "u32 \<Rightarrow> u32 option" where
  "sqrtf arg =
     (if fle arg 0 then Some 0
      else do {
        (x, e) \<leftarrow> (if f_exp arg = 255 then None else Some (frexp arg 0));
        (x, e) \<leftarrow> up_to_half x e;
        let (x, e) = (if e AND 1 \<noteq> 0 then (mulsf3 x F_TWO, e - 1) else (x, e));
        s \<leftarrow> addsf3 F_ONE x;
        (t, e) \<leftarrow> scale_up (mulsf3 F_HALF s) e;
        (t, e) \<leftarrow> scale_down t e;
        t \<leftarrow> (if 0 \<le>s e then do { k \<leftarrow> c_shl32 1 (word_of_int (sint e sdiv 2)); f \<leftarrow> floatsisf k; Some (mulsf3 t f) }
             else do { k \<leftarrow> c_shl32 1 (word_of_int (sint (- e) sdiv 2)); f \<leftarrow> floatsisf k; Some (divsf3 t f) });
        heron 5 arg t })"

definition expf :: "u32 \<Rightarrow> u32 option" where
  "expf arg =
     (if feq arg 0 then Some F_ONE
      else if flt arg 0xC61C4000 then Some 0
      else if fgt arg 0x461C4000 then Some HUGE
      else do {
        let arg = mulsf3 arg LOG2E;
        fl \<leftarrow> floorf arg;
        let ent = fixsfsi fl;
        fe \<leftarrow> floatsisf ent;
        d \<leftarrow> subsf3 arg fe;
        fract \<leftarrow> subsf3 d F_HALF;
        let xsq = mulsf3 fract fract;
        p \<leftarrow> horner xsq 0x4272759C [0x46EC9DF2, 0x49FDF403];
        let temp1 = mulsf3 p fract;
        temp2 \<leftarrow> horner xsq F_ONE [0x44DAA935, 0x48A005A5, 0x4AB73041];
        s \<leftarrow> addsf3 temp2 temp1;
        d \<leftarrow> subsf3 temp2 temp1;
        Some (ldexp (divsf3 (mulsf3 SQRT2 s) d) ent) })"

definition logf :: "u32 \<Rightarrow> u32 option" where
  "logf arg =
     (if fle arg 0 then Some (fneg HUGE)
      else do {
        (x, e) \<leftarrow> (if f_exp arg = 255 then None else Some (frexp arg 0));
        (x, e) \<leftarrow> up_to_half x e;
        let (x, e) = (if flt x SQRT1_2 then (mulsf3 x F_TWO, e - 1) else (x, e));
        n \<leftarrow> subsf3 x F_ONE;
        d \<leftarrow> addsf3 x F_ONE;
        let z = divsf3 n d;
        let zsq = mulsf3 z z;
        temp \<leftarrow> horner zsq 0x3ED798C4 [0xC11A33FB, 0x41F7A889, 0xC1C01C81];
        q \<leftarrow> horner zsq F_ONE [0xC10E93E7, 0x419BD905, 0xC1401C81];
        let temp = divsf3 temp q;
        fe \<leftarrow> floatsisf e;
        addsf3 (mulsf3 temp z) (mulsf3 fe LN2) })"

definition log10f :: "u32 \<Rightarrow> u32 option" where
  "log10f arg = do { l \<leftarrow> logf arg; Some (divsf3 l LN10) }"

definition powf :: "u32 \<Rightarrow> u32 \<Rightarrow> u32 option" where
  "powf arg1 arg2 =
     (if fle arg1 0 then
        if feq arg1 0 \<or> fle arg2 0 then Some 0
        else do {
          let l = fixsfsi arg2;
          fl \<leftarrow> floatsisf l;
          if nesf2 fl arg2 \<noteq> 0 then Some 0
          else do {
            lg \<leftarrow> logf (fneg arg1);
            temp \<leftarrow> expf (mulsf3 arg2 lg);
            Some (if l AND 1 \<noteq> 0 then fneg temp else temp) } }
      else do { lg \<leftarrow> logf arg1; expf (mulsf3 arg2 lg) })"

subsection \<open>Trigonometric functions\<close>

text \<open>A call with an uninitialised \<open>*iptr\<close>, which an infinity or NaN leaves so.\<close>

definition modf_set :: "u32 \<Rightarrow> (u32 \<times> u32) option" where
  "modf_set v = (if f_exp v = 255 then None else modf v 0)"

definition sinus :: "u32 \<Rightarrow> u32 \<Rightarrow> u32 option" where
  "sinus arg quad = do {
     let (x, quad) = (if flt arg 0 then (fneg arg, quad + 2) else (arg, quad));
     let x = mulsf3 x TWO_PI;
     (y, quad) \<leftarrow>
       (if fgt x 0x46FFF800 then do {
          (y, e) \<leftarrow> modf_set x;
          fq \<leftarrow> floatsisf quad;
          e \<leftarrow> addsf3 e fq;
          (_, f) \<leftarrow> modf_set (mulsf3 0x3E800000 e);
          d \<leftarrow> subsf3 e (mulsf3 0x40800000 f);
          Some (y, fixsfsi d) }
        else do {
          let k = fixsfsi x;
          fk \<leftarrow> floatsisf k;
          y \<leftarrow> subsf3 x fk;
          Some (y, (quad + k) AND 3) });
     y \<leftarrow> (if quad AND 1 \<noteq> 0 then subsf3 F_ONE y else Some y);
     let y = (if 1 <s quad then fneg y else y);
     let ysq = mulsf3 y y;
     p \<leftarrow> horner ysq 0x4311F806 [0xC6585D17, 0x48D6E4E2, 0xCA96D878, 0x4B4F3259];
     let temp1 = mulsf3 p y;
     s \<leftarrow> addsf3 ysq 0x4304A74B;
     temp2 \<leftarrow> horner ysq s [0x4613DC62, 0x48C74E67, 0x4B03E7CF];
     Some (divsf3 temp1 temp2) }"

definition cosf :: "u32 \<Rightarrow> u32 option" where
  "cosf arg = sinus (if flt arg 0 then fneg arg else arg) 1"

definition sinf :: "u32 \<Rightarrow> u32 option" where
  "sinf arg = sinus arg 0"

text \<open>The denominator of the tangent starts with the double \<open>1.0\<close>: the arithmetic there is in double precision.\<close>

fun horner_d :: "u64 \<Rightarrow> u64 \<Rightarrow> u32 list \<Rightarrow> u64 option" where
  "horner_d x acc [] = Some acc"
| "horner_d x acc (c # cs) = do { s \<leftarrow> adddf3 (muldf3 acc x) (extendsfdf2 c); horner_d x s cs }"

definition tanf :: "u32 \<Rightarrow> u32 option" where
  "tanf arg = do {
     let (arg, sign) = (if flt arg 0 then (fneg arg, fneg F_ONE) else (arg, F_ONE));
     let arg = mulsf3 arg 0x3FA2F983;
     (x, e) \<leftarrow> modf_set arg;
     let i = fixsfsi e;
     let r = (word_of_int (sint i smod 4) :: u32);
     x1 \<leftarrow> subsf3 F_ONE x;
     let x = (if r = 1 \<or> r = 3 then x1 else x);
     let sign = (if r = 2 \<or> r = 3 then fneg sign else sign);
     let flag = (r = 1 \<or> r = 2);
     let xsq = mulsf3 x x;
     p \<leftarrow> horner xsq 0x380E0BC1 [0x3D0C3015, 0xC1781C16, 0x4483FF12, 0xC64C30D0];
     let temp = mulsf3 p x;
     q \<leftarrow> horner_d (extendsfdf2 xsq) 0x3FF0000000000000 [0xC31B80D9, 0x4594EE03, 0xC681FDE8];
     let temp = truncdfsf2 (divdf3 (extendsfdf2 temp) q);
     Some (if flag then (if feq temp 0 then 0 else mulsf3 sign (divsf3 F_ONE temp)) else mulsf3 sign temp) }"

definition xatan :: "u32 \<Rightarrow> u32 option" where
  "xatan arg = do {
     let argsq = mulsf3 arg arg;
     v \<leftarrow> horner argsq 0x41813AA8 [0x43863676, 0x449020F0, 0x44DE8D01, 0x4460324D];
     s \<leftarrow> addsf3 argsq 0x426BD3F0;
     d \<leftarrow> horner argsq s [0x440610FC, 0x44D05915, 0x4501F55C, 0x4460324D];
     Some (mulsf3 (divsf3 v d) arg) }"

definition satan :: "u32 \<Rightarrow> u32 option" where
  "satan arg =
     (if flt arg 0x3ED413CD then xatan arg
      else if fgt arg 0x401A827A then do { v \<leftarrow> xatan (divsf3 F_ONE arg); subsf3 PI_2 v }
      else do { n \<leftarrow> subsf3 arg F_ONE; d \<leftarrow> addsf3 arg F_ONE; v \<leftarrow> xatan (divsf3 n d); addsf3 PI_4 v })"

definition atanf :: "u32 \<Rightarrow> u32 option" where
  "atanf arg = (if fgt arg 0 then satan arg else do { v \<leftarrow> satan (fneg arg); Some (fneg v) })"

definition atan2f :: "u32 \<Rightarrow> u32 \<Rightarrow> u32 option" where
  "atan2f arg1 arg2 = do {
     s \<leftarrow> addsf3 arg1 arg2;
     (if feq s arg1 then Some (if fge arg1 0 then PI_2 else fneg PI_2)
      else if flt arg2 0 then
        if fge arg1 0 then do { v \<leftarrow> satan (divsf3 (fneg arg1) arg2); subsf3 F_PI v }
        else do { v \<leftarrow> satan (divsf3 arg1 arg2); addsf3 (fneg F_PI) v }
      else if fgt arg1 0 then satan (divsf3 arg1 arg2)
      else do { v \<leftarrow> satan (divsf3 (fneg arg1) arg2); Some (fneg v) }) }"

definition asinf :: "u32 \<Rightarrow> u32 option" where
  "asinf arg =
     (let (arg, sign) = (if flt arg 0 then (fneg arg, fneg F_ONE) else (arg, F_ONE))
      in if fgt arg F_ONE then Some 0
         else do {
           d \<leftarrow> subsf3 F_ONE (mulsf3 arg arg);
           temp \<leftarrow> sqrtf d;
           temp \<leftarrow> (if fgt arg 0x3F333333 then do { v \<leftarrow> atanf (divsf3 temp arg); subsf3 PI_2 v } else atanf (divsf3 arg temp));
           Some (mulsf3 sign temp) })"

definition acosf :: "u32 \<Rightarrow> u32 option" where
  "acosf arg = (if fgt arg F_ONE \<or> flt arg (fneg F_ONE) then Some 0 else do { v \<leftarrow> asinf arg; subsf3 PI_2 v })"

subsection \<open>Hyperbolic functions\<close>

definition sinhf :: "u32 \<Rightarrow> u32 option" where
  "sinhf arg =
     (let (arg, sign) = (if flt arg 0 then (fneg arg, fneg F_ONE) else (arg, F_ONE))
      in if fgt arg 0x41A80000 then do {
           e \<leftarrow> expf arg;
           let temp = divsf3 e F_TWO;
           Some (if fgt sign 0 then temp else fneg temp) }
         else if fgt arg F_HALF then do {
           a \<leftarrow> expf arg; b \<leftarrow> expf (fneg arg);
           d \<leftarrow> subsf3 a b;
           Some (divsf3 (mulsf3 sign d) F_TWO) }
         else do {
           let argsq = mulsf3 arg arg;
           p \<leftarrow> horner argsq 0xC1D271EF [0xC534E362, 0xC7AF9C5C, 0xC919FEF6];
           let temp = mulsf3 p arg;
           s \<leftarrow> addsf3 argsq 0xC32DADD0;
           q \<leftarrow> horner argsq s [0x466DBCB2, 0xC919FEF6];
           Some (mulsf3 sign (divsf3 temp q)) })"

definition coshf :: "u32 \<Rightarrow> u32 option" where
  "coshf arg =
     (let arg = (if flt arg 0 then fneg arg else arg)
      in if fgt arg 0x41A80000 then do { e \<leftarrow> expf arg; Some (divsf3 e F_TWO) }
         else do { a \<leftarrow> expf arg; b \<leftarrow> expf (fneg arg); s \<leftarrow> addsf3 a b; Some (divsf3 s F_TWO) })"

definition tanhf :: "u32 \<Rightarrow> u32 option" where
  "tanhf arg =
     (let (arg, sign) = (if flt arg 0 then (fneg arg, fneg F_ONE) else (arg, F_ONE))
      in if fgt arg 0x41A80000 then Some sign
         else do { s \<leftarrow> sinhf arg; c \<leftarrow> coshf arg; Some (divsf3 (mulsf3 sign s) c) })"

end
