(* ===== verification/Math_Float_Props.thy ===== *)
theory Math_Float_Props
  imports Math_Float Soft_Double_Props
begin

text \<open>
  The parts of \<open>math.c\<close> that are exact: taking a number apart and putting it together, and rounding to integers.
\<close>

unbundle bit_operations_syntax

subsection \<open>Fields\<close>

lemma frac_mask: "(0x7FFFFF :: u32) = mask 23" "(0xFF800000 :: u32) = NOT (mask 23)" "(0x807FFFFF :: u32) = 2 ^ 31 OR mask 23"
  "(0xFF :: u32) = mask 8" "(SIGNBIT :: u32) = 2 ^ 31" "(0x7FFFFFFF :: u32) = NOT (2 ^ 31)"
  by (simp_all add: mask_eq_exp_minus_1 not_eq_complement)

lemma set_mant_pack: "unat m < 2 ^ 23 \<Longrightarrow> set_mant a m = f_pack (f_sign a) (f_exp a) m"
proof -
  assume "unat m < 2 ^ 23"
  then have "take_bit 23 m = m" by (simp add: word_unat_eq_iff unat_low_bits)
  then have m: "bit m n \<Longrightarrow> n < 23" for n by (metis bit_take_bit_iff)
  show ?thesis unfolding set_mant_def f_pack_def f_sign_def f_exp_def frac_mask
    by (rule bit_word_eqI)
      (simp only: bit_or_iff bit_and_iff bit_not_iff bit_mask_iff bit_push_bit_iff bit_drop_bit_eq bit_exp_iff possible_bit_word len32 o_apply,
       auto dest: m)
qed

lemma set_exp_pack: "set_exp a e = f_pack (f_sign a) (e AND 0xFF) (a AND 0x7FFFFF)"
  unfolding set_exp_def f_pack_def f_sign_def frac_mask
  by (rule bit_word_eqI)
    (simp only: bit_or_iff bit_and_iff bit_not_iff bit_mask_iff bit_push_bit_iff bit_drop_bit_eq bit_exp_iff possible_bit_word len32 o_apply, auto)

lemma f_pack_self: "f_pack (f_sign a) (f_exp a) (a AND 0x7FFFFF) = a"
  unfolding f_pack_def f_sign_def f_exp_def frac_mask
  by (rule bit_word_eqI)
    (simp only: bit_or_iff bit_and_iff bit_not_iff bit_mask_iff bit_push_bit_iff bit_drop_bit_eq bit_exp_iff possible_bit_word len32 o_apply, auto)

lemma f_fields: "f_sign a = 0 \<or> f_sign a = SIGNBIT" "unat (f_exp a) < 256" "unat (a AND 0x7FFFFF) < 2 ^ 23"
  by (simp_all add: f_sign_cases unat_f_exp unat_frac)

lemma set_exp_fields:
  assumes "unat e < 256"
  shows "f_exp (set_exp a e) = e" "f_sign (set_exp a e) = f_sign a" "set_exp a e AND 0x7FFFFF = a AND 0x7FFFFF"
proof -
  have "e AND 0xFF = e" using assms by (simp add: frac_mask(4) word_unat_eq_iff unat_and_mask)
  then have p: "set_exp a e = f_pack (f_sign a) e (a AND 0x7FFFFF)" by (simp add: set_exp_pack)
  note q = f_sign_pack[OF f_fields(1) assms f_fields(3), of a a]
  show "f_exp (set_exp a e) = e" "set_exp a e AND 0x7FFFFF = a AND 0x7FFFFF" unfolding p by (rule q)+
  show "f_sign (set_exp a e) = f_sign a" unfolding p using q(2) f_fields(1)[of "f_pack (f_sign a) e (a AND 0x7FFFFF)"] f_fields(1)[of a] by metis
qed

subsection \<open>Taking apart and putting together\<close>

lemma is_zero_d_iff: "is_zero_d a \<longleftrightarrow> a = 0"
proof
  assume "is_zero_d a"
  then have "extendsfdf2 a = 0" by (auto simp: is_zero_d_def eqdf2_def c_bool_def split: if_splits)
  then have "truncdfsf2 0 = a" using float_double_round_trip[of a] by simp
  then show "a = 0" using float_double_round_trip[of 0] by (simp add: extendsfdf2_def)
qed (simp add: is_zero_d_def eqdf2_def c_bool_def extendsfdf2_def)

text \<open>C27: A normal number (exponent field 1 to 254) is taken apart into a fraction of the same sign and digits, of at least a
  half and below one, and an exponent; \<open>ldexp\<close> puts them together again.\<close>

theorem frexp_ldexp:
  assumes "1 \<le> unat (f_exp v)" "unat (f_exp v) \<le> 254"
  shows "let (x, e) = frexp v k in
    f_exp x = 126 \<and> f_sign x = f_sign v \<and> x AND 0x7FFFFF = v AND 0x7FFFFF \<and> sint e = int (unat (f_exp v)) - 126 \<and> ldexp x e = v"
proof -
  define x where "x = set_exp v 126"
  have "unat (126 :: u32) < 256" by simp
  note x = set_exp_fields[OF this, of v, folded x_def]
  have "v \<noteq> 0" "f_exp v \<noteq> 255" using assms by (auto simp: f_exp_def)
  then have f: "frexp v k = (x, f_exp v - 126)" by (simp add: frexp_def nesf2_def c_bool_def x_def)
  have s: "sint (f_exp v) = int (unat (f_exp v))" using assms(2) by (intro sint_small) simp_all
  have b: "1 \<le> int (unat (f_exp v))" "int (unat (f_exp v)) \<le> 254" using assms by linarith+
  then have e: "sint (f_exp v - 126) = int (unat (f_exp v)) - 126"
    using s by (simp add: sint_word_ariths signed_take_bit_int_eq_self)
  have "x \<noteq> 0" using x(1) by (auto simp: f_exp_def)
  moreover have "126 + (f_exp v - 126) = f_exp v" by simp
  moreover have "\<not> f_exp v \<le>s 0" "\<not> 255 \<le>s f_exp v" using s b by (simp_all add: word_sle_eq)
  moreover have "set_exp x (f_exp v) = v"
  proof -
    have "f_exp v AND 0xFF = f_exp v" using f_fields(2)[of v] by (simp add: frac_mask(4) word_unat_eq_iff unat_and_mask)
    then show ?thesis by (simp only: set_exp_pack x(2,3) f_pack_self)
  qed
  ultimately have "ldexp x (f_exp v - 126) = v" by (simp add: ldexp_def is_zero_d_iff x(1) Let_def)
  then show ?thesis by (simp add: f x e)
qed

lemma frexp_ldexp_witness: "let (x, e) = frexp 0xC1200000 0 in ldexp x e = 0xC1200000"
  using frexp_ldexp[of "0xC1200000" 0] by (simp add: f_exp_def case_prod_unfold Let_def)

subsection \<open>Sums that need no rounding\<close>

lemma round_pack_exact:
  assumes "2 ^ 29 \<le> unat m" "unat m < 2 ^ 30" "unat m = 64 * q"
  shows "round_pack 0 (m, e) = f_pack 0 e (of_nat q AND NOT HIDDEN)"
proof -
  define m' where "m' = m + (if m AND 0x40 \<noteq> 0 then 0x20 else 0x1F)"
  have "unat (if m AND 0x40 \<noteq> 0 then 0x20 else 0x1F :: u32) = (if m AND 0x40 \<noteq> 0 then 0x20 else 0x1F)" by simp
  then have m': "unat m' = unat m + (if m AND 0x40 \<noteq> 0 then 0x20 else 0x1F)"
    unfolding m'_def using assms(2) by (simp add: unat_word_ariths)
  have "64 * q + 32 < 2 ^ 30" using assms(2,3) by simp
  then have lt: "unat m' < 2 ^ 30" using m' assms(3) by auto
  have "\<not> 2 ^ 30 \<le> unat m'" using lt by simp
  then have "m' AND 2 ^ 30 = 0" using high_bit_iff[of m' 30] lt by force
  then have nd: "normalize_down (m', e) = (m', e)" by (simp add: normalize_down_def)
  have "signed_drop_bit 6 m' = of_nat q"
  proof -
    have "unat m' div 2 ^ 6 = q" using m' assms(3) by (auto split: if_splits)
    then have "unat (drop_bit 6 m') = q" by (simp add: unat_shr)
    then show ?thesis using sar_pos[of m' 6] lt by auto
  qed
  then show ?thesis by (simp add: round_pack_def m'_def[symmetric] nd Let_def)
qed

lemma normalize_up_shift:
  assumes "unat m < 2 ^ 30" "2 ^ (29 - j) \<le> unat m" "j \<le> 29"
  shows "\<exists>s\<le>j. normalize_up m e = Some (push_bit s m, e - of_nat s) \<and> unat (push_bit s m) = unat m * 2 ^ s \<and>
    2 ^ 29 \<le> unat m * 2 ^ s \<and> unat m * 2 ^ s < 2 ^ 30"
  using assms
proof (induction j arbitrary: m e)
  case 0
  then have "normalize_up m e = Some (m, e)" by (subst normalize_up.simps) (simp add: float_conditions)
  then show ?case using 0 by (intro exI[of _ 0]) simp
next
  case (Suc j)
  show ?case
  proof (cases "unat m < 2 ^ 29")
    case True
    then have u: "unat (push_bit 1 m) = 2 * unat m" using unat_push_bit_1[of m] by simp
    have "2 * 2 ^ (29 - Suc j) \<le> 2 * unat m" using Suc.prems(2) by simp
    moreover have "(2 :: nat) * 2 ^ (29 - Suc j) = 2 ^ (29 - j)" using Suc.prems(3) by (simp add: Suc_diff_Suc flip: power_Suc)
    ultimately have "2 ^ (29 - j) \<le> unat (push_bit 1 m)" by (simp only: u)
    then obtain s where s: "s \<le> j" "normalize_up (push_bit 1 m) (e - 1) = Some (push_bit s (push_bit 1 m), e - 1 - of_nat s)"
      "unat (push_bit s (push_bit 1 m)) = 2 * unat m * 2 ^ s" "2 ^ 29 \<le> 2 * unat m * 2 ^ s" "2 * unat m * 2 ^ s < 2 ^ 30"
      using Suc.IH[of "push_bit 1 m" "e - 1"] Suc.prems(3) True unfolding u by auto
    have "normalize_up m e = Some (push_bit (Suc s) m, e - of_nat (Suc s))"
      using True s(2) by (subst normalize_up.simps) (simp add: float_conditions add.commute)
    then show ?thesis using s by (intro exI[of _ "Suc s"]) (simp add: mult_ac)
  next
    case False
    then have "normalize_up m e = Some (m, e)" by (subst normalize_up.simps) (simp add: float_conditions)
    then show ?thesis using False Suc.prems(1) by (intro exI[of _ 0]) simp
  qed
qed

lemma positive_word: "unat m < 2 ^ 31 \<Longrightarrow> \<not> m <s 0" for m :: u32
  using sle_zero_iff[of 31 m] by (simp add: word_sless_alt word_sle_eq)

lemma add_finish_exact:
  assumes "2 ^ 29 \<le> unat m" "unat m < 2 ^ 31" "128 dvd unat m" "1 \<le> unat e" "unat e < 254"
  shows "\<exists>r. add_finish m e = Some r \<and> sf_scaled r * 64 = int (unat m) * 2 ^ (unat e - 1)"
proof -
  have m: "\<not> m <s 0" "m \<noteq> 0" using positive_word[OF assms(2)] assms(1) by auto
  have "normalize_up m e = Some (m, e)" using assms(1) by (subst normalize_up.simps) (simp add: float_conditions)
  then have f: "add_finish m e = Some (round_pack 0 (normalize_down (m, e)))" using m by (simp add: add_finish_def)
  obtain k where k: "unat m = 128 * k" using assms(3) by blast
  have b30: "m AND 0x40000000 \<noteq> 0 \<longleftrightarrow> 2 ^ 30 \<le> unat m" using high_bit_iff[of m 30] assms(2) by simp
  show ?thesis
  proof (cases "2 ^ 30 \<le> unat m")
    case True
    have h: "unat (signed_drop_bit 1 m) = 64 * k" using sar_pos[OF assms(2), of 1] k by (simp add: unat_shr)
    have r: "2 ^ 23 \<le> k" "k < 2 ^ 24" using True assms(2) k by simp_all
    have e1: "unat (e + 1) = unat e + 1" using assms(5) by (simp add: unat_word_ariths)
    have u: "unat (of_nat k :: u32) = k" using r(2) by (intro unat_of_nat_small) simp
    define g where "g = signed_drop_bit 1 m"
    have "normalize_down (m, e) = (g, e + 1)" using True b30 by (simp add: normalize_down_def g_def)
    moreover have "2 ^ 29 \<le> unat g" "unat g < 2 ^ 30" "unat g = 64 * k" using h r unfolding g_def by simp_all
    ultimately have "round_pack 0 (normalize_down (m, e)) = f_pack 0 (e + 1) (of_nat k AND NOT HIDDEN)"
      by (simp only: round_pack_exact)
    moreover have "sf_scaled (f_pack 0 (e + 1) (of_nat k AND NOT HIDDEN)) = int k * 2 ^ unat e"
      using f_pack_scaled[of 0 "e + 1" "of_nat k"] assms(5) r by (simp add: e1 u)
    moreover have "(2 :: int) ^ unat e = 2 * 2 ^ (unat e - 1)" using assms(4) by (simp add: power_eq_if)
    ultimately show ?thesis using f k by simp
  next
    case False
    have r: "2 ^ 23 \<le> 2 * k" "2 * k < 2 ^ 24" using False assms(1) k by simp_all
    have u: "unat (of_nat (2 * k) :: u32) = 2 * k" using r(2) by (intro unat_of_nat_small) simp
    have "round_pack 0 (normalize_down (m, e)) = f_pack 0 e (of_nat (2 * k) AND NOT HIDDEN)"
      using False b30 assms(1) k by (simp add: normalize_down_def round_pack_exact[of m "2 * k" e])
    moreover have "sf_scaled (f_pack 0 e (of_nat (2 * k) AND NOT HIDDEN)) = int (2 * k) * 2 ^ (unat e - 1)"
      using f_pack_scaled[of 0 e "of_nat (2 * k)"] assms(4,5) r unfolding u by simp
    ultimately show ?thesis using f k by simp
  qed
qed

lemma add_finish_small:
  assumes "64 \<le> unat m" "unat m < 2 ^ 30" "64 dvd unat m" "24 \<le> unat e" "unat e < 255"
  shows "\<exists>r. add_finish m e = Some r \<and> sf_scaled r * 64 = int (unat m) * 2 ^ (unat e - 1) \<and> f_sign r = 0"
proof -
  have m: "\<not> m <s 0" "m \<noteq> 0" using positive_word[of m] assms(1,2) by auto
  have "2 ^ (29 - 23) \<le> unat m" using assms(1) by simp
  then obtain s where s: "s \<le> 23" "normalize_up m e = Some (push_bit s m, e - of_nat s)" "unat (push_bit s m) = unat m * 2 ^ s"
    "2 ^ 29 \<le> unat m * 2 ^ s" "unat m * 2 ^ s < 2 ^ 30"
    using normalize_up_shift[OF assms(2), of 23 e] by auto
  define g where "g = push_bit s m"
  obtain k where k: "unat m = 64 * k" using assms(3) by blast
  have g: "2 ^ 29 \<le> unat g" "unat g < 2 ^ 30" "unat g = 64 * (k * 2 ^ s)" using s(3-5) k by (simp_all add: g_def)
  have "\<not> 2 ^ 30 \<le> unat g" using g(2) by simp
  then have "g AND 0x40000000 = 0" using high_bit_iff[of g 30] g(2) by force
  then have "normalize_down (g, e - of_nat s) = (g, e - of_nat s)" by (simp add: normalize_down_def)
  then have f: "add_finish m e = Some (f_pack 0 (e - of_nat s) (of_nat (k * 2 ^ s) AND NOT HIDDEN))"
    using m s(2) round_pack_exact[OF g] by (simp add: add_finish_def g_def)
  have sw: "unat (of_nat s :: u32) = s" using s(1) by (intro unat_of_nat_small) simp
  then have "(of_nat s :: u32) \<le> e" using s(1) assms(4) by (simp add: word_le_nat_alt)
  then have e: "unat (e - of_nat s) = unat e - s" using sw by (simp add: unat_sub)
  have q: "2 ^ 23 \<le> k * 2 ^ s" "k * 2 ^ s < 2 ^ 24" using g by simp_all
  have u: "unat (of_nat (k * 2 ^ s) :: u32) = k * 2 ^ s" using q(2) by (intro unat_of_nat_small) simp
  have v: "sf_scaled (f_pack 0 (e - of_nat s) (of_nat (k * 2 ^ s) AND NOT HIDDEN)) = int (k * 2 ^ s) * 2 ^ (unat e - s - 1)"
    using f_pack_scaled[of 0 "e - of_nat s" "of_nat (k * 2 ^ s)"] s(1) assms(4,5) q unfolding u e by simp
  have "(2 :: int) ^ s * 2 ^ (unat e - s - 1) = 2 ^ (unat e - 1)" using s(1) assms(4) by (simp flip: power_add)
  then have "int (k * 2 ^ s) * 2 ^ (unat e - s - 1) * 64 = int (unat m) * 2 ^ (unat e - 1)" by (simp add: k mult_ac)
  moreover have "f_sign (f_pack 0 (e - of_nat s) (of_nat (k * 2 ^ s) AND NOT HIDDEN)) = 0"
  proof -
    have "0 \<le> sf_scaled (f_pack 0 (e - of_nat s) (of_nat (k * 2 ^ s) AND NOT HIDDEN))" unfolding v by simp
    moreover have "sf_scaled (f_pack 0 (e - of_nat s) (of_nat (k * 2 ^ s) AND NOT HIDDEN)) \<noteq> 0" unfolding v using q(1) by (cases "k = 0") simp_all
    ultimately show ?thesis unfolding sf_scaled_def by (auto split: if_splits)
  qed
  ultimately show ?thesis unfolding f v[symmetric] by blast
qed

lemma neg_fields:
  "f_exp (a XOR SIGNBIT) = f_exp a" "f_sign (a XOR SIGNBIT) = f_sign a XOR SIGNBIT" "f_mant (a XOR SIGNBIT) = f_mant a"
  unfolding f_exp_def f_sign_def f_mant_def frac_mask
  by (rule bit_word_eqI;
      simp only: bit_or_iff bit_and_iff bit_not_iff bit_xor_iff bit_mask_iff bit_push_bit_iff bit_drop_bit_eq bit_exp_iff possible_bit_word len32 o_apply; auto)+

lemma signed_mant_unat:
  assumes "f_sign a = 0"
  shows "unat (signed_mant a) = 64 * unat (f_mant a)" "signed_mant (a XOR SIGNBIT) = - signed_mant a"
proof -
  have "unat (push_bit 6 (f_mant a)) = 64 * unat (f_mant a)" using f_mant_bounds(2)[of a] by (simp add: push_bit_eq_mult unat_word_ariths)
  then show "unat (signed_mant a) = 64 * unat (f_mant a)" using assms by (simp add: signed_mant_def)
  show "signed_mant (a XOR SIGNBIT) = - signed_mant a" using assms by (simp add: signed_mant_def neg_fields)
qed

text \<open>The difference of two positive numbers with one exponent.\<close>

lemma sub_digits_exact:
  assumes "f_sign a = 0" "f_sign b = 0" "f_exp a = f_exp b" "24 \<le> unat (f_exp a)" "unat (f_exp a) < 255" "unat (f_mant b) \<le> unat (f_mant a)"
  shows "\<exists>u. subsf3 a b = Some u \<and> f_sign u = 0 \<and> sf_scaled u = sf_scaled a - sf_scaled b"
proof -
  define m where "m = signed_mant a - signed_mant b"
  have le: "signed_mant b \<le> signed_mant a" using assms(6) signed_mant_unat(1)[OF assms(1)] signed_mant_unat(1)[OF assms(2)] by (simp add: word_le_nat_alt)
  have m: "unat m = 64 * (unat (f_mant a) - unat (f_mant b))"
    using unat_sub[OF le] signed_mant_unat(1)[OF assms(1)] signed_mant_unat(1)[OF assms(2)] by (simp add: m_def)
  have nz: "a \<noteq> 0" "b \<noteq> 0" using assms(3,4) by (auto simp: f_exp_def)
  have "f_exp (b XOR SIGNBIT) \<noteq> 0" unfolding neg_fields using assms(3,4) by auto
  moreover have "f_exp 0 = 0" by (simp add: f_exp_def)
  ultimately have nz': "b XOR SIGNBIT \<noteq> 0" by metis
  have "subsf3 a b = add_finish (signed_mant (b XOR SIGNBIT) + signed_mant a) (f_exp a)"
    using nz nz' assms(3) by (simp add: subsf3_def addsf3_eq neg_fields add.commute)
  then have s: "subsf3 a b = add_finish m (f_exp a)" by (simp add: signed_mant_unat(2)[OF assms(2)] m_def)
  have d: "sf_scaled a - sf_scaled b = int (unat (f_mant a) - unat (f_mant b)) * 2 ^ (unat (f_exp a) - 1)"
    using assms by (simp add: sf_scaled_normal of_nat_diff algebra_simps)
  show ?thesis
  proof (cases "unat (f_mant a) = unat (f_mant b)")
    case True
    then have "m = 0" using m by (simp add: word_unat_eq_iff)
    then show ?thesis using s d True by (simp add: add_finish_def f_sign_def sf_scaled_def magnitude_def mag_value_def)
  next
    case False
    then have "64 \<le> unat m" "unat m < 2 ^ 30" "64 dvd unat m" using m assms(6) f_mant_bounds(2)[of a] by simp_all
    then obtain u where "add_finish m (f_exp a) = Some u" "sf_scaled u * 64 = int (unat m) * 2 ^ (unat (f_exp a) - 1)" "f_sign u = 0"
      using add_finish_small[OF _ _ _ assms(4,5)] by blast
    then show ?thesis using s d m by simp
  qed
qed

text \<open>One added to an integer.\<close>

lemma add_one_exact:
  assumes "f_sign t = 0" "127 \<le> unat (f_exp t)" "unat (f_exp t) \<le> 149" "2 ^ (150 - unat (f_exp t)) dvd unat (f_mant t)"
  shows "\<exists>r. addsf3 t 0x3F800000 = Some r \<and> sf_scaled r = sf_scaled t + 2 ^ 149"
proof -
  define k where "k = unat (f_exp t) - 127"
  have k: "unat (f_exp t) = 127 + k" "k \<le> 22" using assms(2,3) by (simp_all add: k_def)
  define one where "one = (0x3F800000 :: u32)"
  have one: "f_exp one = 127" "f_sign one = 0" "unat (f_mant one) = 2 ^ 23" by (simp_all add: one_def f_exp_def f_sign_def f_mant_def)
  have nz: "t \<noteq> 0" "one \<noteq> 0" using assms(2) by (auto simp: f_exp_def one_def)
  define m where "m = signed_mant t + signed_drop_bit k (signed_mant one)"
  have "127 \<le> f_exp t" using assms(2) by (simp add: word_le_nat_alt)
  then have ke: "unat (f_exp t - 127) = k" by (simp add: unat_sub k_def)
  have s1: "unat (signed_mant one) = 2 ^ 29" using signed_mant_unat(1)[OF one(2)] one(3) by simp
  have sd: "unat (signed_drop_bit k (signed_mant one)) = 2 ^ (29 - k)"
    using sar_pos[of "signed_mant one" k] s1 k(2) by (simp add: unat_shr power_diff)
  have p: "(2 :: nat) ^ (29 - k) \<le> 2 ^ 29" by (rule power_increasing) simp_all
  then have m: "unat m = 64 * unat (f_mant t) + 2 ^ (29 - k)"
    using signed_mant_unat(1)[OF assms(1)] sd f_mant_bounds(2)[of t] by (simp add: m_def unat_word_ariths)
  have a: "addsf3 t one = add_finish m (f_exp t)"
  proof (cases "k = 0")
    case True
    then have "f_exp t = 127" using k by (simp add: word_unat_eq_iff)
    then show ?thesis using nz one(1) True by (simp add: addsf3_eq m_def)
  next
    case False
    then have "unat (f_exp one) < unat (f_exp t)" "\<not> unat (f_exp one) + 25 < unat (f_exp t)" "\<not> unat (f_exp t) + 25 < unat (f_exp one)"
      using k one(1) by simp_all
    then show ?thesis using nz one(1) ke by (simp add: addsf3_eq m_def)
  qed
  have d: "128 dvd unat m"
  proof -
    have "2 ^ 1 dvd (2 :: nat) ^ (150 - unat (f_exp t))" using k by (intro le_imp_power_dvd) simp
    then have "2 dvd unat (f_mant t)" using assms(4) dvd_trans by fastforce
    then have "64 * 2 dvd 64 * unat (f_mant t)" by (rule mult_dvd_mono[OF dvd_refl])
    moreover have "(2 :: nat) ^ 7 dvd 2 ^ (29 - k)" using k by (intro le_imp_power_dvd) simp
    ultimately show ?thesis unfolding m by simp
  qed
  have "2 ^ 29 \<le> unat m" "unat m < 2 ^ 31" using m p f_mant_bounds[of t] by simp_all
  moreover have "1 \<le> unat (f_exp t)" "unat (f_exp t) < 254" using assms(2,3) by simp_all
  ultimately obtain r where r: "add_finish m (f_exp t) = Some r" "sf_scaled r * 64 = int (unat m) * 2 ^ (unat (f_exp t) - 1)"
    using add_finish_exact[OF _ _ d] by blast
  have "(2 :: int) ^ (29 - k) * 2 ^ (unat (f_exp t) - 1) = 64 * 2 ^ 149" using k by (simp flip: power_add)
  then have "sf_scaled r * 64 = (sf_scaled t + 2 ^ 149) * 64"
    unfolding r(2) m using assms(1,2) by (simp add: sf_scaled_normal distrib_right)
  then show ?thesis using a r(1) by (simp add: one_def)
qed

subsection \<open>Rounding to integers\<close>

lemma neg_scaled: "sf_scaled (a XOR SIGNBIT) = - sf_scaled a"
proof -
  have "(a XOR SIGNBIT) AND mask 31 = a AND mask 31" unfolding frac_mask
    by (rule bit_word_eqI) (simp only: bit_and_iff bit_xor_iff bit_mask_iff bit_exp_iff possible_bit_word len32, auto)
  then have "unat (a XOR SIGNBIT) mod 2 ^ 31 = unat a mod 2 ^ 31" by (metis unat_and_mask)
  moreover have "f_sign a XOR SIGNBIT \<noteq> 0 \<longleftrightarrow> f_sign a = 0" using f_fields(1)[of a] by auto
  ultimately show ?thesis by (simp add: sf_scaled_def magnitude_def neg_fields)
qed

lemma flt_zero: "flt d 0 \<longleftrightarrow> f_sign d \<noteq> 0"
proof -
  have "d <s 0 \<longleftrightarrow> f_sign d \<noteq> 0"
    using sint_magnitude[of d] magnitude_bound[of d] by (auto simp: word_sless_alt)
  moreover have "cmpsf2 d 0 = (if d <s 0 then - 1 else if 0 <s d then 1 else 0)" by (simp add: cmpsf2_def f_sign_def)
  moreover have "(- 1 :: u32) <s 0" "\<not> (1 :: u32) <s 0" by (simp_all add: word_sless_alt)
  ultimately show ?thesis by (simp add: flt_def ltsf2_def c_bool_def)
qed

lemma sf_scaled_zero_iff: "f_sign a = 0 \<Longrightarrow> sf_scaled a = 0 \<longleftrightarrow> a = 0"
  using float_eq_iff[of a 0] by (auto simp: sf_scaled_def magnitude_def f_sign_def mag_value_def split: if_splits)

lemma sign_split: "(a AND 0x7FFFFFFF) OR (b AND SIGNBIT) = a" if "f_sign a = 0" "f_sign b = 0" for a b :: u32
proof -
  have "\<not> bit a 31" using that(1) f_sign_bit by blast
  then have "a AND NOT (2 ^ 31) = a"
    by (intro bit_word_eqI) (simp only: bit_and_iff bit_not_iff bit_exp_iff possible_bit_word len32, auto)
  then show ?thesis using that(2) by (simp only: f_sign_def[symmetric] frac_mask(6)) simp
qed

text \<open>The two parts of a positive number.\<close>

lemma modf_parts:
  assumes "f_sign d = 0" "1 \<le> unat (f_exp d)" "unat (f_exp d) \<le> 254"
  shows "\<exists>f i. modf d k = Some (f, i) \<and> sf_scaled f + sf_scaled i = sf_scaled d \<and> 2 ^ 149 dvd sf_scaled i \<and>
    0 \<le> sf_scaled f \<and> sf_scaled f < 2 ^ 149 \<and> f_sign f = 0 \<and> f_sign i = 0 \<and>
    (f = 0 \<or> i = 0 \<or> 127 \<le> unat (f_exp i) \<and> unat (f_exp i) \<le> 149 \<and> 2 ^ (150 - unat (f_exp i)) dvd unat (f_mant i))"
proof -
  define E where "E = unat (f_exp d)"
  have s: "sint (f_exp d) = int E" using assms(3) unfolding E_def by (intro sint_small) simp_all
  have n: "f_exp d \<noteq> 255" using assms(3) by auto
  have b: "1 \<le> E" "E \<le> 254" using assms(2,3) by (simp_all add: E_def)
  then have s': "sint (f_exp d - 127) = int E - 127" using s by (simp add: sint_word_ariths signed_take_bit_int_eq_self)
  have v: "sf_scaled d = int (unat (f_mant d)) * 2 ^ (E - 1)" using assms by (simp add: sf_scaled_normal E_def)
  have z: "set_sign 0 d = 0" using assms(1) by (simp add: set_sign_def f_sign_def)
  have zero: "sf_scaled 0 = 0" "f_sign 0 = 0" by (simp_all add: sf_scaled_def f_sign_def magnitude_def mag_value_def)
  consider "150 \<le> E" | "E < 127" | "127 \<le> E" "E < 150" by linarith
  then show ?thesis
  proof cases
    case 1
    then have "modf d k = Some (0, d)" using n s' z by (simp add: modf_def word_sless_alt)
    moreover have "(2 :: int) ^ 149 dvd 2 ^ (E - 1)" using 1 by (intro le_imp_power_dvd) simp
    then have "(2 :: int) ^ 149 dvd sf_scaled d" unfolding v by (rule dvd_mult)
    ultimately show ?thesis using zero assms(1) by simp
  next
    case 2
    then have "modf d k = Some (d, 0)" using n s s' z by (simp add: modf_def word_sless_alt)
    moreover have "int (unat (f_mant d)) * 2 ^ (E - 1) < 2 ^ 24 * 2 ^ (E - 1)"
    proof -
      have "int (unat (f_mant d)) < int (2 ^ 24)" using f_mant_bounds(2)[of d] by (simp only: of_nat_less_iff)
      then show ?thesis by (intro mult_strict_right_mono) simp_all
    qed
    moreover have "(2 :: int) ^ 24 * 2 ^ (E - 1) \<le> 2 ^ 149" using 2 unfolding power_add[symmetric] by (intro power_increasing) simp_all
    ultimately have "sf_scaled d < 2 ^ 149" unfolding v by (elim order.strict_trans2)
    moreover have "0 \<le> sf_scaled d" unfolding v by simp
    ultimately show ?thesis using zero assms(1) \<open>modf d k = Some (d, 0)\<close> by simp
  next
    case 3
    define h where "h = 150 - E"
    define g where "g = unat (d AND 0x7FFFFF) div 2 ^ h * 2 ^ h"
    define w where "w = push_bit h (drop_bit h (d AND 0x7FFFFF))"
    define v where "v = set_mant d w"
    have h: "unat (23 - (f_exp d - 127)) = h" "0 < h" "h \<le> 23"
    proof -
      have "f_exp d \<le> 150" using 3 by (simp add: word_le_nat_alt E_def)
      then have "unat (150 - f_exp d) = h" by (simp add: unat_sub h_def E_def)
      moreover have "23 - (f_exp d - 127) = 150 - f_exp d" by simp
      ultimately show "unat (23 - (f_exp d - 127)) = h" by simp
    qed (use 3 in \<open>simp_all add: h_def\<close>)
    have gle: "g \<le> unat (d AND 0x7FFFFF)" by (simp add: g_def)
    have g: "g < 2 ^ 23" using gle f_fields(3)[of d] by linarith
    have w: "unat w = g"
    proof -
      have "unat w = take_bit 32 (push_bit h (unat (drop_bit h (d AND 0x7FFFFF))))" unfolding w_def unsigned_push_bit_eq len32 ..
      also have "push_bit h (unat (drop_bit h (d AND 0x7FFFFF))) = g" unfolding unat_shr g_def push_bit_eq_mult ..
      finally show ?thesis using g by (simp add: take_bit_nat_eq_self)
    qed
    have "v = f_pack 0 (f_exp d) w" using set_mant_pack[of w d] w g assms(1) by (simp add: v_def)
    moreover have "unat (f_exp d) < 256" "unat w < 2 ^ 23" using f_fields(2) w g by simp_all
    ultimately have vp: "f_sign v = 0" "f_exp v = f_exp d" "v AND 0x7FFFFF = w" using f_sign_pack[of 0 "f_exp d" w] by simp_all
    have Fd: "unat (f_mant d) = 2 ^ 23 + unat (d AND 0x7FFFFF)" by (simp only: unat_f_mant unat_frac)
    have "unat v mod 2 ^ 23 = g" using unat_frac[of v] vp(3) w by simp
    then have Fv: "unat (f_mant v) = 2 ^ 23 + g" by (simp only: unat_f_mant)
    have le: "unat (f_mant v) \<le> unat (f_mant d)" unfolding Fd Fv using gle by simp
    have e: "24 \<le> unat (f_exp d)" "unat (f_exp d) < 255" "1 \<le> unat (f_exp v)" using 3 vp(2) by (simp_all add: E_def)
    obtain u where u: "subsf3 d v = Some u" "f_sign u = 0" "sf_scaled u = sf_scaled d - sf_scaled v"
      using sub_digits_exact[OF assms(1) vp(1) vp(2)[symmetric] e(1,2) le] by blast
    have su: "set_sign u v = u" unfolding set_sign_def by (rule sign_split[OF u(2) vp(1)])
    have "modf d k = Some (u, v)"
    proof -
      have lt: "(23 - (f_exp d - 127)) < 32" using h by (simp add: word_less_nat_alt)
      have "c_shr32 (d AND 0x7FFFFF) (23 - (f_exp d - 127)) = Some (drop_bit h (d AND 0x7FFFFF))"
        "c_shl32 (drop_bit h (d AND 0x7FFFFF)) (23 - (f_exp d - 127)) = Some w"
        unfolding c_shr32_def c_shl32_def w_def h(1) using lt by simp_all
      moreover have "\<not> 22 <s f_exp d - 127" "\<not> f_exp d <s 127" using s s' 3 by (simp_all add: word_sless_alt)
      ultimately show ?thesis using n u(1) by (simp only: modf_def if_False Option.bind_lunit Let_def v_def[symmetric] su)
    qed
    moreover have sv: "sf_scaled v = int (2 ^ 23 + g) * 2 ^ (E - 1)" using sf_scaled_normal[OF e(3)] vp(1,2) Fv by (simp add: E_def)
    have hd: "2 ^ h dvd 2 ^ 23 + g"
    proof -
      have "(2 :: nat) ^ h dvd 2 ^ 23" using h(3) by (rule le_imp_power_dvd)
      then show ?thesis by (simp add: g_def)
    qed
    have p: "(2 :: int) ^ h * 2 ^ (E - 1) = 2 ^ 149" using 3 by (simp add: h_def flip: power_add)
    have "int (2 ^ h) * 2 ^ (E - 1) dvd sf_scaled v" unfolding sv using hd by (intro mult_dvd_mono) (simp_all only: of_nat_dvd_iff dvd_refl)
    then have "2 ^ 149 dvd sf_scaled v" using p by simp
    moreover have su': "sf_scaled u = int (unat (d AND 0x7FFFFF) mod 2 ^ h) * 2 ^ (E - 1)"
    proof -
      have "unat (d AND 0x7FFFFF) = g + unat (d AND 0x7FFFFF) mod 2 ^ h" unfolding g_def by (rule div_mult_mod_eq[symmetric])
      then have "unat (f_mant d) = 2 ^ 23 + g + unat (d AND 0x7FFFFF) mod 2 ^ h" unfolding Fd by linarith
      then show ?thesis unfolding u(3) v sv by (simp only: of_nat_add distrib_right add_diff_cancel_left')
    qed
    moreover have "int (unat (d AND 0x7FFFFF) mod 2 ^ h) * 2 ^ (E - 1) < 2 ^ h * 2 ^ (E - 1)"
    proof -
      have "unat (d AND 0x7FFFFF) mod 2 ^ h < 2 ^ h" by simp
      then have "int (unat (d AND 0x7FFFFF) mod 2 ^ h) < int (2 ^ h)" by (simp only: of_nat_less_iff)
      then show ?thesis by (intro mult_strict_right_mono) simp_all
    qed
    moreover have "0 \<le> sf_scaled u" unfolding su' by simp
    moreover have "127 \<le> unat (f_exp v)" "unat (f_exp v) \<le> 149" "2 ^ (150 - unat (f_exp v)) dvd unat (f_mant v)"
      using 3 hd vp(2) Fv by (simp_all add: E_def h_def)
    ultimately show ?thesis using u(2,3) vp(1) p su' by (intro exI[of _ u] exI[of _ v]) (simp only: simp_thms diff_add_cancel)
  qed
qed

lemma floor_multiple:
  fixes f i :: int
  assumes "n dvd i" "0 \<le> f" "f < n"
  shows "(f + i) div n * n = i" "- (f + i) div n * n = (if f = 0 then - i else - (i + n))"
proof -
  obtain k where k: "i = n * k" using assms(1) by blast
  show "(f + i) div n * n = i" using assms(2,3) by (simp add: k)
  show "- (f + i) div n * n = (if f = 0 then - i else - (i + n))"
  proof (cases "f = 0")
    case True
    then show ?thesis using assms by (simp add: k)
  next
    case False
    have e: "- (f + i) = (n - f) + n * (- k - 1)" by (simp add: k algebra_simps)
    have "- (f + i) div n = - k - 1" unfolding e using False assms(2,3) by (subst div_mult_self2) simp_all
    then have "- (f + i) div n * n = - (i + n)" by (simp only: k) (simp add: algebra_simps)
    then show ?thesis using False by (simp only: if_False)
  qed
qed

lemma floor_value:
  assumes "1 \<le> unat (f_exp d)" "unat (f_exp d) \<le> 254"
  shows "\<exists>r. floorf d = Some r \<and> sf_scaled r = sf_scaled d div 2 ^ 149 * 2 ^ 149"
proof (cases "f_sign d = 0")
  case True
  then obtain f i where m: "modf d d = Some (f, i)" "sf_scaled f + sf_scaled i = sf_scaled d" "2 ^ 149 dvd sf_scaled i"
    "0 \<le> sf_scaled f" "sf_scaled f < 2 ^ 149" using modf_parts[OF True assms, of d] by blast
  have "floorf d = Some i" using True m(1) by (simp add: floorf_def flt_zero)
  then show ?thesis using floor_multiple(1)[OF m(3-5)] m(2) by simp
next
  case False
  define a where "a = d XOR SIGNBIT"
  have "f_sign a = 0" using False f_fields(1)[of d] by (auto simp: a_def neg_fields)
  moreover have "1 \<le> unat (f_exp a)" "unat (f_exp a) \<le> 254" using assms by (simp_all only: a_def neg_fields)
  ultimately obtain f i where m: "modf a a = Some (f, i)" "sf_scaled f + sf_scaled i = sf_scaled a" "2 ^ 149 dvd sf_scaled i"
    "0 \<le> sf_scaled f" "sf_scaled f < 2 ^ 149" "f_sign f = 0" "f_sign i = 0"
    "f = 0 \<or> i = 0 \<or> 127 \<le> unat (f_exp i) \<and> unat (f_exp i) \<le> 149 \<and> 2 ^ (150 - unat (f_exp i)) dvd unat (f_mant i)"
    using modf_parts[of a a] by blast
  have d: "sf_scaled d = - (sf_scaled f + sf_scaled i)" unfolding m(2) by (simp add: a_def neg_scaled)
  have nz: "nesf2 f 0 \<noteq> 0 \<longleftrightarrow> f \<noteq> 0" by (simp add: nesf2_def c_bool_def)
  have "\<exists>r. (if f \<noteq> 0 then addsf3 i F_ONE else Some i) = Some r \<and> sf_scaled r = (if sf_scaled f = 0 then sf_scaled i else sf_scaled i + 2 ^ 149)"
  proof (cases "f = 0 \<or> i = 0")
    case True
    moreover have "sf_scaled 0 = 0" by (simp add: sf_scaled_zero_iff f_sign_def)
    moreover have "sf_scaled F_ONE = 2 ^ 149" using sf_scaled_normal[of F_ONE] by (simp add: f_exp_def f_sign_def f_mant_def)
    ultimately show ?thesis using sf_scaled_zero_iff[OF m(6)] by (auto simp: addsf3_def)
  next
    case False
    then obtain r where "addsf3 i F_ONE = Some r" "sf_scaled r = sf_scaled i + 2 ^ 149"
      using add_one_exact[OF m(7)] m(8) by blast
    then show ?thesis using False sf_scaled_zero_iff[OF m(6)] by simp
  qed
  then obtain r where r: "(if f \<noteq> 0 then addsf3 i F_ONE else Some i) = Some r"
    "sf_scaled r = (if sf_scaled f = 0 then sf_scaled i else sf_scaled i + 2 ^ 149)" by blast
  have "floorf d = Some (fneg r)"
    using False m(1) r(1) by (simp only: floorf_def flt_zero fneg_def a_def[symmetric] nz Let_def if_True Option.bind_lunit prod.case not_False_eq_True)
  then show ?thesis unfolding d floor_multiple(2)[OF m(3-5)] using r(2) by (simp add: fneg_def neg_scaled)
qed

text \<open>C26: \<open>floor\<close> and \<open>ceil\<close> of a finite normal number are the greatest integer not above it and the least integer not below it,
  exactly: no rounding error and no wrong step at integers or negative numbers.\<close>

theorem floor_exact:
  assumes "1 \<le> unat (f_exp d)" "unat (f_exp d) \<le> 254"
  shows "(\<exists>r. floorf d = Some r \<and> sf_scaled r = sf_scaled d div 2 ^ 149 * 2 ^ 149) \<and>
    (\<exists>r. ceilf d = Some r \<and> sf_scaled r = - (- sf_scaled d div 2 ^ 149 * 2 ^ 149))"
proof
  show "\<exists>r. floorf d = Some r \<and> sf_scaled r = sf_scaled d div 2 ^ 149 * 2 ^ 149" by (rule floor_value[OF assms])
  have "1 \<le> unat (f_exp (fneg d))" "unat (f_exp (fneg d)) \<le> 254" using assms by (simp_all only: fneg_def neg_fields)
  then obtain r where "floorf (fneg d) = Some r" "sf_scaled r = sf_scaled (fneg d) div 2 ^ 149 * 2 ^ 149" using floor_value by blast
  then show "\<exists>r. ceilf d = Some r \<and> sf_scaled r = - (- sf_scaled d div 2 ^ 149 * 2 ^ 149)" by (simp add: ceilf_def fneg_def neg_scaled)
qed

lemma floor_exact_witness: "\<exists>r. floorf 0xC0200000 = Some r \<and> sf_scaled r = - 3 * 2 ^ 149"
proof -
  have "1 \<le> unat (f_exp 0xC0200000)" "unat (f_exp 0xC0200000) \<le> 254" by (simp_all add: f_exp_def)
  moreover have "sf_scaled 0xC0200000 div 2 ^ 149 * 2 ^ 149 = - 3 * 2 ^ 149"
    using sf_scaled_normal[of "0xC0200000"] by (simp add: f_exp_def f_sign_def f_mant_def)
  ultimately show ?thesis using floor_exact[of "0xC0200000"] by (simp only:)
qed

end
