(* ===== verification/Mem_Test.thy ===== *)
theory Mem_Test
  imports Prelude
begin

text \<open>
  The memory tests of app/mem_test.c. The memory is a parameter: a function that reads an address of its state and one
  that writes it, so that the tests can be run on a memory with faults.
\<close>

unbundle bit_operations_syntax

subsection \<open>Loops that shift a bit out\<close>

definition bits_from :: "'a::len word \<Rightarrow> nat set" where
  "bits_from x = {n. n < LENGTH('a) \<and> (\<exists>m\<le>n. bit x m)}"

lemma bits_from_shift: "card (bits_from (push_bit 1 x)) < card (bits_from x)" if "x \<noteq> 0" for x :: "'a::len word"
proof (rule psubset_card_mono)
  show "finite (bits_from x)" by (simp add: bits_from_def)
  have "\<exists>n. bit x n" using that by (auto simp: bit_eq_iff)
  define k where "k = (LEAST n. bit x n)"
  have k: "bit x k" "m < k \<Longrightarrow> \<not> bit x m" for m
    unfolding k_def using \<open>\<exists>n. bit x n\<close> by (rule LeastI_ex) (rule not_less_Least)
  have "k \<in> bits_from x" using k(1) bit_imp_le_length by (auto simp: bits_from_def)
  moreover have "k \<notin> bits_from (push_bit 1 x)"
    unfolding bits_from_def mem_Collect_eq bit_push_bit_iff using k(2) by (auto dest: less_le_trans)
  moreover have "bits_from (push_bit 1 x) \<subseteq> bits_from x"
    unfolding bits_from_def bit_push_bit_iff by (auto intro: le_trans[OF diff_le_self])
  ultimately show "bits_from (push_bit 1 x) \<subset> bits_from x" by blast
qed

subsection \<open>The data bus\<close>

function data_bus_loop :: "('s \<Rightarrow> u32 \<Rightarrow> u8) \<Rightarrow> ('s \<Rightarrow> u32 \<Rightarrow> u8 \<Rightarrow> 's) \<Rightarrow> u32 \<Rightarrow> u8 \<Rightarrow> 's \<Rightarrow> u32 \<times> 's" where
  "data_bus_loop rd wr address pattern s =
     (if pattern \<noteq> 0 then
        let s = wr s address pattern
        in if rd s address \<noteq> pattern then (ucast pattern, s)
           else data_bus_loop rd wr address (push_bit 1 pattern) s
      else (0, s))"
  by auto
termination
  by (relation "measure (\<lambda>(rd, wr, a, p, s). card (bits_from p))") (simp_all add: bits_from_shift del: One_nat_def)

declare data_bus_loop.simps [simp del]

definition memTestDataBus :: "('s \<Rightarrow> u32 \<Rightarrow> u8) \<Rightarrow> ('s \<Rightarrow> u32 \<Rightarrow> u8 \<Rightarrow> 's) \<Rightarrow> u32 \<Rightarrow> 's \<Rightarrow> u32 \<times> 's" where
  "memTestDataBus rd wr address s = data_bus_loop rd wr address 1 s"

subsection \<open>The address bus\<close>

function addr_write :: "('s \<Rightarrow> u32 \<Rightarrow> u8 \<Rightarrow> 's) \<Rightarrow> u32 \<Rightarrow> u32 \<Rightarrow> u32 \<Rightarrow> 's \<Rightarrow> 's" where
  "addr_write wr base addressMask offset s =
     (if offset AND addressMask \<noteq> 0 then addr_write wr base addressMask (push_bit 1 offset) (wr s (base + offset) 0xAA) else s)"
  by auto
termination
  by (relation "measure (\<lambda>(wr, b, m, p, s). card (bits_from p))") (auto intro: bits_from_shift simp del: One_nat_def)

text \<open>The checks give the first offset that does not hold the pattern; \<open>skip\<close> is the offset under test.\<close>

function addr_check :: "('s \<Rightarrow> u32 \<Rightarrow> u8) \<Rightarrow> u32 \<Rightarrow> u32 \<Rightarrow> u32 \<Rightarrow> u32 \<Rightarrow> 's \<Rightarrow> u32 option" where
  "addr_check rd base addressMask skip offset s =
     (if offset AND addressMask \<noteq> 0 then
        if rd s (base + offset) \<noteq> 0xAA \<and> offset \<noteq> skip then Some offset else addr_check rd base addressMask skip (push_bit 1 offset) s
      else None)"
  by auto
termination
  by (relation "measure (\<lambda>(rd, b, m, k, p, s). card (bits_from p))") (auto intro: bits_from_shift simp del: One_nat_def)

function addr_walk :: "('s \<Rightarrow> u32 \<Rightarrow> u8) \<Rightarrow> ('s \<Rightarrow> u32 \<Rightarrow> u8 \<Rightarrow> 's) \<Rightarrow> u32 \<Rightarrow> u32 \<Rightarrow> u32 \<Rightarrow> 's \<Rightarrow> u32 \<times> 's" where
  "addr_walk rd wr base addressMask t s =
     (if t AND addressMask \<noteq> 0 then
        let s = wr s (base + t) 0x55
        in if rd s base \<noteq> 0xAA then (base + t, s)
           else if addr_check rd base addressMask t 1 s \<noteq> None then (base + t, s)
           else addr_walk rd wr base addressMask (push_bit 1 t) (wr s (base + t) 0xAA)
      else (0, s))"
  by auto
termination
  by (relation "measure (\<lambda>(rd, wr, b, m, p, s). card (bits_from p))") (auto intro: bits_from_shift simp del: One_nat_def)

declare addr_write.simps [simp del] addr_check.simps [simp del] addr_walk.simps [simp del]

text \<open>In the first check no offset is skipped: 0 is not one of them.\<close>

definition memTestAddressBus :: "('s \<Rightarrow> u32 \<Rightarrow> u8) \<Rightarrow> ('s \<Rightarrow> u32 \<Rightarrow> u8 \<Rightarrow> 's) \<Rightarrow> u32 \<Rightarrow> u32 \<Rightarrow> 's \<Rightarrow> u32 \<times> 's" where
  "memTestAddressBus rd wr base nBytes s =
     (let addressMask = nBytes - 1;
          s = addr_write wr base addressMask 1 s;
          s = wr s base 0x55
      in case addr_check rd base addressMask 0 1 s of
           Some offset \<Rightarrow> (base + offset, s)
         | None \<Rightarrow> addr_walk rd wr base addressMask 1 (wr s base 0xAA))"

subsection \<open>The device\<close>

lemma unat_next: "i < n \<Longrightarrow> unat (i + 1) = unat i + 1" for i :: u32
  using unat_bound[of n] by (simp add: word_less_nat_alt unat_word_ariths)

function dev_fill :: "('s \<Rightarrow> u32 \<Rightarrow> u8 \<Rightarrow> 's) \<Rightarrow> u32 \<Rightarrow> u32 \<Rightarrow> u32 \<Rightarrow> u8 \<Rightarrow> 's \<Rightarrow> 's" where
  "dev_fill wr base n offset pattern s =
     (if offset < n then dev_fill wr base n (offset + 1) (pattern + 1) (wr s (base + offset) pattern) else s)"
  by auto
termination
  by (relation "measure (\<lambda>(wr, b, n, i, p, s). unat n - unat i)") (auto simp: unat_next word_less_nat_alt)

function dev_invert ::
  "('s \<Rightarrow> u32 \<Rightarrow> u8) \<Rightarrow> ('s \<Rightarrow> u32 \<Rightarrow> u8 \<Rightarrow> 's) \<Rightarrow> u32 \<Rightarrow> u32 \<Rightarrow> u32 \<Rightarrow> u8 \<Rightarrow> 's \<Rightarrow> u32 option \<times> 's" where
  "dev_invert rd wr base n offset pattern s =
     (if offset < n then
        if rd s (base + offset) \<noteq> pattern then (Some offset, s)
        else dev_invert rd wr base n (offset + 1) (pattern + 1) (wr s (base + offset) (NOT pattern))
      else (None, s))"
  by auto
termination
  by (relation "measure (\<lambda>(rd, wr, b, n, i, p, s). unat n - unat i)") (auto simp: unat_next word_less_nat_alt)

function dev_check :: "('s \<Rightarrow> u32 \<Rightarrow> u8) \<Rightarrow> u32 \<Rightarrow> u32 \<Rightarrow> u32 \<Rightarrow> u8 \<Rightarrow> 's \<Rightarrow> u32 option" where
  "dev_check rd base n offset pattern s =
     (if offset < n then
        if rd s (base + offset) \<noteq> NOT pattern then Some offset else dev_check rd base n (offset + 1) (pattern + 1) s
      else None)"
  by auto
termination
  by (relation "measure (\<lambda>(rd, b, n, i, p, s). unat n - unat i)") (auto simp: unat_next word_less_nat_alt)

declare dev_fill.simps [simp del] dev_invert.simps [simp del] dev_check.simps [simp del]

definition memTestDevice :: "('s \<Rightarrow> u32 \<Rightarrow> u8) \<Rightarrow> ('s \<Rightarrow> u32 \<Rightarrow> u8 \<Rightarrow> 's) \<Rightarrow> u32 \<Rightarrow> u32 \<Rightarrow> 's \<Rightarrow> u32 \<times> 's" where
  "memTestDevice rd wr base nBytes s =
     (let s = dev_fill wr base nBytes 0 1 s
      in case dev_invert rd wr base nBytes 0 1 s of
           (Some offset, s) \<Rightarrow> (base + offset, s)
         | (None, s) \<Rightarrow> (case dev_check rd base nBytes 0 1 s of Some offset \<Rightarrow> (base + offset, s) | None \<Rightarrow> (0, s)))"

subsection \<open>March C\<close>

text \<open>\<open>True\<close> is \<open>MARCHC_TEST_PASS\<close>. The first argument lists the values of the loop counter; the shift of the signed word keeps
  its sign, and one bit of the result is read.\<close>

fun read_zero_write_one :: "nat list \<Rightarrow> ('s \<Rightarrow> u32 \<Rightarrow> u32) \<Rightarrow> ('s \<Rightarrow> u32 \<Rightarrow> u32 \<Rightarrow> 's) \<Rightarrow> u32 \<Rightarrow> 's \<Rightarrow> bool \<times> 's" where
  "read_zero_write_one [] rd wr ptr s = (True, s)"
| "read_zero_write_one (k # ks) rd wr ptr s =
     (if signed_drop_bit k (rd s ptr) AND 1 \<noteq> 0 then (False, s)
      else read_zero_write_one ks rd wr ptr (wr s ptr (rd s ptr OR push_bit k 1)))"

fun read_one_write_zero :: "nat list \<Rightarrow> ('s \<Rightarrow> u32 \<Rightarrow> u32) \<Rightarrow> ('s \<Rightarrow> u32 \<Rightarrow> u32 \<Rightarrow> 's) \<Rightarrow> u32 \<Rightarrow> 's \<Rightarrow> bool \<times> 's" where
  "read_one_write_zero [] rd wr ptr s = (True, s)"
| "read_one_write_zero (k # ks) rd wr ptr s =
     (if signed_drop_bit k (rd s ptr) AND 1 \<noteq> 1 then (False, s)
      else read_one_write_zero ks rd wr ptr (wr s ptr (rd s ptr AND NOT (push_bit k 1))))"

fun read_zero :: "nat list \<Rightarrow> ('s \<Rightarrow> u32 \<Rightarrow> u32) \<Rightarrow> u32 \<Rightarrow> 's \<Rightarrow> bool \<times> 's" where
  "read_zero [] rd ptr s = (True, s)"
| "read_zero (k # ks) rd ptr s = (if signed_drop_bit k (rd s ptr) AND 1 \<noteq> 0 then (False, s) else read_zero ks rd ptr s)"

definition ReadZeroWriteOne :: "('s \<Rightarrow> u32 \<Rightarrow> u32) \<Rightarrow> ('s \<Rightarrow> u32 \<Rightarrow> u32 \<Rightarrow> 's) \<Rightarrow> u32 \<Rightarrow> 's \<Rightarrow> bool \<times> 's" where
  "ReadZeroWriteOne = read_zero_write_one (rev [0..<32])"
definition ReadOneWriteZero :: "('s \<Rightarrow> u32 \<Rightarrow> u32) \<Rightarrow> ('s \<Rightarrow> u32 \<Rightarrow> u32 \<Rightarrow> 's) \<Rightarrow> u32 \<Rightarrow> 's \<Rightarrow> bool \<times> 's" where
  "ReadOneWriteZero = read_one_write_zero [0..<32]"
definition ReadZero :: "('s \<Rightarrow> u32 \<Rightarrow> u32) \<Rightarrow> u32 \<Rightarrow> 's \<Rightarrow> bool \<times> 's" where
  "ReadZero = read_zero [0..<32]"

text \<open>The loops over the words, upwards and downwards: a pointer is the start and an index.\<close>

fun erase :: "('s \<Rightarrow> u32 \<Rightarrow> u32 \<Rightarrow> 's) \<Rightarrow> u32 \<Rightarrow> nat list \<Rightarrow> 's \<Rightarrow> 's" where
  "erase wr start [] s = s"
| "erase wr start (i # is') s = erase wr start is' (wr s (start + 4 * of_nat i) 0)"

fun march :: "(u32 \<Rightarrow> 's \<Rightarrow> bool \<times> 's) \<Rightarrow> u32 \<Rightarrow> nat list \<Rightarrow> bool \<times> 's \<Rightarrow> bool \<times> 's" where
  "march f start [] (r, s) = (r, s)"
| "march f start (i # is') (r, s) = (if r then march f start is' (f (start + 4 * of_nat i) s) else (r, s))"

definition RAMtestMarchC :: "('s \<Rightarrow> u32 \<Rightarrow> u32) \<Rightarrow> ('s \<Rightarrow> u32 \<Rightarrow> u32 \<Rightarrow> 's) \<Rightarrow> u32 \<Rightarrow> u32 \<Rightarrow> 's \<Rightarrow> bool \<times> 's" where
  "RAMtestMarchC rd wr start ramSize s =
     (let up = [0..<nat (sint ramSize sdiv 4)];
          down = rev up;
          s = erase wr start up s;
          t = march (ReadZeroWriteOne rd wr) start up (True, s);
          t = march (ReadOneWriteZero rd wr) start up t;
          t = march (ReadZero rd) start up t;
          t = march (ReadZeroWriteOne rd wr) start down t;
          t = march (ReadOneWriteZero rd wr) start down t
      in march (ReadZero rd) start down t)"

end
