(* ===== verification/Mem_Test_Props.thy ===== *)
theory Mem_Test_Props
  imports Mem_Test
begin

text \<open>
  Each memory test passes exactly the memories without the faults it is meant to find: stuck data lines, address lines that
  do not select, a decoder that maps two addresses to one cell, cells with stuck bits.
\<close>

unbundle bit_operations_syntax

lemma range_first:
  assumes "k < (n :: nat)"
  shows "(\<forall>j. k \<le> j \<and> j < n \<longrightarrow> P j) \<longleftrightarrow> P k \<and> (\<forall>j. Suc k \<le> j \<and> j < n \<longrightarrow> P j)"
    "(\<exists>j. k \<le> j \<and> j < n \<and> P j) \<longleftrightarrow> P k \<or> (\<exists>j. Suc k \<le> j \<and> j < n \<and> P j)"
proof -
  have r: "(\<forall>j. k \<le> j \<and> j < n \<longrightarrow> P j) \<longleftrightarrow> P k \<and> (\<forall>j. Suc k \<le> j \<and> j < n \<longrightarrow> P j)" for P
    using assms by (auto simp: Suc_le_eq dest: le_neq_implies_less)
  show "(\<forall>j. k \<le> j \<and> j < n \<longrightarrow> P j) \<longleftrightarrow> P k \<and> (\<forall>j. Suc k \<le> j \<and> j < n \<longrightarrow> P j)"
    "(\<exists>j. k \<le> j \<and> j < n \<and> P j) \<longleftrightarrow> P k \<or> (\<exists>j. Suc k \<le> j \<and> j < n \<and> P j)"
    using r[of P] r[of "\<lambda>j. \<not> P j"] by blast+
qed

subsection \<open>Stuck lines and cells\<close>

text \<open>What is read of a word whose bits \<open>one\<close> and \<open>zero\<close> are stuck, and a memory of such words.\<close>

definition stuck :: "'a::len word \<Rightarrow> 'a word \<Rightarrow> 'a word \<Rightarrow> 'a word" where
  "stuck one zero v = (v OR one) AND NOT zero"

definition stuck_read :: "('b \<Rightarrow> 'a::len word) \<Rightarrow> ('b \<Rightarrow> 'a word) \<Rightarrow> ('b \<Rightarrow> 'a word) \<Rightarrow> 'b \<Rightarrow> 'a word" where
  "stuck_read one zero s a = stuck (one a) (zero a) (s a)"

definition plain_write :: "('b \<Rightarrow> 'a::len word) \<Rightarrow> 'b \<Rightarrow> 'a word \<Rightarrow> 'b \<Rightarrow> 'a word" where
  "plain_write s a v = s(a := v)"

lemma stuck_none [simp]: "stuck 0 0 v = v"
  by (simp add: stuck_def)

lemma bit_stuck: "n < LENGTH('a) \<Longrightarrow> bit (stuck one zero v) n \<longleftrightarrow> (bit v n \<or> bit one n) \<and> \<not> bit zero n" for v :: "'a::len word"
  by (simp add: stuck_def bit_simps)

lemma data_bus_walk:
  "fst (data_bus_loop (stuck_read (\<lambda>_. one) (\<lambda>_. zero)) plain_write p (push_bit k 1) s) = 0 \<longleftrightarrow>
   (\<forall>j. k \<le> j \<and> j < 8 \<longrightarrow> stuck one zero (push_bit j 1) = push_bit j 1)"
proof (induction "8 - k" arbitrary: k s)
  case 0
  then have "(push_bit k 1 :: u8) = 0" by (intro bit_word_eqI) (simp only: bit_push_bit_iff, simp)
  then show ?case using 0 by (subst data_bus_loop.simps) auto
next
  case (Suc d)
  have k: "k < 8" "d = 8 - Suc k" using Suc.hyps(2) by simp_all
  have b: "bit (push_bit k 1 :: u8) k" "bit (ucast (push_bit k 1 :: u8) :: u32) k" using k(1) by (simp_all only: bit_push_bit_iff bit_ucast_iff) simp_all
  then have nz: "(push_bit k 1 :: u8) \<noteq> 0" and uc: "(ucast (push_bit k 1 :: u8) :: u32) \<noteq> 0" by (auto simp del: push_bit_of_1)
  have sh: "push_bit 1 (push_bit k 1 :: u8) = push_bit (Suc k) 1" by (simp only: push_bit_push_bit) simp
  note split = range_first(1)[OF k(1)]
  show ?case
  proof (cases "stuck one zero (push_bit k 1) = push_bit k 1")
    case True
    then show ?thesis unfolding split using Suc.hyps(1)[OF k(2)] nz sh by (subst data_bus_loop.simps) (simp only: Let_def if_True if_False stuck_read_def plain_write_def fun_upd_same simp_thms not_False_eq_True)
  next
    case False
    then show ?thesis unfolding split using nz uc by (subst data_bus_loop.simps) (simp add: Let_def stuck_read_def plain_write_def del: push_bit_of_1)
  qed
qed

text \<open>The data bus test passes exactly when no line is stuck.\<close>

theorem data_bus_decides:
  "fst (memTestDataBus (stuck_read (\<lambda>_. one) (\<lambda>_. zero)) plain_write p s) = 0 \<longleftrightarrow> one = 0 \<and> zero = 0"
proof
  assume "fst (memTestDataBus (stuck_read (\<lambda>_. one) (\<lambda>_. zero)) plain_write p s) = 0"
  then have w: "stuck one zero (push_bit j 1) = push_bit j 1" if "j < 8" for j
    using data_bus_walk[of one zero p 0 s] that by (simp add: memTestDataBus_def)
  have z: "\<not> bit zero n" "\<not> bit one n" if n: "n < 8" for n
  proof -
    have "bit (stuck one zero (push_bit n 1)) n" unfolding w[OF n] using n by (simp add: bit_simps)
    then show z: "\<not> bit zero n" using n by (simp add: bit_stuck)
    define j where "j = (if n = 0 then 1 else 0 :: nat)"
    have j: "j < 8" "j \<noteq> n" by (simp_all add: j_def)
    have "\<not> bit (stuck one zero (push_bit j 1)) n" unfolding w[OF j(1)] using j n by (auto simp: bit_simps)
    then show "\<not> bit one n" using n z by (simp add: bit_stuck)
  qed
  show "one = 0 \<and> zero = 0" using z by (auto intro!: bit_word_eqI)
next
  assume "one = 0 \<and> zero = 0"
  then show "fst (memTestDataBus (stuck_read (\<lambda>_. one) (\<lambda>_. zero)) plain_write p s) = 0"
    using data_bus_walk[of one zero p 0 s] by (simp add: memTestDataBus_def)
qed

subsection \<open>March C\<close>

lemma bit_read: "k < 32 \<Longrightarrow> signed_drop_bit k w AND 1 = (if bit w k then 1 else 0)" for w :: u32
proof (rule bit_word_eqI)
  fix n assume "k < 32" "n < LENGTH(32)"
  then show "bit (signed_drop_bit k w AND 1) n \<longleftrightarrow> bit (if bit w k then 1 else 0 :: u32) n"
    by (cases "n = 0") (auto simp: bit_simps)
qed

text \<open>A pass at an address excludes stuck bits there, whatever the state.\<close>

lemma pass_no_stuck_one:
  assumes "fst (read_zero_write_one ks (stuck_read one zero) wr p s)" "k \<in> set ks" "\<forall>k \<in> set ks. k < 32"
  shows "\<not> bit (one p) k \<or> bit (zero p) k"
  using assms by (induction ks arbitrary: s) (auto simp: stuck_read_def bit_read bit_stuck split: if_splits)

lemma pass_no_stuck_zero:
  assumes "fst (read_one_write_zero ks (stuck_read one zero) wr p s)" "k \<in> set ks" "\<forall>k \<in> set ks. k < 32"
  shows "\<not> bit (zero p) k"
  using assms by (induction ks arbitrary: s) (auto simp: stuck_read_def bit_read bit_stuck split: if_splits)

lemma march_passes: "fst (march f st xs (r, s)) \<Longrightarrow> r \<and> (\<forall>i \<in> set xs. \<exists>t. fst (f (st + 4 * of_nat i) t))"
proof (induction xs arbitrary: r s)
  case (Cons i xs)
  obtain r' s' where f: "f (st + 4 * of_nat i) s = (r', s')" by fastforce
  have r: "r" using Cons.prems by (auto split: if_splits)
  then have "fst (march f st xs (r', s'))" using Cons.prems f by simp
  then have "r' \<and> (\<forall>i \<in> set xs. \<exists>t. fst (f (st + 4 * of_nat i) t))" by (rule Cons.IH)
  then show ?case using r f by (metis fst_conv set_ConsD)
qed simp

text \<open>The steps on a word without stuck bits, and on all words.\<close>

lemma zero_one_healthy:
  assumes "one p = 0" "zero p = 0" "\<forall>k \<in> set ks. k < 32 \<and> \<not> bit (s p) k" "distinct ks"
  shows "\<exists>v. read_zero_write_one ks (stuck_read one zero) plain_write p s = (True, s(p := v)) \<and>
    (\<forall>n < 32. bit v n \<longleftrightarrow> bit (s p) n \<or> n \<in> set ks)"
  using assms(3,4)
proof (induction ks arbitrary: s)
  case (Cons k ks)
  let ?v = "s p OR push_bit k 1"
  have b: "n < 32 \<Longrightarrow> bit ?v n \<longleftrightarrow> bit (s p) n \<or> n = k" for n
    unfolding bit_or_iff bit_push_bit_iff by (auto simp: bit_1_iff)
  have "\<forall>j \<in> set ks. j < 32 \<and> \<not> bit ((s(p := ?v)) p) j" using Cons.prems b by auto
  then obtain v where v: "read_zero_write_one ks (stuck_read one zero) plain_write p (s(p := ?v)) = (True, (s(p := ?v))(p := v))"
    "\<forall>n < 32. bit v n \<longleftrightarrow> bit ((s(p := ?v)) p) n \<or> n \<in> set ks" using Cons.IH[of "s(p := ?v)"] Cons.prems(2) by (metis distinct.simps(2))
  then show ?case using Cons.prems(1) b assms(1,2) by (intro exI[of _ v]) (auto simp: bit_read stuck_read_def[of one zero s p] plain_write_def[of s p])
next
  case Nil
  then show ?case by (intro exI[of _ "s p"]) simp
qed

lemma one_zero_healthy:
  assumes "one p = 0" "zero p = 0" "\<forall>k \<in> set ks. k < 32 \<and> bit (s p) k" "distinct ks"
  shows "\<exists>v. read_one_write_zero ks (stuck_read one zero) plain_write p s = (True, s(p := v)) \<and>
    (\<forall>n < 32. bit v n \<longleftrightarrow> bit (s p) n \<and> n \<notin> set ks)"
  using assms(3,4)
proof (induction ks arbitrary: s)
  case (Cons k ks)
  let ?v = "s p AND NOT (push_bit k 1)"
  have b: "n < 32 \<Longrightarrow> bit ?v n \<longleftrightarrow> bit (s p) n \<and> n \<noteq> k" for n
    unfolding bit_and_iff bit_not_iff bit_push_bit_iff by (auto simp: bit_1_iff)
  have "\<forall>j \<in> set ks. j < 32 \<and> bit ((s(p := ?v)) p) j" using Cons.prems b by auto
  then obtain v where v: "read_one_write_zero ks (stuck_read one zero) plain_write p (s(p := ?v)) = (True, (s(p := ?v))(p := v))"
    "\<forall>n < 32. bit v n \<longleftrightarrow> bit ((s(p := ?v)) p) n \<and> n \<notin> set ks" using Cons.IH[of "s(p := ?v)"] Cons.prems(2) by (metis distinct.simps(2))
  then show ?case using Cons.prems(1) b assms(1,2) by (intro exI[of _ v]) (auto simp: bit_read stuck_read_def[of one zero s p] plain_write_def[of s p])
next
  case Nil
  then show ?case by (intro exI[of _ "s p"]) simp
qed

lemma step_healthy:
  assumes "one p = 0" "zero p = 0"
  shows "s p = 0 \<Longrightarrow> ReadZeroWriteOne (stuck_read one zero) plain_write p s = (True, s(p := - 1))"
    "s p = - 1 \<Longrightarrow> ReadOneWriteZero (stuck_read one zero) plain_write p s = (True, s(p := 0))"
    "s p = 0 \<Longrightarrow> ReadZero (stuck_read one zero) p s = (True, s(p := 0))"
proof -
  show "ReadZeroWriteOne (stuck_read one zero) plain_write p s = (True, s(p := - 1))" if "s p = 0"
  proof -
    have pre: "\<forall>k \<in> set (rev [0..<32]). k < 32 \<and> \<not> bit (s p) k" "distinct (rev [0..<32])"
      unfolding set_rev set_upt distinct_rev using that by auto
    obtain v where v: "ReadZeroWriteOne (stuck_read one zero) plain_write p s = (True, s(p := v))" "\<forall>n < 32. bit v n"
      using zero_one_healthy[of one p zero "rev [0..<32]" s, OF assms pre] unfolding ReadZeroWriteOne_def set_rev set_upt by auto
    then have "v = - 1" by (intro bit_word_eqI) simp
    then show ?thesis using v(1) by simp
  qed
  show "ReadOneWriteZero (stuck_read one zero) plain_write p s = (True, s(p := 0))" if "s p = - 1"
  proof -
    have pre: "\<forall>k \<in> set [0..<32]. k < 32 \<and> bit (s p) k" "distinct [0..<32]"
      unfolding set_upt using that by (auto simp: bit_minus_1_iff)
    obtain v where v: "ReadOneWriteZero (stuck_read one zero) plain_write p s = (True, s(p := v))" "\<forall>n < 32. \<not> bit v n"
      using one_zero_healthy[of one p zero "[0..<32]" s, OF assms pre] unfolding ReadOneWriteZero_def set_upt by auto
    then have "v = 0" by (intro bit_word_eqI) simp
    then show ?thesis using v(1) by simp
  qed
  show "ReadZero (stuck_read one zero) p s = (True, s(p := 0))" if "s p = 0"
  proof -
    have "read_zero ks (stuck_read one zero) p s = (True, s)" for ks
      using that assms by (induction ks) (simp_all add: stuck_read_def)
    then show ?thesis using that by (simp add: ReadZero_def fun_upd_idem)
  qed
qed

lemma word_addresses: "i < 2 ^ 30 \<Longrightarrow> j < 2 ^ 30 \<Longrightarrow> p + 4 * of_nat i = p + 4 * of_nat j \<longleftrightarrow> i = j" for p :: u32
proof -
  assume a: "i < 2 ^ 30" "j < 2 ^ 30"
  have u: "unat (4 * of_nat k :: u32) = 4 * k" if "k < 2 ^ 30" for k
  proof -
    have "(4 * of_nat k :: u32) = of_nat (4 * k)" by simp
    moreover have "4 * k < 2 ^ 32" using that by simp
    ultimately show ?thesis by (metis unat_of_nat_small)
  qed
  show ?thesis
  proof
    assume "p + 4 * of_nat i = p + 4 * of_nat j"
    then have "unat (4 * of_nat i :: u32) = unat (4 * of_nat j :: u32)" by (simp only: add_left_cancel)
    then show "i = j" using u[OF a(1)] u[OF a(2)] by simp
  qed simp
qed

lemma march_healthy:
  assumes "\<And>i t. i \<in> set xs \<Longrightarrow> t (st + 4 * of_nat i) = old \<Longrightarrow> f (st + 4 * of_nat i) t = (True, t(st + 4 * of_nat i := new))"
    "\<forall>i \<in> set xs. s (st + 4 * of_nat i) = old" "distinct xs" "\<forall>i \<in> set xs. i < 2 ^ 30"
  shows "\<exists>s'. march f st xs (True, s) = (True, s') \<and> (\<forall>i \<in> set xs. s' (st + 4 * of_nat i) = new) \<and>
    (\<forall>a. a \<notin> (\<lambda>i. st + 4 * of_nat i) ` set xs \<longrightarrow> s' a = s a)"
  using assms
proof (induction xs arbitrary: s)
  case (Cons i xs)
  let ?s = "s(st + 4 * of_nat i := new)"
  have ne: "st + 4 * of_nat j \<noteq> st + 4 * of_nat i" if "j \<in> set xs" for j
    using word_addresses[of j i st] that Cons.prems(3,4) by auto
  have pre: "\<forall>j \<in> set xs. ?s (st + 4 * of_nat j) = old" "distinct xs" "\<forall>j \<in> set xs. j < 2 ^ 30"
    using Cons.prems(2-4) ne by simp_all
  have "\<exists>s'. march f st xs (True, ?s) = (True, s') \<and> (\<forall>i \<in> set xs. s' (st + 4 * of_nat i) = new) \<and>
    (\<forall>a. a \<notin> (\<lambda>i. st + 4 * of_nat i) ` set xs \<longrightarrow> s' a = ?s a)"
    by (rule Cons.IH[OF _ pre]) (rule Cons.prems(1), simp_all only: list.set_intros)
  then obtain s' where s': "march f st xs (True, ?s) = (True, s')" "\<forall>j \<in> set xs. s' (st + 4 * of_nat j) = new"
    "\<forall>a. a \<notin> (\<lambda>i. st + 4 * of_nat i) ` set xs \<longrightarrow> s' a = ?s a" by (elim exE conjE) (rule that)
  have "st + 4 * of_nat i \<notin> (\<lambda>i. st + 4 * of_nat i) ` set xs" using ne by force
  then have "s' (st + 4 * of_nat i) = new" using s'(3) by simp
  moreover have "march f st (i # xs) (True, s) = (True, s')"
  proof -
    have "f (st + 4 * of_nat i) s = (True, ?s)" using Cons.prems(2) by (intro Cons.prems(1)) simp_all
    then show ?thesis by (simp only: march.simps if_True s'(1))
  qed
  ultimately show ?case using s'(2,3) by (intro exI[of _ s']) simp
qed simp

lemma erase_zero: "a \<in> (\<lambda>i. st + 4 * of_nat i) ` set xs \<or> s a = 0 \<Longrightarrow> erase plain_write st xs s a = 0"
  by (induction xs arbitrary: s) (auto simp: plain_write_def)

lemma march_phase:
  assumes "\<And>p t. p \<in> (\<lambda>i. st + 4 * of_nat i) ` set xs \<Longrightarrow> t p = old \<Longrightarrow> f p t = (True, t(p := new))"
    "\<exists>s. ms = (True, s) \<and> (\<forall>i \<in> set xs. s (st + 4 * of_nat i) = old)" "distinct xs" "\<forall>i \<in> set xs. i < 2 ^ 30"
  shows "\<exists>s. march f st xs ms = (True, s) \<and> (\<forall>i \<in> set xs. s (st + 4 * of_nat i) = new)"
proof -
  obtain s where s: "ms = (True, s)" "\<forall>i \<in> set xs. s (st + 4 * of_nat i) = old" using assms(2) by blast
  have "\<exists>s'. march f st xs (True, s) = (True, s') \<and> (\<forall>i \<in> set xs. s' (st + 4 * of_nat i) = new) \<and>
    (\<forall>a. a \<notin> (\<lambda>i. st + 4 * of_nat i) ` set xs \<longrightarrow> s' a = s a)"
    by (rule march_healthy[OF assms(1) s(2) assms(3,4)]) simp_all
  then show ?thesis using s(1) by blast
qed

lemma march_c_healthy:
  assumes "\<forall>i < n. one (start + 4 * of_nat i) = 0 \<and> zero (start + 4 * of_nat i) = 0" "n = nat (sint ramSize sdiv 4)"
  shows "fst (RAMtestMarchC (stuck_read one zero) plain_write start ramSize s)"
proof -
  have "sint ramSize < 2 ^ 31" using sint_lt[of ramSize] by simp
  then have "sint ramSize sdiv 4 \<le> 2 ^ 30" by (auto simp: signed_divide_int_def sgn_if)
  then have n: "n \<le> 2 ^ 30" unfolding assms(2) by simp
  define A where "A = (\<lambda>i. start + 4 * of_nat i :: u32) ` {0..<n}"
  define ok where "ok ms v \<longleftrightarrow> (\<exists>t. ms = (True, t) \<and> (\<forall>i < n. t (start + 4 * of_nat i) = v))" for ms and v :: u32
  have U: "ok (march f start xs ms) new" if "ok ms old" "\<And>p t. p \<in> A \<Longrightarrow> t p = old \<Longrightarrow> f p t = (True, t(p := new))" "xs = [0..<n] \<or> xs = rev [0..<n]"
    for f xs ms old new
  proof -
    have b: "distinct xs" "\<forall>i \<in> set xs. i < 2 ^ 30" "set xs = {0..<n}" using that(3) n by auto
    show ?thesis using march_phase[OF _ _ b(1,2), of start old f new ms] that(1,2) unfolding ok_def A_def b(3) by auto
  qed
  have h: "one p = 0" "zero p = 0" if "p \<in> A" for p using that assms(1) by (auto simp: A_def)
  have "ok (True, erase plain_write start [0..<n] s) 0"
    using erase_zero[of _ start "[0..<n]" s] by (auto simp: ok_def)
  then have "ok (RAMtestMarchC (stuck_read one zero) plain_write start ramSize s) 0"
    unfolding RAMtestMarchC_def Let_def assms(2)[symmetric] by (rule U[OF U[OF U[OF U[OF U[OF U]]]]]; blast intro: step_healthy h)
  then show ?thesis by (auto simp: ok_def)
qed

lemma march_c_finds:
  assumes "fst (RAMtestMarchC (stuck_read one zero) plain_write start ramSize s)" "i < nat (sint ramSize sdiv 4)"
  shows "one (start + 4 * of_nat i) = 0" "zero (start + 4 * of_nat i) = 0"
proof -
  define p where "p = start + 4 * of_nat i"
  note m = assms(1)[unfolded RAMtestMarchC_def Let_def]
  have i: "i \<in> set [0..<nat (sint ramSize sdiv 4)]" using assms(2) by simp
  have q: "fst ms \<and> (\<exists>t. fst (f p t))" if "fst (march f start xs ms)" "i \<in> set xs" for f xs and ms :: "bool \<times> (u32 \<Rightarrow> u32)"
    using march_passes[of f start xs "fst ms" "snd ms"] that unfolding p_def by auto
  have d: "i \<in> set (rev [0..<nat (sint ramSize sdiv 4)])" using i by simp
  note m2 = q[OF q[OF q[OF q[OF m d, THEN conjunct1] d, THEN conjunct1] d, THEN conjunct1] i, THEN conjunct1]
  obtain t where "fst (ReadOneWriteZero (stuck_read one zero) plain_write p t)" using q[OF m2 i] by blast
  then have z: "\<not> bit (zero p) k" if "k < 32" for k
    using pass_no_stuck_zero[of "[0..<32]" one zero plain_write p t k] that unfolding ReadOneWriteZero_def by simp
  obtain t where "fst (ReadZeroWriteOne (stuck_read one zero) plain_write p t)" using q[OF q[OF m2 i, THEN conjunct1] i] by blast
  then have o: "\<not> bit (one p) k" if "k < 32" for k
    using pass_no_stuck_one[of "rev [0..<32]" one zero plain_write p t k] that z[OF that] unfolding ReadZeroWriteOne_def by simp
  show "one (start + 4 * of_nat i) = 0" "zero (start + 4 * of_nat i) = 0"
    unfolding p_def[symmetric] by (rule bit_word_eqI, simp add: o z)+
qed

text \<open>C33: The March C test passes exactly when no bit of the tested words is stuck at 0 or at 1.\<close>

theorem march_c_decides:
  "fst (RAMtestMarchC (stuck_read one zero) plain_write start ramSize s) \<longleftrightarrow>
   (\<forall>i < nat (sint ramSize sdiv 4). one (start + 4 * of_nat i) = 0 \<and> zero (start + 4 * of_nat i) = 0)"
  using march_c_healthy[OF _ refl] march_c_finds by blast

lemma march_c_decides_witness:
  "\<not> fst (RAMtestMarchC (stuck_read (\<lambda>a. if a = 0x30000004 then 0x100 else 0) (\<lambda>_. 0)) plain_write 0x30000000 8 (\<lambda>_. 0))"
proof
  let ?one = "\<lambda>a :: u32. if a = 0x30000004 then 0x100 else 0 :: u32"
  have "1 < nat (sint (8 :: u32) sdiv 4)" by (simp add: signed_divide_int_def)
  moreover assume "fst (RAMtestMarchC (stuck_read ?one (\<lambda>_. 0)) plain_write 0x30000000 8 (\<lambda>_. 0))"
  ultimately have "?one (0x30000000 + 4 * of_nat 1) = 0" using march_c_decides[of ?one "\<lambda>_. 0" "0x30000000" 8 "\<lambda>_. 0"] by blast
  then show False by simp
qed

subsection \<open>Address decoders\<close>

text \<open>A memory whose decoder \<open>f\<close> maps an address to its cell.\<close>

definition decoded_read :: "(u32 \<Rightarrow> 'c) \<Rightarrow> ('c \<Rightarrow> u8) \<Rightarrow> u32 \<Rightarrow> u8" where "decoded_read f s a = s (f a)"
definition decoded_write :: "(u32 \<Rightarrow> 'c) \<Rightarrow> ('c \<Rightarrow> u8) \<Rightarrow> u32 \<Rightarrow> u8 \<Rightarrow> 'c \<Rightarrow> u8" where "decoded_write f s a v = s(f a := v)"

lemma power_word_eq: "i < 32 \<Longrightarrow> j < 32 \<Longrightarrow> (2 :: u32) ^ i = 2 ^ j \<longleftrightarrow> i = j"
  by (metis bit_exp_iff possible_bit_word len32)

lemma low_mask: "(2 :: u32) ^ k AND mask n \<noteq> 0 \<longleftrightarrow> k < n" if "k \<le> 32" "n \<le> 32"
proof (cases "k < n")
  case True
  then have "bit ((2 :: u32) ^ k AND mask n) k" using that by (simp add: bit_and_iff bit_exp_iff bit_mask_iff)
  then show ?thesis using True by (auto simp del: and_exp_eq_0_iff_not_bit)
next
  case False
  then have "(2 :: u32) ^ k AND mask n = 0" by (intro bit_word_eqI) (auto simp: bit_and_iff bit_exp_iff bit_mask_iff)
  then show ?thesis using False by simp
qed

lemma push_power: "push_bit 1 ((2 :: u32) ^ k) = 2 ^ Suc k"
  by simp

lemma addr_write_fills:
  assumes "n \<le> 32" "k \<le> n" "s' = addr_write (decoded_write f) base (mask n) (2 ^ k) s"
  shows "s' c = (if \<exists>j. k \<le> j \<and> j < n \<and> f (base + 2 ^ j) = c then 0xAA else s c)"
  using assms
proof (induction "n - k" arbitrary: k s s')
  case 0
  then show ?case using low_mask[of k n] by (subst (asm) addr_write.simps) auto
next
  case (Suc d)
  have k: "k < n" "d = n - Suc k" using Suc.hyps(2) by simp_all
  have "(2 :: u32) ^ k AND mask n \<noteq> 0" using low_mask[of k n] k(1) Suc.prems(1) by simp
  then have "s' = addr_write (decoded_write f) base (mask n) (2 ^ Suc k) (decoded_write f s (base + 2 ^ k) 0xAA)"
    using Suc.prems(3) by (subst (asm) addr_write.simps) (simp only: push_power if_True not_False_eq_True)
  note IH = Suc.hyps(1)[OF k(2) Suc.prems(1) _ this]
  note split = range_first(2)[OF k(1)]
  show ?case unfolding split using IH k(1) by (auto simp: decoded_write_def)
qed

lemma addr_check_passes:
  assumes "n \<le> 32" "k \<le> n"
  shows "addr_check (decoded_read f) base (mask n) skip (2 ^ k) s = None \<longleftrightarrow>
    (\<forall>j. k \<le> j \<and> j < n \<longrightarrow> s (f (base + 2 ^ j)) = 0xAA \<or> 2 ^ j = skip)"
  using assms(2)
proof (induction "n - k" arbitrary: k)
  case 0
  then show ?case using low_mask[of k n] assms(1) by (subst addr_check.simps) auto
next
  case (Suc d)
  have k: "k < n" "d = n - Suc k" using Suc.hyps(2) by simp_all
  have m: "(2 :: u32) ^ k AND mask n \<noteq> 0" using low_mask[of k n] k(1) assms(1) by simp
  note split = range_first(1)[OF k(1)]
  show ?case unfolding split using Suc.hyps(1)[OF k(2)] k(1) m
    by (subst addr_check.simps) (simp only: push_power if_True not_False_eq_True, auto simp: decoded_read_def)
qed

lemma addr_check_some:
  assumes "n \<le> 32" "k \<le> n" "addr_check (decoded_read f) base (mask n) skip (2 ^ k) s = Some i"
  shows "\<exists>j < n. i = 2 ^ j"
  using assms(2,3)
proof (induction "n - k" arbitrary: k)
  case 0
  then have "addr_check (decoded_read f) base (mask n) skip (2 ^ k) s = None"
    using low_mask[of k n] assms(1) by (subst addr_check.simps) auto
  then show ?case using 0 by simp
next
  case (Suc d)
  have k: "k < n" "d = n - Suc k" using Suc.hyps(2) by simp_all
  have m: "(2 :: u32) ^ k AND mask n \<noteq> 0" using low_mask[of k n] k(1) assms(1) by simp
  have "2 ^ k = i \<or> addr_check (decoded_read f) base (mask n) skip (2 ^ Suc k) s = Some i"
    using Suc.prems(2) m by (subst (asm) addr_check.simps) (simp only: push_power if_True not_False_eq_True, auto split: if_splits)
  then show ?case using Suc.hyps(1)[OF k(2)] k(1) by auto
qed

lemma addr_walk_passes:
  assumes "n \<le> 32" "k \<le> n" "s (f base) = 0xAA" "\<forall>j < n. s (f (base + 2 ^ j)) = 0xAA" "\<forall>j < n. f (base + 2 ^ j) \<noteq> f base"
    "\<forall>j < n. base + 2 ^ j \<noteq> 0"
  shows "fst (addr_walk (decoded_read f) (decoded_write f) base (mask n) (2 ^ k) s) = 0 \<longleftrightarrow>
    (\<forall>t. k \<le> t \<and> t < n \<longrightarrow> (\<forall>j < n. f (base + 2 ^ j) = f (base + 2 ^ t) \<longrightarrow> j = t))"
  using assms(2-4)
proof (induction "n - k" arbitrary: k s)
  case 0
  then show ?case using low_mask[of k n] assms(1) by (subst addr_walk.simps) auto
next
  case (Suc d)
  have k: "k < n" "d = n - Suc k" using Suc.hyps(2) by simp_all
  have m: "(2 :: u32) ^ k AND mask n \<noteq> 0" using low_mask[of k n] k(1) assms(1) by simp
  define s1 where "s1 = s(f (base + 2 ^ k) := 0x55)"
  have "f base \<noteq> f (base + 2 ^ k)" using assms(5) k(1) by metis
  then have z: "decoded_read f s1 base = 0xAA" using Suc.prems(2) by (simp add: decoded_read_def s1_def)
  have c: "addr_check (decoded_read f) base (mask n) (2 ^ k) (2 ^ 0) s1 = None \<longleftrightarrow>
    (\<forall>j < n. f (base + 2 ^ j) = f (base + 2 ^ k) \<longrightarrow> j = k)"
    using addr_check_passes[of n 0 f base "2 ^ k" s1] assms(1) Suc.prems(3) k(1) power_word_eq by (auto simp: s1_def)
  have r: "s1(f (base + 2 ^ k) := 0xAA) = s" using Suc.prems(3) k(1) by (auto simp: s1_def)
  have step: "fst (addr_walk (decoded_read f) (decoded_write f) base (mask n) (2 ^ k) s) =
    (if addr_check (decoded_read f) base (mask n) (2 ^ k) (2 ^ 0) s1 \<noteq> None then base + 2 ^ k
     else fst (addr_walk (decoded_read f) (decoded_write f) base (mask n) (2 ^ Suc k) s))"
    by (subst addr_walk.simps)
      (simp only: decoded_write_def Let_def s1_def[symmetric] m z if_True if_False not_False_eq_True power_0 r push_power simp_thms, simp)
  have ih: "fst (addr_walk (decoded_read f) (decoded_write f) base (mask n) (2 ^ Suc k) s) = 0 \<longleftrightarrow>
    (\<forall>t. Suc k \<le> t \<and> t < n \<longrightarrow> (\<forall>j < n. f (base + 2 ^ j) = f (base + 2 ^ t) \<longrightarrow> j = t))"
    using k(1) by (intro Suc.hyps(1)[OF k(2) _ Suc.prems(2,3)]) simp
  show ?case
  proof (cases "addr_check (decoded_read f) base (mask n) (2 ^ k) (2 ^ 0) s1 = None")
    case True
    moreover have "\<forall>j < n. f (base + 2 ^ j) = f (base + 2 ^ k) \<longrightarrow> j = k" using c True by blast
    ultimately show ?thesis unfolding range_first(1)[OF k(1)] step using ih by (simp only: if_False simp_thms) blast
  next
    case False
    then show ?thesis unfolding range_first(1)[OF k(1)] step using c assms(6) k(1) by (simp only: if_True simp_thms)
  qed
qed

text \<open>On a memory of \<open>2 ^ n\<close> bytes the address bus test passes exactly when the base and the addresses that differ from
  it in one line select different cells.\<close>

theorem address_bus_decides:
  assumes "n \<le> 32" "\<forall>j < n. base + 2 ^ j \<noteq> 0"
  shows "fst (memTestAddressBus (decoded_read f) (decoded_write f) base (2 ^ n) s) = 0 \<longleftrightarrow>
    inj_on f (insert base ((\<lambda>j. base + 2 ^ j) ` {..<n}))"
proof -
  have mk: "(2 :: u32) ^ n - 1 = mask n" by (simp add: mask_eq_exp_minus_1)
  define s1 where "s1 = (addr_write (decoded_write f) base (mask n) (2 ^ 0) s)(f base := 0x55)"
  have w: "addr_write (decoded_write f) base (mask n) (2 ^ 0) s (f (base + 2 ^ j)) = 0xAA" if "j < n" for j
    using addr_write_fills[OF assms(1) _ refl, of 0 f base s] that by auto
  have c: "addr_check (decoded_read f) base (mask n) 0 (2 ^ 0) s1 = None \<longleftrightarrow> (\<forall>j < n. f (base + 2 ^ j) \<noteq> f base)"
    using addr_check_passes[OF assms(1), of 0 f base 0 s1] w assms(1) by (auto simp: s1_def)
  have e: "memTestAddressBus (decoded_read f) (decoded_write f) base (2 ^ n) s =
    (case addr_check (decoded_read f) base (mask n) 0 (2 ^ 0) s1 of Some i \<Rightarrow> (base + i, s1)
     | None \<Rightarrow> addr_walk (decoded_read f) (decoded_write f) base (mask n) (2 ^ 0) (s1(f base := 0xAA)))"
    by (simp only: memTestAddressBus_def Let_def mk decoded_write_def[of f] s1_def power_0)
  have "fst (memTestAddressBus (decoded_read f) (decoded_write f) base (2 ^ n) s) = 0 \<longleftrightarrow>
    (\<forall>j < n. f (base + 2 ^ j) \<noteq> f base) \<and> (\<forall>t < n. \<forall>j < n. f (base + 2 ^ j) = f (base + 2 ^ t) \<longrightarrow> j = t)"
  proof (cases "addr_check (decoded_read f) base (mask n) 0 (2 ^ 0) s1")
    case None
    then have d: "\<forall>j < n. f (base + 2 ^ j) \<noteq> f base" using c by blast
    have "\<forall>j < n. (s1(f base := 0xAA)) (f (base + 2 ^ j)) = 0xAA" using w d by (simp add: s1_def)
    then show ?thesis using addr_walk_passes[where k = 0 and s = "s1(f base := 0xAA)", OF assms(1) _ _ _ d assms(2)] None d
      unfolding e by simp
  next
    case (Some i)
    have "\<exists>j < n. i = 2 ^ j" using addr_check_some[OF assms(1) _ Some] by simp
    then show ?thesis unfolding e using Some c assms(2) by auto
  qed
  also have "\<dots> \<longleftrightarrow> inj_on f (insert base ((\<lambda>j. base + 2 ^ j) ` {..<n}))"
  proof -
    have "(2 :: u32) ^ j \<noteq> 0" if "j < n" for j using low_mask[of j n] that assms(1) by auto
    then have "base \<notin> (\<lambda>j. base + 2 ^ j) ` {..<n}" by auto
    then have i: "inj_on f (insert base ((\<lambda>j. base + 2 ^ j) ` {..<n})) \<longleftrightarrow>
      inj_on f ((\<lambda>j. base + 2 ^ j) ` {..<n}) \<and> f base \<notin> f ` (\<lambda>j. base + 2 ^ j) ` {..<n}"
      by (simp only: inj_on_insert Diff_empty Diff_insert0 simp_thms)
    have "base + 2 ^ j = base + 2 ^ t \<longleftrightarrow> j = t" if "j < n" "t < n" for j t using power_word_eq[of j t] that assms(1) by simp
    then have "inj_on f ((\<lambda>j. base + 2 ^ j) ` {..<n}) \<longleftrightarrow> (\<forall>t < n. \<forall>j < n. f (base + 2 ^ j) = f (base + 2 ^ t) \<longrightarrow> j = t)"
      unfolding inj_on_def ball_simps(9) lessThan_iff Ball_def by blast
    moreover have "x \<notin> g ` {..<n} \<longleftrightarrow> (\<forall>j < n. g j \<noteq> x)" for x and g :: "nat \<Rightarrow> 'a" by auto
    ultimately show ?thesis unfolding i image_image by (simp only: conj_commute)
  qed
  finally show ?thesis .
qed

lemma address_bus_decides_witness:
  "fst (memTestAddressBus (decoded_read (\<lambda>a. a AND 0xFFFFFFFB)) (decoded_write (\<lambda>a. a AND 0xFFFFFFFB)) 0x30000000 16 (\<lambda>_. 0)) \<noteq> 0"
proof
  let ?f = "\<lambda>a :: u32. a AND 0xFFFFFFFB"
  assume "fst (memTestAddressBus (decoded_read ?f) (decoded_write ?f) 0x30000000 16 (\<lambda>_. 0)) = 0"
  moreover have "\<forall>j < 4. (0x30000000 :: u32) + 2 ^ j \<noteq> 0"
  proof (intro allI impI)
    fix j :: nat assume "j < 4"
    then have "j = 0 \<or> j = 1 \<or> j = 2 \<or> j = 3" by linarith
    then show "(0x30000000 :: u32) + 2 ^ j \<noteq> 0" by (elim disjE) simp_all
  qed
  ultimately have "inj_on ?f (insert 0x30000000 ((\<lambda>j. 0x30000000 + 2 ^ j) ` {..<4}))"
    using address_bus_decides[of 4 "0x30000000" ?f "\<lambda>_. 0"] by simp
  then have "(0x30000000 :: u32) = 0x30000000 + 2 ^ 2" 
    by (rule inj_onD) (simp, rule insertI1, rule insertI2, rule image_eqI[of _ _ 2], simp_all)
  then show False by simp
qed

text \<open>The device test, over the numbers of the bytes.\<close>

abbreviation (input) pat :: "nat \<Rightarrow> u8" where "pat k \<equiv> of_nat k + 1"

lemma dev_position:
  assumes "k \<le> unat (n :: u32)"
  shows "(of_nat k :: u32) < n \<longleftrightarrow> k < unat n" "(of_nat k :: u32) + 1 = of_nat (Suc k)" "pat k + 1 = pat (Suc k)"
proof -
  have "k < 2 ^ 32" using assms unat_bound[of n] by simp
  then show "(of_nat k :: u32) < n \<longleftrightarrow> k < unat n" by (simp add: word_less_nat_alt unat_of_nat_small)
qed (simp_all add: add.commute)

lemma dev_fill_covers:
  assumes "k \<le> unat n" "inj_on (\<lambda>i. f (base + of_nat i)) {..<unat n}"
  shows "(\<forall>j. k \<le> j \<and> j < unat n \<longrightarrow> dev_fill (decoded_write f) base n (of_nat k) (pat k) s (f (base + of_nat j)) = pat j) \<and>
    (\<forall>c. (\<forall>j. k \<le> j \<and> j < unat n \<longrightarrow> f (base + of_nat j) \<noteq> c) \<longrightarrow> dev_fill (decoded_write f) base n (of_nat k) (pat k) s c = s c)"
  using assms(1)
proof (induction "unat n - k" arbitrary: k s)
  case 0
  then show ?case using dev_position(1)[of k n] by (subst (1 2) dev_fill.simps) auto
next
  case (Suc d)
  have k: "k < unat n" "d = unat n - Suc k" using Suc.hyps(2) by simp_all
  define t where "t = decoded_write f s (base + of_nat k) (pat k)"
  have e: "dev_fill (decoded_write f) base n (of_nat k) (pat k) s = dev_fill (decoded_write f) base n (of_nat (Suc k)) (pat (Suc k)) t"
    using k(1) dev_position[OF Suc.prems] by (subst dev_fill.simps) (simp only: if_True t_def)
  note ih = Suc.hyps(1)[OF k(2), of t, folded e]
  have ne: "f (base + of_nat j) \<noteq> f (base + of_nat k)" if "Suc k \<le> j" "j < unat n" for j
    using inj_onD[OF assms(2), of j k] that k(1) by auto
  have tk: "t (f (base + of_nat k)) = pat k" by (simp add: t_def decoded_write_def)
  have to: "c \<noteq> f (base + of_nat k) \<Longrightarrow> t c = s c" for c by (simp add: t_def decoded_write_def)
  define r where "r = dev_fill (decoded_write f) base n (of_nat k) (pat k) s"
  have r: "\<forall>j. Suc k \<le> j \<and> j < unat n \<longrightarrow> r (f (base + of_nat j)) = pat j"
    "\<forall>c. (\<forall>j. Suc k \<le> j \<and> j < unat n \<longrightarrow> f (base + of_nat j) \<noteq> c) \<longrightarrow> r c = t c"
    using ih k(1) unfolding r_def by simp_all
  have "r (f (base + of_nat k)) = pat k" using r(2) ne tk by metis
  moreover have "r c = s c" if "\<forall>j. k \<le> j \<and> j < unat n \<longrightarrow> f (base + of_nat j) \<noteq> c" for c
    using r(2) to that k(1) by (metis Suc_leD order_refl)
  moreover have "\<forall>j. k \<le> j \<and> j < unat n \<longrightarrow> r (f (base + of_nat j)) = pat j"
    unfolding range_first(1)[OF k(1)] using r(1) \<open>r (f (base + of_nat k)) = pat k\<close> by (intro conjI)
  ultimately show ?case unfolding r_def[symmetric] by (intro conjI allI impI) simp_all
qed

lemma dev_invert_chain:
  assumes "k \<le> unat n" "dev_invert (decoded_read f) (decoded_write f) base n (of_nat k) (pat k) s = (None, s')" "k \<le> j" "j < unat n"
  shows "(\<exists>i < j. f (base + of_nat i) = f (base + of_nat j) \<and> pat j = NOT (pat i)) \<or>
    s (f (base + of_nat j)) = pat j \<and> (\<forall>i. k \<le> i \<and> i < j \<longrightarrow> f (base + of_nat i) \<noteq> f (base + of_nat j))"
  using assms(1-3)
proof (induction "unat n - k" arbitrary: k s)
  case 0
  then show ?case using assms(4) by simp
next
  case (Suc d)
  have k: "k < unat n" "d = unat n - Suc k" using Suc.hyps(2) by simp_all
  define t where "t = decoded_write f s (base + of_nat k) (NOT (pat k))"
  have "dev_invert (decoded_read f) (decoded_write f) base n (of_nat k) (pat k) s =
    (if s (f (base + of_nat k)) \<noteq> pat k then (Some (of_nat k), s)
     else dev_invert (decoded_read f) (decoded_write f) base n (of_nat (Suc k)) (pat (Suc k)) t)"
    using k(1) dev_position[OF Suc.prems(1)] by (subst dev_invert.simps) (simp only: if_True t_def decoded_read_def)
  then have r: "s (f (base + of_nat k)) = pat k"
    and e: "dev_invert (decoded_read f) (decoded_write f) base n (of_nat (Suc k)) (pat (Suc k)) t = (None, s')"
    using Suc.prems(2) by (simp_all split: if_splits)
  show ?case
  proof (cases "j = k")
    case True
    then show ?thesis using r by auto
  next
    case False
    then have "Suc k \<le> j" using Suc.prems(3) by simp
    then consider "\<exists>i < j. f (base + of_nat i) = f (base + of_nat j) \<and> pat j = NOT (pat i)"
      | "t (f (base + of_nat j)) = pat j" "\<forall>i. Suc k \<le> i \<and> i < j \<longrightarrow> f (base + of_nat i) \<noteq> f (base + of_nat j)"
      using Suc.hyps(1)[OF k(2) _ e] k(1) by (metis Suc_leI)
    then show ?thesis
    proof cases
      case 2
      show ?thesis
      proof (cases "f (base + of_nat k) = f (base + of_nat j)")
        case True
        then have "pat j = NOT (pat k)" using 2(1) by (simp add: t_def decoded_write_def)
        then show ?thesis using True \<open>Suc k \<le> j\<close> by (intro disjI1 exI[of _ k]) simp
      next
        case False
        then have "s (f (base + of_nat j)) = pat j" using 2(1) by (simp add: t_def decoded_write_def)
        moreover have "\<forall>i. k \<le> i \<and> i < j \<longrightarrow> f (base + of_nat i) \<noteq> f (base + of_nat j)"
          using 2(2) False by (metis Suc_leI le_neq_implies_less)
        ultimately show ?thesis by blast
      qed
    qed blast
  qed
qed

lemma dev_invert_passes:
  assumes "k \<le> unat n" "\<forall>j. k \<le> j \<and> j < unat n \<longrightarrow> s (f (base + of_nat j)) = pat j" "inj_on (\<lambda>i. f (base + of_nat i)) {..<unat n}"
  shows "\<exists>s'. dev_invert (decoded_read f) (decoded_write f) base n (of_nat k) (pat k) s = (None, s') \<and>
    (\<forall>j. k \<le> j \<and> j < unat n \<longrightarrow> s' (f (base + of_nat j)) = NOT (pat j)) \<and>
    (\<forall>c. (\<forall>j. k \<le> j \<and> j < unat n \<longrightarrow> f (base + of_nat j) \<noteq> c) \<longrightarrow> s' c = s c)"
  using assms(1,2)
proof (induction "unat n - k" arbitrary: k s)
  case 0
  then show ?case using dev_position(1)[of k n] by (subst dev_invert.simps) auto
next
  case (Suc d)
  have k: "k < unat n" "d = unat n - Suc k" using Suc.hyps(2) by simp_all
  define t where "t = decoded_write f s (base + of_nat k) (NOT (pat k))"
  have ne: "f (base + of_nat j) \<noteq> f (base + of_nat k)" if "Suc k \<le> j" "j < unat n" for j
    using inj_onD[OF assms(3), of j k] that k(1) by auto
  have e: "dev_invert (decoded_read f) (decoded_write f) base n (of_nat k) (pat k) s =
    dev_invert (decoded_read f) (decoded_write f) base n (of_nat (Suc k)) (pat (Suc k)) t"
  proof -
    have "s (f (base + of_nat k)) = pat k" using Suc.prems(2) k(1) by blast
    then show ?thesis using k(1) dev_position[OF Suc.prems(1)]
      by (subst dev_invert.simps) (simp only: if_True t_def decoded_read_def simp_thms if_False)
  qed
  have tk: "t (f (base + of_nat k)) = NOT (pat k)" by (simp add: t_def decoded_write_def)
  have to: "c \<noteq> f (base + of_nat k) \<Longrightarrow> t c = s c" for c by (simp add: t_def decoded_write_def)
  have "\<forall>j. Suc k \<le> j \<and> j < unat n \<longrightarrow> t (f (base + of_nat j)) = pat j" using Suc.prems(2) to ne by (metis Suc_leD)
  then obtain s' where s': "dev_invert (decoded_read f) (decoded_write f) base n (of_nat (Suc k)) (pat (Suc k)) t = (None, s')"
    "\<forall>j. Suc k \<le> j \<and> j < unat n \<longrightarrow> s' (f (base + of_nat j)) = NOT (pat j)"
    "\<forall>c. (\<forall>j. Suc k \<le> j \<and> j < unat n \<longrightarrow> f (base + of_nat j) \<noteq> c) \<longrightarrow> s' c = t c"
    using Suc.hyps(1)[OF k(2), of t] k(1) by (metis Suc_leI)
  have "s' (f (base + of_nat k)) = NOT (pat k)" using s'(3) ne tk by metis
  moreover have "s' c = s c" if "\<forall>j. k \<le> j \<and> j < unat n \<longrightarrow> f (base + of_nat j) \<noteq> c" for c
    using s'(3) to that k(1) by (metis Suc_leD order_refl)
  ultimately show ?case unfolding range_first(1)[OF k(1), of "\<lambda>j. s' _ = _"] e using s'(1,2) by (metis (no_types, lifting) Suc_leI le_neq_implies_less)
qed

lemma dev_check_passes:
  assumes "k \<le> unat n"
  shows "dev_check (decoded_read f) base n (of_nat k) (pat k) s = None \<longleftrightarrow>
    (\<forall>j. k \<le> j \<and> j < unat n \<longrightarrow> s (f (base + of_nat j)) = NOT (pat j))"
  using assms
proof (induction "unat n - k" arbitrary: k)
  case 0
  then show ?case using dev_position(1)[of k n] by (subst dev_check.simps) auto
next
  case (Suc d)
  have k: "k < unat n" "d = unat n - Suc k" using Suc.hyps(2) by simp_all
  have "dev_check (decoded_read f) base n (of_nat k) (pat k) s =
    (if s (f (base + of_nat k)) \<noteq> NOT (pat k) then Some (of_nat k) else dev_check (decoded_read f) base n (of_nat (Suc k)) (pat (Suc k)) s)"
    using k(1) dev_position[OF Suc.prems] by (subst dev_check.simps) (simp only: if_True decoded_read_def)
  then show ?case unfolding range_first(1)[OF k(1)] using Suc.hyps(1)[OF k(2)] k(1) by auto
qed

lemma dev_offsets:
  "dev_invert rd wr base n i p s = (Some x, s') \<Longrightarrow> x < n" "dev_check rd base n i p s = Some x \<Longrightarrow> x < n"
proof -
  show "dev_invert rd wr base n i p s = (Some x, s') \<Longrightarrow> x < n"
    by (induction rd wr base n i p s rule: dev_invert.induct) (subst (asm) (2) dev_invert.simps, simp split: if_splits)
  show "dev_check rd base n i p s = Some x \<Longrightarrow> x < n"
    by (induction rd base n i p s rule: dev_check.induct) (subst (asm) (2) dev_check.simps, simp split: if_splits)
qed

text \<open>C34: The device test passes exactly when no two tested addresses select the same cell.\<close>

theorem device_test_decides:
  assumes "\<forall>i < unat n. base + of_nat i \<noteq> 0"
  shows "fst (memTestDevice (decoded_read f) (decoded_write f) base n s) = 0 \<longleftrightarrow> inj_on (\<lambda>i. f (base + of_nat i)) {..<unat n}"
proof
  define s1 where "s1 = dev_fill (decoded_write f) base n 0 1 s"
  have nz: "base + x \<noteq> 0" if "x < n" for x using assms[rule_format, of "unat x"] that by (simp add: word_less_nat_alt)
  { assume "fst (memTestDevice (decoded_read f) (decoded_write f) base n s) = 0"
    then have p: "fst (case dev_invert (decoded_read f) (decoded_write f) base n 0 1 s1 of (Some x, s) \<Rightarrow> (base + x, s)
      | (None, s) \<Rightarrow> (case dev_check (decoded_read f) base n 0 1 s of Some x \<Rightarrow> (base + x, s) | None \<Rightarrow> (0, s))) = 0"
      unfolding memTestDevice_def Let_def s1_def[symmetric] .
    obtain o1 s2 where i: "dev_invert (decoded_read f) (decoded_write f) base n 0 1 s1 = (o1, s2)" by fastforce
    have "o1 = None" using p nz dev_offsets(1)[of "decoded_read f" "decoded_write f" base n 0 1 s1] unfolding i by (cases o1) simp_all
    then have s2: "dev_invert (decoded_read f) (decoded_write f) base n 0 1 s1 = (None, s2)" using i by simp
    moreover have "dev_check (decoded_read f) base n 0 1 s2 = None"
      using p nz dev_offsets(2)[of "decoded_read f" base n 0 1 s2] unfolding s2
      by (cases "dev_check (decoded_read f) base n 0 1 s2") simp_all
    ultimately have s2: "dev_invert (decoded_read f) (decoded_write f) base n 0 1 s1 = (None, s2)"
      "dev_check (decoded_read f) base n 0 1 s2 = None" .
    have ck: "s2 (f (base + of_nat j)) = NOT (pat j)" if "j < unat n" for j using dev_check_passes[of 0 n f base s2] s2(2) that by simp
    show "inj_on (\<lambda>i. f (base + of_nat i)) {..<unat n}"
    proof (rule linorder_inj_onI)
      fix i j assume ij: "i < j" "i \<in> {..<unat n}" "j \<in> {..<unat n}"
      show "f (base + of_nat i) \<noteq> f (base + of_nat j)"
      proof
        assume a: "f (base + of_nat i) = f (base + of_nat j)"
        then obtain i' where i': "i' < j" "f (base + of_nat i') = f (base + of_nat j)" "pat j = NOT (pat i')"
          using dev_invert_chain[of 0 n f base s1 s2 j] s2(1) ij by auto
        define x where "x = pat i'"
        have "NOT (pat j) = NOT x" using ck[of j] ck[of i'] i'(1,2) ij(3) by (simp add: x_def)
        then have "NOT x = x" using i'(3) by (simp add: x_def)
        then have "bit (NOT x) 0 \<longleftrightarrow> bit x 0" by simp
        then show False by (simp only: bit_not_iff) simp
      qed
    qed auto }
  { assume inj: "inj_on (\<lambda>i. f (base + of_nat i)) {..<unat n}"
    have "\<forall>j. 0 \<le> j \<and> j < unat n \<longrightarrow> s1 (f (base + of_nat j)) = pat j"
      using dev_fill_covers[OF _ inj, of 0 s] by (simp add: s1_def)
    then obtain s2 where "dev_invert (decoded_read f) (decoded_write f) base n (of_nat 0) (pat 0) s1 = (None, s2)"
      "\<forall>j. 0 \<le> j \<and> j < unat n \<longrightarrow> s2 (f (base + of_nat j)) = NOT (pat j)"
      using dev_invert_passes[OF _ _ inj, of 0 s1] by auto
    moreover from this(2) have "dev_check (decoded_read f) base n (of_nat 0) (pat 0) s2 = None"
      using dev_check_passes[of 0 n f base s2] by simp
    ultimately show "fst (memTestDevice (decoded_read f) (decoded_write f) base n s) = 0"
      by (simp add: memTestDevice_def s1_def[symmetric]) }
qed

lemma device_test_decides_witness:
  "fst (memTestDevice (decoded_read (\<lambda>a. a AND 0xFFFFFFFD)) (decoded_write (\<lambda>a. a AND 0xFFFFFFFD)) 0x30000000 4 (\<lambda>_. 0)) \<noteq> 0"
proof
  let ?f = "\<lambda>a :: u32. a AND 0xFFFFFFFD"
  assume "fst (memTestDevice (decoded_read ?f) (decoded_write ?f) 0x30000000 4 (\<lambda>_. 0)) = 0"
  moreover have "\<forall>i < unat (4 :: u32). (0x30000000 :: u32) + of_nat i \<noteq> 0"
  proof (intro allI impI)
    fix i :: nat assume "i < unat (4 :: u32)"
    then have "i = 0 \<or> i = 1 \<or> i = 2 \<or> i = 3" by simp linarith
    then show "(0x30000000 :: u32) + of_nat i \<noteq> 0" by (elim disjE) simp_all
  qed
  ultimately have "inj_on (\<lambda>i. ?f (0x30000000 + of_nat i)) {..<unat (4 :: u32)}"
    using device_test_decides[where n = 4 and base = "0x30000000" and f = ?f and s = "\<lambda>_. 0"] by (simp only:)
  then have "(0 :: nat) = 2" by (rule inj_onD) simp_all
  then show False by simp
qed

end
