(* ===== verification/Boot_Monitor.thy ===== *)
theory Boot_Monitor
  imports Formatted_Print
begin

text \<open>
  The boot monitor of boot/monitor.c and the simulator's boot loader: the commands of the menu over the console, the number
  parsing and the formatted output of the library. The memory map is one byte memory: the external memories and the
  EEPROM are addresses of it. \<open>cpu\<close> is \<open>CPU_SPEED\<close>, \<open>buf\<close> the address of the line buffer on the stack, \<open>date\<close> the text of
  \<open>__DATE__\<close>. A call of the loaded program is a result of its own.
\<close>

unbundle bit_operations_syntax

abbreviation (input) RAM_BASE :: u32 where "RAM_BASE \<equiv> 0x40000000"
abbreviation (input) EXT_SRAM :: u32 where "EXT_SRAM \<equiv> 0x30000000"
abbreviation (input) EXT_EEPROM :: u32 where "EXT_EEPROM \<equiv> 0x33000000"
abbreviation (input) EXT_EEPROM_UNCACHED :: u32 where "EXT_EEPROM_UNCACHED \<equiv> 0x3B000000"
abbreviation (input) EXT_EEPROM_WREN :: u32 where "EXT_EEPROM_WREN \<equiv> 0x3B800000"

record monitor =
  out :: printer
  m_ptr :: u32
  m_fptr :: u32
  m_k :: u32
  timer_reads :: "nat \<Rightarrow> u32"
  reads :: nat

datatype outcome = Continue monitor | Call u32 monitor

subsection \<open>The console\<close>

definition say :: "string \<Rightarrow> monitor \<Rightarrow> monitor option" where
  "say s b = map_option (\<lambda>p. b\<lparr>out := p\<rparr>) (printchars (map of_char s) (out b))"

definition say_hex :: "u32 \<Rightarrow> monitor \<Rightarrow> monitor option" where
  "say_hex n b = map_option (\<lambda>p. b\<lparr>out := p\<rparr>) (print_number False 16 0x30 8 n (out b))"

definition say_dec :: "u32 \<Rightarrow> monitor \<Rightarrow> monitor option" where
  "say_dec n b = map_option (\<lambda>p. b\<lparr>out := p\<rparr>) (print_number True 10 0x20 (- 1) n (out b))"

definition line_feed :: "monitor \<Rightarrow> monitor option" where
  "line_feed b = map_option (\<lambda>p. b\<lparr>out := p\<rparr>) (printchars [10] (out b))"

definition mon_getchar :: "monitor \<Rightarrow> (monitor \<times> u32) option" where
  "mon_getchar b = do { (con, c) \<leftarrow> uart_getchar (pcon (out b)); Some (b\<lparr>out := (out b)\<lparr>pcon := con\<rparr>\<rparr>, c) }"

text \<open>\<open>printf(prompt); getline(buf); strtol(buf, 0, 16)\<close>\<close>

definition ask_hex :: "u32 \<Rightarrow> string \<Rightarrow> monitor \<Rightarrow> (u32 \<times> monitor) option" where
  "ask_hex buf prompt b = do {
     b \<leftarrow> line_feed b;
     b \<leftarrow> say prompt b;
     (m, _, con) \<leftarrow> getline (pmem (out b)) buf (pcon (out b));
     Some (fst (strtol m buf 16), b\<lparr>out := (out b)\<lparr>pmem := m, pcon := con\<rparr>\<rparr>) }"

subsection \<open>Upload\<close>

text \<open>\<open>for (j = 0; j < CPU_SPEED / 100; j++)\<close>: the next character, unless none comes in time.\<close>

fun poll_char :: "nat \<Rightarrow> console \<Rightarrow> (console \<times> u32 option) option" where
  "poll_char 0 c = Some (c, None)"
| "poll_char (Suc j) c =
     (let (c, hit) = kbhit c
      in if hit \<noteq> 0 then do { (c, ch) \<leftarrow> uart_getchar c; Some (c, Some ch) } else poll_char j c)"

partial_function (option) upload_loop :: "u32 \<Rightarrow> u32 \<Rightarrow> u32 \<Rightarrow> u32 \<Rightarrow> byte_mem \<Rightarrow> console \<Rightarrow> (byte_mem \<times> u32 \<times> console) option" where
  [code]: "upload_loop cpu ptr k ch m c =
     do { let m = m(ptr + k := ucast ch);
          (c, next) \<leftarrow> poll_char (unat (cpu div 100)) c;
          case next of
            None \<Rightarrow> Some (m, k + 1, c)
          | Some ch \<Rightarrow> do { c \<leftarrow> (if k AND 0x3ff = 0 then putchar 0x23 c else Some c); upload_loop cpu ptr (k + 1) ch m c } }"

definition upload :: "u32 \<Rightarrow> monitor \<Rightarrow> monitor option" where
  "upload cpu b = do {
     b \<leftarrow> line_feed b;
     b \<leftarrow> say ''waiting for binary at 0x'' b;
     b \<leftarrow> say_hex (m_ptr b) b;
     b \<leftarrow> say ''...'' b;
     b \<leftarrow> line_feed b;
     (b, ch) \<leftarrow> mon_getchar b;
     (m, k, con) \<leftarrow> upload_loop cpu (m_ptr b) 0 ch (pmem (out b)) (pcon (out b));
     let b = b\<lparr>out := (out b)\<lparr>pmem := m, pcon := con\<rparr>, m_k := k\<rparr>;
     b \<leftarrow> say ''--> '' b;
     b \<leftarrow> say_dec k b;
     say '' bytes'' b }"

subsection \<open>Programming the EEPROM\<close>

text \<open>One word: the write enable, the word, and the wait of 5 ms.\<close>

definition program_word :: "u32 \<Rightarrow> u32 \<Rightarrow> monitor \<Rightarrow> monitor option" where
  "program_word cpu i b =
     (let p = out b;
          m = (pmem p)(EXT_EEPROM_WREN := 0);
          m = stored m (EXT_EEPROM_UNCACHED + 4 * i) (map (\<lambda>j. m (m_ptr b + 4 * i + of_nat j)) [0..<4])
      in do {
        n \<leftarrow> delay_ms cpu 5 (\<lambda>j. timer_reads b (reads b + j));
        let b = b\<lparr>out := p\<lparr>pmem := m\<rparr>, reads := reads b + n\<rparr>;
        if i AND 0xff = 0 then map_option (\<lambda>con. b\<lparr>out := (out b)\<lparr>pcon := con\<rparr>\<rparr>) (putchar 0x23 (pcon (out b))) else Some b })"

fun program_words :: "u32 \<Rightarrow> nat list \<Rightarrow> monitor \<Rightarrow> monitor option" where
  "program_words cpu [] b = Some b"
| "program_words cpu (i # is') b = do { b \<leftarrow> program_word cpu (of_nat i) b; program_words cpu is' b }"

definition program_eeprom :: "u32 \<Rightarrow> monitor \<Rightarrow> monitor option" where
  "program_eeprom cpu b =
     (if m_k b = 0 then do { b \<leftarrow> line_feed b; say ''no data'' b }
      else do {
        b \<leftarrow> line_feed b;
        b \<leftarrow> say ''write to EEPROM?'' b;
        b \<leftarrow> line_feed b;
        (b, ch) \<leftarrow> mon_getchar b;
        if ch = 0x79 \<or> ch = 0x59 then do {
          b \<leftarrow> program_words cpu [0..<nat (sint (signed_drop_bit 2 (m_k b) + 1))] b;
          b \<leftarrow> say ''--> '' b;
          b \<leftarrow> say_dec (m_k b) b;
          say '' bytes'' b }
        else Some b })"

subsection \<open>Memory commands\<close>

definition dump_command :: "u32 \<Rightarrow> monitor \<Rightarrow> monitor option" where
  "dump_command buf b = do {
     (addr, b) \<leftarrow> ask_hex buf ''address (hex):'' b;
     (i, b) \<leftarrow> ask_hex buf ''length (hex):'' b;
     con \<leftarrow> hexdump (pmem (out b)) (pcon (out b)) addr i;
     Some (b\<lparr>out := (out b)\<lparr>pcon := con\<rparr>\<rparr>) }"

text \<open>The byte is read as a signed character.\<close>

definition fill_command :: "u32 \<Rightarrow> monitor \<Rightarrow> monitor option" where
  "fill_command buf b = do {
     (addr, b) \<leftarrow> ask_hex buf ''address (hex):'' b;
     (i, b) \<leftarrow> ask_hex buf ''length (hex):'' b;
     (v, b) \<leftarrow> ask_hex buf ''byte (hex):'' b;
     Some (b\<lparr>out := (out b)\<lparr>pmem := fst (memset (pmem (out b)) addr (scast (ucast v :: u8)) i)\<rparr>\<rparr>) }"

text \<open>\<open>ptr2\<close> is a pointer to characters: one byte is read and one is written.\<close>

definition read_command :: "u32 \<Rightarrow> monitor \<Rightarrow> monitor option" where
  "read_command buf b = do {
     (addr, b) \<leftarrow> ask_hex buf ''address (hex):'' b;
     b \<leftarrow> say_hex (scast (pmem (out b) addr)) b;
     line_feed b }"

definition write_command :: "u32 \<Rightarrow> monitor \<Rightarrow> monitor option" where
  "write_command buf b = do {
     (addr, b) \<leftarrow> ask_hex buf ''address (hex):'' b;
     (v, b) \<leftarrow> ask_hex buf ''word (hex):'' b;
     Some (b\<lparr>out := (out b)\<lparr>pmem := (pmem (out b))(addr := ucast v)\<rparr>\<rparr>) }"

subsection \<open>The menu\<close>

fun say_lines :: "string list \<Rightarrow> monitor \<Rightarrow> monitor option" where
  "say_lines [] b = Some b"
| "say_lines (s # ss) b = do { b \<leftarrow> line_feed b; b \<leftarrow> say s b; say_lines ss b }"

definition menu :: "monitor \<Rightarrow> monitor option" where
  "menu b = do {
     b \<leftarrow> say_lines [''[s, e] select SPM / ext SRAM'', ''[u, U] upload binary'', ''[b, B] boot'', ''[P   ] program ext EEPROM'',
                     ''[d   ] hexdump'', ''[f   ] fill'', ''[r   ] read word'', ''[w   ] write word''] b;
     line_feed b }"

definition boot :: "monitor \<Rightarrow> outcome option" where
  "boot b = do { b \<leftarrow> line_feed b; b \<leftarrow> say ''boot'' b; b \<leftarrow> line_feed b; Some (Call (m_fptr b) b) }"

definition select_memory :: "u32 \<Rightarrow> string \<Rightarrow> monitor \<Rightarrow> monitor option" where
  "select_memory a s b = do { let b = b\<lparr>m_ptr := a, m_fptr := a\<rparr>; b \<leftarrow> line_feed b; say s b }"

definition command :: "u32 \<Rightarrow> u32 \<Rightarrow> u32 \<Rightarrow> monitor \<Rightarrow> outcome option" where
  "command cpu buf ch b =
     (if ch = 0x73 then map_option Continue (select_memory RAM_BASE ''SPM selected'' b)
      else if ch = 0x65 then map_option Continue (select_memory EXT_SRAM ''SRAM selected'' b)
      else if ch = 0x55 then do {
        (addr, b) \<leftarrow> ask_hex buf ''address (hex):'' b;
        map_option Continue (upload cpu (b\<lparr>m_ptr := addr, m_fptr := addr\<rparr>)) }
      else if ch = 0x75 then map_option Continue (upload cpu b)
      else if ch = 0x42 then do { (addr, b) \<leftarrow> ask_hex buf ''address (hex):'' b; boot (b\<lparr>m_fptr := addr\<rparr>) }
      else if ch = 0x62 then boot b
      else if ch = 0x50 then map_option Continue (program_eeprom cpu b)
      else if ch = 0x64 then map_option Continue (dump_command buf b)
      else if ch = 0x66 then map_option Continue (fill_command buf b)
      else if ch = 0x72 then map_option Continue (read_command buf b)
      else if ch = 0x77 then map_option Continue (write_command buf b)
      else Some (Continue b))"

definition boot_round :: "u32 \<Rightarrow> u32 \<Rightarrow> monitor \<Rightarrow> outcome option" where
  "boot_round cpu buf b = do { b \<leftarrow> menu b; (b, ch) \<leftarrow> mon_getchar b; (b, _) \<leftarrow> mon_getchar b; command cpu buf ch b }"

text \<open>\<open>n\<close> rounds of the loop, which ends with the call of a program.\<close>

fun boot_rounds :: "nat \<Rightarrow> u32 \<Rightarrow> u32 \<Rightarrow> monitor \<Rightarrow> outcome option" where
  "boot_rounds 0 cpu buf b = Some (Continue b)"
| "boot_rounds (Suc n) cpu buf b =
     do { r \<leftarrow> boot_round cpu buf b;
          case r of Continue b \<Rightarrow> boot_rounds n cpu buf b | Call a b \<Rightarrow> Some (Call a b) }"

definition boot_loop :: "nat \<Rightarrow> u32 \<Rightarrow> u32 \<Rightarrow> string \<Rightarrow> monitor \<Rightarrow> outcome option" where
  "boot_loop n cpu buf date b = do {
     let b = b\<lparr>m_ptr := RAM_BASE, m_fptr := RAM_BASE, m_k := 0\<rparr>;
     b \<leftarrow> say ''HF-RISC SoC bootloader - '' b;
     b \<leftarrow> say date b;
     b \<leftarrow> line_feed b;
     boot_rounds n cpu buf b }"

subsection \<open>Starting\<close>

record board =
  uart0div :: u32
  uart0 :: u32
  paddr :: u32
  paaltcfg0 :: u32

definition setup_uart :: "u32 \<Rightarrow> board \<Rightarrow> board" where
  "setup_uart cpu d =
     (let v = (ucast (ucast (cpu div 57600) :: u16) :: u32)
      in d\<lparr>uart0div := v, uart0 := 0, paddr := (paddr d OR 4) AND NOT 8, paaltcfg0 := paaltcfg0 d OR 0x150\<rparr>)"

text \<open>The loaded program is called at the start of the memory; \<open>load\<close> reads a word in the byte order of the core.\<close>

definition boot_eeprom :: "(byte_mem \<Rightarrow> u32 \<Rightarrow> u32) \<Rightarrow> (u32 \<Rightarrow> u32) \<Rightarrow> byte_mem \<Rightarrow> byte_mem \<times> u32 option" where
  "boot_eeprom load ntohl m =
     (if load m (EXT_EEPROM + 0xe0) = ntohl 0xb16b00b5 then (fst (memcpy m RAM_BASE EXT_EEPROM 7936), Some RAM_BASE) else (m, None))"

text \<open>bootloader_sim.c: \<open>printf("boot\n")\<close>, the copy and the call.\<close>

definition bootloader_sim :: "printer \<Rightarrow> (printer \<times> u32) option" where
  "bootloader_sim p = do {
     p \<leftarrow> printchars (map of_char ''boot'' @ [10]) p;
     Some (p\<lparr>pmem := fst (memcpy (pmem p) EXT_SRAM RAM_BASE 4096)\<rparr>, EXT_SRAM) }"

subsection \<open>What an upload stores\<close>

text \<open>
  What the status register reads over a transfer, from read \<open>p\<close> on, with characters \<open>k\<close>, \<open>k + 1\<close>, ... being stored:
  before each further character \<open>g\<close> reads without data, fewer than the limit \<open>n\<close>; the read that finds it and the one
  that takes it; where a mark is printed, \<open>w\<close> reads with the transmitter still busy and one with it idle; and at the end
  \<open>n\<close> reads without data. Only the bit that is waited for is given: the transmitter may be busy while the program waits
  for data, as it is for the whole transmission of a mark, and data may have come while it waits for the transmitter.
\<close>

fun line_reads :: "(nat \<Rightarrow> u32) \<Rightarrow> nat \<Rightarrow> nat \<Rightarrow> u32 \<Rightarrow> (nat \<times> nat) list \<Rightarrow> bool" where
  "line_reads st n p k [] = (\<forall>j < n. st (p + j) AND UART0_DATAAVAIL = 0)"
| "line_reads st n p k ((g, w) # gs) =
     (g < n \<and> (\<forall>j < g. st (p + j) AND UART0_DATAAVAIL = 0) \<and>
      st (p + g) AND UART0_DATAAVAIL \<noteq> 0 \<and> st (p + g + 1) AND UART0_DATAAVAIL \<noteq> 0 \<and>
      (if k AND 0x3ff = 0
       then (\<forall>j < w. st (p + g + 2 + j) AND UART0_WRITEBUSY \<noteq> 0) \<and> st (p + g + 2 + w) AND UART0_WRITEBUSY = 0 \<and>
         line_reads st n (p + g + 3 + w) (k + 1) gs
       else line_reads st n (p + g + 2) (k + 1) gs))"

lemma poll_quiet:
  "\<forall>j < n. uartcause c (polls c + j) AND UART0_DATAAVAIL = 0 \<Longrightarrow> poll_char n c = Some (c\<lparr>polls := polls c + n\<rparr>, None)"
proof (induction n arbitrary: c)
  case (Suc n)
  define d where "d = c\<lparr>polls := polls c + 1\<rparr>"
  have d: "uartcause d = uartcause c" "polls d = polls c + 1" by (simp_all add: d_def)
  have "\<forall>j < n. uartcause d (polls d + j) AND UART0_DATAAVAIL = 0"
    using Suc.prems by (metis Suc_less_eq add_Suc_shift Suc_eq_plus1 d add.commute add_Suc_right)
  moreover have "uartcause c (polls c) AND UART0_DATAAVAIL = 0" using Suc.prems[rule_format, of 0] by simp
  ultimately show ?case using Suc.IH[of d] d by (simp add: kbhit_def d_def)
qed simp

lemma poll_ready:
  assumes "g < n" "\<forall>j < g. uartcause c (polls c + j) AND UART0_DATAAVAIL = 0"
    "uartcause c (polls c + g) AND UART0_DATAAVAIL \<noteq> 0" "uartcause c (polls c + g + 1) AND UART0_DATAAVAIL \<noteq> 0"
  shows "poll_char n c = Some (c\<lparr>polls := polls c + g + 2, taken := taken c + 1\<rparr>, Some (uart_in c (taken c)))"
  using assms
proof (induction n arbitrary: c g)
  case (Suc n)
  show ?case
  proof (cases g)
    case 0
    then show ?thesis using Suc.prems(3,4)
      by (subst poll_char.simps) (simp add: kbhit_def uart_getchar_def, subst wait_set.simps, simp)
  next
    case (Suc g')
    define d where "d = c\<lparr>polls := polls c + 1\<rparr>"
    have d: "uartcause d = uartcause c" "polls d = polls c + 1" "taken d = taken c" "uart_in d = uart_in c" by (simp_all add: d_def)
    have z: "uartcause c (polls c) AND UART0_DATAAVAIL = 0" using Suc.prems(2)[rule_format, of 0] Suc by simp
    have "\<forall>j < g'. uartcause d (polls d + j) AND UART0_DATAAVAIL = 0"
    proof (intro allI impI)
      fix j assume "j < g'"
      then show "uartcause d (polls d + j) AND UART0_DATAAVAIL = 0" using Suc.prems(2)[rule_format, of "Suc j"] Suc by (simp add: d)
    qed
    then have "poll_char n d = Some (d\<lparr>polls := polls d + g' + 2, taken := taken d + 1\<rparr>, Some (uart_in d (taken d)))"
      using Suc.prems(1,3,4) Suc by (intro Suc.IH) (simp_all add: d)
    then show ?thesis using z Suc by (simp add: kbhit_def d_def)
  qed
qed simp

lemma wait_busy:
  "\<forall>j < w. st (p + j) AND b \<noteq> 0 \<Longrightarrow> st (p + w) AND b = 0 \<Longrightarrow> wait_clear st b p = Some (p + w + 1)"
proof (induction w arbitrary: p)
  case 0
  then show ?case by (subst wait_clear.simps) simp
next
  case (Suc w)
  have "\<forall>j < w. st (p + 1 + j) AND b \<noteq> 0"
  proof (intro allI impI)
    fix j assume "j < w"
    then show "st (p + 1 + j) AND b \<noteq> 0" using Suc.prems(1)[rule_format, of "Suc j"] by simp
  qed
  moreover have "st p AND b \<noteq> 0" using Suc.prems(1)[rule_format, of 0] by simp
  ultimately show ?case using Suc.IH[of "p + 1"] Suc.prems(2) by (subst wait_clear.simps) simp
qed

lemma upload_loop_line:
  assumes "line_reads (uartcause c) (unat (cpu div 100)) (polls c) k gaps"
  shows "\<exists>c'. upload_loop cpu ptr k ch m c =
    Some (stored m (ptr + k) (map ucast (ch # map (uart_in c) [taken c..<taken c + length gaps])), k + 1 + of_nat (length gaps), c') \<and>
    taken c' = taken c + length gaps"
  using assms
proof (induction gaps arbitrary: k ch m c)
  case Nil
  then have "poll_char (unat (cpu div 100)) c = Some (c\<lparr>polls := polls c + unat (cpu div 100)\<rparr>, None)"
    by (intro poll_quiet) simp
  then show ?case by (subst upload_loop.simps) simp
next
  case (Cons gw gs)
  obtain g w where gw: "gw = (g, w)" by (cases gw)
  define p where "p = (if k AND 0x3ff = 0 then polls c + g + 3 + w else polls c + g + 2)"
  define d where "d = c\<lparr>polls := polls c + g + 2, taken := taken c + 1\<rparr>"
  have po: "poll_char (unat (cpu div 100)) c = Some (d, Some (uart_in c (taken c)))"
    unfolding d_def using Cons.prems by (intro poll_ready) (simp_all add: gw)
  have rest: "line_reads (uartcause c) (unat (cpu div 100)) p (k + 1) gs"
    using Cons.prems by (cases "k AND 0x3ff = 0") (simp_all add: gw p_def)
  have "\<exists>e. (if k AND 0x3ff = 0 then putchar 0x23 d else Some d) = Some e \<and> uartcause e = uartcause c \<and> polls e = p \<and>
    taken e = taken c + 1 \<and> uart_in e = uart_in c"
  proof (cases "k AND 0x3ff = 0")
    case True
    then have "wait_clear (uartcause d) UART0_WRITEBUSY (polls d) = Some (polls d + w + 1)"
      using Cons.prems by (intro wait_busy) (simp_all add: gw d_def)
    moreover have "polls d + w + 1 = p" using True by (simp add: d_def p_def)
    ultimately show ?thesis using True by (simp only: putchar_def Option.bind_lunit if_True) (simp add: d_def)
  next
    case False
    then show ?thesis by (simp add: d_def p_def)
  qed
  then obtain e where e: "(if k AND 0x3ff = 0 then putchar 0x23 d else Some d) = Some e" "uartcause e = uartcause c"
    "polls e = p" "taken e = taken c + 1" "uart_in e = uart_in c" by blast
  have "line_reads (uartcause e) (unat (cpu div 100)) (polls e) (k + 1) gs" unfolding e using rest .
  then obtain c' where c': "upload_loop cpu ptr (k + 1) (uart_in c (taken c)) (m(ptr + k := ucast ch)) e =
    Some (stored (m(ptr + k := ucast ch)) (ptr + (k + 1)) (map ucast (uart_in c (taken c) # map (uart_in e) [taken e..<taken e + length gs])),
      k + 1 + 1 + of_nat (length gs), c')" "taken c' = taken e + length gs"
    using Cons.IH by blast
  have u: "[taken c..<taken c + length (gw # gs)] = taken c # [taken e..<taken e + length gs]"
    using e(4) by (simp add: upt_conv_Cons del: upt_Suc)
  have "upload_loop cpu ptr k ch m c = upload_loop cpu ptr (k + 1) (uart_in c (taken c)) (m(ptr + k := ucast ch)) e"
    by (subst upload_loop.simps) (simp only: po e(1) Let_def Option.bind_lunit prod.case option.case)
  then show ?case unfolding c'(1) u using c'(2) by (simp add: e(4,5) add.assoc)
qed

text \<open>C35: An upload on a line that reads as \<open>line_reads\<close> says: each further character comes within \<open>CPU_SPEED / 100\<close> reads of
  the status after the one before it, the transmitter becomes idle after finitely many reads wherever a mark is printed, and
  after the last character the limit passes without data. Then the upload ends; the character read before it and those of the
  line are stored at consecutive addresses and counted, and exactly the characters of the line are taken from the UART.\<close>

theorem upload_stores:
  assumes "line_reads (uartcause c) (unat (cpu div 100)) (polls c) 0 gaps"
  shows "\<exists>c'. upload_loop cpu ptr 0 ch m c =
    Some (stored m ptr (map ucast (ch # map (uart_in c) [taken c..<taken c + length gaps])), of_nat (length gaps + 1), c') \<and>
    taken c' = taken c + length gaps"
  using upload_loop_line[OF assms, of ptr ch m] by (simp add: add.commute)

lemma upload_stores_witness:
  "\<exists>m k c'. upload_loop 200 0x40000000 0 0x41 (\<lambda>_. 0)
     \<lparr>uartcause = (\<lambda>j. if j < 6 then [0, 1, 1, 2, 2, 0] ! j else 2), polls = 0, uart_in = (\<lambda>_. 0x42), taken = 0, sent = []\<rparr> = Some (m, k, c') \<and>
     m 0x40000000 = 0x41 \<and> m 0x40000001 = 0x42 \<and> k = 2 \<and> taken c' = 1"
proof -
  let ?st = "\<lambda>j. if j < 6 then [0, 1, 1, 2, 2, 0 :: u32] ! j else 2"
  let ?c = "\<lparr>uartcause = ?st, polls = 0, uart_in = (\<lambda>_. 0x42 :: u32), taken = 0, sent = []\<rparr>"
  have "line_reads ?st 2 0 0 [(1, 2)]"
    by (simp add: numeral_2_eq_2 All_less_Suc nth_Cons)
  then have "line_reads (uartcause ?c) (unat (200 div 100 :: u32)) (polls ?c) 0 [(1, 2)]" by simp
  from upload_stores[OF this, of "0x40000000" "0x41" "\<lambda>_. 0"] show ?thesis by auto
qed

end
