(* ===== verification/Spec2Isabelle.thy ===== *)
theory Spec2Isabelle
  imports Soft_Arith Soft_Float_Round Soft_Double_Props Text_Props Rt_Props Irq_Props Riscv_Refine Riscv_Cache_Sim Mips_Props Xtea_Props Crc Base64_Props Sudoku Sort_Arrays Spi_Props Labyrinth Fixed_Point_Props Math_Float_Props Mem_Test_Props Boot_Monitor
begin

text \<open>
  \<^bold>\<open>HF-RISC: the software and the simulators.\<close>

  HF-RISC is a small 32-bit system on chip. Its repository holds the processor cores in VHDL (in a MIPS and in a
  RISC-V version), simulators of both in C, and the software that runs on it: a C library that also supplies the
  integer and floating point arithmetic the core has no instructions for, an allocator, a linked list, interrupt
  dispatching, a real-time scheduler and applications. This development models the C code.

  \<^bold>\<open>How the parts interact.\<close> The simulators execute the machine code of everything else: they are the semantics of
  the platform. The compiler turns arithmetic into calls of the routines of \<open>libc.c\<close>; \<open>printf\<close> and the number
  routines call the memory and string routines. The scheduler keeps its tasks in the linked list, which takes its
  nodes from the allocator; its clock is the timer interrupt the dispatcher serves.

  \<^bold>\<open>Conventions.\<close> A C integer of w bits is a \<open>w word\<close>, signed or not; where the code compares, shifts or divides signed
  values the definitions read the word as signed. Memory is a function from addresses: bytes (\<open>byte_mem\<close>) for the
  string routines and simulators, words (\<open>word_mem\<close>) for the allocator and the list. A device register the code
  polls is the sequence of values its reads give. What C leaves undefined, an endless loop, an access outside an
  array or the end of the process is a value (\<open>None\<close>, or a constructor such as \<open>sim_halt\<close>) and never a convenient
  result. Loops over a counter are structural recursions; loops that follow memory are \<open>partial_function (option)\<close>,
  and the properties about them state that they end. No fuel is used: \<open>riscv_run n\<close>, \<open>cached_run n\<close> and \<open>mips_run n\<close> are n
  rounds of an endless main loop, and what is proved of them holds for every n.

  \<^bold>\<open>Prelude\<close> has the word types, the lemmas on shifted words, strings of bits and truncated division, and two
  interfaces: \<open>unsigned_division\<close>, a pair of routines that divide, from which their signed clients are proved
  correct, and \<open>byte_order\<close>, the words in a byte memory, interpreted for both byte orders.

  \<^bold>\<open>The arithmetic the compiler calls\<close> (software/lib/libc.c).
  \<^item> \<^bold>\<open>Soft_Arith\<close>: \<open>__mulsi3\<close> to \<open>__lshrdi3\<close>, one definition per routine, one recursion per loop. Multiplication
    and division equal those on words and truncate; the locale \<open>subtract_loop\<close> proves the shift-and-subtract loop once
    for both widths. The remainder of a negative divisor and the shifts by 32 and more are shown as they are.
  \<^item> \<^bold>\<open>Soft_Float\<close>: \<open>__addsf3\<close> to \<open>__floatunsisf\<close> on bit patterns. \<^bold>\<open>Soft_Float_Props\<close>: comparison orders values,
    conversions of integers end and are exact where the mantissa has room. \<^bold>\<open>Soft_Float_Round\<close>: the
    quotient is rounded to nearest, that is no float is closer, the product has a bounded relative error.
  \<^item> \<^bold>\<open>Soft_Double\<close>, \<^bold>\<open>Soft_Double_Props\<close>: the double precision routines and conversions. \<^bold>\<open>Quotient_Bits\<close>
    holds the loop both divisions share, as the locale \<open>quotient_bits\<close>; the loops that raise a small mantissa are
    instances of the locale \<open>raising\<close>. The quotient is rounded to nearest, floats survive the way through double.

  \<^bold>\<open>The C library\<close> (software/lib/libc.c, include/libc.h).
  \<^item> \<^bold>\<open>Mem_Routines\<close>, \<^bold>\<open>Mem_Props\<close>: \<open>memcpy\<close> to \<open>strtok\<close>. A block routine is one update of memory in closed
    form; strings are lists of bytes in memory (\<open>cstr\<close>), and the routines functions on these lists.
  \<^item> \<^bold>\<open>Stdlib_Text\<close>, \<^bold>\<open>Formatted_Print\<close>, \<^bold>\<open>Text_Props\<close>: delays over timer readings, the polled console, number
    parsing and printing, the random generator, \<open>printf\<close> and \<open>hexdump\<close>. The reference is \<open>digits\<close>, the digits of a number.
  \<^item> \<^bold>\<open>Math_Float\<close>, \<^bold>\<open>Math_Float_Props\<close>: software/lib/math.c over the soft float routines. \<open>floor\<close> and \<open>ceil\<close> are exact
    on finite normal numbers, \<open>ldexp\<close> undoes \<open>frexp\<close>. The series and polynomials are modelled without a claim of accuracy.

  \<^bold>\<open>The boot monitor\<close> (software/boot/monitor.c, bootloader_sim.c). \<^bold>\<open>Boot_Monitor\<close>: every command of the menu over the
    console and the library, the start from EEPROM and the loader of the simulator. An upload stores the line as it
    arrives; \<open>line_reads\<close> is what the status register of the UART may read over it, with the transmitter busy or not.

  \<^bold>\<open>Heap, list and scheduler\<close> (software/lib/malloc.c, list.c, tp1/app/rt.c).
  \<^item> \<^bold>\<open>Heap_Alloc\<close>, \<^bold>\<open>Heap_Props\<close>: blocks with headers in a word memory; the invariant is an ascending chain of
    blocks from the start of the heap to its end. \<^bold>\<open>Heap_Interface\<close> states what a client may rely on as the
    locale \<open>block_allocator\<close> and proves it of the code.
  \<^item> \<^bold>\<open>Linked_List\<close>, \<^bold>\<open>Linked_List_Props\<close>: the list operations over that heap refine operations on HOL lists
    (\<open>list_ok\<close> is the abstraction), including running out of memory and invalid positions.
  \<^item> \<^bold>\<open>Rt_Sched\<close>, \<^bold>\<open>Rt_Props\<close>: adding and deleting tasks, starting, and the context switch of the rate monotonic
    scheduler with its budgets. The invariant \<open>rt_ok\<close> ties the task list, the positions and the states together; over
    it, a switch picks a ready task of the shortest period, and the top task gets exactly its share.

  \<^bold>\<open>Interrupts\<close> (software/lib/interrupt.c). \<^bold>\<open>Irq_Dispatch\<close>, \<^bold>\<open>Irq_Props\<close>: the cause registers, the dispatch loops
    and vectors with the handlers as a parameter, on a record of the peripheral registers.

  \<^bold>\<open>Drivers\<close> (software/lib/spi.c, 25lcxx.c, mcp23s17.c). \<^bold>\<open>Spi_Driver\<close>: the output port as the sequence of its writes
    and the device as a function of them. \<^bold>\<open>Spi_Props\<close> reads this sequence as a device does (\<open>wire\<close>); the locale
    \<open>serial_bus\<close> is the contract of a bus master, from which the frames of the EEPROM and the port expander follow.

  \<^bold>\<open>The simulators\<close> (tools/sim).
  \<^item> \<^bold>\<open>Riscv_Sim\<close>: the state, memory map, one instruction and the main loop of hf_riscv_sim.c. \<^bold>\<open>Riscv_Isa\<close>
    states RV32IM, without FENCE, EBREAK and the CSR instructions, independently, as syntax and encoding;
    \<^bold>\<open>Riscv_Refine\<close> gives it a semantics over integers and compares it with the simulator in full: \<open>sim_step\<close> is the effect of
    each instruction in the simulator, and it is the specified one exactly where \<open>isa_exact\<close> holds.
    \<^bold>\<open>Riscv_Props\<close> has the invariant of all reachable states.
  \<^item> \<^bold>\<open>Cache_Sim\<close>: cache.c; its statistics are those of an ideal direct-mapped cache. \<^bold>\<open>Riscv_Cache_Sim\<close>:
    hf_riscv_sim_cache.c; an instruction other than a system call that accesses RAM or nothing ends as without caches
    but for the time, and no run leaves the arrays of the cache.
  \<^item> \<^bold>\<open>Mips_Sim\<close>, \<^bold>\<open>Mips_Props\<close>: hf_risc_sim.c with its delay slots, multiply unit and statistics.

  \<^bold>\<open>Applications\<close> (software/app).
  \<^item> \<^bold>\<open>Xtea\<close>, \<^bold>\<open>Xtea_Props\<close>: xtea.c and xtea2.c, the cipher and its CBC mode in both byte orders.
  \<^item> \<^bold>\<open>Crc\<close>: test_crc.c, table-driven against bit-serial, and detection of errors.
  \<^item> \<^bold>\<open>Base64\<close>, \<^bold>\<open>Base64_Props\<close>: base64.c, the round trip and the size of the buffer.
  \<^item> \<^bold>\<open>Sudoku\<close>: sudoku.c, the solver finds a solution exactly when there is one. \<^bold>\<open>Sort_Arrays\<close>: sort.c, both sorts.
    \<^bold>\<open>Labyrinth\<close>: labyrinth.c, the printed path is a shortest one.
  \<^item> \<^bold>\<open>Fixed_Point\<close>, \<^bold>\<open>Fixed_Point_Props\<close>: include/fixed.h; products and text are exact, quotients and square roots
    within stated errors. The polynomial approximations are modelled; no accuracy is claimed of them.
  \<^item> \<^bold>\<open>Mem_Test\<close>, \<^bold>\<open>Mem_Test_Props\<close>: mem_test.c on a memory given by its read and write functions; the March C test decides
    stuck bits, the device test whether the decoder gives every address a cell of its own.

  \<^bold>\<open>Not modelled.\<close> The cores and devices in VHDL, the startup files in assembly, the toolchains and
  the benchmarks taken from elsewhere (CoreMark, Malardalen, Powerstone, AES) are not C code of this project;
  of the devices the models use the registers the C code reads and writes. The demonstrations under software/app that
  print, measure or test the hardware (ann.c, the fsm, tasker, interrupt and floating point tests) are left out.
  The copies of the library under tp1/lib and software_c++/lib repeat the code modelled here. The functions \<open>main\<close> of
  the applications, the register dumps and reports the simulators print, and the tracing in the scheduler only print.
\<close>

end
